(* ===== verification/Prelude.thy ===== *)
theory Prelude
  imports Main "HOL-Library.Word" "HOL-Library.List_Lexorder"
begin

text \<open>
  Shared vocabulary of the development: the machine-integer and byte types, the error type and
  the result type every fallible function returns, Rust's slice reads and writes with their
  panics made explicit, the little-endian integer codecs, the byte-wise key order, and the
  search over sorted vectors the standard library provides.

  Conventions used by every theory of the development:
  \<^item> \<open>usize\<close> values (lengths, offsets, counts) are \<^typ>\<open>nat\<close>; where the source uses a checked
    addition on them the 64-bit bound is written out (\<open>checked_add\<close>);
  \<^item> page ids, commit ids, counters and every persisted integer are words of their width;
  \<^item> an out-of-range index or slice, a failed \<open>assert!\<close> and an \<open>expect\<close> on \<open>None\<close> are the error
    value \<open>Panic\<close>; a loop that never returns is the error value \<open>Hang\<close>.
\<close>

section \<open>Types\<close>

type_synonym u8 = "8 word"
type_synonym u16 = "16 word"
type_synonym u32 = "32 word"
type_synonym u64 = "64 word"
type_synonym bytes = "u8 list"
type_synonym key = bytes
type_synonym page_id = u64

named_theorems result_simps \<open>unfolding rules of the result type's combinators\<close>
named_theorems buffer_simps \<open>reads from a buffer after a write to it\<close>

section \<open>Errors and results\<close>

text \<open>
  The variants of \<open>CorruptionDetail\<close>, those of \<open>PagedbError\<close> the modelled code raises, with the
  payload the source gives them, and the two outcomes of a Rust computation that are not a
  \<open>Result\<close>: a panic and a loop that does not return.  An addition or subtraction the source
  leaves unchecked panics when it overflows, as in a build with overflow checks; a
  \<open>debug_assert\<close> has no effect.
\<close>

datatype evictable_class = Authoritative | Replaceable

datatype quota_kind = QPages | QDirtyPages | QScratchPages | QSegmentBytes

datatype corruption_detail =
    ForeignSegment bytes string bytes bytes bytes
  | FooterUnverifiable bytes bytes
  | SegmentMetadataMismatch string
  | SegmentGeometryInvalid string
  | CatalogRowInvalid string
  | SegmentMissing bytes string bytes
  | StagingMissing bytes
  | PageUnverifiable bytes "bytes option" page_id "evictable_class option"
  | ManifestUnverifiable bytes bytes
  | HeaderUnverifiable
  | StructuralHeaderInvalid string string
  | FooterFramingInvalid string
  | NodeBodyMalformed string
  | NodeKindMismatch "page_id option" string string
  | OverflowBodyMalformed string
  | JournalRecordMalformed string
  | SnapshotArtifactInvalid string
  | ReservedPageReferenced page_id page_id
  | OverflowChainCycle page_id page_id
  | PageChainCycle string page_id
  | LeafSiblingMismatch page_id page_id "page_id option"
  | PageKindAliased page_id string string

datatype error =
    ChecksumFailure
  | MissingPersistedKey u64 u8
  | Corruption corruption_detail
  | Quota bytes quota_kind u64 u64
  | NonceCounterExhausted
  | ArithmeticOverflow string
  | ReadOnly
  | KeyMismatch
  | FormatVersionUnsupported u16 u16
  | HeaderCapabilityUnsupported u32
  | PageSizeMismatch nat nat
  | RealmMismatch bytes bytes
  | SnapshotIncompatible string
  | CommitGone u64 u64
  | AlreadyLocked
  | NotFound
  | AlreadyLinked
  | NotLinked
  | NameTooLong
  | IllegalPageKind
  | PayloadTooLarge
  | EmptyExtent
  | ManifestTooLarge
  | Aborted
  | AppendNotMonotonic
  | BulkLoadNotMonotonic
  | DeferredFreeBacklog u64 u64
  | RekeyStateInvalid string
  | VfsContractViolated string string
  | PageCacheStateInvalid string string "nat option"
  | Unsupported
  | Io string
  | Panic string
  | Hang string

datatype 'a result = Ok 'a | Err error

fun rbind :: "'a result \<Rightarrow> ('a \<Rightarrow> 'b result) \<Rightarrow> 'b result" where
  "rbind (Ok x) f = f x"
| "rbind (Err e) f = Err e"

fun rmap :: "('a \<Rightarrow> 'b) \<Rightarrow> 'a result \<Rightarrow> 'b result" where
  "rmap f (Ok x) = Ok (f x)"
| "rmap f (Err e) = Err e"

definition ensure :: "bool \<Rightarrow> error \<Rightarrow> unit result" where
  "ensure b e = (if b then Ok () else Err e)"

definition of_option :: "error \<Rightarrow> 'a option \<Rightarrow> 'a result" where
  "of_option e x = (case x of None \<Rightarrow> Err e | Some y \<Rightarrow> Ok y)"

fun is_ok :: "'a result \<Rightarrow> bool" where
  "is_ok (Ok x) = True"
| "is_ok (Err e) = False"

text \<open>The outcomes a caller cannot handle: no error value reaches it.\<close>

fun fatal :: "error \<Rightarrow> bool" where
  "fatal (Panic s) = True"
| "fatal (Hang s) = True"
| "fatal e = False"

fun crashes :: "'a result \<Rightarrow> bool" where
  "crashes (Ok x) = False"
| "crashes (Err e) = fatal e"

lemma rbind_cong [fundef_cong]:
  "r = r' \<Longrightarrow> (\<And>x. r' = Ok x \<Longrightarrow> f x = g x) \<Longrightarrow> rbind r f = rbind r' g"
  by (cases r') auto

lemma rbind_eq_Ok [result_simps]:
  "rbind r f = Ok y \<longleftrightarrow> (\<exists>x. r = Ok x \<and> f x = Ok y)"
  by (cases r) auto

lemma rbind_eq_Err:
  "rbind r f = Err e \<longleftrightarrow> r = Err e \<or> (\<exists>x. r = Ok x \<and> f x = Err e)"
  by (cases r) auto

lemma rmap_rbind: "rmap f (rbind r g) = rbind r (\<lambda>x. rmap f (g x))"
  by (cases r) simp_all

lemma rmap_if: "rmap f (if b then x else y) = (if b then rmap f x else rmap f y)"
  by simp

lemma rbind_if: "rbind (if b then x else y) g = (if b then rbind x g else rbind y g)"
  by simp

lemma rmap_eq_Ok [result_simps]: "rmap f r = Ok y \<longleftrightarrow> (\<exists>x. r = Ok x \<and> f x = y)"
  by (cases r) auto

lemma ensure_eq_Ok [result_simps, simp]: "ensure b e = Ok u \<longleftrightarrow> b"
  by (simp add: ensure_def)

lemma of_option_eq_Ok [result_simps, simp]: "of_option e x = Ok y \<longleftrightarrow> x = Some y"
  by (auto simp: of_option_def split: option.splits)

lemma of_option_simps [simp]: "of_option e (Some x) = Ok x" "of_option e None = Err e"
  by (simp_all add: of_option_def)

lemma rbind_assoc: "rbind (rbind r f) g = rbind r (\<lambda>x. rbind (f x) g)"
  by (cases r) auto

lemma crashes_rbind:
  "crashes (rbind r f) \<longleftrightarrow> crashes r \<or> (\<exists>x. r = Ok x \<and> crashes (f x))"
  by (cases r) auto

lemma crashes_ensure [simp]: "crashes (ensure b e) \<longleftrightarrow> \<not> b \<and> fatal e"
  by (simp add: ensure_def)

lemma is_ok_iff: "is_ok r \<longleftrightarrow> (\<exists>x. r = Ok x)"
  by (cases r) auto

text \<open>Loops that stop at the first error: over a list, collecting the results, threading a state.\<close>

primrec for_each :: "('a \<Rightarrow> unit result) \<Rightarrow> 'a list \<Rightarrow> unit result" where
  "for_each f [] = Ok ()"
| "for_each f (x # xs) = rbind (f x) (\<lambda>_. for_each f xs)"

primrec traverse :: "('a \<Rightarrow> 'b result) \<Rightarrow> 'a list \<Rightarrow> 'b list result" where
  "traverse f [] = Ok []"
| "traverse f (x # xs) = rbind (f x) (\<lambda>y. rbind (traverse f xs) (\<lambda>ys. Ok (y # ys)))"

primrec fold_result :: "('a \<Rightarrow> 's \<Rightarrow> 's result) \<Rightarrow> 'a list \<Rightarrow> 's \<Rightarrow> 's result" where
  "fold_result f [] s = Ok s"
| "fold_result f (x # xs) s = rbind (f x s) (fold_result f xs)"

lemma for_each_eq_Ok: "for_each f xs = Ok u \<longleftrightarrow> (\<forall>x \<in> set xs. f x = Ok ())"
  by (induction xs) (auto simp: result_simps)

lemma for_each_not_crashes:
  "(\<And>x. x \<in> set xs \<Longrightarrow> \<not> crashes (f x)) \<Longrightarrow> \<not> crashes (for_each f xs)"
  by (induction xs) (auto simp: crashes_rbind)

lemma traverse_eq_Ok:
  "traverse f xs = Ok ys \<longleftrightarrow> length ys = length xs \<and> (\<forall>i < length xs. f (xs ! i) = Ok (ys ! i))"
proof (induction xs arbitrary: ys)
  case Nil
  then show ?case by auto
next
  case (Cons x xs)
  show ?case
    by (cases ys) (auto simp: result_simps Cons.IH nth_Cons split: nat.splits)
qed

lemma traverse_not_crashes:
  "(\<And>x. x \<in> set xs \<Longrightarrow> \<not> crashes (f x)) \<Longrightarrow> \<not> crashes (traverse f xs)"
  by (induction xs) (auto simp: crashes_rbind)

lemma traverse_is_ok: "(\<And>x. x \<in> set xs \<Longrightarrow> is_ok (f x)) \<Longrightarrow> is_ok (traverse f xs)"
proof (induction xs)
  case (Cons x xs)
  obtain y where "f x = Ok y" using Cons.prems [of x] by (auto simp: is_ok_iff)
  moreover obtain ys where "traverse f xs = Ok ys" using Cons by (auto simp: is_ok_iff)
  ultimately show ?case by simp
qed simp

lemma traverse_cong:
  "(\<And>x. x \<in> set xs \<Longrightarrow> f x = g x) \<Longrightarrow> traverse f xs = traverse g xs"
  by (induction xs) auto

section \<open>State transformers with errors\<close>

fun mbind :: "'a result \<times> 's \<Rightarrow> ('a \<Rightarrow> 's \<Rightarrow> 'b result \<times> 's) \<Rightarrow> 'b result \<times> 's" where
  "mbind (Ok x, s) f = f x s"
| "mbind (Err e, s) f = (Err e, s)"

lemma mbind_cong [fundef_cong]:
  "m = m' \<Longrightarrow> (\<And>x s. m' = (Ok x, s) \<Longrightarrow> f x s = g x s) \<Longrightarrow> mbind m f = mbind m' g"
  by (cases "(m', g)" rule: mbind.cases) auto

lemma mbind_eq_Ok [result_simps]:
  "mbind m f = (Ok y, s') \<longleftrightarrow> (\<exists>x s. m = (Ok x, s) \<and> f x s = (Ok y, s'))"
  by (cases "(m, f)" rule: mbind.cases) auto

section \<open>Checked arithmetic on usize and on words\<close>

definition checked_add :: "nat \<Rightarrow> nat \<Rightarrow> nat option" where
  "checked_add a b = (if a + b < 2 ^ 64 then Some (a + b) else None)"

definition checked_mul :: "nat \<Rightarrow> nat \<Rightarrow> nat option" where
  "checked_mul a b = (if a * b < 2 ^ 64 then Some (a * b) else None)"

definition saturating_add_u64 :: "u64 \<Rightarrow> u64 \<Rightarrow> u64" where
  "saturating_add_u64 a b = (if unat a + unat b < 2 ^ 64 then a + b else - 1)"

definition saturating_sub_u64 :: "u64 \<Rightarrow> u64 \<Rightarrow> u64" where
  "saturating_sub_u64 a b = (if b \<le> a then a - b else 0)"

definition checked_add_u64 :: "u64 \<Rightarrow> u64 \<Rightarrow> u64 option" where
  "checked_add_u64 a b = (if unat a + unat b < 2 ^ 64 then Some (a + b) else None)"

definition checked_mul_u64 :: "u64 \<Rightarrow> u64 \<Rightarrow> u64 option" where
  "checked_mul_u64 a b = (if unat a * unat b < 2 ^ 64 then Some (a * b) else None)"

definition u16_try_from :: "nat \<Rightarrow> u16 option" where
  "u16_try_from n = (if n < 2 ^ 16 then Some (of_nat n) else None)"

definition u32_try_from :: "nat \<Rightarrow> u32 option" where
  "u32_try_from n = (if n < 2 ^ 32 then Some (of_nat n) else None)"

lemma u16_try_from_Some [simp]:
  "u16_try_from n = Some w \<longleftrightarrow> n < 2 ^ 16 \<and> w = of_nat n"
  by (auto simp: u16_try_from_def)

lemma u32_try_from_Some [simp]:
  "u32_try_from n = Some w \<longleftrightarrow> n < 2 ^ 32 \<and> w = of_nat n"
  by (auto simp: u32_try_from_def)

lemma unat_of_nat_u16 [simp]: "n < 2 ^ 16 \<Longrightarrow> unat (of_nat n :: u16) = n"
  by (simp add: unat_of_nat)

lemma unat_of_nat_u32 [simp]: "n < 2 ^ 32 \<Longrightarrow> unat (of_nat n :: u32) = n"
  by (simp add: unat_of_nat)

lemma unat_of_nat_u64 [simp]: "n < 2 ^ 64 \<Longrightarrow> unat (of_nat n :: u64) = n"
  by (simp add: unat_of_nat)

lemma unat_lt2p: "unat (w :: 'a::len word) < 2 ^ LENGTH('a)"
  by (rule unsigned_less)

lemma unat_lt_u16: "unat (w :: u16) < 65536"
  using unat_lt2p [of w] by simp

lemma unat_add_u64_no_wrap: "unat (a :: u64) + unat b < 2 ^ 64 \<Longrightarrow> unat (a + b) = unat a + unat b"
  by (simp add: unat_word_ariths)

lemma unat_saturating_add_u64:
  "unat (saturating_add_u64 a b) = min (unat a + unat b) (2 ^ 64 - 1)"
proof (cases "unat a + unat b < 2 ^ 64")
  case True
  then show ?thesis by (simp add: saturating_add_u64_def unat_add_u64_no_wrap)
next
  case False
  then show ?thesis by (simp add: saturating_add_u64_def unsigned_minus_1_eq_mask mask_eq_exp_minus_1)
qed

lemma unat_saturating_sub_u64: "unat (saturating_sub_u64 a b) = unat a - unat b"
  by (auto simp: saturating_sub_u64_def unat_sub word_le_nat_alt)

section \<open>Slices: reads and writes that panic out of range\<close>

definition index :: "'a list \<Rightarrow> nat \<Rightarrow> 'a result" where
  "index xs i = (if i < length xs then Ok (xs ! i) else Err (Panic ''index out of bounds''))"

definition slice :: "'a list \<Rightarrow> nat \<Rightarrow> nat \<Rightarrow> 'a list result" where
  "slice xs a b =
     (if a \<le> b \<and> b \<le> length xs then Ok (take (b - a) (drop a xs))
      else Err (Panic ''slice out of range''))"

definition write_at :: "'a list \<Rightarrow> nat \<Rightarrow> 'a list \<Rightarrow> 'a list result" where
  "write_at xs off ys =
     (if off + length ys \<le> length xs
      then Ok (take off xs @ ys @ drop (off + length ys) xs)
      else Err (Panic ''slice out of range''))"

lemma index_eq_Ok [result_simps]: "index xs i = Ok y \<longleftrightarrow> i < length xs \<and> y = xs ! i"
  by (auto simp: index_def)

lemma slice_eq_Ok [result_simps]:
  "slice xs a b = Ok ys \<longleftrightarrow> a \<le> b \<and> b \<le> length xs \<and> ys = take (b - a) (drop a xs)"
  by (auto simp: slice_def)

lemma slice_length: "slice xs a b = Ok ys \<Longrightarrow> length ys = b - a"
  by (auto simp: slice_eq_Ok)

lemma crashes_slice: "crashes (slice xs a b) \<longleftrightarrow> \<not> (a \<le> b \<and> b \<le> length xs)"
  by (simp add: slice_def)

lemma crashes_index: "crashes (index xs i) \<longleftrightarrow> \<not> i < length xs"
  by (simp add: index_def)

lemma write_at_eq_Ok:
  "write_at xs off ys = Ok zs \<longleftrightarrow>
     off + length ys \<le> length xs \<and> zs = take off xs @ ys @ drop (off + length ys) xs"
  by (auto simp: write_at_def)

lemma write_at_length [buffer_simps]: "write_at xs off ys = Ok zs \<Longrightarrow> length zs = length xs"
  by (auto simp: write_at_eq_Ok)

lemma write_at_Ok_if: "off + length ys \<le> length xs \<Longrightarrow> \<exists>zs. write_at xs off ys = Ok zs"
  by (simp add: write_at_def)

lemma write_at_nth:
  assumes "write_at xs off ys = Ok zs" and "i < length xs"
  shows "zs ! i = (if off \<le> i \<and> i < off + length ys then ys ! (i - off) else xs ! i)"
  using assms by (auto simp: write_at_eq_Ok nth_append not_less)

lemma slice_write_at_same [buffer_simps]:
  "write_at xs off ys = Ok zs \<Longrightarrow> b = off + length ys \<Longrightarrow> slice zs off b = Ok ys"
  by (auto simp: write_at_eq_Ok slice_def)

lemma slice_cong_nth:
  assumes "length xs = length ys" and "\<And>i. a \<le> i \<Longrightarrow> i < b \<Longrightarrow> i < length xs \<Longrightarrow> xs ! i = ys ! i"
  shows "slice xs a b = slice ys a b"
proof -
  have "take (b - a) (drop a xs) = take (b - a) (drop a ys)" if "a \<le> b" "b \<le> length xs"
    using that assms by (intro nth_equalityI) auto
  then show ?thesis using assms(1) by (simp add: slice_def)
qed

lemma slice_write_at_other [buffer_simps]:
  assumes "write_at xs off ys = Ok zs" and "b \<le> off \<or> off + length ys \<le> a"
  shows "slice zs a b = slice xs a b"
  by (rule slice_cong_nth) (use assms in \<open>auto simp: write_at_length write_at_nth\<close>)

lemma index_write_at_other [buffer_simps]:
  assumes "write_at xs off ys = Ok zs" and "i < off \<or> off + length ys \<le> i"
  shows "index zs i = index xs i"
  using assms by (auto simp: index_def write_at_length write_at_nth)

lemma slice_append_left: "b \<le> length xs \<Longrightarrow> slice (xs @ ys) a b = slice xs a b"
  by (auto simp: slice_def)

lemma slice_join:
  assumes "slice xs a b = Ok ys" and "slice xs b c = Ok zs"
  shows "slice xs a c = Ok (ys @ zs)"
proof -
  have le: "a \<le> b" "b \<le> c" "c \<le> length xs" "ys = take (b - a) (drop a xs)" "zs = take (c - b) (drop b xs)"
    using assms by (auto simp: slice_eq_Ok)
  have "take (c - a) (drop a xs) = take (b - a) (drop a xs) @ take (c - b) (drop b xs)"
    using le take_add [of "b - a" "c - b" "drop a xs"] by simp
  then show ?thesis using le by (simp add: slice_def)
qed

lemma slice_split:
  assumes "slice xs a c = Ok (ys @ zs)" and "b = a + length ys"
  shows "slice xs a b = Ok ys" and "slice xs b c = Ok zs"
proof -
  have len: "length (ys @ zs) = c - a" and le: "a \<le> c" "c \<le> length xs"
    and eq: "ys @ zs = take (c - a) (drop a xs)"
    using assms(1) slice_length [OF assms(1)] by (auto simp: slice_eq_Ok)
  have "ys = take (length ys) (take (c - a) (drop a xs))"
    by (simp flip: eq)
  moreover have "zs = drop (length ys) (take (c - a) (drop a xs))"
    by (simp flip: eq)
  ultimately show "slice xs a b = Ok ys" "slice xs b c = Ok zs"
    using len le assms(2) by (auto simp: slice_def drop_take add.commute min_def)
qed

text \<open>A read inside a region whose content is known is a read from that content.\<close>

lemma slice_slice:
  assumes "slice xs a c = Ok ys" and "i \<le> j" and "a + j \<le> c"
  shows "slice xs (a + i) (a + j) = slice ys i j"
  using assms by (auto simp: slice_def drop_take min_def add.commute split: if_splits)

lemma index_slice: "slice xs a c = Ok ys \<Longrightarrow> a + i < c \<Longrightarrow> index xs (a + i) = index ys i"
  by (auto simp: slice_def index_def split: if_splits)

text \<open>Adjacent writes are one write.\<close>

lemma write_at_append:
  "off' = off + length ys \<Longrightarrow>
     rbind (write_at xs off ys) (\<lambda>b. write_at b off' zs) = write_at xs off (ys @ zs)"
  by (auto simp: write_at_def add.commute add.left_commute)

lemma write_at_append_bind:
  "off' = off + length ys \<Longrightarrow>
     rbind (write_at xs off ys) (\<lambda>b. rbind (write_at b off' zs) f) =
     rbind (write_at xs off (ys @ zs)) f"
  by (simp flip: rbind_assoc write_at_append)

section \<open>Little-endian codecs\<close>

primrec to_le :: "nat \<Rightarrow> nat \<Rightarrow> bytes" where
  "to_le 0 n = []"
| "to_le (Suc k) n = of_nat (n mod 256) # to_le k (n div 256)"

primrec from_le :: "bytes \<Rightarrow> nat" where
  "from_le [] = 0"
| "from_le (b # bs) = unat b + 256 * from_le bs"

definition u16_to_le_bytes :: "u16 \<Rightarrow> bytes" where
  "u16_to_le_bytes w = to_le 2 (unat w)"

definition u32_to_le_bytes :: "u32 \<Rightarrow> bytes" where
  "u32_to_le_bytes w = to_le 4 (unat w)"

definition u64_to_le_bytes :: "u64 \<Rightarrow> bytes" where
  "u64_to_le_bytes w = to_le 8 (unat w)"

definition u16_from_le_bytes :: "bytes \<Rightarrow> u16" where
  "u16_from_le_bytes bs = of_nat (from_le bs)"

definition u32_from_le_bytes :: "bytes \<Rightarrow> u32" where
  "u32_from_le_bytes bs = of_nat (from_le bs)"

definition u64_from_le_bytes :: "bytes \<Rightarrow> u64" where
  "u64_from_le_bytes bs = of_nat (from_le bs)"

lemma length_to_le [simp]: "length (to_le k n) = k"
  by (induction k arbitrary: n) auto

lemma from_le_to_le: "from_le (to_le k n) = n mod 256 ^ k"
proof (induction k arbitrary: n)
  case 0
  then show ?case by simp
next
  case (Suc k)
  have "unat (of_nat (n mod 256) :: u8) = n mod 256"
    by (simp add: unat_of_nat)
  then show ?case by (simp add: Suc.IH mod_mult2_eq)
qed

lemma from_le_less: "from_le bs < 256 ^ length bs"
proof (induction bs)
  case Nil
  then show ?case by simp
next
  case (Cons b bs)
  have "unat b < 256" using unat_lt2p [of b] by simp
  with Cons show ?case by simp
qed

lemma take_to_le: "take k (to_le n x) = to_le (min k n) x"
proof (induction n arbitrary: k x)
  case (Suc n)
  then show ?case by (cases k) simp_all
qed simp

lemma to_le_numeral:
  "to_le (numeral k) n = of_nat (n mod 256) # to_le (pred_numeral k) (n div 256)"
  by (simp only: numeral_eq_Suc [of k] to_le.simps)

lemma to_le_from_le: "to_le (length bs) (from_le bs) = bs"
proof (induction bs)
  case Nil
  then show ?case by simp
next
  case (Cons b bs)
  have "unat b < 256" using unat_lt2p [of b] by simp
  with Cons show ?case by simp
qed

text \<open>
  The contract of a fixed-width codec, and what a client of one may conclude about a buffer
  it writes a field into and reads it back from.
\<close>

locale fixed_codec =
  fixes enc :: "'a \<Rightarrow> bytes" and dec :: "bytes \<Rightarrow> 'a" and width :: nat
  assumes dec_enc: "dec (enc x) = x"
    and enc_length: "length (enc x) = width"
    and enc_dec: "length bs = width \<Longrightarrow> enc (dec bs) = bs"
begin

lemma enc_inject: "enc x = enc y \<longleftrightarrow> x = y"
  by (metis dec_enc)

lemma read_back:
  assumes "write_at buf off (enc x) = Ok buf'"
  shows "rbind (slice buf' off (off + width)) (\<lambda>b. Ok (dec b)) = Ok x"
  using assms slice_write_at_same [OF assms] by (simp add: enc_length dec_enc)

lemma read_append: "dec (take width (enc x @ rest)) = x"
  by (simp add: enc_length dec_enc)

end

interpretation le16: fixed_codec u16_to_le_bytes u16_from_le_bytes 2
proof
  fix x :: u16 and bs :: bytes
  show "u16_from_le_bytes (u16_to_le_bytes x) = x"
    using unat_lt2p [of x] by (simp add: u16_from_le_bytes_def u16_to_le_bytes_def from_le_to_le)
  show "length (u16_to_le_bytes x) = 2"
    by (simp add: u16_to_le_bytes_def)
  show "u16_to_le_bytes (u16_from_le_bytes bs) = bs" if "length bs = 2"
    using that from_le_less [of bs] to_le_from_le [of bs]
    by (simp add: u16_to_le_bytes_def u16_from_le_bytes_def unat_of_nat)
qed

interpretation le32: fixed_codec u32_to_le_bytes u32_from_le_bytes 4
proof
  fix x :: u32 and bs :: bytes
  show "u32_from_le_bytes (u32_to_le_bytes x) = x"
    using unat_lt2p [of x] by (simp add: u32_from_le_bytes_def u32_to_le_bytes_def from_le_to_le)
  show "length (u32_to_le_bytes x) = 4"
    by (simp add: u32_to_le_bytes_def)
  show "u32_to_le_bytes (u32_from_le_bytes bs) = bs" if "length bs = 4"
    using that from_le_less [of bs] to_le_from_le [of bs]
    by (simp add: u32_to_le_bytes_def u32_from_le_bytes_def unat_of_nat)
qed

interpretation le64: fixed_codec u64_to_le_bytes u64_from_le_bytes 8
proof
  fix x :: u64 and bs :: bytes
  show "u64_from_le_bytes (u64_to_le_bytes x) = x"
    using unat_lt2p [of x] by (simp add: u64_from_le_bytes_def u64_to_le_bytes_def from_le_to_le)
  show "length (u64_to_le_bytes x) = 8"
    by (simp add: u64_to_le_bytes_def)
  show "u64_to_le_bytes (u64_from_le_bytes bs) = bs" if "length bs = 8"
    using that from_le_less [of bs] to_le_from_le [of bs]
    by (simp add: u64_to_le_bytes_def u64_from_le_bytes_def unat_of_nat)
qed

lemmas codec_simps [simp] =
  le16.dec_enc le16.enc_length le32.dec_enc le32.enc_length le64.dec_enc le64.enc_length

section \<open>Byte-string order and search\<close>

text \<open>
  Rust orders byte slices lexicographically, the empty slice first: the order of
  \<open>HOL-Library.List_Lexorder\<close> on lists of words.
\<close>

datatype ordering = Less | Equal | Greater

definition cmp :: "'a::linorder \<Rightarrow> 'a \<Rightarrow> ordering" where
  "cmp a b = (if a < b then Less else if a = b then Equal else Greater)"

lemma cmp_simps [simp]:
  "cmp a b = Less \<longleftrightarrow> a < b"
  "cmp a b = Equal \<longleftrightarrow> a = b"
  "cmp a b = Greater \<longleftrightarrow> b < a"
  by (auto simp: cmp_def)

text \<open>
  \<open>slice::binary_search_by\<close>: \<open>Inl i\<close> is \<open>Ok(i)\<close>, the index of a match; \<open>Inr i\<close> is \<open>Err(i)\<close>, where
  the key would be inserted.
\<close>

function binary_search_by :: "('a \<Rightarrow> ordering) \<Rightarrow> 'a list \<Rightarrow> nat \<Rightarrow> nat \<Rightarrow> nat + nat" where
  "binary_search_by f xs lo hi =
     (if lo < hi then
        (let mid = lo + (hi - lo) div 2 in
         case f (xs ! mid) of
           Less \<Rightarrow> binary_search_by f xs (mid + 1) hi
         | Greater \<Rightarrow> binary_search_by f xs lo mid
         | Equal \<Rightarrow> Inl mid)
      else Inr lo)"
  by pat_completeness auto
termination
  by (relation "measure (\<lambda>(f, xs, lo, hi). hi - lo)") (auto simp: Let_def)

declare binary_search_by.simps [simp del]

lemma binary_search_by_stop: "\<not> lo < hi \<Longrightarrow> binary_search_by f xs lo hi = Inr lo"
  by (subst binary_search_by.simps) simp

lemma binary_search_by_step:
  "lo < hi \<Longrightarrow> mid = lo + (hi - lo) div 2 \<Longrightarrow>
     binary_search_by f xs lo hi =
       (case f (xs ! mid) of
          Less \<Rightarrow> binary_search_by f xs (mid + 1) hi
        | Greater \<Rightarrow> binary_search_by f xs lo mid
        | Equal \<Rightarrow> Inl mid)"
  by (hypsubst, subst binary_search_by.simps, simp add: Let_def)

abbreviation sorted_keys :: "(key \<times> 'v) list \<Rightarrow> bool" where
  "sorted_keys rs \<equiv> sorted_wrt (<) (map fst rs)"

lemma binary_search_by_bounds:
  "lo \<le> hi \<Longrightarrow> hi \<le> length xs \<Longrightarrow>
     (case binary_search_by f xs lo hi of
        Inl i \<Rightarrow> lo \<le> i \<and> i < hi \<and> f (xs ! i) = Equal
      | Inr i \<Rightarrow> lo \<le> i \<and> i \<le> hi)"
proof (induction f xs lo hi rule: binary_search_by.induct)
  case (1 f xs lo hi)
  show ?case
  proof (cases "lo < hi")
    case True
    define mid where "mid = lo + (hi - lo) div 2"
    have mid: "lo \<le> mid" "mid < hi" using True by (auto simp: mid_def)
    note unf = binary_search_by_step [OF True mid_def, of f xs]
    show ?thesis
    proof (cases "f (xs ! mid)")
      case Less
      then show ?thesis using 1(1) [OF True mid_def Less] mid 1(4)
        by (auto simp: unf split: sum.splits)
    next
      case Equal
      then show ?thesis using mid by (simp add: unf)
    next
      case Greater
      then show ?thesis using 1(2) [OF True mid_def Greater] mid 1(4)
        by (auto simp: unf split: sum.splits)
    qed
  next
    case False
    then show ?thesis using 1(3) by (simp add: binary_search_by_stop)
  qed
qed

text \<open>On a vector the comparison is monotone on, a miss returns the insertion point.\<close>

lemma binary_search_by_miss:
  assumes less: "\<And>a b. a < b \<Longrightarrow> b < length xs \<Longrightarrow> f (xs ! b) = Less \<Longrightarrow> f (xs ! a) = Less"
    and greater: "\<And>a b. a < b \<Longrightarrow> b < length xs \<Longrightarrow> f (xs ! a) = Greater \<Longrightarrow> f (xs ! b) = Greater"
  shows "binary_search_by f xs lo hi = Inr i \<Longrightarrow> lo \<le> hi \<Longrightarrow> hi \<le> length xs \<Longrightarrow>
    \<forall>j < lo. f (xs ! j) = Less \<Longrightarrow> \<forall>j. hi \<le> j \<longrightarrow> j < length xs \<longrightarrow> f (xs ! j) = Greater \<Longrightarrow>
    (\<forall>j < i. f (xs ! j) = Less) \<and> (\<forall>j. i \<le> j \<longrightarrow> j < length xs \<longrightarrow> f (xs ! j) = Greater)"
proof (induction "hi - lo" arbitrary: lo hi rule: less_induct)
  case (less lo hi)
  show ?case
  proof (cases "lo < hi")
    case True
    define mid where "mid = lo + (hi - lo) div 2"
    have mid: "lo \<le> mid" "mid < hi" using True by (auto simp: mid_def)
    have unf: "(case f (xs ! mid) of
           Less \<Rightarrow> binary_search_by f xs (mid + 1) hi
         | Greater \<Rightarrow> binary_search_by f xs lo mid
         | Equal \<Rightarrow> Inl mid) = Inr i"
      using less.prems(1) by (simp only: binary_search_by_step [OF True mid_def])
    show ?thesis
    proof (cases "f (xs ! mid)")
      case Less
      have "\<forall>j < mid + 1. f (xs ! j) = Less"
        using assms(1) [of _ mid] Less mid less.prems(3) by (auto simp: less_Suc_eq)
      then show ?thesis
        using less.hyps [of hi "mid + 1"] unf Less mid less.prems by auto
    next
      case Equal
      then show ?thesis using unf by simp
    next
      case Greater
      have "\<forall>j. mid \<le> j \<longrightarrow> j < length xs \<longrightarrow> f (xs ! j) = Greater"
        using greater [of mid] Greater by (auto simp: le_less)
      then show ?thesis
        using less.hyps [of mid lo] unf Greater mid less.prems by auto
    qed
  next
    case False
    then show ?thesis using less.prems by (auto simp: binary_search_by_stop)
  qed
qed

end
