(* ===== verification/Page_Kind.thy ===== *)
theory Page_Kind
  imports Prelude
begin

text \<open>
  The page-id space of \<open>main.db\<close> (\<open>pager/page_space.rs\<close>) and the page-kind discriminator
  (\<open>pager/format/page_kind.rs\<close>).
\<close>

section \<open>Page ids\<close>

definition FIRST_ALLOCATABLE_PAGE_ID :: page_id where
  "FIRST_ALLOCATABLE_PAGE_ID = 4"

definition is_reserved :: "page_id \<Rightarrow> bool" where
  "is_reserved page_id \<longleftrightarrow> page_id < FIRST_ALLOCATABLE_PAGE_ID"

definition page_offset :: "page_id \<Rightarrow> nat \<Rightarrow> string \<Rightarrow> u64 result" where
  "page_offset page_id page_size operation =
     (if page_size < 2 ^ 64
      then of_option (ArithmeticOverflow operation) (checked_mul_u64 page_id (of_nat page_size))
      else Err (ArithmeticOverflow operation))"

lemma page_offset_exact:
  "page_offset p n op_name = Ok off \<Longrightarrow> unat off = unat p * n"
  by (auto simp: page_offset_def checked_mul_u64_def unat_word_ariths split: if_splits)

text \<open>Distinct pages have disjoint extents: an offset that was not rejected never wrapped.\<close>

lemma page_offset_disjoint:
  assumes "page_offset p n op1 = Ok a" and "page_offset q n op2 = Ok b" and "p \<noteq> q"
  shows "unat a + n \<le> unat b \<or> unat b + n \<le> unat a"
proof -
  have ne: "unat p \<noteq> unat q" using assms(3) by (simp add: word_unat_eq_iff)
  have "Suc (unat p) * n \<le> unat q * n \<or> Suc (unat q) * n \<le> unat p * n"
    using ne by (metis Suc_leI mult_le_mono1 nat_neq_iff)
  then show ?thesis
    using page_offset_exact [OF assms(1)] page_offset_exact [OF assms(2)] by auto
qed

section \<open>Page kinds\<close>

datatype page_kind =
    BTreeInternal | BTreeLeaf | Free | Spill | Overflow | Counter | Catalog | ApplyJournal
  | OverflowRoot | SegmentData | SegmentIndex | SegmentOverflow

fun as_byte :: "page_kind \<Rightarrow> u8" where
  "as_byte BTreeInternal = 0x01"
| "as_byte BTreeLeaf = 0x02"
| "as_byte Free = 0x03"
| "as_byte Spill = 0x04"
| "as_byte Overflow = 0x05"
| "as_byte Counter = 0x06"
| "as_byte Catalog = 0x07"
| "as_byte ApplyJournal = 0x08"
| "as_byte OverflowRoot = 0x09"
| "as_byte SegmentData = 0x10"
| "as_byte SegmentIndex = 0x11"
| "as_byte SegmentOverflow = 0x12"

definition page_kind_from_byte :: "u8 \<Rightarrow> page_kind result" where
  "page_kind_from_byte b =
     (if b = 0x01 then Ok BTreeInternal
      else if b = 0x02 then Ok BTreeLeaf
      else if b = 0x03 then Ok Free
      else if b = 0x04 then Ok Spill
      else if b = 0x05 then Ok Overflow
      else if b = 0x06 then Ok Counter
      else if b = 0x07 then Ok Catalog
      else if b = 0x08 then Ok ApplyJournal
      else if b = 0x09 then Ok OverflowRoot
      else if b = 0x10 then Ok SegmentData
      else if b = 0x11 then Ok SegmentIndex
      else if b = 0x12 then Ok SegmentOverflow
      else Err IllegalPageKind)"

fun page_kind_name :: "page_kind \<Rightarrow> string" where
  "page_kind_name BTreeInternal = ''btree_internal''"
| "page_kind_name BTreeLeaf = ''btree_leaf''"
| "page_kind_name Free = ''free''"
| "page_kind_name Spill = ''spill''"
| "page_kind_name Overflow = ''overflow''"
| "page_kind_name Counter = ''counter''"
| "page_kind_name Catalog = ''catalog''"
| "page_kind_name ApplyJournal = ''apply_journal''"
| "page_kind_name OverflowRoot = ''overflow_root''"
| "page_kind_name SegmentData = ''segment_data''"
| "page_kind_name SegmentIndex = ''segment_index''"
| "page_kind_name SegmentOverflow = ''segment_overflow''"

fun is_main_db :: "page_kind \<Rightarrow> bool" where
  "is_main_db SegmentData = False"
| "is_main_db SegmentIndex = False"
| "is_main_db SegmentOverflow = False"
| "is_main_db k = True"

fun is_segment :: "page_kind \<Rightarrow> bool" where
  "is_segment SegmentData = True"
| "is_segment SegmentIndex = True"
| "is_segment SegmentOverflow = True"
| "is_segment k = False"

lemma page_kind_from_as_byte [simp]: "page_kind_from_byte (as_byte k) = Ok k"
  by (cases k) (simp_all add: page_kind_from_byte_def)

lemma page_kind_as_from_byte: "page_kind_from_byte b = Ok k \<Longrightarrow> as_byte k = b"
  by (auto simp: page_kind_from_byte_def split: if_splits)

lemma as_byte_inject [simp]: "as_byte k = as_byte k' \<longleftrightarrow> k = k'"
  by (metis page_kind_from_as_byte result.inject(1))

lemma page_kind_name_inject [simp]: "page_kind_name k = page_kind_name k' \<longleftrightarrow> k = k'"
  by (cases k; cases k') simp_all

lemma is_segment_iff: "is_segment k \<longleftrightarrow> \<not> is_main_db k"
  by (cases k) simp_all

text \<open>Page kinds are ordered by their byte, so that they can key sorted containers.\<close>

instantiation page_kind :: linorder
begin

definition less_eq_page_kind :: "page_kind \<Rightarrow> page_kind \<Rightarrow> bool" where
  "less_eq_page_kind k k' \<longleftrightarrow> as_byte k \<le> as_byte k'"

definition less_page_kind :: "page_kind \<Rightarrow> page_kind \<Rightarrow> bool" where
  "less_page_kind k k' \<longleftrightarrow> as_byte k < as_byte k'"

instance
  by standard (auto simp: less_eq_page_kind_def less_page_kind_def less_le)

end

end
