(* ===== verification/Node.thy ===== *)
theory Node
  imports Page_Kind
begin

text \<open>
  The node layout shared by leaf and internal pages (\<open>btree/node.rs\<close>): the 24-byte header, the
  key prefix, the slot directory, and the extent check every constructor runs before it indexes
  a body with the offsets that body itself supplies.
\<close>

section \<open>Layout\<close>

datatype node_kind = Internal | Leaf

fun node_kind_as_byte :: "node_kind \<Rightarrow> u8" where
  "node_kind_as_byte Internal = 0x00"
| "node_kind_as_byte Leaf = 0x01"

definition node_kind_from_byte :: "u8 \<Rightarrow> node_kind result" where
  "node_kind_from_byte b =
     (if b = 0x00 then Ok Internal
      else if b = 0x01 then Ok Leaf
      else Err (Corruption (NodeBodyMalformed ''node_kind_byte'')))"

fun node_kind_name :: "node_kind \<Rightarrow> string" where
  "node_kind_name Internal = ''internal''"
| "node_kind_name Leaf = ''leaf''"

definition ENVELOPE_OVERHEAD :: nat where "ENVELOPE_OVERHEAD = 40"
definition HEADER_LEN :: nat where "HEADER_LEN = 24"
definition OFF_NODE_KIND :: nat where "OFF_NODE_KIND = 0"
definition OFF_SLOT_COUNT :: nat where "OFF_SLOT_COUNT = 2"
definition OFF_PREFIX_LEN :: nat where "OFF_PREFIX_LEN = 4"
definition OFF_LEFT_SIBLING :: nat where "OFF_LEFT_SIBLING = 8"
definition OFF_DUAL_USE :: nat where "OFF_DUAL_USE = 16"
definition OVERFLOW_SENTINEL :: u16 where "OVERFLOW_SENTINEL = 0xFFFF"

lemmas node_consts =
  HEADER_LEN_def OFF_NODE_KIND_def OFF_SLOT_COUNT_def OFF_PREFIX_LEN_def OFF_LEFT_SIBLING_def
  OFF_DUAL_USE_def

text \<open>
  A page is longer than its envelope: the page sizes a structural header admits start at 4096, so the
  subtraction of the source does not wrap and the one on numbers is the same.
\<close>

definition body_capacity :: "nat \<Rightarrow> nat" where
  "body_capacity page_size = page_size - ENVELOPE_OVERHEAD"

definition read_u16_le :: "bytes \<Rightarrow> nat \<Rightarrow> u16 result" where
  "read_u16_le body offset =
     rbind (slice body offset (offset + 2)) (\<lambda>b. Ok (u16_from_le_bytes b))"

definition read_u64_le :: "bytes \<Rightarrow> nat \<Rightarrow> u64 result" where
  "read_u64_le body offset =
     rbind (slice body offset (offset + 8)) (\<lambda>b. Ok (u64_from_le_bytes b))"

definition write_u16_le :: "bytes \<Rightarrow> nat \<Rightarrow> u16 \<Rightarrow> bytes result" where
  "write_u16_le body offset val = write_at body offset (u16_to_le_bytes val)"

definition write_u64_le :: "bytes \<Rightarrow> nat \<Rightarrow> u64 \<Rightarrow> bytes result" where
  "write_u64_le body offset val = write_at body offset (u64_to_le_bytes val)"

definition slot_offset :: "bytes \<Rightarrow> nat \<Rightarrow> nat \<Rightarrow> nat result" where
  "slot_offset body prefix_len slot_index =
     (let off = HEADER_LEN + prefix_len + slot_index * 2 in
      rmap unat (read_u16_le body off))"

definition write_slot_offset :: "bytes \<Rightarrow> nat \<Rightarrow> nat \<Rightarrow> u16 \<Rightarrow> bytes result" where
  "write_slot_offset body prefix_len slot_index val =
     (let off = HEADER_LEN + prefix_len + slot_index * 2 in
      write_at body off (u16_to_le_bytes val))"

section \<open>Header\<close>

record node_header =
  hdr_kind :: node_kind
  hdr_slot_count :: u16
  hdr_prefix_len :: u16
  hdr_left_sibling :: u64
  hdr_dual_use :: u64

definition read_header :: "bytes \<Rightarrow> node_header result" where
  "read_header body =
     (if length body < HEADER_LEN
      then Err (Corruption (NodeBodyMalformed ''header_length''))
      else
        rbind (rbind (index body OFF_NODE_KIND) node_kind_from_byte) (\<lambda>kind.
        rbind (read_u16_le body OFF_SLOT_COUNT) (\<lambda>slot_count.
        rbind (read_u16_le body OFF_PREFIX_LEN) (\<lambda>prefix_len.
        rbind (read_u64_le body OFF_LEFT_SIBLING) (\<lambda>left_sibling.
        rbind (read_u64_le body OFF_DUAL_USE) (\<lambda>dual_use.
        Ok \<lparr> hdr_kind = kind, hdr_slot_count = slot_count, hdr_prefix_len = prefix_len,
             hdr_left_sibling = left_sibling, hdr_dual_use = dual_use \<rparr>))))))"

definition write_header ::
  "bytes \<Rightarrow> node_kind \<Rightarrow> u16 \<Rightarrow> u16 \<Rightarrow> u64 \<Rightarrow> u64 \<Rightarrow> bytes result" where
  "write_header body kind slot_count prefix_len left_sibling dual_use =
     rbind (write_at body OFF_NODE_KIND [node_kind_as_byte kind]) (\<lambda>body.
     rbind (write_at body 1 [0]) (\<lambda>body.
     rbind (write_u16_le body OFF_SLOT_COUNT slot_count) (\<lambda>body.
     rbind (write_u16_le body OFF_PREFIX_LEN prefix_len) (\<lambda>body.
     rbind (write_u16_le body 6 0) (\<lambda>body.
     rbind (write_u64_le body OFF_LEFT_SIBLING left_sibling) (\<lambda>body.
     write_u64_le body OFF_DUAL_USE dual_use))))))"

section \<open>Extent validation\<close>

definition malformed :: error where
  "malformed = Corruption (NodeBodyMalformed ''slot_directory'')"

definition field_end :: "bytes \<Rightarrow> nat \<Rightarrow> nat \<Rightarrow> nat result" where
  "field_end body start len =
     rbind (of_option malformed (checked_add start len)) (\<lambda>end.
     if end > length body then Err malformed else Ok end)"

definition validate_leaf_record :: "bytes \<Rightarrow> nat \<Rightarrow> unit result" where
  "validate_leaf_record body offset =
     rbind (field_end body offset 2) (\<lambda>after_suffix_len.
     rbind (rmap unat (read_u16_le body offset)) (\<lambda>suffix_len.
     rbind (field_end body after_suffix_len suffix_len) (\<lambda>after_suffix.
     rbind (field_end body after_suffix 2) (\<lambda>after_value_len.
     rbind (read_u16_le body after_suffix) (\<lambda>value_len_raw.
     if value_len_raw = OVERFLOW_SENTINEL
     then rbind (field_end body after_value_len 16) (\<lambda>_. Ok ())
     else rbind (field_end body after_value_len (unat value_len_raw)) (\<lambda>_. Ok ()))))))"

definition validate_internal_record :: "bytes \<Rightarrow> nat \<Rightarrow> unit result" where
  "validate_internal_record body offset =
     rbind (field_end body offset 2) (\<lambda>after_key_len.
     rbind (rmap unat (read_u16_le body offset)) (\<lambda>key_len.
     rbind (field_end body after_key_len key_len) (\<lambda>after_key.
     rbind (field_end body after_key 8) (\<lambda>_. Ok ()))))"

definition validate_node_body :: "bytes \<Rightarrow> node_header result" where
  "validate_node_body body =
     rbind (read_header body) (\<lambda>header.
     let prefix_len = unat (hdr_prefix_len header);
         slot_count = unat (hdr_slot_count header) in
     rbind (of_option malformed
             (Option.bind (checked_add HEADER_LEN prefix_len)
               (\<lambda>end. Option.bind (checked_mul slot_count 2) (checked_add end)))) (\<lambda>directory_end.
     if directory_end > length body then Err malformed
     else
       rbind (for_each (\<lambda>slot_index.
         rbind (slot_offset body prefix_len slot_index) (\<lambda>offset.
         case hdr_kind header of
           Leaf \<Rightarrow> validate_leaf_record body offset
         | Internal \<Rightarrow> validate_internal_record body offset)) [0..<slot_count]) (\<lambda>_.
       Ok header)))"

text \<open>The memo of a cached page is threaded as a flag: the header and the memo's next value.\<close>

definition validate_node_body_memoised :: "bytes \<Rightarrow> bool \<Rightarrow> node_header result \<times> bool" where
  "validate_node_body_memoised body memo =
     (if memo then (read_header body, memo)
      else case validate_node_body body of
             Err e \<Rightarrow> (Err e, memo)
           | Ok header \<Rightarrow> (Ok header, True))"

section \<open>Reading back what was written\<close>

lemma node_kind_from_as_byte [simp]: "node_kind_from_byte (node_kind_as_byte k) = Ok k"
  by (cases k) (simp_all add: node_kind_from_byte_def)

lemma node_kind_neq [simp]: "k \<noteq> Internal \<longleftrightarrow> k = Leaf" "k \<noteq> Leaf \<longleftrightarrow> k = Internal"
  by (cases k; simp)+

lemma node_kind_as_from_byte: "node_kind_from_byte b = Ok k \<Longrightarrow> node_kind_as_byte k = b"
  by (auto simp: node_kind_from_byte_def split: if_splits)

definition header_bytes :: "node_kind \<Rightarrow> u16 \<Rightarrow> u16 \<Rightarrow> u64 \<Rightarrow> u64 \<Rightarrow> bytes" where
  "header_bytes kind slot_count prefix_len left_sibling dual_use =
     [node_kind_as_byte kind, 0] @ u16_to_le_bytes slot_count @ u16_to_le_bytes prefix_len
       @ u16_to_le_bytes 0 @ u64_to_le_bytes left_sibling @ u64_to_le_bytes dual_use"

lemma length_header_bytes [simp]: "length (header_bytes k sc pl ls du) = 24"
  by (simp add: header_bytes_def)

lemma write_header_eq:
  "write_header body k sc pl ls du = write_at body 0 (header_bytes k sc pl ls du)"
  by (simp add: write_header_def write_u16_le_def write_u64_le_def node_consts header_bytes_def
      write_at_append_bind write_at_append)

lemma read_header_slice:
  assumes "slice body 0 24 = Ok hdr"
  shows "read_header body = read_header hdr"
proof -
  have sub: "slice body i j = slice hdr i j" if "i \<le> j" "j \<le> 24" for i j
    using slice_slice [OF assms, of i j] that by simp
  have idx: "index body 0 = index hdr 0"
    using index_slice [OF assms, of 0] by simp
  have "length hdr = 24" "\<not> length body < 24"
    using slice_length [OF assms] assms by (auto simp: slice_eq_Ok)
  then show ?thesis
    by (simp add: read_header_def node_consts read_u16_le_def read_u64_le_def sub idx)
qed

lemma read_header_of_bytes:
  "read_header (header_bytes k sc pl ls du) =
     Ok \<lparr> hdr_kind = k, hdr_slot_count = sc, hdr_prefix_len = pl, hdr_left_sibling = ls,
          hdr_dual_use = du \<rparr>"
  by (simp add: read_header_def node_consts read_u16_le_def read_u64_le_def index_def
      header_bytes_def slice_def)

lemma read_write_header:
  assumes "write_header body k sc pl ls du = Ok body'"
  shows "read_header body' =
     Ok \<lparr> hdr_kind = k, hdr_slot_count = sc, hdr_prefix_len = pl, hdr_left_sibling = ls,
          hdr_dual_use = du \<rparr>"
proof -
  have "slice body' 0 24 = Ok (header_bytes k sc pl ls du)"
    using assms by (intro slice_write_at_same) (auto simp: write_header_eq)
  then show ?thesis by (simp add: read_header_slice read_header_of_bytes)
qed

section \<open>What validation establishes\<close>

lemma field_end_eq_Ok [result_simps]:
  "field_end body s n = Ok e \<longleftrightarrow> e = s + n \<and> s + n \<le> length body \<and> s + n < 2 ^ 64"
  by (auto simp: field_end_def checked_add_def of_option_def)

lemma fatal_malformed [simp]: "\<not> fatal malformed"
  by (simp add: malformed_def)

lemma crashes_of_option [simp]: "crashes (of_option e x) \<longleftrightarrow> x = None \<and> fatal e"
  by (cases x) (auto simp: of_option_def)

lemma field_end_not_crashes [simp]: "\<not> crashes (field_end body s n)"
  by (auto simp: field_end_def crashes_rbind)

lemma crashes_read_u16_le: "crashes (read_u16_le body off) \<longleftrightarrow> length body < off + 2"
  by (auto simp: read_u16_le_def crashes_rbind crashes_slice)

lemma crashes_read_u64_le: "crashes (read_u64_le body off) \<longleftrightarrow> length body < off + 8"
  by (auto simp: read_u64_le_def crashes_rbind crashes_slice)

lemma crashes_rmap [simp]: "crashes (rmap f r) \<longleftrightarrow> crashes r"
  by (cases r) auto

lemma crashes_slot_offset:
  "crashes (slot_offset body pl i) \<longleftrightarrow> length body < HEADER_LEN + pl + i * 2 + 2"
  by (simp add: slot_offset_def Let_def crashes_read_u16_le)

lemma read_u16_le_Ok: "off + 2 \<le> length body \<Longrightarrow> \<exists>w. read_u16_le body off = Ok w"
  by (simp add: read_u16_le_def slice_def)

lemma read_u64_le_Ok: "off + 8 \<le> length body \<Longrightarrow> \<exists>w. read_u64_le body off = Ok w"
  by (simp add: read_u64_le_def slice_def)

lemma validate_leaf_record_not_crashes: "\<not> crashes (validate_leaf_record body off)"
  by (auto simp: validate_leaf_record_def crashes_rbind result_simps crashes_read_u16_le)

lemma validate_internal_record_not_crashes: "\<not> crashes (validate_internal_record body off)"
  by (auto simp: validate_internal_record_def crashes_rbind result_simps crashes_read_u16_le)

lemma read_header_not_crashes: "\<not> crashes (read_header body)"
  by (auto simp: read_header_def crashes_rbind crashes_read_u16_le crashes_read_u64_le
      crashes_index node_consts node_kind_from_byte_def)

lemma validate_node_body_not_crashes: "\<not> crashes (validate_node_body body)"
  by (auto simp: validate_node_body_def Let_def crashes_rbind read_header_not_crashes
      crashes_slot_offset validate_leaf_record_not_crashes validate_internal_record_not_crashes
      checked_add_def checked_mul_def split: node_kind.splits if_splits bind_splits
      intro!: for_each_not_crashes)

lemma validate_node_body_header: "validate_node_body body = Ok h \<Longrightarrow> read_header body = Ok h"
  by (auto simp: validate_node_body_def Let_def result_simps split: if_splits)

lemma validate_node_body_directory:
  "validate_node_body body = Ok h \<Longrightarrow>
     HEADER_LEN + unat (hdr_prefix_len h) + unat (hdr_slot_count h) * 2 \<le> length body"
  by (auto simp: validate_node_body_def Let_def result_simps checked_add_def checked_mul_def
      split: if_splits bind_splits)

lemma validate_node_body_slot:
  assumes "validate_node_body body = Ok h" and "i < unat (hdr_slot_count h)"
  obtains off where "slot_offset body (unat (hdr_prefix_len h)) i = Ok off"
    and "hdr_kind h = Leaf \<Longrightarrow> validate_leaf_record body off = Ok ()"
    and "hdr_kind h = Internal \<Longrightarrow> validate_internal_record body off = Ok ()"
proof -
  have "\<forall>i \<in> set [0..<unat (hdr_slot_count h)]. \<exists>off.
      slot_offset body (unat (hdr_prefix_len h)) i = Ok off \<and>
      (case hdr_kind h of Leaf \<Rightarrow> validate_leaf_record body off
        | Internal \<Rightarrow> validate_internal_record body off) = Ok ()"
    using assms(1)
    by (simp add: validate_node_body_def Let_def rbind_eq_Ok for_each_eq_Ok split: if_splits) blast
  then show ?thesis using assms(2) that by (cases "hdr_kind h") fastforce+
qed

lemma validate_node_bodyI:
  assumes "read_header body = Ok h" and "length body < 2 ^ 64"
    and "HEADER_LEN + unat (hdr_prefix_len h) + unat (hdr_slot_count h) * 2 \<le> length body"
    and "\<And>i. i < unat (hdr_slot_count h) \<Longrightarrow>
      \<exists>off. slot_offset body (unat (hdr_prefix_len h)) i = Ok off \<and>
        (case hdr_kind h of Leaf \<Rightarrow> validate_leaf_record body off
          | Internal \<Rightarrow> validate_internal_record body off) = Ok ()"
  shows "validate_node_body body = Ok h"
proof -
  have "for_each (\<lambda>slot_index.
         rbind (slot_offset body (unat (hdr_prefix_len h)) slot_index) (\<lambda>offset.
         case hdr_kind h of
           Leaf \<Rightarrow> validate_leaf_record body offset
         | Internal \<Rightarrow> validate_internal_record body offset)) [0..<unat (hdr_slot_count h)] = Ok ()"
    using assms(4) by (auto simp: for_each_eq_Ok rbind_eq_Ok)
  then show ?thesis
    using assms(1-3) by (simp add: validate_node_body_def checked_add_def checked_mul_def Let_def)
qed

text \<open>
  The memo is sound: once a body passed, later calls that skip the walk return what the walk
  would return.
\<close>

lemma validate_node_body_memoised_sound:
  assumes "memo \<Longrightarrow> is_ok (validate_node_body body)"
  shows "fst (validate_node_body_memoised body memo) = validate_node_body body"
    and "snd (validate_node_body_memoised body memo) \<Longrightarrow> is_ok (validate_node_body body)"
  using assms
  by (cases memo; cases "validate_node_body body";
      force simp: validate_node_body_memoised_def is_ok_iff dest: validate_node_body_header)+

section \<open>Slotted records\<close>

text \<open>
  Both node codecs lay records out from the end of the body downwards and note each record's
  offset in the slot directory. \<open>write_slots\<close> is that layout for records whose bytes are given;
  the locale states what a record codec must satisfy for every record to be readable through its
  slot once all are written.
\<close>

primrec write_slots :: "('r \<Rightarrow> bytes) \<Rightarrow> nat \<Rightarrow> 'r list \<Rightarrow> nat \<Rightarrow> nat \<Rightarrow> bytes \<Rightarrow> bytes result" where
  "write_slots bytes_of pl [] i tail body = Ok body"
| "write_slots bytes_of pl (r # rs) i tail body =
     (let off = tail - length (bytes_of r) in
      rbind (write_at body off (bytes_of r)) (\<lambda>body.
      rbind (write_slot_offset body pl i (of_nat off)) (\<lambda>body.
      write_slots bytes_of pl rs (i + 1) off body)))"

locale slotted_records =
  fixes bytes_of :: "'r \<Rightarrow> bytes" and decode_at :: "bytes \<Rightarrow> nat \<Rightarrow> 'x result"
    and view :: "'r \<Rightarrow> 'x" and ok :: "'r \<Rightarrow> bool"
  assumes decode_bytes: "ok r \<Longrightarrow> decode_at (bytes_of r) 0 = Ok (view r)"
    and bytes_nonempty: "0 < length (bytes_of r)"
    and decode_local: "slice body off (off + length bs) = Ok bs \<Longrightarrow> decode_at bs 0 = Ok x \<Longrightarrow>
      decode_at body off = Ok x"
begin

lemma write_slots_spec:
  assumes "\<forall>r \<in> set rs. ok r"
    and "24 + pl + 2 * (i + length rs) + sum_list (map (\<lambda>r. length (bytes_of r)) rs) \<le> tail"
    and "tail \<le> length body" and "length body \<le> 65536"
  shows "\<exists>body'. write_slots bytes_of pl rs i tail body = Ok body' \<and> length body' = length body \<and>
     (\<forall>a b. b \<le> 24 + pl + 2 * i \<or> tail \<le> a \<longrightarrow> slice body' a b = slice body a b) \<and>
     (\<forall>j < length rs. \<exists>off. slot_offset body' pl (i + j) = Ok off \<and>
        decode_at body' off = Ok (view (rs ! j)))"
  using assms
proof (induction rs arbitrary: i tail body)
  case Nil
  then show ?case by simp
next
  case (Cons r rs)
  define size where "size = length (bytes_of r)"
  define off where "off = tail - size"
  have le: "24 + pl + 2 * (i + 1 + length rs) + sum_list (map (\<lambda>r. length (bytes_of r)) rs) \<le> off"
      "off + size = tail" "0 < size"
    using Cons.prems(2) bytes_nonempty [of r] by (auto simp: off_def size_def)
  have lt: "off < 2 ^ 16" using le Cons.prems(3,4) by auto
  obtain b1 where b1: "write_at body off (bytes_of r) = Ok b1"
    using write_at_Ok_if [of off "bytes_of r" body] le Cons.prems(3) by (auto simp: size_def)
  obtain b2 where b2: "write_slot_offset b1 pl i (of_nat off) = Ok b2"
    using write_at_Ok_if [of "HEADER_LEN + pl + i * 2" "u16_to_le_bytes (of_nat off)" b1]
      le Cons.prems(3) write_at_length [OF b1]
    by (auto simp: write_slot_offset_def HEADER_LEN_def)
  note b2' = b2 [unfolded write_slot_offset_def Let_def HEADER_LEN_def]
  have len: "length b1 = length body" "length b2 = length body"
    using write_at_length [OF b1] write_at_length [OF b2'] by auto
  obtain body' where IH: "write_slots bytes_of pl rs (i + 1) off b2 = Ok body'"
      "length body' = length b2"
      "\<And>a b. b \<le> 24 + pl + 2 * (i + 1) \<or> off \<le> a \<Longrightarrow> slice body' a b = slice b2 a b"
      "\<And>j. j < length rs \<Longrightarrow> \<exists>off. slot_offset body' pl (i + 1 + j) = Ok off \<and>
        decode_at body' off = Ok (view (rs ! j))"
    using Cons.IH [of "i + 1" off b2] Cons.prems(1,3,4) le len by auto
  have enc: "write_slots bytes_of pl (r # rs) i tail body = Ok body'"
    by (simp only: write_slots.simps Let_def size_def [symmetric] off_def [symmetric] b1 b2 IH(1)
        rbind.simps)
  have slot: "slot_offset body' pl i = Ok off"
    using IH(3) [of "24 + pl + i * 2 + 2" "24 + pl + i * 2"]
      slice_write_at_same [OF b2', of "24 + pl + i * 2 + 2"] lt
    by (simp add: slot_offset_def read_u16_le_def HEADER_LEN_def)
  have "slice body' off (off + size) = Ok (bytes_of r)"
    using IH(3) [of "off + size" off] slice_write_at_other [OF b2', of "off + size" off]
      slice_write_at_same [OF b1, of "off + size"] le by (simp add: size_def)
  then have dec: "decode_at body' off = Ok (view r)"
    using decode_local decode_bytes [of r] Cons.prems(1) by (simp add: size_def)
  have frame: "slice body' a b = slice body a b" if "b \<le> 24 + pl + 2 * i \<or> tail \<le> a" for a b
    using that IH(3) [of b a] slice_write_at_other [OF b2', of b a]
      slice_write_at_other [OF b1, of b a] le by (auto simp: size_def)
  have "\<exists>off. slot_offset body' pl (i + j) = Ok off \<and> decode_at body' off = Ok (view ((r # rs) ! j))"
    if "j < length (r # rs)" for j
    using that slot dec IH(4) [of "j - 1"] by (cases j) auto
  then show ?case using enc frame IH(2) len by auto
qed

end


section \<open>Packed slots\<close>

primrec slots_at :: "('r \<Rightarrow> bytes) \<Rightarrow> nat \<Rightarrow> 'r list \<Rightarrow> nat \<Rightarrow> nat \<Rightarrow> bytes \<Rightarrow> bool" where
  "slots_at bytes_of pl [] i tail body = True"
| "slots_at bytes_of pl (r # rs) i tail body =
     (length (bytes_of r) \<le> tail \<and> slot_offset body pl i = Ok (tail - length (bytes_of r)) \<and>
      slice body (tail - length (bytes_of r)) tail = Ok (bytes_of r) \<and>
      slots_at bytes_of pl rs (i + 1) (tail - length (bytes_of r)) body)"

lemma slots_at_frame:
  assumes "slots_at bytes_of pl rs i tail body"
    and "\<And>a b. a \<le> b \<Longrightarrow> 24 + pl + 2 * i \<le> a \<Longrightarrow> b \<le> 24 + pl + 2 * (i + length rs) \<Longrightarrow> slice body' a b = slice body a b"
    and "\<And>a b. b \<le> tail \<Longrightarrow> tail - sum_list (map (\<lambda>r. length (bytes_of r)) rs) \<le> a \<Longrightarrow> slice body' a b = slice body a b"
  shows "slots_at bytes_of pl rs i tail body'"
  using assms
proof (induction rs arbitrary: i tail)
  case (Cons r rs)
  let ?off = "tail - length (bytes_of r)"
  have "slots_at bytes_of pl rs (i + 1) ?off body'"
    by (rule Cons.IH) (use Cons.prems in auto)
  moreover have "slot_offset body' pl i = slot_offset body pl i"
    using Cons.prems(2) [of "24 + pl + i * 2" "24 + pl + i * 2 + 2"]
    by (simp add: slot_offset_def read_u16_le_def HEADER_LEN_def)
  moreover have "slice body' ?off tail = slice body ?off tail"
    using Cons.prems(3) [of tail ?off] by simp
  ultimately show ?case using Cons.prems(1) by simp
qed simp

lemma write_slots_at:
  assumes "write_slots bytes_of pl rs i tail body = Ok body'"
    and "24 + pl + 2 * (i + length rs) + sum_list (map (\<lambda>r. length (bytes_of r)) rs) \<le> tail"
    and "tail \<le> length body" and "length body \<le> 65536" and "\<forall>r. 0 < length (bytes_of r)"
  shows "slots_at bytes_of pl rs i tail body' \<and> length body' = length body \<and>
     (\<forall>a b. b \<le> 24 + pl + 2 * i \<or> tail \<le> a \<longrightarrow> slice body' a b = slice body a b)"
  using assms
proof (induction rs arbitrary: i tail body)
  case (Cons r rs)
  define size where "size = length (bytes_of r)"
  define off where "off = tail - size"
  have le: "24 + pl + 2 * (i + 1 + length rs) + sum_list (map (\<lambda>r. length (bytes_of r)) rs) \<le> off"
      "off + size = tail" "0 < size"
    using Cons.prems(2,5) by (auto simp: off_def size_def)
  have lt: "off < 2 ^ 16" using le Cons.prems(3,4) by auto
  obtain b1 b2 where b1: "write_at body off (bytes_of r) = Ok b1"
      and b2: "write_slot_offset b1 pl i (of_nat off) = Ok b2"
      and ws: "write_slots bytes_of pl rs (i + 1) off b2 = Ok body'"
    using Cons.prems(1) by (auto simp: Let_def rbind_eq_Ok off_def size_def)
  note b2' = b2 [unfolded write_slot_offset_def Let_def HEADER_LEN_def]
  have len: "length b1 = length body" "length b2 = length body"
    using write_at_length [OF b1] write_at_length [OF b2'] by auto
  have IH: "slots_at bytes_of pl rs (i + 1) off body'" "length body' = length b2"
      "\<And>a b. b \<le> 24 + pl + 2 * (i + 1) \<or> off \<le> a \<Longrightarrow> slice body' a b = slice b2 a b"
    using Cons.IH [OF ws] Cons.prems(3,4,5) le len by auto
  have slot: "slot_offset body' pl i = Ok off"
    using IH(3) [of "24 + pl + i * 2 + 2" "24 + pl + i * 2"]
      slice_write_at_same [OF b2', of "24 + pl + i * 2 + 2"] lt
    by (simp add: slot_offset_def read_u16_le_def HEADER_LEN_def)
  have "slice body' off tail = Ok (bytes_of r)"
    using IH(3) [of tail off] slice_write_at_other [OF b2', of tail off]
      slice_write_at_same [OF b1, of tail] le by (simp add: size_def)
  moreover have "slice body' a b = slice body a b" if "b \<le> 24 + pl + 2 * i \<or> tail \<le> a" for a b
    using that IH(3) [of b a] slice_write_at_other [OF b2', of b a]
      slice_write_at_other [OF b1, of b a] le by (auto simp: size_def)
  ultimately show ?case
    using IH(1,2) len slot le by (simp add: off_def size_def)
qed simp

lemma slots_at_nth:
  assumes "slots_at bytes_of pl rs i tail body" and "j < length rs"
  shows "\<exists>off. slot_offset body pl (i + j) = Ok off \<and>
     slice body off (off + length (bytes_of (rs ! j))) = Ok (bytes_of (rs ! j)) \<and>
     off + length (bytes_of (rs ! j)) \<le> tail \<and>
     tail - sum_list (map (\<lambda>r. length (bytes_of r)) rs) \<le> off"
  using assms
proof (induction rs arbitrary: i tail j)
  case (Cons r rs)
  show ?case
  proof (cases j)
    case 0
    then show ?thesis using Cons.prems by auto
  next
    case (Suc j')
    have "slots_at bytes_of pl rs (i + 1) (tail - length (bytes_of r)) body" "j' < length rs"
      using Cons.prems Suc by auto
    from Cons.IH [OF this] obtain off where "slot_offset body pl (i + 1 + j') = Ok off"
      "slice body off (off + length (bytes_of (rs ! j'))) = Ok (bytes_of (rs ! j'))"
      "off + length (bytes_of (rs ! j')) \<le> tail - length (bytes_of r)"
      "tail - length (bytes_of r) - sum_list (map (\<lambda>r. length (bytes_of r)) rs) \<le> off"
      by blast
    then show ?thesis using Suc by (intro exI [of _ off]) auto
  qed
qed simp

text \<open>Overwriting the bytes of one record, in place and at the same length.\<close>

lemma slots_at_update:
  assumes "slots_at bytes_of pl rs i tail body" and "j < length rs"
    and "length (bytes_of r') = length (bytes_of (rs ! j))"
    and "slot_offset body pl (i + j) = Ok off"
    and "slice body' off (off + length (bytes_of r')) = Ok (bytes_of r')"
    and "\<And>a b. a \<le> b \<Longrightarrow> b \<le> off \<or> off + length (bytes_of r') \<le> a \<Longrightarrow> slice body' a b = slice body a b"
    and "24 + pl + 2 * (i + length rs) + sum_list (map (\<lambda>r. length (bytes_of r)) rs) \<le> tail"
  shows "slots_at bytes_of pl (rs[j := r']) i tail body'"
  using assms
proof (induction rs arbitrary: i tail j)
  case (Cons r rs)
  let ?off = "tail - length (bytes_of r)"
  have here: "slot_offset body pl i = Ok ?off" "slice body ?off tail = Ok (bytes_of r)"
      "slots_at bytes_of pl rs (i + 1) ?off body" "length (bytes_of r) \<le> tail"
    using Cons.prems(1) by auto
  have offlo: "24 + pl + 2 * (i + length (r # rs)) \<le> off"
    using slots_at_nth [OF Cons.prems(1,2)] Cons.prems(4,7) by auto
  have slots: "slot_offset body' pl m = slot_offset body pl m" if "m < i + length (r # rs)" for m
    using Cons.prems(6) [of "24 + pl + m * 2" "24 + pl + m * 2 + 2"] that offlo
    by (simp add: slot_offset_def read_u16_le_def HEADER_LEN_def)
  show ?case
  proof (cases j)
    case 0
    then have off: "off = ?off" using Cons.prems(4) here(1) by simp
    have "slots_at bytes_of pl rs (i + 1) ?off body'"
    proof (rule slots_at_frame [OF here(3)])
      show "slice body' a b = slice body a b" if "a \<le> b" "b \<le> 24 + pl + 2 * (i + 1 + length rs)" for a b
        using Cons.prems(6) [of a b] that offlo by simp
      show "slice body' a b = slice body a b" if "b \<le> ?off" for a b
        using Cons.prems(6) [of a b] that off by (cases "a \<le> b") (auto simp: slice_def)
    qed
    then show ?thesis
      using 0 off Cons.prems(3,5) slots [of i] here by (auto simp: add.commute)
  next
    case (Suc j')
    have nth: "off + length (bytes_of r') \<le> ?off"
      using slots_at_nth [OF here(3), of j'] Cons.prems(2,3,4) Suc by auto
    have "slots_at bytes_of pl (rs[j' := r']) (i + 1) ?off body'"
      by (rule Cons.IH) (use Cons.prems here Suc in auto)
    moreover have "slice body' ?off tail = slice body ?off tail"
      using Cons.prems(6) [of ?off tail] nth by simp
    ultimately show ?thesis using Suc slots [of i] here by simp
  qed
qed simp

end
