(* ===== verification/Sorted_Vec.thy ===== *)
theory Sorted_Vec
  imports Prelude
begin

text \<open>
  Key-sorted vectors of records, the representation of a decoded leaf and of an internal node's
  separators: search, insertion, replacement and removal by index, and their meaning as updates
  of the finite map the vector stores.
\<close>

section \<open>Operations\<close>

text \<open>\<open>binary_search_by(|(k, _)| k.cmp(key))\<close> over a whole vector.\<close>

definition key_search :: "(key \<times> 'v) list \<Rightarrow> key \<Rightarrow> nat + nat" where
  "key_search rs k = binary_search_by (\<lambda>(k', _). cmp k' k) rs 0 (length rs)"

definition vec_insert :: "nat \<Rightarrow> 'a \<Rightarrow> 'a list \<Rightarrow> 'a list" where
  "vec_insert i x xs = take i xs @ x # drop i xs"

definition vec_remove :: "nat \<Rightarrow> 'a list \<Rightarrow> 'a list" where
  "vec_remove i xs = take i xs @ drop (Suc i) xs"

section \<open>Search\<close>

lemma sorted_keys_nth_less:
  "sorted_keys rs \<Longrightarrow> i < j \<Longrightarrow> j < length rs \<Longrightarrow> fst (rs ! i) < fst (rs ! j)"
  by (simp add: sorted_wrt_iff_nth_less)

lemma sorted_keys_distinct: "sorted_keys rs \<Longrightarrow> distinct (map fst rs)"
  by (simp add: strict_sorted_iff)

lemma key_search_hit:
  "key_search rs k = Inl i \<Longrightarrow> i < length rs \<and> fst (rs ! i) = k"
  using binary_search_by_bounds [of 0 "length rs" rs "\<lambda>(k', _). cmp k' k"]
  by (auto simp: key_search_def split: prod.splits)

lemma key_search_le: "key_search rs k = Inr i \<Longrightarrow> i \<le> length rs"
  using binary_search_by_bounds [of 0 "length rs" rs "\<lambda>(k', _). cmp k' k"]
  by (auto simp: key_search_def)

lemma key_search_miss:
  assumes "sorted_keys rs" and "key_search rs k = Inr i"
  shows "\<forall>j < i. fst (rs ! j) < k" and "\<forall>j. i \<le> j \<longrightarrow> j < length rs \<longrightarrow> k < fst (rs ! j)"
proof -
  have f: "(\<lambda>(k', _). cmp k' k) = (\<lambda>r. cmp (fst r) k)" by auto
  have lt: "fst (rs ! a) < fst (rs ! b)" if "a < b" "b < length rs" for a b
    using sorted_keys_nth_less [OF assms(1) that] .
  have "(\<forall>j < i. cmp (fst (rs ! j)) k = Less) \<and>
        (\<forall>j. i \<le> j \<longrightarrow> j < length rs \<longrightarrow> cmp (fst (rs ! j)) k = Greater)"
    by (rule binary_search_by_miss [of rs "\<lambda>r. cmp (fst r) k" 0 "length rs"])
      (use assms(2) lt in \<open>auto simp: key_search_def f intro: less_trans\<close>)
  then show "\<forall>j < i. fst (rs ! j) < k" "\<forall>j. i \<le> j \<longrightarrow> j < length rs \<longrightarrow> k < fst (rs ! j)"
    by auto
qed

lemma key_search_miss_notin:
  assumes "sorted_keys rs" and "key_search rs k = Inr i"
  shows "k \<notin> fst ` set rs"
proof
  assume "k \<in> fst ` set rs"
  then obtain j where "j < length rs" "fst (rs ! j) = k"
    by (auto simp: in_set_conv_nth)
  then show False
    using key_search_miss [OF assms] by (metis less_irrefl not_le_imp_less)
qed

lemma key_search_map_of:
  assumes "sorted_keys rs"
  shows "map_of rs k = (case key_search rs k of Inl i \<Rightarrow> Some (snd (rs ! i)) | Inr i \<Rightarrow> None)"
proof (cases "key_search rs k")
  case (Inl i)
  then have i: "i < length rs" "fst (rs ! i) = k" using key_search_hit by auto
  then have "(k, snd (rs ! i)) \<in> set rs" by (metis nth_mem prod.collapse)
  with Inl show ?thesis
    using map_of_is_SomeI [OF sorted_keys_distinct [OF assms]] by auto
next
  case (Inr i)
  then show ?thesis
    using key_search_miss_notin [OF assms Inr] by (simp add: map_of_eq_None_iff)
qed

text \<open>The insertion point splits a sorted vector into the smaller and the greater keys.\<close>

lemma key_search_split:
  assumes "sorted_keys rs" and "key_search rs k = Inr i"
  shows "\<forall>r \<in> set (take i rs). fst r < k" and "\<forall>r \<in> set (drop i rs). k < fst r"
proof -
  note miss = key_search_miss [OF assms] and le = key_search_le [OF assms(2)]
  show "\<forall>r \<in> set (take i rs). fst r < k"
  proof
    fix r assume "r \<in> set (take i rs)"
    then obtain j where "j < i" "r = rs ! j" using le by (force simp: in_set_conv_nth)
    then show "fst r < k" using miss(1) by simp
  qed
  show "\<forall>r \<in> set (drop i rs). k < fst r"
  proof
    fix r assume "r \<in> set (drop i rs)"
    then obtain j where "i + j < length rs" "r = rs ! (i + j)"
      using le by (force simp: in_set_conv_nth)
    then show "k < fst r" using miss(2) by simp
  qed
qed

section \<open>Updates\<close>

lemma sorted_keys_append:
  "sorted_keys (xs @ ys) \<longleftrightarrow>
     sorted_keys xs \<and> sorted_keys ys \<and> (\<forall>x \<in> set xs. \<forall>y \<in> set ys. fst x < fst y)"
  by (auto simp: sorted_wrt_append)

lemma sorted_keys_take_drop:
  assumes "sorted_keys rs"
  shows "sorted_keys (take i rs)" and "sorted_keys (drop i rs)"
    and "\<forall>x \<in> set (take i rs). \<forall>y \<in> set (drop i rs). fst x < fst y"
  using assms sorted_keys_append [of "take i rs" "drop i rs"] by auto

lemma vec_insert_sorted:
  assumes "sorted_keys rs" and "key_search rs k = Inr i"
  shows "sorted_keys (vec_insert i (k, v) rs)"
  using sorted_keys_take_drop [OF assms(1), of i] key_search_split [OF assms]
  by (auto simp: vec_insert_def sorted_wrt_append)

lemma vec_insert_map_of:
  assumes "sorted_keys rs" and "key_search rs k = Inr i"
  shows "map_of (vec_insert i (k, v) rs) = (map_of rs)(k \<mapsto> v)"
proof -
  have "map_of rs = map_of (take i rs @ drop i rs)" by simp
  then have split: "map_of rs = map_of (drop i rs) ++ map_of (take i rs)"
    by (simp only: map_of_append)
  have "map_of (take i rs) k = None"
    using key_search_split(1) [OF assms] by (auto simp: map_of_eq_None_iff)
  then show ?thesis
    unfolding split vec_insert_def
    by (auto simp: fun_eq_iff map_add_def split: option.splits)
qed

lemma map_fst_update_same:
  "i < length rs \<Longrightarrow> fst (rs ! i) = k \<Longrightarrow> map fst (rs[i := (k, v)]) = map fst rs"
  by (auto simp: map_update list_update_same_conv)

lemma list_update_map_of:
  assumes "sorted_keys rs" and "i < length rs" and "fst (rs ! i) = k"
  shows "map_of (rs[i := (k, v)]) = (map_of rs)(k \<mapsto> v)"
proof
  fix x
  have "distinct (map fst (rs[i := (k, v)]))" and d: "distinct (map fst rs)"
    using assms map_fst_update_same [of i rs k v] sorted_keys_distinct by auto
  have nth: "map_of rs (fst (rs ! j)) = Some (snd (rs ! j))" if "j < length rs" for j
    using that d by (metis map_of_is_SomeI nth_mem prod.collapse)
  have nth': "map_of (rs[i := (k, v)]) (fst (rs ! j)) = Some (snd (rs[i := (k, v)] ! j))"
    if "j < length rs" for j
  proof -
    have "rs[i := (k, v)] ! j \<in> set (rs[i := (k, v)])" using that by simp
    moreover have "fst (rs[i := (k, v)] ! j) = fst (rs ! j)"
      using assms that by (cases "i = j") auto
    ultimately show ?thesis
      using \<open>distinct (map fst (rs[i := (k, v)]))\<close> by (metis map_of_is_SomeI prod.collapse)
  qed
  show "map_of (rs[i := (k, v)]) x = ((map_of rs)(k \<mapsto> v)) x"
  proof (cases "x \<in> fst ` set rs")
    case True
    then obtain j where j: "j < length rs" "x = fst (rs ! j)" by (auto simp: in_set_conv_nth)
    have "x = k \<longleftrightarrow> j = i"
      using j assms(2,3) d by (auto simp: distinct_conv_nth)
    then show ?thesis using nth [OF j(1)] nth' [OF j(1)] j by auto
  next
    case False
    moreover have "fst ` set (rs[i := (k, v)]) = fst ` set rs"
      using map_fst_update_same [OF assms(2,3), of v] by (metis list.set_map)
    ultimately have "map_of rs x = None" "map_of (rs[i := (k, v)]) x = None"
      by (auto simp: map_of_eq_None_iff)
    moreover have "x \<noteq> k" using False assms(2,3) by auto
    ultimately show ?thesis by simp
  qed
qed

lemma vec_remove_split:
  "i < length rs \<Longrightarrow> rs = take i rs @ rs ! i # drop (Suc i) rs"
  by (rule id_take_nth_drop)

lemma vec_remove_sorted: "sorted_keys rs \<Longrightarrow> sorted_keys (vec_remove i rs)"
proof (cases "i < length rs")
  case True
  assume "sorted_keys rs"
  then have "sorted_keys (take i rs @ rs ! i # drop (Suc i) rs)"
    using vec_remove_split [OF True] by simp
  then show ?thesis by (auto simp: vec_remove_def sorted_wrt_append)
qed (simp add: vec_remove_def)

lemma vec_remove_map_of:
  assumes "sorted_keys rs" and "i < length rs" and "fst (rs ! i) = k"
  shows "map_of (vec_remove i rs) = (map_of rs)(k := None)"
proof -
  let ?a = "take i rs" and ?b = "drop (Suc i) rs"
  have eq: "rs = ?a @ (k, snd (rs ! i)) # ?b"
    using vec_remove_split [OF assms(2)] assms(3) by (metis prod.collapse)
  have "sorted_keys (?a @ (k, snd (rs ! i)) # ?b)" using assms(1) eq by simp
  then have "map_of ?a k = None" "map_of ?b k = None"
    by (auto simp: sorted_wrt_append map_of_eq_None_iff)
  moreover have "map_of rs = map_of (?a @ (k, snd (rs ! i)) # ?b)" using eq by simp
  ultimately show ?thesis
    unfolding vec_remove_def
    by (auto simp: fun_eq_iff map_add_def split: option.splits)
qed

section \<open>The contract of an ordered map\<close>

text \<open>
  What the tree relies on in a decoded leaf: an invariant every operation keeps, and lookup,
  update and delete that act on the abstract map as their names say.
\<close>

locale ordered_map =
  fixes lookup :: "'m \<Rightarrow> key \<Rightarrow> 'v option"
    and update :: "key \<Rightarrow> 'v \<Rightarrow> 'm \<Rightarrow> 'm"
    and invar :: "'m \<Rightarrow> bool"
  assumes lookup_update: "invar m \<Longrightarrow> lookup (update k v m) = (lookup m)(k \<mapsto> v)"
    and invar_update: "invar m \<Longrightarrow> invar (update k v m)"
begin

lemma invar_batch: "invar m \<Longrightarrow> invar (fold (\<lambda>(k, v). update k v) kvs m)"
  by (induction kvs arbitrary: m) (auto simp: invar_update)

text \<open>A batch of updates is last-writer-wins.\<close>

lemma lookup_batch:
  "invar m \<Longrightarrow> lookup (fold (\<lambda>(k, v). update k v) kvs m) = lookup m ++ map_of (rev kvs)"
proof (induction kvs arbitrary: m)
  case Nil
  then show ?case by simp
next
  case (Cons kv kvs)
  obtain k v where kv: "kv = (k, v)" by (cases kv)
  have "lookup (fold (\<lambda>(k, v). update k v) kvs (update k v m)) =
      (lookup m)(k \<mapsto> v) ++ map_of (rev kvs)"
    using Cons.IH [OF invar_update [OF Cons.prems], of k v] lookup_update [OF Cons.prems, of k v]
    by (simp only:)
  then show ?case by (auto simp: kv fun_eq_iff map_add_def split: option.splits)
qed

end

locale ordered_map_delete = ordered_map +
  fixes delete :: "key \<Rightarrow> 'm \<Rightarrow> 'm"
  assumes lookup_delete: "invar m \<Longrightarrow> lookup (delete k m) = (lookup m)(k := None)"
    and invar_delete: "invar m \<Longrightarrow> invar (delete k m)"
begin

lemma delete_update: "invar m \<Longrightarrow> lookup (delete k (update k v m)) = lookup (delete k m)"
  by (simp add: lookup_delete lookup_update invar_update)

lemma lookup_delete_batch:
  "invar m \<Longrightarrow> lookup (fold delete ks m) = (lookup m) |` (- set ks)"
proof (induction ks arbitrary: m)
  case Nil
  then show ?case by simp
next
  case (Cons k ks)
  then show ?case
    by (auto simp: lookup_delete invar_delete restrict_map_def fun_eq_iff)
qed

end

end
