(* ===== verification/Leaf_Node.thy ===== *)
theory Leaf_Node
  imports Node Sorted_Vec
begin

text \<open>
  Leaf pages (\<open>btree/leaf.rs\<close>): the decoded form with its sorted record vector, the
  prefix-compressed page codec, the fit checks, and the accessor that reads a page in place.
\<close>

section \<open>Values and decoded leaves\<close>

datatype leaf_value = Inline bytes | OverflowRef u64 u64

definition OVERFLOW_REF_ENCODED_SIZE :: nat where
  "OVERFLOW_REF_ENCODED_SIZE = 2 + 8 + 8"

fun encoded_size :: "leaf_value \<Rightarrow> nat" where
  "encoded_size (Inline v) = 2 + length v"
| "encoded_size (OverflowRef _ _) = OVERFLOW_REF_ENCODED_SIZE"

type_synonym leaf_record = "key \<times> leaf_value"

record leaf =
  left_sibling :: page_id
  right_sibling :: page_id
  records :: "leaf_record list"

definition new_leaf :: leaf where
  "new_leaf = \<lparr> left_sibling = 0, right_sibling = 0, records = [] \<rparr>"

section \<open>Common prefix\<close>

fun lcp_len :: "(key \<times> 'v) list \<Rightarrow> nat" where
  "lcp_len [] = 0"
| "lcp_len [r] = length (fst r)"
| "lcp_len (r # rs) = length (takeWhile (\<lambda>(a, b). a = b) (zip (fst r) (fst (last rs))))"

definition lcp :: "(key \<times> 'v) list \<Rightarrow> bytes" where
  "lcp rs = (case rs of [] \<Rightarrow> [] | r # _ \<Rightarrow> take (lcp_len rs) (fst r))"

section \<open>Page codec\<close>

definition decode_record :: "bytes \<Rightarrow> nat \<Rightarrow> (bytes \<times> leaf_value) result" where
  "decode_record body off =
     rbind (rmap unat (read_u16_le body off)) (\<lambda>suffix_len.
     rbind (slice body (off + 2) (off + 2 + suffix_len)) (\<lambda>suffix.
     rbind (read_u16_le body (off + 2 + suffix_len)) (\<lambda>value_len_raw.
     if value_len_raw = OVERFLOW_SENTINEL then
       rbind (read_u64_le body (off + 2 + suffix_len + 2)) (\<lambda>total_len.
       rbind (read_u64_le body (off + 2 + suffix_len + 2 + 8)) (\<lambda>root_page_id.
       Ok (suffix, OverflowRef total_len root_page_id)))
     else
       (let vlen = unat value_len_raw; start = off + 2 + suffix_len + 2 in
        rbind (slice body start (start + vlen)) (\<lambda>val. Ok (suffix, Inline val))))))"

definition decode_leaf :: "bytes \<Rightarrow> leaf result" where
  "decode_leaf body =
     rbind (validate_node_body body) (\<lambda>h.
     if hdr_kind h \<noteq> Leaf
     then Err (Corruption (NodeKindMismatch None ''leaf'' ''internal''))
     else
       (let prefix_len = unat (hdr_prefix_len h) in
        rbind (slice body HEADER_LEN (HEADER_LEN + prefix_len)) (\<lambda>prefix_bytes.
        rbind (traverse (\<lambda>i.
            rbind (slot_offset body prefix_len i) (\<lambda>off.
            rbind (decode_record body off) (\<lambda>(suffix, val).
            Ok (prefix_bytes @ suffix, val)))) [0..<unat (hdr_slot_count h)]) (\<lambda>rs.
        Ok \<lparr> left_sibling = hdr_left_sibling h, right_sibling = hdr_dual_use h,
             records = rs \<rparr>))))"

definition record_bytes_len :: "nat \<Rightarrow> leaf_record list \<Rightarrow> nat" where
  "record_bytes_len prefix_len rs =
     sum_list (map (\<lambda>(k, v). 2 + (length k - prefix_len) + encoded_size v) rs)"

definition encode_record :: "bytes \<Rightarrow> nat \<Rightarrow> bytes \<Rightarrow> leaf_value \<Rightarrow> bytes result" where
  "encode_record body off suffix v =
     rbind (of_option (Io ''suffix_len overflow'') (u16_try_from (length suffix))) (\<lambda>suffix_len.
     rbind (write_u16_le body off suffix_len) (\<lambda>body.
     rbind (write_at body (off + 2) suffix) (\<lambda>body.
     let after_key = off + 2 + length suffix in
     case v of
       Inline val \<Rightarrow>
         rbind (of_option (Io ''value_len overflow'') (u16_try_from (length val))) (\<lambda>value_len.
         rbind (write_u16_le body after_key value_len) (\<lambda>body.
         write_at body (after_key + 2) val))
     | OverflowRef tlen root \<Rightarrow>
         if is_reserved root then Err (Panic ''encoding leaf record with wild overflow root_page_id'')
         else
           rbind (write_u16_le body after_key OVERFLOW_SENTINEL) (\<lambda>body.
           rbind (write_u64_le body (after_key + 2) tlen) (\<lambda>body.
           write_u64_le body (after_key + 2 + 8) root)))))"

primrec encode_records ::
  "nat \<Rightarrow> leaf_record list \<Rightarrow> nat \<Rightarrow> nat \<Rightarrow> bytes \<Rightarrow> bytes result" where
  "encode_records prefix_len [] i tail body = Ok body"
| "encode_records prefix_len (r # rs) i tail body =
     (let (k, v) = r in
      rbind (slice k prefix_len (length k)) (\<lambda>suffix.
      let rec_size = 2 + length suffix + encoded_size v in
      if tail < rec_size then Err (Panic ''attempt to subtract with overflow'')
      else
        (let off = tail - rec_size in
         rbind (encode_record body off suffix v) (\<lambda>body.
         rbind (of_option (Io ''record_offset overflow'') (u16_try_from off)) (\<lambda>off16.
         rbind (write_slot_offset body prefix_len i off16) (\<lambda>body.
         encode_records prefix_len rs (i + 1) off body))))))"

definition encode_leaf :: "leaf \<Rightarrow> bytes \<Rightarrow> bytes result" where
  "encode_leaf self body =
     (let cap = length body;
          prefix = lcp (records self);
          prefix_len = length prefix;
          slot_count = length (records self);
          needed = HEADER_LEN + prefix_len + slot_count * 2
                     + record_bytes_len prefix_len (records self) in
      if needed > cap then Err PayloadTooLarge
      else
        rbind (of_option (Io ''slot_count overflow'') (u16_try_from slot_count)) (\<lambda>sc.
        rbind (of_option (Io ''prefix_len overflow'') (u16_try_from prefix_len)) (\<lambda>pl.
        rbind (write_header body Leaf sc pl (left_sibling self) (right_sibling self)) (\<lambda>body.
        rbind (write_at body HEADER_LEN (replicate (cap - HEADER_LEN) 0)) (\<lambda>body.
        rbind (write_at body HEADER_LEN prefix) (\<lambda>body.
        encode_records prefix_len (records self) 0 cap body))))))"

section \<open>Record operations\<close>

definition position :: "leaf \<Rightarrow> key \<Rightarrow> nat + nat" where
  "position self k = key_search (records self) k"

definition upsert :: "leaf \<Rightarrow> key \<Rightarrow> leaf_value \<Rightarrow> leaf \<times> bool \<times> leaf_value option" where
  "upsert self k v =
     (case position self k of
        Inl i \<Rightarrow>
          (let (k', old) = records self ! i in
           (self\<lparr>records := (records self)[i := (k', v)]\<rparr>, False, Some old))
      | Inr i \<Rightarrow> (self\<lparr>records := vec_insert i (k, v) (records self)\<rparr>, True, None))"

definition remove :: "leaf \<Rightarrow> key \<Rightarrow> leaf \<times> leaf_value option" where
  "remove self k =
     (case position self k of
        Inl i \<Rightarrow>
          (self\<lparr>records := vec_remove i (records self)\<rparr>, Some (snd (records self ! i)))
      | Inr _ \<Rightarrow> (self, None))"

definition get :: "leaf \<Rightarrow> key \<Rightarrow> leaf_value option" where
  "get self k =
     (case position self k of
        Inl i \<Rightarrow> Some (snd (records self ! i))
      | Inr _ \<Rightarrow> None)"

definition slice_fits :: "leaf_record list \<Rightarrow> nat \<Rightarrow> bool" where
  "slice_fits rs page_size \<longleftrightarrow>
     (let prefix_len = lcp_len rs in
      HEADER_LEN + prefix_len + length rs * 2 + record_bytes_len prefix_len rs
        \<le> body_capacity page_size)"

definition fits :: "leaf \<Rightarrow> nat \<Rightarrow> bool" where
  "fits self page_size = slice_fits (records self) page_size"

definition single_record_fits_encoded :: "nat \<Rightarrow> nat \<Rightarrow> nat \<Rightarrow> bool" where
  "single_record_fits_encoded key_len value_encoded_size page_size \<longleftrightarrow>
     (if key_len > 0xFFFF then False
      else
        (case Option.bind (checked_add HEADER_LEN key_len)
               (\<lambda>size. Option.bind (checked_add size 2)
               (\<lambda>size. Option.bind (checked_add size 2)
               (\<lambda>size. checked_add size value_encoded_size))) of
           None \<Rightarrow> False
         | Some needed \<Rightarrow> needed \<le> body_capacity page_size))"

section \<open>Reading a page in place\<close>

datatype leaf_value_loc = InlineAt nat nat | OverflowAt u64 u64

record leaf_accessor =
  la_body :: bytes
  la_prefix_len :: nat
  la_slot_count :: nat

definition leaf_from_header :: "bytes \<Rightarrow> node_header \<Rightarrow> leaf_accessor result" where
  "leaf_from_header body h =
     (if hdr_kind h \<noteq> Leaf
      then Err (Corruption (NodeKindMismatch None ''leaf'' ''internal''))
      else Ok \<lparr> la_body = body, la_prefix_len = unat (hdr_prefix_len h),
                la_slot_count = unat (hdr_slot_count h) \<rparr>)"

definition leaf_from_guard :: "bytes \<Rightarrow> bool \<Rightarrow> leaf_accessor result \<times> bool" where
  "leaf_from_guard body memo =
     (let (r, memo') = validate_node_body_memoised body memo in
      (rbind r (leaf_from_header body), memo'))"

definition acc_prefix :: "leaf_accessor \<Rightarrow> bytes result" where
  "acc_prefix self = slice (la_body self) HEADER_LEN (HEADER_LEN + la_prefix_len self)"

definition acc_suffix :: "leaf_accessor \<Rightarrow> nat \<Rightarrow> bytes result" where
  "acc_suffix self idx =
     rbind (slot_offset (la_body self) (la_prefix_len self) idx) (\<lambda>off.
     rbind (rmap unat (read_u16_le (la_body self) off)) (\<lambda>suffix_len.
     slice (la_body self) (off + 2) (off + 2 + suffix_len)))"

definition cmp_slot_to_query :: "leaf_accessor \<Rightarrow> nat \<Rightarrow> key \<Rightarrow> ordering result" where
  "cmp_slot_to_query self idx query =
     rbind (acc_prefix self) (\<lambda>prefix.
     rbind (acc_suffix self idx) (\<lambda>suffix.
     let n = min (length prefix) (length query) in
     Ok (case cmp (take n prefix) (take n query) of
           Equal \<Rightarrow>
             if length query \<le> length prefix then
               (if length query < length prefix \<or> suffix \<noteq> [] then Greater else Equal)
             else cmp suffix (drop (length prefix) query)
         | non_eq \<Rightarrow> non_eq)))"

function find_loop :: "leaf_accessor \<Rightarrow> key \<Rightarrow> nat \<Rightarrow> nat \<Rightarrow> nat option result" where
  "find_loop self query lo hi =
     (if lo < hi then
        (let mid = lo + (hi - lo) div 2 in
         case cmp_slot_to_query self mid query of
           Err e \<Rightarrow> Err e
         | Ok Less \<Rightarrow> find_loop self query (mid + 1) hi
         | Ok Greater \<Rightarrow> find_loop self query lo mid
         | Ok Equal \<Rightarrow> Ok (Some mid))
      else Ok None)"
  by pat_completeness auto
termination
  by (relation "measure (\<lambda>(self, query, lo, hi). hi - lo)") (auto simp: Let_def)

declare find_loop.simps [simp del]

definition leaf_find :: "leaf_accessor \<Rightarrow> key \<Rightarrow> nat option result" where
  "leaf_find self query = find_loop self query 0 (la_slot_count self)"

definition value_loc :: "leaf_accessor \<Rightarrow> nat \<Rightarrow> leaf_value_loc result" where
  "value_loc self idx =
     rbind (slot_offset (la_body self) (la_prefix_len self) idx) (\<lambda>off.
     rbind (rmap unat (read_u16_le (la_body self) off)) (\<lambda>suffix_len.
     let after_key = off + 2 + suffix_len in
     rbind (read_u16_le (la_body self) after_key) (\<lambda>value_len_raw.
     if value_len_raw = OVERFLOW_SENTINEL then
       rbind (read_u64_le (la_body self) (after_key + 2)) (\<lambda>total_len.
       rbind (read_u64_le (la_body self) (after_key + 2 + 8)) (\<lambda>root_page_id.
       Ok (OverflowAt total_len root_page_id)))
     else
       (let start = after_key + 2 in
        Ok (InlineAt start (start + unat value_len_raw))))))"

section \<open>Well-formed leaves\<close>

text \<open>
  A value the encoder lays out faithfully: an inline length the sentinel does not shadow, an
  overflow root the allocator may have handed out.
\<close>

fun value_ok :: "leaf_value \<Rightarrow> bool" where
  "value_ok (Inline v) = (length v < 0xFFFF)"
| "value_ok (OverflowRef _ root) = (\<not> is_reserved root)"

definition wf_records :: "leaf_record list \<Rightarrow> bool" where
  "wf_records rs \<longleftrightarrow> sorted_keys rs \<and> list_all (\<lambda>(_, v). value_ok v) rs"

section \<open>Record codec\<close>

definition value_bytes :: "leaf_value \<Rightarrow> bytes" where
  "value_bytes v =
     (case v of
        Inline val \<Rightarrow> u16_to_le_bytes (of_nat (length val)) @ val
      | OverflowRef t r \<Rightarrow>
          u16_to_le_bytes OVERFLOW_SENTINEL @ u64_to_le_bytes t @ u64_to_le_bytes r)"

definition record_bytes :: "bytes \<Rightarrow> leaf_value \<Rightarrow> bytes" where
  "record_bytes suffix v = u16_to_le_bytes (of_nat (length suffix)) @ suffix @ value_bytes v"

lemma length_value_bytes [simp]: "length (value_bytes v) = encoded_size v"
  by (cases v) (simp_all add: value_bytes_def OVERFLOW_REF_ENCODED_SIZE_def)

lemma length_record_bytes [simp]:
  "length (record_bytes suffix v) = 2 + length suffix + encoded_size v"
  by (simp add: record_bytes_def)

lemma encode_record_eq:
  assumes "length suffix < 2 ^ 16" and "value_ok v"
  shows "encode_record body off suffix v = write_at body off (record_bytes suffix v)"
  using assms
  by (cases v)
    (simp_all add: encode_record_def write_u16_le_def write_u64_le_def record_bytes_def
      value_bytes_def u16_try_from_def of_option_def Let_def write_at_append_bind write_at_append)

lemma sentinel_neq:
  assumes "n < 0xFFFF"
  shows "(of_nat n :: u16) \<noteq> OVERFLOW_SENTINEL"
proof
  assume "of_nat n = OVERFLOW_SENTINEL"
  then have "unat (of_nat n :: u16) = unat (0xFFFF :: u16)" by (simp add: OVERFLOW_SENTINEL_def)
  then show False using assms by simp
qed

text \<open>A record read back from a region that holds its bytes.\<close>

lemma decode_record_of_bytes:
  assumes "length suffix < 2 ^ 16" and "value_ok v"
  shows "decode_record (record_bytes suffix v) 0 = Ok (suffix, v)"
proof (cases v)
  case (Inline val)
  then show ?thesis
    using assms sentinel_neq [of "length val"]
    by (simp add: decode_record_def read_u16_le_def record_bytes_def value_bytes_def slice_def
        Let_def)
next
  case (OverflowRef t r)
  then show ?thesis
    using assms
    by (simp add: decode_record_def read_u16_le_def read_u64_le_def record_bytes_def
        value_bytes_def slice_def Let_def)
qed

lemma decode_record_slice:
  assumes "slice body off (off + length bs) = Ok bs" and "decode_record bs 0 = Ok (suffix, v)"
  shows "decode_record body off = Ok (suffix, v)"
proof -
  have sub: "slice body (off + i) (off + j) = Ok xs" if "slice bs i j = Ok xs" for i j xs
    using that slice_slice [OF assms(1), of i j] by (auto simp: slice_eq_Ok)
  have u16: "read_u16_le body (off + i) = Ok w" if "read_u16_le bs i = Ok w" for i w
    using that sub [of i "i + 2"] by (auto simp: read_u16_le_def result_simps add.assoc)
  have u64: "read_u64_le body (off + i) = Ok w" if "read_u64_le bs i = Ok w" for i w
    using that sub [of i "i + 8"] by (auto simp: read_u64_le_def result_simps add.assoc)
  show ?thesis
    using assms(2) u16 [of 0] u16 u64 sub
    by (auto simp: decode_record_def rbind_eq_Ok rmap_eq_Ok Let_def add.assoc
        simp del: add_2_eq_Suc add_2_eq_Suc' split: if_splits)
qed

lemma validate_leaf_record_iff:
  assumes "length body < 2 ^ 64"
  shows "validate_leaf_record body off = Ok () \<longleftrightarrow> is_ok (decode_record body off)"
  using assms
  by (auto simp: validate_leaf_record_def decode_record_def result_simps is_ok_iff Let_def
      read_u16_le_def read_u64_le_def)

lemma validate_leaf_record_decode:
  "validate_leaf_record body off = Ok () \<Longrightarrow> is_ok (decode_record body off)"
  by (auto simp: validate_leaf_record_def decode_record_def result_simps is_ok_iff Let_def
      read_u16_le_def read_u64_le_def split: if_splits)


section \<open>Common prefix\<close>

lemma takeWhile_zip_prefix:
  "take (length (takeWhile (\<lambda>(a, b). a = b) (zip xs ys))) xs =
   take (length (takeWhile (\<lambda>(a, b). a = b) (zip xs ys))) ys \<and>
   length (takeWhile (\<lambda>(a, b). a = b) (zip xs ys)) \<le> min (length xs) (length ys)"
  by (induction xs ys rule: list_induct2') auto

lemma lex_between:
  fixes p :: "'a::linorder list"
  shows "p @ f \<le> k \<Longrightarrow> k \<le> p @ l \<Longrightarrow> \<exists>s. k = p @ s"
proof (induction p arbitrary: k)
  case (Cons a p)
  then show ?case by (cases k) auto
qed simp

lemma sorted_keys_hd_last:
  assumes "sorted_keys rs" and "r \<in> set rs"
  shows "fst (hd rs) \<le> fst r" and "fst r \<le> fst (last rs)"
proof -
  obtain i where i: "i < length rs" "r = rs ! i" using assms(2) by (auto simp: in_set_conv_nth)
  have ne: "rs \<noteq> []" using assms(2) by auto
  show "fst (hd rs) \<le> fst r"
    using i sorted_keys_nth_less [OF assms(1), of 0 i] ne by (cases i) (auto simp: hd_conv_nth)
  show "fst r \<le> fst (last rs)"
    using i sorted_keys_nth_less [OF assms(1), of i "length rs - 1"] ne
    by (cases "i = length rs - 1") (fastforce simp: last_conv_nth)+
qed

lemma lcp_prefix_first_last:
  "rs \<noteq> [] \<Longrightarrow> \<exists>f l. fst (hd rs) = lcp rs @ f \<and> fst (last rs) = lcp rs @ l"
proof (induction rs rule: lcp_len.induct)
  case (3 r r' rs)
  let ?n = "length (takeWhile (\<lambda>(a, b). a = b) (zip (fst r) (fst (last (r' # rs)))))"
  have L: "lcp (r # r' # rs) = take ?n (fst r)" by (simp add: lcp_def)
  have "take ?n (fst r) = take ?n (fst (last (r' # rs)))"
    using takeWhile_zip_prefix [of "fst r" "fst (last (r' # rs))"] by blast
  then have "take ?n (fst r) @ drop ?n (fst (last (r' # rs))) = fst (last (r' # rs))"
    by (simp only: append_take_drop_id)
  then have "fst (last (r # r' # rs)) = lcp (r # r' # rs) @ drop ?n (fst (last (r' # rs)))"
    by (simp add: L)
  moreover have "fst (hd (r # r' # rs)) = lcp (r # r' # rs) @ drop ?n (fst r)"
    by (simp add: L)
  ultimately show ?case by blast
qed (auto simp: lcp_def)

lemma length_lcp [simp]: "length (lcp rs) = lcp_len rs"
proof (induction rs rule: lcp_len.induct)
  case (3 r r' rs)
  then show ?case
    using takeWhile_zip_prefix [of "fst r" "fst (last (r' # rs))"] by (simp add: lcp_def)
qed (auto simp: lcp_def)

text \<open>On sorted records the prefix of the first and the last key is shared by every key.\<close>

lemma lcp_common:
  assumes "sorted_keys rs" and "(k, v) \<in> set rs"
  shows "k = lcp rs @ drop (lcp_len rs) k" and "lcp_len rs \<le> length k"
proof -
  obtain f l where "fst (hd rs) = lcp rs @ f" "fst (last rs) = lcp rs @ l"
    using lcp_prefix_first_last [of rs] assms(2) by (metis list.set(1) empty_iff)
  then have "\<exists>s. k = lcp rs @ s"
    using sorted_keys_hd_last [OF assms] by (intro lex_between) auto
  then show "k = lcp rs @ drop (lcp_len rs) k" "lcp_len rs \<le> length k"
    by (auto simp flip: length_lcp)
qed

section \<open>Leaf codec\<close>

lemma record_bytes_len_simps [simp]:
  "record_bytes_len pl [] = 0"
  "record_bytes_len pl ((k, v) # rs) =
     2 + (length k - pl) + encoded_size v + record_bytes_len pl rs"
  by (simp_all add: record_bytes_len_def)

lemma record_bytes_len_mem:
  "(k, v) \<in> set rs \<Longrightarrow> 2 + (length k - pl) + encoded_size v \<le> record_bytes_len pl rs"
  by (induction rs) auto

text \<open>Laying out the records is the shared slot writer, applied to each record's bytes.\<close>

interpretation leaf_slots: slotted_records
  "\<lambda>(k, v). record_bytes (drop pl k) v" decode_record "\<lambda>(k, v). (drop pl k, v)"
  "\<lambda>(k, v). pl \<le> length k \<and> length k - pl < 2 ^ 16 \<and> value_ok v" for pl
proof
  fix r :: leaf_record
  assume "case r of (k, v) \<Rightarrow> pl \<le> length k \<and> length k - pl < 2 ^ 16 \<and> value_ok v"
  then show "decode_record (case r of (k, v) \<Rightarrow> record_bytes (drop pl k) v) 0 =
      Ok (case r of (k, v) \<Rightarrow> (drop pl k, v))"
    by (auto intro: decode_record_of_bytes)
next
  fix r :: leaf_record
  show "0 < length (case r of (k, v) \<Rightarrow> record_bytes (drop pl k) v)" by (cases r) simp
next
  fix body bs :: bytes and off x
  assume "slice body off (off + length bs) = Ok bs" "decode_record bs 0 = Ok x"
  then show "decode_record body off = Ok x" by (cases x) (simp add: decode_record_slice)
qed

lemma encode_records_eq:
  "\<forall>(k, v) \<in> set rs. pl \<le> length k \<and> length k - pl < 2 ^ 16 \<and> value_ok v \<Longrightarrow>
   record_bytes_len pl rs \<le> tail \<Longrightarrow> tail \<le> 65536 \<Longrightarrow>
     encode_records pl rs i tail body =
       write_slots (\<lambda>(k, v). record_bytes (drop pl k) v) pl rs i tail body"
proof (induction rs arbitrary: i tail body)
  case (Cons r rs)
  obtain k v where r: "r = (k, v)" by (cases r)
  define suffix where "suffix = drop pl k"
  define size where "size = 2 + length suffix + encoded_size v"
  have kv: "pl \<le> length k" "length suffix < 2 ^ 16" "value_ok v"
    using Cons.prems(1) by (auto simp: r suffix_def)
  have le: "record_bytes_len pl rs \<le> tail - size" "\<not> tail < size" "tail - size < 2 ^ 16"
    using Cons.prems(2,3) by (auto simp: r size_def suffix_def)
  have sl: "slice k pl (length k) = Ok suffix" using kv by (simp add: slice_def suffix_def)
  have off: "of_option e (u16_try_from (tail - size)) = Ok (of_nat (tail - size))" for e
    using le by (simp add: u16_try_from_def)
  have IH: "encode_records pl rs (i + 1) (tail - size) =
      write_slots (\<lambda>(k, v). record_bytes (drop pl k) v) pl rs (i + 1) (tail - size)"
    using Cons.IH [of "tail - size" "i + 1"] Cons.prems(1,3) le(1) by (intro ext) auto
  show ?case
    by (simp only: encode_records.simps write_slots.simps r prod.case Let_def sl rbind.simps
        size_def [symmetric] le(2) if_False encode_record_eq [OF kv(2,3)] off IH
        length_record_bytes suffix_def [symmetric])
qed simp

lemma slot_bytes_len:
  "sum_list (map (\<lambda>r. length (case r of (k, v) \<Rightarrow> record_bytes (drop pl k) v)) rs) =
     record_bytes_len pl rs"
  by (induction rs) auto

lemma leaf_encode_decode:
  assumes "wf_records (records l)" and "fits l page_size"
    and "length body = body_capacity page_size" and "page_size \<le> 65536"
  shows "\<exists>b. encode_leaf l body = Ok b \<and> length b = length body \<and> decode_leaf b = Ok l"
proof -
  let ?rs = "records l" and ?pl = "lcp_len (records l)" and ?n = "length (records l)"
  let ?h = "\<lparr> hdr_kind = Leaf, hdr_slot_count = of_nat ?n, hdr_prefix_len = of_nat ?pl,
              hdr_left_sibling = left_sibling l, hdr_dual_use = right_sibling l \<rparr> :: node_header"
  have sorted: "sorted_keys ?rs" and vals: "\<forall>(k, v) \<in> set ?rs. value_ok v"
    using assms(1) by (auto simp: wf_records_def list_all_iff)
  have need: "24 + ?pl + ?n * 2 + record_bytes_len ?pl ?rs \<le> length body"
    using assms(2,3) by (simp add: fits_def slice_fits_def Let_def HEADER_LEN_def)
  have cap: "length body \<le> 65536" using assms(3,4) by (simp add: body_capacity_def)
  have lt: "?n < 2 ^ 16" "?pl < 2 ^ 16" using need cap by auto
  have recs: "\<forall>(k, v) \<in> set ?rs. ?pl \<le> length k \<and> length k - ?pl < 2 ^ 16 \<and> value_ok v"
  proof (clarify, intro conjI)
    fix k v assume kv: "(k, v) \<in> set ?rs"
    show "?pl \<le> length k" using lcp_common(2) [OF sorted kv] .
    show "value_ok v" using vals kv by auto
    show "length k - ?pl < 2 ^ 16"
      using record_bytes_len_mem [OF kv, of ?pl] need cap by auto
  qed
  obtain b1 where b1: "write_at body 0 (header_bytes Leaf (of_nat ?n) (of_nat ?pl)
      (left_sibling l) (right_sibling l)) = Ok b1"
    using write_at_Ok_if need by force
  obtain b2 where b2: "write_at b1 24 (replicate (length body - 24) 0) = Ok b2"
    using write_at_Ok_if [of 24 _ b1] write_at_length [OF b1] need by force
  obtain b3 where b3: "write_at b2 24 (lcp ?rs) = Ok b3"
    using write_at_Ok_if [of 24 _ b2] write_at_length [OF b1] write_at_length [OF b2] need by force
  have len: "length b3 = length body"
    using write_at_length [OF b1] write_at_length [OF b2] write_at_length [OF b3] by simp
  obtain b where b: "encode_records ?pl ?rs 0 (length body) b3 = Ok b" "length b = length b3"
      "\<And>x y. y \<le> 24 + ?pl \<Longrightarrow> slice b x y = slice b3 x y"
      "\<And>j. j < ?n \<Longrightarrow> \<exists>off. slot_offset b ?pl j = Ok off \<and>
        decode_record b off = Ok (drop ?pl (fst (?rs ! j)), snd (?rs ! j))"
  proof -
    have room: "24 + ?pl + 2 * (0 + ?n) + sum_list (map (\<lambda>r. length (case r of (k, v) \<Rightarrow>
        record_bytes (drop ?pl k) v)) ?rs) \<le> length body"
      unfolding slot_bytes_len using need by simp
    show ?thesis
      using leaf_slots.write_slots_spec [OF recs room, of b3] that
        encode_records_eq [OF recs, of "length body" 0 b3] need cap len
      by (auto simp: case_prod_beta)
  qed
  have enc: "encode_leaf l body = Ok b"
    using need lt b1 b2 b3 b(1)
    by (simp add: encode_leaf_def Let_def HEADER_LEN_def write_header_eq u16_try_from_def
        of_option_def)
  have "slice b 0 24 = Ok (header_bytes Leaf (of_nat ?n) (of_nat ?pl)
      (left_sibling l) (right_sibling l))"
    using b(3) [of 24 0] slice_write_at_other [OF b3, of 24 0] slice_write_at_other [OF b2, of 24 0]
      slice_write_at_same [OF b1, of 24] by simp
  then have hdr: "read_header b = Ok ?h"
    by (simp add: read_header_slice read_header_of_bytes)
  have prefix: "slice b 24 (24 + ?pl) = Ok (lcp ?rs)"
    using b(3) [of "24 + ?pl" 24] slice_write_at_same [OF b3, of "24 + ?pl"] by simp
  have bl: "length b < 2 ^ 64" using b(2) len cap by simp
  have valid: "validate_node_body b = Ok ?h"
    by (rule validate_node_bodyI)
      (use hdr lt need b(2) len bl b(4) in
        \<open>auto simp: HEADER_LEN_def validate_leaf_record_iff is_ok_iff dest!: b(4)\<close>)
  have "traverse (\<lambda>i. rbind (slot_offset b ?pl i) (\<lambda>off.
            rbind (decode_record b off) (\<lambda>(suffix, val). Ok (lcp ?rs @ suffix, val)))) [0..<?n]
        = Ok ?rs"
  proof (unfold traverse_eq_Ok, intro conjI allI impI)
    fix i assume "i < length [0..<?n]"
    then have i: "i < ?n" by simp
    then obtain off where "slot_offset b ?pl i = Ok off"
        "decode_record b off = Ok (drop ?pl (fst (?rs ! i)), snd (?rs ! i))"
      using b(4) by blast
    moreover have "lcp ?rs @ drop ?pl (fst (?rs ! i)) = fst (?rs ! i)"
      using lcp_common(1) [OF sorted, of "fst (?rs ! i)" "snd (?rs ! i)"] i by simp
    ultimately show "rbind (slot_offset b ?pl ([0..<?n] ! i)) (\<lambda>off.
        rbind (decode_record b off) (\<lambda>(suffix, val). Ok (lcp ?rs @ suffix, val))) = Ok (?rs ! i)"
      using i by simp
  qed simp
  then have "decode_leaf b = Ok l"
    using valid prefix lt by (simp add: decode_leaf_def HEADER_LEN_def)
  then show ?thesis using enc b(2) len by auto
qed

lemma leaf_decode_not_crashes: "\<not> crashes (decode_leaf body)"
proof -
  have "\<not> crashes (traverse (\<lambda>i. rbind (slot_offset body (unat (hdr_prefix_len h)) i) (\<lambda>off.
            rbind (decode_record body off) (\<lambda>(suffix, val). Ok (p @ suffix, val))))
          [0..<unat (hdr_slot_count h)])"
    if valid: "validate_node_body body = Ok h" and kind: "hdr_kind h = Leaf" for h p
  proof (rule traverse_not_crashes)
    fix i assume "i \<in> set [0..<unat (hdr_slot_count h)]"
    then obtain off where "slot_offset body (unat (hdr_prefix_len h)) i = Ok off"
        "validate_leaf_record body off = Ok ()"
      using validate_node_body_slot [OF valid, of i] kind by auto
    then show "\<not> crashes (rbind (slot_offset body (unat (hdr_prefix_len h)) i) (\<lambda>off.
            rbind (decode_record body off) (\<lambda>(suffix, val). Ok (p @ suffix, val))))"
      using validate_leaf_record_decode [of body off] by (auto simp: is_ok_iff)
  qed
  then show ?thesis
    using validate_node_body_not_crashes [of body]
    by (auto simp: decode_leaf_def Let_def crashes_rbind crashes_slice
        dest: validate_node_body_directory)
qed


section \<open>A decoded leaf is an ordered map\<close>

lemma get_map_of: "sorted_keys (records l) \<Longrightarrow> get l = map_of (records l)"
  by (auto simp: fun_eq_iff get_def position_def key_search_map_of split: sum.splits)

lemma upsert_spec:
  assumes "sorted_keys (records l)"
  shows "sorted_keys (records (fst (upsert l k v)))"
    and "map_of (records (fst (upsert l k v))) = (map_of (records l))(k \<mapsto> v)"
    and "snd (upsert l k v) = (map_of (records l) k = None, map_of (records l) k)"
proof -
  have "sorted_keys (records (fst (upsert l k v))) \<and>
    map_of (records (fst (upsert l k v))) = (map_of (records l))(k \<mapsto> v) \<and>
    snd (upsert l k v) = (map_of (records l) k = None, map_of (records l) k)"
  proof (cases "key_search (records l) k")
    case (Inl i)
    note hit = key_search_hit [OF Inl]
    have "records (fst (upsert l k v)) = (records l)[i := (k, v)]"
      and "snd (upsert l k v) = (False, Some (snd (records l ! i)))"
      using Inl hit by (auto simp: upsert_def position_def split: prod.splits)
    then show ?thesis
      using hit assms list_update_map_of [OF assms, of i k v] map_fst_update_same [of i "records l" k v]
        key_search_map_of [OF assms, of k] Inl by simp
  next
    case (Inr i)
    then show ?thesis
      using vec_insert_sorted [OF assms Inr, of v] vec_insert_map_of [OF assms Inr, of v]
        key_search_map_of [OF assms, of k]
      by (simp add: upsert_def position_def)
  qed
  then show "sorted_keys (records (fst (upsert l k v)))"
    and "map_of (records (fst (upsert l k v))) = (map_of (records l))(k \<mapsto> v)"
    and "snd (upsert l k v) = (map_of (records l) k = None, map_of (records l) k)"
    by auto
qed

lemma remove_spec:
  assumes "sorted_keys (records l)"
  shows "sorted_keys (records (fst (remove l k)))"
    and "map_of (records (fst (remove l k))) = (map_of (records l))(k := None)"
    and "snd (remove l k) = map_of (records l) k"
proof -
  have "sorted_keys (records (fst (remove l k))) \<and>
    map_of (records (fst (remove l k))) = (map_of (records l))(k := None) \<and>
    snd (remove l k) = map_of (records l) k"
  proof (cases "key_search (records l) k")
    case (Inl i)
    note hit = key_search_hit [OF Inl]
    then show ?thesis
      using Inl vec_remove_sorted [OF assms, of i] vec_remove_map_of [OF assms, of i k]
        key_search_map_of [OF assms, of k]
      by (simp add: remove_def position_def)
  next
    case (Inr i)
    then show ?thesis
      using assms key_search_map_of [OF assms, of k] by (auto simp: remove_def position_def)
  qed
  then show "sorted_keys (records (fst (remove l k)))"
    and "map_of (records (fst (remove l k))) = (map_of (records l))(k := None)"
    and "snd (remove l k) = map_of (records l) k"
    by auto
qed

lemma upsert_siblings [simp]:
  "left_sibling (fst (upsert l k v)) = left_sibling l"
  "right_sibling (fst (upsert l k v)) = right_sibling l"
  by (auto simp: upsert_def split: sum.splits prod.splits)

lemma remove_siblings [simp]:
  "left_sibling (fst (remove l k)) = left_sibling l"
  "right_sibling (fst (remove l k)) = right_sibling l"
  by (auto simp: remove_def split: sum.splits)

interpretation leaf_map: ordered_map_delete
  get "\<lambda>k v l. fst (upsert l k v)" "\<lambda>l. sorted_keys (records l)" "\<lambda>k l. fst (remove l k)"
  by unfold_locales (simp_all add: upsert_spec remove_spec get_map_of)

text \<open>Values stay well-formed through an insertion and a removal.\<close>

lemma wf_records_upsert:
  "wf_records (records l) \<Longrightarrow> value_ok v \<Longrightarrow> wf_records (records (fst (upsert l k v)))"
  using upsert_spec(1) [of l k v]
  by (auto simp: wf_records_def list_all_iff upsert_def position_def vec_insert_def
      split: sum.splits prod.splits dest: in_set_takeD in_set_dropD
      dest!: set_update_subset_insert [THEN subsetD])

lemma wf_records_remove:
  "wf_records (records l) \<Longrightarrow> wf_records (records (fst (remove l k)))"
  using remove_spec(1) [of l k]
  by (auto simp: wf_records_def list_all_iff remove_def position_def vec_remove_def
      split: sum.splits dest: in_set_takeD in_set_dropD)

section \<open>The in-place reader agrees with the decoder\<close>

lemma cmp_Cons:
  "cmp (a # x) (b # y) = (if a < b then Less else if a = b then cmp x y else Greater)"
  by (auto simp: cmp_def)

lemma cmp_prefix_suffix:
  fixes p :: "'a::linorder list"
  shows "cmp (p @ s) q =
    (let n = min (length p) (length q) in
     case cmp (take n p) (take n q) of
       Equal \<Rightarrow>
         if length q \<le> length p then
           (if length q < length p \<or> s \<noteq> [] then Greater else Equal)
         else cmp s (drop (length p) q)
     | non_eq \<Rightarrow> non_eq)"
proof (induction p arbitrary: q)
  case Nil
  then show ?case by (cases s; cases q) (auto simp: cmp_def)
next
  case (Cons a p)
  then show ?case by (cases q) (auto simp: cmp_Cons Let_def, simp_all add: cmp_def)
qed

text \<open>What the reader sees in slot \<open>i\<close> of a body that decodes to \<open>l\<close>.\<close>

lemma decode_leaf_slot:
  assumes "decode_leaf body = Ok l"
  obtains h prefix where "validate_node_body body = Ok h" and "hdr_kind h = Leaf"
    and "slice body HEADER_LEN (HEADER_LEN + unat (hdr_prefix_len h)) = Ok prefix"
    and "length (records l) = unat (hdr_slot_count h)"
    and "\<And>i. i < length (records l) \<Longrightarrow> \<exists>off suffix.
      slot_offset body (unat (hdr_prefix_len h)) i = Ok off \<and>
      decode_record body off = Ok (suffix, snd (records l ! i)) \<and>
      fst (records l ! i) = prefix @ suffix"
proof -
  obtain h prefix rs where h: "validate_node_body body = Ok h" "hdr_kind h = Leaf"
      "slice body HEADER_LEN (HEADER_LEN + unat (hdr_prefix_len h)) = Ok prefix"
    and tr: "traverse (\<lambda>i.
            rbind (slot_offset body (unat (hdr_prefix_len h)) i) (\<lambda>off.
            rbind (decode_record body off) (\<lambda>(suffix, val).
            Ok (prefix @ suffix, val)))) [0..<unat (hdr_slot_count h)] = Ok rs"
    and l: "records l = rs"
    using assms by (auto simp: decode_leaf_def Let_def rbind_eq_Ok split: if_splits)
  have len: "length rs = unat (hdr_slot_count h)" using tr by (simp add: traverse_eq_Ok)
  have "\<exists>off suffix. slot_offset body (unat (hdr_prefix_len h)) i = Ok off \<and>
      decode_record body off = Ok (suffix, snd (rs ! i)) \<and> fst (rs ! i) = prefix @ suffix"
    if "i < length rs" for i
  proof -
    have "rbind (slot_offset body (unat (hdr_prefix_len h)) i) (\<lambda>off.
        rbind (decode_record body off) (\<lambda>(suffix, val). Ok (prefix @ suffix, val))) = Ok (rs ! i)"
      using tr that len by (simp add: traverse_eq_Ok)
    then show ?thesis by (cases "rs ! i") (auto simp: rbind_eq_Ok)
  qed
  then show ?thesis using that h l len by auto
qed

lemma decode_record_suffix:
  "decode_record body off = Ok (suffix, v) \<Longrightarrow>
     rbind (rmap unat (read_u16_le body off)) (\<lambda>n. slice body (off + 2) (off + 2 + n)) = Ok suffix"
  by (auto simp: decode_record_def rbind_eq_Ok rmap_eq_Ok Let_def split: if_splits)

definition leaf_acc :: "bytes \<Rightarrow> node_header \<Rightarrow> leaf_accessor" where
  "leaf_acc body h = \<lparr> la_body = body, la_prefix_len = unat (hdr_prefix_len h),
                       la_slot_count = unat (hdr_slot_count h) \<rparr>"

lemma cmp_slot_to_query_decoded:
  assumes "slice body HEADER_LEN (HEADER_LEN + unat (hdr_prefix_len h)) = Ok prefix"
    and "slot_offset body (unat (hdr_prefix_len h)) i = Ok off"
    and "decode_record body off = Ok (suffix, v)"
  shows "cmp_slot_to_query (leaf_acc body h) i q = Ok (cmp (prefix @ suffix) q)"
  using assms decode_record_suffix [OF assms(3)]
  by (simp add: cmp_slot_to_query_def acc_prefix_def acc_suffix_def leaf_acc_def
      cmp_prefix_suffix Let_def)

lemma find_loop_eq:
  assumes "\<And>i. i < hi \<Longrightarrow> cmp_slot_to_query acc i q = Ok (f (xs ! i))"
  shows "find_loop acc q lo hi =
    Ok (case binary_search_by f xs lo hi of Inl i \<Rightarrow> Some i | Inr _ \<Rightarrow> None)"
  using assms
proof (induction acc q lo hi rule: find_loop.induct)
  case (1 acc q lo hi)
  show ?case
  proof (cases "lo < hi")
    case True
    define mid where "mid = lo + (hi - lo) div 2"
    have mid: "mid < hi" using True by (auto simp: mid_def)
    have step: "find_loop acc q lo hi =
        (case f (xs ! mid) of Less \<Rightarrow> find_loop acc q (mid + 1) hi
          | Greater \<Rightarrow> find_loop acc q lo mid | Equal \<Rightarrow> Ok (Some mid))"
      using True 1(3) [OF mid] unfolding mid_def
      by (subst find_loop.simps) (simp add: Let_def split: ordering.splits)
    show ?thesis
    proof (cases "f (xs ! mid)")
      case Less
      then show ?thesis
        using 1(1) [OF True mid_def] 1(3) mid
        by (simp add: step binary_search_by_step [OF True mid_def])
    next
      case Equal
      then show ?thesis by (simp add: step binary_search_by_step [OF True mid_def])
    next
      case Greater
      then show ?thesis
        using 1(2) [OF True mid_def] 1(3) mid
        by (simp add: step binary_search_by_step [OF True mid_def])
    qed
  next
    case False
    then show ?thesis by (subst find_loop.simps) (simp add: binary_search_by_stop)
  qed
qed

lemma leaf_find_position:
  assumes "decode_leaf body = Ok l" and "read_header body = Ok h"
  shows "leaf_find (leaf_acc body h) q =
    Ok (case position l q of Inl i \<Rightarrow> Some i | Inr _ \<Rightarrow> None)"
proof -
  obtain h' prefix where h': "validate_node_body body = Ok h'"
      "slice body HEADER_LEN (HEADER_LEN + unat (hdr_prefix_len h')) = Ok prefix"
      "length (records l) = unat (hdr_slot_count h')"
      "\<And>i. i < length (records l) \<Longrightarrow> \<exists>off suffix.
        slot_offset body (unat (hdr_prefix_len h')) i = Ok off \<and>
        decode_record body off = Ok (suffix, snd (records l ! i)) \<and>
        fst (records l ! i) = prefix @ suffix"
    using decode_leaf_slot [OF assms(1)] by metis
  have hh: "h' = h" using validate_node_body_header [OF h'(1)] assms(2) by simp
  have "cmp_slot_to_query (leaf_acc body h) i q = Ok ((\<lambda>(k', _). cmp k' q) (records l ! i))"
    if "i < length (records l)" for i
    using h'(4) [OF that] cmp_slot_to_query_decoded [OF h'(2), of i] hh
    by (auto simp: case_prod_beta)
  then have "find_loop (leaf_acc body h) q 0 (length (records l)) =
      Ok (case key_search (records l) q of Inl i \<Rightarrow> Some i | Inr _ \<Rightarrow> None)"
    unfolding key_search_def by (rule find_loop_eq)
  then show ?thesis
    using h'(3) hh by (simp add: leaf_find_def leaf_acc_def position_def)
qed

text \<open>Reading the value a location names.\<close>

definition read_loc :: "bytes \<Rightarrow> leaf_value_loc \<Rightarrow> leaf_value result" where
  "read_loc body loc =
     (case loc of
        InlineAt a b \<Rightarrow> rmap Inline (slice body a b)
      | OverflowAt t r \<Rightarrow> Ok (OverflowRef t r))"

lemma value_loc_decoded:
  assumes "decode_leaf body = Ok l" and "read_header body = Ok h" and "i < length (records l)"
  shows "rbind (value_loc (leaf_acc body h) i) (read_loc body) = Ok (snd (records l ! i))"
proof -
  obtain off suffix where "slot_offset body (unat (hdr_prefix_len h)) i = Ok off"
      "decode_record body off = Ok (suffix, snd (records l ! i))"
    using decode_leaf_slot [OF assms(1)] validate_node_body_header assms(2,3)
    by (metis result.inject(1))
  then show ?thesis
    by (auto simp: value_loc_def read_loc_def leaf_acc_def decode_record_def rbind_eq_Ok
        rmap_eq_Ok Let_def split: if_splits)
qed

text \<open>The preflight of a single record is the fit check of the leaf that holds only it.\<close>

lemma single_record_fits_iff:
  assumes "page_size \<le> 65536"
  shows "single_record_fits_encoded (length k) (encoded_size v) page_size \<longleftrightarrow>
    slice_fits [(k, v)] page_size"
  using assms
  by (auto simp: single_record_fits_encoded_def slice_fits_def checked_add_def HEADER_LEN_def
      body_capacity_def ENVELOPE_OVERHEAD_def Let_def split: if_splits)


section \<open>The page as its callers see it\<close>

text \<open>A point lookup that never decodes the page: find the slot, then read the value it names.\<close>

definition lookup_in_place :: "bytes \<Rightarrow> bool \<Rightarrow> key \<Rightarrow> leaf_value option result" where
  "lookup_in_place body memo q =
     rbind (fst (leaf_from_guard body memo)) (\<lambda>acc.
     rbind (leaf_find acc q) (\<lambda>slot.
     case slot of
       None \<Rightarrow> Ok None
     | Some idx \<Rightarrow> rmap Some (rbind (value_loc acc idx) (read_loc body))))"

lemma decode_leaf_header:
  assumes "decode_leaf body = Ok l"
  obtains h where "validate_node_body body = Ok h" and "read_header body = Ok h"
    and "hdr_kind h = Leaf" and "fst (leaf_from_guard body False) = Ok (leaf_acc body h)"
proof -
  obtain h where h: "validate_node_body body = Ok h" "hdr_kind h = Leaf"
    using assms by (auto simp: decode_leaf_def rbind_eq_Ok split: if_splits)
  show ?thesis
    by (rule that [OF h(1) validate_node_body_header [OF h(1)] h(2)])
      (use h in \<open>simp add: leaf_from_guard_def validate_node_body_memoised_def
        leaf_from_header_def leaf_acc_def\<close>)
qed

lemma lookup_in_place_memo:
  "is_ok (validate_node_body body) \<Longrightarrow> lookup_in_place body True q = lookup_in_place body False q"
  using validate_node_body_memoised_sound(1) [of True body]
    validate_node_body_memoised_sound(1) [of False body]
  by (simp add: lookup_in_place_def leaf_from_guard_def case_prod_beta)

lemma lookup_in_place_get:
  assumes "decode_leaf body = Ok l"
  shows "lookup_in_place body False q = Ok (get l q)"
proof -
  obtain h where h: "read_header body = Ok h" "fst (leaf_from_guard body False) = Ok (leaf_acc body h)"
    using decode_leaf_header [OF assms] by metis
  show ?thesis
  proof (cases "position l q")
    case (Inl i)
    then have "i < length (records l)" using key_search_hit [of "records l" q i] by (simp add: position_def)
    with Inl show ?thesis
      using value_loc_decoded [OF assms h(1)]
      by (simp add: lookup_in_place_def h(2) leaf_find_position [OF assms h(1)] get_def)
  next
    case (Inr i)
    then show ?thesis
      by (simp add: lookup_in_place_def h(2) leaf_find_position [OF assms h(1)] get_def)
  qed
qed

lemma decode_leaf_is_ok_iff:
  "is_ok (decode_leaf body) \<longleftrightarrow>
     (\<exists>h. validate_node_body body = Ok h \<and> hdr_kind h = Leaf)"
proof
  assume "\<exists>h. validate_node_body body = Ok h \<and> hdr_kind h = Leaf"
  then obtain h where h: "validate_node_body body = Ok h" "hdr_kind h = Leaf" by blast
  obtain p where p: "slice body HEADER_LEN (HEADER_LEN + unat (hdr_prefix_len h)) = Ok p"
    using validate_node_body_directory [OF h(1)] by (simp add: slice_def)
  have "is_ok (traverse (\<lambda>i. rbind (slot_offset body (unat (hdr_prefix_len h)) i) (\<lambda>off.
      rbind (decode_record body off) (\<lambda>(suffix, val). Ok (p @ suffix, val))))
      [0..<unat (hdr_slot_count h)])"
  proof -
    have "is_ok (rbind (slot_offset body (unat (hdr_prefix_len h)) i) (\<lambda>off.
      rbind (decode_record body off) (\<lambda>(suffix, val). Ok (p @ suffix, val))))"
      if i: "i \<in> set [0..<unat (hdr_slot_count h)]" for i
    proof -
      obtain off where "slot_offset body (unat (hdr_prefix_len h)) i = Ok off"
          "validate_leaf_record body off = Ok ()"
        using validate_node_body_slot [OF h(1), of i] h(2) i by auto
      then show ?thesis
        using validate_leaf_record_decode [of body off] by (auto simp: is_ok_iff)
    qed
    then show ?thesis by (rule traverse_is_ok)
  qed
  then obtain rs where "traverse (\<lambda>i. rbind (slot_offset body (unat (hdr_prefix_len h)) i) (\<lambda>off.
      rbind (decode_record body off) (\<lambda>(suffix, val). Ok (p @ suffix, val))))
      [0..<unat (hdr_slot_count h)] = Ok rs"
    by (auto simp: is_ok_iff)
  then show "is_ok (decode_leaf body)"
    using h p by (simp add: decode_leaf_def Let_def)
qed (auto simp: decode_leaf_def is_ok_iff rbind_eq_Ok split: if_splits)

text \<open>
  C4. Leaf pages round trip: a well-formed leaf that fits is encoded without error, filling the
  page body, decodes to itself, and every in-place lookup on the encoded page, with or without a
  memo of its validation, returns what the decoded leaf's \<open>get\<close> returns.
\<close>
theorem leaf_page_roundtrip:
  assumes "wf_records (records l)" and "fits l page_size"
    and "length body = body_capacity page_size" and "page_size \<le> 65536"
  shows "\<exists>b. encode_leaf l body = Ok b \<and> length b = body_capacity page_size \<and> decode_leaf b = Ok l
    \<and> (\<forall>q memo. lookup_in_place b memo q = Ok (get l q))"
proof -
  obtain b where b: "encode_leaf l body = Ok b" "length b = length body" "decode_leaf b = Ok l"
    using leaf_encode_decode [OF assms] by blast
  have "is_ok (validate_node_body b)"
    using decode_leaf_header [OF b(3)] by (metis is_ok.simps(1))
  then have "lookup_in_place b memo q = Ok (get l q)" for q memo
    using lookup_in_place_memo lookup_in_place_get [OF b(3)] by (cases memo) auto
  then show ?thesis using b assms(3) by auto
qed

theorem leaf_page_roundtrip_witness:
  "\<exists>b. encode_leaf \<lparr> left_sibling = 4, right_sibling = 9,
      records = [([1, 2], Inline [7]), ([1, 3, 3], OverflowRef 5000 12)] \<rparr>
      (replicate 4056 0) = Ok b \<and> length b = 4056 \<and>
    lookup_in_place b True [1, 3, 3] = Ok (Some (OverflowRef 5000 12)) \<and>
    lookup_in_place b False [1] = Ok None"
proof -
  let ?l = "\<lparr> left_sibling = 4, right_sibling = 9,
      records = [([1, 2], Inline [7]), ([1, 3, 3], OverflowRef 5000 12)] \<rparr>"
  have "wf_records (records ?l)"
    by (simp add: wf_records_def is_reserved_def FIRST_ALLOCATABLE_PAGE_ID_def)
  moreover have "fits ?l 4096"
    by (simp add: fits_def slice_fits_def body_capacity_def ENVELOPE_OVERHEAD_def HEADER_LEN_def
        OVERFLOW_REF_ENCODED_SIZE_def)
  moreover have "get ?l [1, 3, 3] = Some (OverflowRef 5000 12)" "get ?l [1] = None"
    by (simp_all add: get_def position_def key_search_def binary_search_by.simps cmp_def)
  ultimately show ?thesis
    using leaf_page_roundtrip [of ?l 4096 "replicate 4056 0"]
    by (auto simp: body_capacity_def ENVELOPE_OVERHEAD_def)
qed

text \<open>
  C5. No byte string makes a leaf page panic the reader: decoding arbitrary bytes, and looking any
  key up in place, end in a value or an error, and both accept exactly the same bodies.
\<close>
theorem leaf_page_safe:
  "\<not> crashes (decode_leaf body) \<and> \<not> crashes (lookup_in_place body False q) \<and>
   (is_ok (lookup_in_place body False q) \<longleftrightarrow> is_ok (decode_leaf body))"
proof (cases "decode_leaf body")
  case (Ok l)
  then show ?thesis using lookup_in_place_get [OF Ok, of q] by simp
next
  case (Err e)
  then have "\<not> (\<exists>h. validate_node_body body = Ok h \<and> hdr_kind h = Leaf)"
    using decode_leaf_is_ok_iff [of body] by simp
  then have "lookup_in_place body False q =
      (case validate_node_body body of Err e \<Rightarrow> Err e
        | Ok h \<Rightarrow> Err (Corruption (NodeKindMismatch None ''leaf'' ''internal'')))"
    by (auto simp: lookup_in_place_def leaf_from_guard_def validate_node_body_memoised_def
        leaf_from_header_def split: result.splits)
  then show ?thesis
    using leaf_decode_not_crashes [of body] validate_node_body_not_crashes [of body] Err
    by (auto split: result.splits)
qed

text \<open>
  C6. The decoded leaf implements a finite map: on sorted records \<open>upsert\<close> and \<open>remove\<close> keep the
  order and act as map update and deletion, reporting what was there before, and a batch of
  insertions is last-writer-wins.
\<close>
theorem leaf_refines_map:
  assumes "sorted_keys (records l)"
  shows "get (fst (upsert l k v)) = (get l)(k \<mapsto> v)
    \<and> snd (upsert l k v) = (get l k = None, get l k) \<and> sorted_keys (records (fst (upsert l k v)))
    \<and> get (fst (remove l k)) = (get l)(k := None) \<and> snd (remove l k) = get l k
    \<and> sorted_keys (records (fst (remove l k)))
    \<and> get (fold (\<lambda>(k, v) l. fst (upsert l k v)) kvs l) = get l ++ map_of (rev kvs)"
  using leaf_map.lookup_update [OF assms, of k v] leaf_map.lookup_delete [OF assms, of k]
    leaf_map.lookup_batch [OF assms, of kvs] leaf_map.invar_update [OF assms, of k v]
    leaf_map.invar_delete [OF assms, of k] upsert_spec(3) [OF assms, of k v]
    remove_spec(3) [OF assms, of k] get_map_of [OF assms]
  by simp

theorem leaf_refines_map_witness:
  "get (fst (upsert \<lparr> left_sibling = 0, right_sibling = 0, records = [([1], Inline [1])] \<rparr>
      [0] (Inline [9]))) [0] = Some (Inline [9])"
  using leaf_refines_map [of "\<lparr> left_sibling = 0, right_sibling = 0, records = [([1], Inline [1])] \<rparr>"
      "[0]" "Inline [9]" "[]"] by simp

end
