(* ===== verification/Internal_Node.thy ===== *)
theory Internal_Node
  imports Node Sorted_Vec
begin

text \<open>
  Internal pages (\<open>btree/internal.rs\<close>): separators with the child to their right, the page codec,
  insertion and the 50/50 split, and the accessor that routes a key without decoding the page.
\<close>

section \<open>Decoded internal nodes\<close>

text \<open>An entry is its separator key and the child to its right.\<close>

type_synonym internal_entry = "key \<times> page_id"

record internal =
  leftmost_child :: page_id
  entries :: "internal_entry list"

definition SEPARATOR_RECORD_OVERHEAD :: nat where "SEPARATOR_RECORD_OVERHEAD = 2 + 8"
definition SLOT_DIRECTORY_ENTRY_SIZE :: nat where "SLOT_DIRECTORY_ENTRY_SIZE = 2"

definition separator_entry_size :: "nat \<Rightarrow> nat result" where
  "separator_entry_size key_len =
     (if key_len > 0xFFFF then Err PayloadTooLarge
      else of_option PayloadTooLarge
             (Option.bind (checked_add key_len SEPARATOR_RECORD_OVERHEAD)
               (\<lambda>size. checked_add size SLOT_DIRECTORY_ENTRY_SIZE)))"

definition separator_fits :: "nat \<Rightarrow> nat \<Rightarrow> bool" where
  "separator_fits key_len page_size =
     (case separator_entry_size key_len of
        Err _ \<Rightarrow> False
      | Ok entry_size \<Rightarrow>
          (case checked_add HEADER_LEN entry_size of
             None \<Rightarrow> False
           | Some needed \<Rightarrow> needed \<le> body_capacity page_size))"

section \<open>Page codec\<close>

definition decode_entry :: "bytes \<Rightarrow> nat \<Rightarrow> internal_entry result" where
  "decode_entry body off =
     rbind (rmap unat (read_u16_le body off)) (\<lambda>key_len.
     rbind (slice body (off + 2) (off + 2 + key_len)) (\<lambda>k.
     rbind (read_u64_le body (off + 2 + key_len)) (\<lambda>right_child.
     Ok (k, right_child))))"

definition decode_internal :: "bytes \<Rightarrow> internal result" where
  "decode_internal body =
     rbind (validate_node_body body) (\<lambda>h.
     if hdr_kind h \<noteq> Internal
     then Err (Corruption (NodeKindMismatch None ''internal'' ''leaf''))
     else
       (let prefix_len = unat (hdr_prefix_len h) in
        rbind (traverse (\<lambda>i.
            rbind (slot_offset body prefix_len i) (decode_entry body))
            [0..<unat (hdr_slot_count h)]) (\<lambda>es.
        Ok \<lparr> leftmost_child = hdr_dual_use h, entries = es \<rparr>)))"

primrec encode_entries :: "internal_entry list \<Rightarrow> nat \<Rightarrow> nat \<Rightarrow> bytes \<Rightarrow> bytes result" where
  "encode_entries [] i tail body = Ok body"
| "encode_entries (e # es) i tail body =
     (let (k, right_child) = e;
          rec_size = length k + SEPARATOR_RECORD_OVERHEAD in
      if tail < rec_size then Err (Panic ''attempt to subtract with overflow'')
      else
        (let off = tail - rec_size in
         rbind (of_option (Io ''key_len overflow'') (u16_try_from (length k))) (\<lambda>key_len.
         rbind (write_u16_le body off key_len) (\<lambda>body.
         rbind (write_at body (off + 2) k) (\<lambda>body.
         rbind (write_at body (off + 2 + length k) (u64_to_le_bytes right_child)) (\<lambda>body.
         rbind (of_option (Io ''record_offset overflow'') (u16_try_from off)) (\<lambda>off16.
         rbind (write_slot_offset body 0 i off16) (\<lambda>body.
         encode_entries es (i + 1) off body))))))))"

definition entry_bytes_len :: "internal_entry list \<Rightarrow> nat" where
  "entry_bytes_len es = sum_list (map (\<lambda>(k, _). length k + SEPARATOR_RECORD_OVERHEAD) es)"

definition encode_internal :: "internal \<Rightarrow> bytes \<Rightarrow> bytes result" where
  "encode_internal self body =
     (let cap = length body;
          prefix_len = 0;
          slot_count = length (entries self);
          record_bytes = entry_bytes_len (entries self);
          slot_dir_bytes = slot_count * SLOT_DIRECTORY_ENTRY_SIZE in
      if HEADER_LEN + prefix_len + slot_dir_bytes + record_bytes > cap
      then Err PayloadTooLarge
      else
        rbind (of_option (Io ''slot_count overflow'') (u16_try_from slot_count)) (\<lambda>sc.
        rbind (of_option (Io ''prefix_len overflow'') (u16_try_from prefix_len)) (\<lambda>pl.
        rbind (write_header body Internal sc pl 0 (leftmost_child self)) (\<lambda>body.
        rbind (write_at body HEADER_LEN (replicate (cap - HEADER_LEN) 0)) (\<lambda>body.
        encode_entries (entries self) 0 cap body)))))"

section \<open>Node operations\<close>

definition internal_fits :: "internal \<Rightarrow> nat \<Rightarrow> bool" where
  "internal_fits self page_size \<longleftrightarrow>
     (let cap = body_capacity page_size;
          record_bytes = sum_list (map (\<lambda>(k, _). 2 + length k + 8) (entries self));
          slot_dir_bytes = length (entries self) * 2 in
      HEADER_LEN + slot_dir_bytes + record_bytes \<le> cap)"

definition internal_upsert :: "internal \<Rightarrow> key \<Rightarrow> page_id \<Rightarrow> internal" where
  "internal_upsert self k right_child =
     (case key_search (entries self) k of
        Inl i \<Rightarrow>
          self\<lparr>entries := (entries self)[i := (fst (entries self ! i), right_child)]\<rparr>
      | Inr i \<Rightarrow> self\<lparr>entries := vec_insert i (k, right_child) (entries self)\<rparr>)"

definition internal_split :: "internal \<Rightarrow> (internal \<times> internal \<times> key) result" where
  "internal_split self =
     (let mid = length (entries self) div 2;
          right_entries = drop mid (entries self);
          left_entries = take mid (entries self) in
      rbind (index right_entries 0) (\<lambda>(promoted, right_leftmost).
      Ok (\<lparr> leftmost_child = leftmost_child self, entries = left_entries \<rparr>,
          \<lparr> leftmost_child = right_leftmost, entries = drop 1 right_entries \<rparr>,
          promoted)))"

section \<open>Routing a key in place\<close>

text \<open>
  The constructor's \<open>debug_assert_eq!\<close> on the prefix length is compiled out of release builds,
  which is what the model follows: the accessor reads the slot directory at prefix length 0.
\<close>

record internal_accessor =
  ia_body :: bytes
  ia_slot_count :: nat
  ia_leftmost_child :: page_id

definition internal_from_header :: "bytes \<Rightarrow> node_header \<Rightarrow> internal_accessor result" where
  "internal_from_header body h =
     (if hdr_kind h \<noteq> Internal
      then Err (Corruption (NodeKindMismatch None ''internal'' ''leaf''))
      else Ok \<lparr> ia_body = body, ia_slot_count = unat (hdr_slot_count h),
                ia_leftmost_child = hdr_dual_use h \<rparr>)"

definition internal_from_guard :: "bytes \<Rightarrow> bool \<Rightarrow> internal_accessor result \<times> bool" where
  "internal_from_guard body memo =
     (let (r, memo') = validate_node_body_memoised body memo in
      (rbind r (internal_from_header body), memo'))"

definition entry_key :: "internal_accessor \<Rightarrow> nat \<Rightarrow> key result" where
  "entry_key self idx =
     rbind (slot_offset (ia_body self) 0 idx) (\<lambda>off.
     rbind (rmap unat (read_u16_le (ia_body self) off)) (\<lambda>key_len.
     slice (ia_body self) (off + 2) (off + 2 + key_len)))"

definition right_child_offset :: "internal_accessor \<Rightarrow> nat \<Rightarrow> nat result" where
  "right_child_offset self idx =
     rbind (slot_offset (ia_body self) 0 idx) (\<lambda>off.
     rbind (rmap unat (read_u16_le (ia_body self) off)) (\<lambda>key_len.
     Ok (off + 2 + key_len)))"

definition entry_right_child :: "internal_accessor \<Rightarrow> nat \<Rightarrow> page_id result" where
  "entry_right_child self idx = rbind (right_child_offset self idx) (read_u64_le (ia_body self))"

function child_search :: "internal_accessor \<Rightarrow> key \<Rightarrow> nat \<Rightarrow> nat \<Rightarrow> nat result" where
  "child_search self query lo hi =
     (if lo < hi then
        (let mid = lo + (hi - lo) div 2 in
         case entry_key self mid of
           Err e \<Rightarrow> Err e
         | Ok k \<Rightarrow>
             if k \<le> query then child_search self query (mid + 1) hi
             else child_search self query lo mid)
      else Ok lo)"
  by pat_completeness auto
termination
  by (relation "measure (\<lambda>(self, query, lo, hi). hi - lo)") (auto simp: Let_def)

declare child_search.simps [simp del]

definition child_for :: "internal_accessor \<Rightarrow> key \<Rightarrow> page_id result" where
  "child_for self query =
     rbind (child_search self query 0 (ia_slot_count self)) (\<lambda>lo.
     if lo = 0 then Ok (ia_leftmost_child self) else entry_right_child self (lo - 1))"


section \<open>Codec round trip\<close>

definition entry_bytes :: "internal_entry \<Rightarrow> bytes" where
  "entry_bytes e = u16_to_le_bytes (of_nat (length (fst e))) @ fst e @ u64_to_le_bytes (snd e)"

lemma length_entry_bytes [simp]: "length (entry_bytes e) = length (fst e) + 10"
  by (simp add: entry_bytes_def)

lemma decode_entry_of_bytes:
  "length (fst e) < 2 ^ 16 \<Longrightarrow> decode_entry (entry_bytes e) 0 = Ok e"
  by (simp add: decode_entry_def entry_bytes_def read_u16_le_def read_u64_le_def slice_def)

lemma decode_entry_slice:
  assumes "slice body off (off + length bs) = Ok bs" and "decode_entry bs 0 = Ok e"
  shows "decode_entry body off = Ok e"
proof -
  have sub: "slice body (off + i) (off + j) = Ok xs" if "slice bs i j = Ok xs" for i j xs
    using that slice_slice [OF assms(1), of i j] by (auto simp: slice_eq_Ok)
  have u16: "read_u16_le body (off + i) = Ok w" if "read_u16_le bs i = Ok w" for i w
    using that sub [of i "i + 2"] by (auto simp: read_u16_le_def result_simps add.assoc)
  have u64: "read_u64_le body (off + i) = Ok w" if "read_u64_le bs i = Ok w" for i w
    using that sub [of i "i + 8"] by (auto simp: read_u64_le_def result_simps add.assoc)
  show ?thesis
    using assms(2) u16 [of 0] u16 u64 sub
    by (auto simp: decode_entry_def rbind_eq_Ok rmap_eq_Ok Let_def add.assoc
        simp del: add_2_eq_Suc add_2_eq_Suc')
qed

interpretation internal_slots: slotted_records
  entry_bytes decode_entry "\<lambda>e. e" "\<lambda>e. length (fst e) < 2 ^ 16"
  by unfold_locales (auto intro: decode_entry_of_bytes decode_entry_slice)

lemma validate_internal_record_decode:
  "validate_internal_record body off = Ok () \<Longrightarrow> is_ok (decode_entry body off)"
  by (auto simp: validate_internal_record_def decode_entry_def result_simps is_ok_iff
      read_u16_le_def read_u64_le_def)

lemma validate_internal_record_iff:
  assumes "length body < 2 ^ 64"
  shows "validate_internal_record body off = Ok () \<longleftrightarrow> is_ok (decode_entry body off)"
  using assms
  by (auto simp: validate_internal_record_def decode_entry_def result_simps is_ok_iff
      read_u16_le_def read_u64_le_def)

lemma entry_bytes_len_simps [simp]:
  "entry_bytes_len [] = 0"
  "entry_bytes_len (e # es) = length (fst e) + 10 + entry_bytes_len es"
  by (cases e; simp add: entry_bytes_len_def SEPARATOR_RECORD_OVERHEAD_def)+

lemma entry_bytes_len_mem: "e \<in> set es \<Longrightarrow> length (fst e) + 10 \<le> entry_bytes_len es"
  by (induction es) auto

lemma entry_bytes_sum: "sum_list (map (\<lambda>e. length (entry_bytes e)) es) = entry_bytes_len es"
  by (induction es) auto

lemma entry_bytes_len_fits:
  "sum_list (map (\<lambda>(k, _). 2 + length k + 8) es) = entry_bytes_len es"
  by (induction es) auto

lemma encode_entries_eq:
  "\<forall>e \<in> set es. length (fst e) < 2 ^ 16 \<Longrightarrow> entry_bytes_len es \<le> tail \<Longrightarrow> tail \<le> 65536 \<Longrightarrow>
     encode_entries es i tail body = write_slots entry_bytes 0 es i tail body"
proof (induction es arbitrary: i tail body)
  case (Cons e es)
  obtain k c where e: "e = (k, c)" by (cases e)
  define size where "size = length k + SEPARATOR_RECORD_OVERHEAD"
  have sz: "length (entry_bytes e) = size" by (simp add: e size_def SEPARATOR_RECORD_OVERHEAD_def)
  have le: "entry_bytes_len es \<le> tail - size" "\<not> tail < size" "tail - size < 2 ^ 16"
      "length k < 2 ^ 16"
    using Cons.prems by (auto simp: e size_def SEPARATOR_RECORD_OVERHEAD_def)
  have conv: "of_option x (u16_try_from (tail - size)) = Ok (of_nat (tail - size))"
      "of_option x (u16_try_from (length k)) = Ok (of_nat (length k))" for x
    using le by (simp_all add: u16_try_from_def)
  have IH: "encode_entries es (i + 1) (tail - size) =
      write_slots entry_bytes 0 es (i + 1) (tail - size)"
    using Cons.IH [of "tail - size" "i + 1"] Cons.prems(1,3) le(1) by (intro ext) auto
  have "encode_entries (e # es) i tail body =
      rbind (write_at body (tail - size) (entry_bytes e)) (\<lambda>body.
        rbind (write_slot_offset body 0 i (of_nat (tail - size))) (\<lambda>body.
        encode_entries es (i + 1) (tail - size) body))"
    unfolding e encode_entries.simps Let_def prod.case size_def [symmetric] conv rbind.simps
      write_u16_le_def entry_bytes_def fst_conv snd_conv if_not_P [OF le(2)]
    by (simp only: write_at_append_bind codec_simps length_append add.assoc append_assoc)
  then show ?case by (simp only: write_slots.simps Let_def sz IH)
qed simp

section \<open>The layout of an internal page\<close>

definition internal_header :: "internal \<Rightarrow> node_header" where
  "internal_header n = \<lparr> hdr_kind = Internal, hdr_slot_count = of_nat (length (entries n)), hdr_prefix_len = 0,
              hdr_left_sibling = 0, hdr_dual_use = leftmost_child n \<rparr>"

definition internal_layout :: "bytes \<Rightarrow> internal \<Rightarrow> bool" where
  "internal_layout body n \<longleftrightarrow> length body \<le> 65536 \<and>
     24 + 2 * length (entries n) + entry_bytes_len (entries n) \<le> length body \<and>
     read_header body = Ok (internal_header n) \<and>
     slots_at entry_bytes 0 (entries n) 0 (length body) body"

lemma entry_bytes_pos: "\<forall>e. 0 < length (entry_bytes e)"
  by simp

lemma encode_internal_layout:
  assumes "internal_fits n page_size" and "length body = body_capacity page_size"
    and "page_size \<le> 65536"
  shows "\<exists>b. encode_internal n body = Ok b \<and> length b = length body \<and> internal_layout b n"
proof -
  let ?es = "entries n" and ?n = "length (entries n)"
  have "sum_list (map (\<lambda>(k, _). 2 + length k + 8) ?es) = entry_bytes_len ?es"
    by (simp only: entry_bytes_len_fits)
  then have need: "24 + ?n * 2 + entry_bytes_len ?es \<le> length body"
    using assms(1,2) by (simp add: internal_fits_def Let_def HEADER_LEN_def)
  have cap: "length body \<le> 65536" using assms(2,3) by (simp add: body_capacity_def)
  have lt: "?n < 2 ^ 16" using need cap by auto
  have recs: "\<forall>e \<in> set ?es. length (fst e) < 2 ^ 16"
    using entry_bytes_len_mem need cap by fastforce
  obtain b1 where b1: "write_at body 0 (header_bytes Internal (of_nat ?n) 0 0 (leftmost_child n))
      = Ok b1"
    using write_at_Ok_if need by force
  obtain b2 where b2: "write_at b1 24 (replicate (length body - 24) 0) = Ok b2"
    using write_at_Ok_if [of 24 _ b1] write_at_length [OF b1] need by force
  have len: "length b2 = length body"
    using write_at_length [OF b1] write_at_length [OF b2] by simp
  have room: "24 + 0 + 2 * (0 + ?n) + sum_list (map (\<lambda>e. length (entry_bytes e)) ?es) \<le> length body"
    unfolding entry_bytes_sum using need by simp
  obtain b where b: "write_slots entry_bytes 0 ?es 0 (length body) b2 = Ok b"
    using internal_slots.write_slots_spec [OF recs room, of b2] cap len by auto
  have at: "slots_at entry_bytes 0 ?es 0 (length body) b" "length b = length b2"
      "\<And>x y. y \<le> 24 \<Longrightarrow> slice b x y = slice b2 x y"
    using write_slots_at [OF b room _ _ entry_bytes_pos] cap len by auto
  have enc: "encode_internal n body = Ok b"
    using need lt b1 b2 b encode_entries_eq [OF recs, of "length body" 0 b2] cap
    by (simp add: encode_internal_def Let_def HEADER_LEN_def write_header_eq u16_try_from_def
        SLOT_DIRECTORY_ENTRY_SIZE_def)
  have "slice b 0 24 = Ok (header_bytes Internal (of_nat ?n) 0 0 (leftmost_child n))"
    using at(3) [of 24 0] slice_write_at_other [OF b2, of 24 0] slice_write_at_same [OF b1, of 24]
    by simp
  then have hdr: "read_header b = Ok (internal_header n)"
    by (simp add: read_header_slice read_header_of_bytes internal_header_def)
  show ?thesis
    using enc at hdr cap need len by (auto simp: internal_layout_def)
qed

lemma internal_layout_slot:
  assumes "internal_layout body n" and "j < length (entries n)"
  shows "\<exists>off. slot_offset body 0 j = Ok off \<and>
     slice body off (off + length (fst (entries n ! j)) + 10) = Ok (entry_bytes (entries n ! j)) \<and>
     24 + 2 * length (entries n) \<le> off \<and> off + length (fst (entries n ! j)) + 10 \<le> length body \<and>
     length (fst (entries n ! j)) < 2 ^ 16"
proof -
  have "length (fst (entries n ! j)) < 2 ^ 16"
    using assms entry_bytes_len_mem [of "entries n ! j" "entries n"] by (auto simp: internal_layout_def)
  then show ?thesis
    using slots_at_nth [of entry_bytes 0 "entries n" 0 "length body" body j] assms
    unfolding internal_layout_def entry_bytes_sum by (auto simp: add.assoc)
qed

lemma internal_layout_count: "internal_layout body n \<Longrightarrow> unat (of_nat (length (entries n)) :: u16) = length (entries n)"
  by (rule unat_of_nat_u16) (auto simp: internal_layout_def)

lemma internal_layout_decode:
  assumes "internal_layout body n"
  shows "validate_node_body body = Ok (internal_header n)" and "decode_internal body = Ok n"
proof -
  let ?n = "length (entries n)"
  have dec: "\<exists>off. slot_offset body 0 j = Ok off \<and> decode_entry body off = Ok (entries n ! j)"
    if "j < ?n" for j
    using internal_layout_slot [OF assms that] decode_entry_of_bytes [of "entries n ! j"]
      decode_entry_slice [of body _ "entry_bytes (entries n ! j)" "entries n ! j"]
    by (simp add: add.assoc) blast
  have lt: "unat (of_nat ?n :: u16) = ?n" using internal_layout_count [OF assms] .
  show valid: "validate_node_body body = Ok (internal_header n)"
    by (rule validate_node_bodyI)
      (use assms lt in \<open>auto simp: internal_header_def internal_layout_def HEADER_LEN_def validate_internal_record_iff
          is_ok_iff dest!: dec\<close>)
  have "traverse (\<lambda>i. rbind (slot_offset body 0 i) (decode_entry body)) [0..<?n] = Ok (entries n)"
    using dec by (auto simp: traverse_eq_Ok rbind_eq_Ok)
  then show "decode_internal body = Ok n"
    using valid lt by (simp add: decode_internal_def internal_header_def)
qed

lemma internal_encode_decode:
  assumes "internal_fits n page_size" and "length body = body_capacity page_size"
    and "page_size \<le> 65536"
  shows "\<exists>b. encode_internal n body = Ok b \<and> length b = length body \<and> decode_internal b = Ok n
    \<and> rmap hdr_prefix_len (read_header b) = Ok 0"
  using encode_internal_layout [OF assms] internal_layout_decode(2)
  by (auto simp: internal_layout_def internal_header_def)

lemma internal_decode_not_crashes: "\<not> crashes (decode_internal body)"
proof -
  have "\<not> crashes (traverse (\<lambda>i. rbind (slot_offset body (unat (hdr_prefix_len h)) i)
      (decode_entry body)) [0..<unat (hdr_slot_count h)])"
    if valid: "validate_node_body body = Ok h" and kind: "hdr_kind h = Internal" for h
  proof (rule traverse_not_crashes)
    fix i assume "i \<in> set [0..<unat (hdr_slot_count h)]"
    then obtain off where "slot_offset body (unat (hdr_prefix_len h)) i = Ok off"
        "validate_internal_record body off = Ok ()"
      using validate_node_body_slot [OF valid, of i] kind by auto
    then show "\<not> crashes (rbind (slot_offset body (unat (hdr_prefix_len h)) i) (decode_entry body))"
      using validate_internal_record_decode [of body off] by (auto simp: is_ok_iff)
  qed
  then show ?thesis
    using validate_node_body_not_crashes [of body]
    by (auto simp: decode_internal_def Let_def crashes_rbind)
qed

section \<open>Routing\<close>

text \<open>
  The reference: walk the separators in order, taking the child right of the last one that does
  not exceed the key.
\<close>

fun route :: "page_id \<Rightarrow> internal_entry list \<Rightarrow> key \<Rightarrow> page_id" where
  "route c [] q = c"
| "route c ((k, c') # es) q = (if k \<le> q then route c' es q else c)"

lemma route_append:
  "route c (xs @ (k, c') # ys) q =
     (if \<forall>e \<in> set xs. fst e \<le> q then
        (if k \<le> q then route c' ys q else route c xs q)
      else route c xs q)"
  by (induction c xs q rule: route.induct) auto

lemma route_below: "\<forall>e \<in> set es. q < fst e \<Longrightarrow> route c es q = c"
  by (cases es) auto

lemma route_all: "es \<noteq> [] \<Longrightarrow> \<forall>e \<in> set es. fst e \<le> q \<Longrightarrow> route c es q = snd (last es)"
  by (induction c es q rule: route.induct) auto

lemma route_partition:
  assumes "\<forall>j < i. fst (es ! j) \<le> q" and "\<forall>j. i \<le> j \<longrightarrow> j < length es \<longrightarrow> q < fst (es ! j)"
    and "i \<le> length es"
  shows "route c es q = (if i = 0 then c else snd (es ! (i - 1)))"
proof (cases "i = length es")
  case True
  show ?thesis
  proof (cases es)
    case Nil
    then show ?thesis using True by simp
  next
    case (Cons e es')
    have "\<forall>e \<in> set es. fst e \<le> q" using assms(1) True by (force simp: in_set_conv_nth)
    then show ?thesis using route_all [of es q c] True Cons by (simp add: last_conv_nth)
  qed
next
  case False
  then have lt: "i < length es" using assms(3) by simp
  obtain k c' where e: "es ! i = (k, c')" by (cases "es ! i")
  have split: "es = take i es @ (k, c') # drop (Suc i) es"
    using id_take_nth_drop [OF lt] e by simp
  have le: "\<forall>e \<in> set (take i es). fst e \<le> q" using assms(1) lt by (force simp: in_set_conv_nth)
  have "\<not> k \<le> q" using assms(2) lt e by fastforce
  then have "route c es q = route c (take i es) q"
    using le by (subst split) (simp add: route_append)
  also have "\<dots> = (if i = 0 then c else snd (es ! (i - 1)))"
    using route_all [of "take i es" q c] le lt by (cases "es = []") (auto simp: last_conv_nth)
  finally show ?thesis .
qed

lemma child_search_spec:
  assumes "\<And>i. i < length es \<Longrightarrow> entry_key acc i = Ok (fst (es ! i))" and "sorted_keys es"
  shows "lo \<le> hi \<Longrightarrow> hi \<le> length es \<Longrightarrow> \<forall>j < lo. fst (es ! j) \<le> q \<Longrightarrow>
    \<forall>j. hi \<le> j \<longrightarrow> j < length es \<longrightarrow> q < fst (es ! j) \<Longrightarrow>
    \<exists>i. child_search acc q lo hi = Ok i \<and> i \<le> length es \<and> (\<forall>j < i. fst (es ! j) \<le> q) \<and>
      (\<forall>j. i \<le> j \<longrightarrow> j < length es \<longrightarrow> q < fst (es ! j))"
proof (induction "hi - lo" arbitrary: lo hi rule: less_induct)
  case less
  show ?case
  proof (cases "lo < hi")
    case True
    define mid where "mid = lo + (hi - lo) div 2"
    have mid: "lo \<le> mid" "mid < hi" using True by (auto simp: mid_def)
    have step: "child_search acc q lo hi =
        (if fst (es ! mid) \<le> q then child_search acc q (mid + 1) hi else child_search acc q lo mid)"
      using True assms(1) [of mid] mid less.prems(2) unfolding mid_def
      by (subst child_search.simps) (simp add: Let_def)
    show ?thesis
    proof (cases "fst (es ! mid) \<le> q")
      case le: True
      have "fst (es ! j) \<le> q" if "j < mid + 1" for j
        using that le sorted_keys_nth_less [OF assms(2), of j mid] mid less.prems(2)
        by (cases "j = mid") (auto intro: less_imp_le order.trans)
      then show ?thesis using less.hyps [of hi "mid + 1"] mid less.prems le step by auto
    next
      case gt: False
      have "q < fst (es ! j)" if "mid \<le> j" "j < length es" for j
        using that gt sorted_keys_nth_less [OF assms(2), of mid j]
        by (cases "j = mid") (auto intro: less_trans)
      then show ?thesis using less.hyps [of mid lo] mid less.prems gt step by auto
    qed
  next
    case False
    then show ?thesis using less.prems by (subst child_search.simps) auto
  qed
qed

definition internal_acc :: "bytes \<Rightarrow> node_header \<Rightarrow> internal_accessor" where
  "internal_acc body h = \<lparr> ia_body = body, ia_slot_count = unat (hdr_slot_count h),
                           ia_leftmost_child = hdr_dual_use h \<rparr>"

lemma decode_internal_slot:
  assumes "decode_internal body = Ok n" and "read_header body = Ok h"
  shows "leftmost_child n = hdr_dual_use h" and "length (entries n) = unat (hdr_slot_count h)"
    and "i < length (entries n) \<Longrightarrow>
      \<exists>off. slot_offset body (unat (hdr_prefix_len h)) i = Ok off \<and>
        decode_entry body off = Ok (entries n ! i)"
proof -
  obtain h' where h': "validate_node_body body = Ok h'" "leftmost_child n = hdr_dual_use h'"
      "traverse (\<lambda>i. rbind (slot_offset body (unat (hdr_prefix_len h')) i) (decode_entry body))
            [0..<unat (hdr_slot_count h')] = Ok (entries n)"
    using assms(1) by (auto simp: decode_internal_def Let_def rbind_eq_Ok split: if_splits)
  have hh: "h' = h" using validate_node_body_header [OF h'(1)] assms(2) by simp
  show "leftmost_child n = hdr_dual_use h" using h'(2) hh by simp
  show len: "length (entries n) = unat (hdr_slot_count h)"
    using h'(3) hh by (simp add: traverse_eq_Ok)
  show "\<exists>off. slot_offset body (unat (hdr_prefix_len h)) i = Ok off \<and>
        decode_entry body off = Ok (entries n ! i)" if "i < length (entries n)"
    using h'(3) hh that len by (simp add: traverse_eq_Ok rbind_eq_Ok)
qed

lemma child_for_route:
  assumes "decode_internal body = Ok n" and "read_header body = Ok h" and "hdr_prefix_len h = 0"
    and "sorted_keys (entries n)"
  shows "child_for (internal_acc body h) q = Ok (route (leftmost_child n) (entries n) q)"
proof -
  note slot = decode_internal_slot [OF assms(1,2)]
  have ek: "entry_key (internal_acc body h) i = Ok (fst (entries n ! i))"
    and ec: "entry_right_child (internal_acc body h) i = Ok (snd (entries n ! i))"
    if "i < length (entries n)" for i
    using slot(3) [OF that] assms(3)
    by (cases "entries n ! i"; auto simp: entry_key_def entry_right_child_def
        right_child_offset_def internal_acc_def decode_entry_def rbind_eq_Ok rmap_eq_Ok)+
  obtain i where i: "child_search (internal_acc body h) q 0 (length (entries n)) = Ok i"
      "i \<le> length (entries n)" "\<forall>j < i. fst (entries n ! j) \<le> q"
      "\<forall>j. i \<le> j \<longrightarrow> j < length (entries n) \<longrightarrow> q < fst (entries n ! j)"
    using child_search_spec [OF ek assms(4), of 0 "length (entries n)" q] by auto
  have "child_for (internal_acc body h) q =
      (if i = 0 then Ok (leftmost_child n) else Ok (snd (entries n ! (i - 1))))"
    using i(1,2) slot(1,2) ec [of "i - 1"]
    by (auto simp: child_for_def internal_acc_def)
  then show ?thesis using route_partition [OF i(3,4,2)] by auto
qed

lemma internal_layout_guard:
  "internal_layout body n \<Longrightarrow>
     fst (internal_from_guard body False) = Ok (internal_acc body (internal_header n))"
  using internal_layout_decode [of body n]
  by (simp add: internal_from_guard_def validate_node_body_memoised_def internal_from_header_def
      internal_header_def internal_acc_def split: prod.splits)

lemma internal_layout_child_for:
  assumes "internal_layout body n" and "sorted_keys (entries n)"
  shows "child_for (internal_acc body (internal_header n)) q = Ok (route (leftmost_child n) (entries n) q)"
  by (rule child_for_route [OF internal_layout_decode(2) [OF assms(1)]])
    (use assms internal_layout_decode [OF assms(1)] in
      \<open>auto simp: internal_header_def internal_layout_def\<close>)

section \<open>Repointing a child in place\<close>

lemma internal_layout_right_child:
  assumes "internal_layout body n" and "j < length (entries n)"
  shows "\<exists>off. slot_offset body 0 j = Ok off \<and>
     right_child_offset (internal_acc body (internal_header n)) j = Ok (off + 2 + length (fst (entries n ! j))) \<and>
     entry_right_child (internal_acc body (internal_header n)) j = Ok (snd (entries n ! j)) \<and>
     24 + 2 * length (entries n) \<le> off \<and> off + length (fst (entries n ! j)) + 10 \<le> length body \<and>
     slice body off (off + length (fst (entries n ! j)) + 10) = Ok (entry_bytes (entries n ! j))"
proof -
  let ?e = "entries n ! j"
  obtain off where off: "slot_offset body 0 j = Ok off"
      "slice body off (off + length (fst ?e) + 10) = Ok (entry_bytes ?e)"
      "24 + 2 * length (entries n) \<le> off" "off + length (fst ?e) + 10 \<le> length body" "length (fst ?e) < 2 ^ 16"
    using internal_layout_slot [OF assms] by auto
  have dec: "decode_entry body off = Ok ?e"
    using off(2) decode_entry_of_bytes [OF off(5)] decode_entry_slice [of body off "entry_bytes ?e"]
    by (auto simp: add.assoc)
  then show ?thesis
    using off by (cases ?e)
      (auto simp: right_child_offset_def entry_right_child_def internal_acc_def decode_entry_def
        rbind_eq_Ok rmap_eq_Ok dest!: slice_length)
qed

lemma entry_bytes_len_repoint:
  "j < length es \<Longrightarrow> entry_bytes_len (es[j := (fst (es ! j), c)]) = entry_bytes_len es"
  by (induction es arbitrary: j) (auto split: nat.splits)

lemma repoint_entry_layout:
  assumes "internal_layout body n" and "j < length (entries n)"
    and "right_child_offset (internal_acc body (internal_header n)) j = Ok pos"
  shows "\<exists>b. write_u64_le body pos c = Ok b \<and> length b = length body \<and>
    internal_layout b (n\<lparr>entries := (entries n)[j := (fst (entries n ! j), c)]\<rparr>)"
proof -
  let ?e = "entries n ! j"
  let ?k = "fst ?e"
  let ?n' = "n\<lparr>entries := (entries n)[j := (?k, c)]\<rparr>"
  obtain off where off: "slot_offset body 0 j = Ok off" "pos = off + 2 + length ?k"
      "24 + 2 * length (entries n) \<le> off" "off + length ?k + 10 \<le> length body"
      "slice body off (off + length ?k + 10) = Ok (entry_bytes ?e)"
    using internal_layout_right_child [OF assms(1,2)] assms(3) by auto
  obtain b where b: "write_at body pos (u64_to_le_bytes c) = Ok b"
    using write_at_Ok_if [of pos "u64_to_le_bytes c" body] off by auto
  have len: "length b = length body" using write_at_length [OF b] .
  have new: "slice b pos (pos + 8) = Ok (u64_to_le_bytes c)"
    using slice_write_at_same [OF b, of "pos + 8"] by simp
  have same: "slice b x y = slice body x y" if "y \<le> pos \<or> pos + 8 \<le> x" for x y
    using slice_write_at_other [OF b, of y x] that by auto
  have pre: "slice b off pos = Ok (u16_to_le_bytes (of_nat (length ?k)) @ ?k)"
    using same [of pos off] slice_split(1) [OF off(5) [unfolded entry_bytes_def append_assoc [symmetric]], of pos]
    by (simp add: off(2))
  have "slice b off (pos + 8) = Ok (entry_bytes (?k, c))"
    using slice_join [OF pre new] by (simp add: entry_bytes_def)
  then have rec: "slice b off (off + length (entry_bytes (?k, c))) = Ok (entry_bytes (?k, c))"
    by (simp add: off(2) ac_simps)
  have at: "slots_at entry_bytes 0 ((entries n)[j := (?k, c)]) 0 (length body) b"
  proof (rule slots_at_update [where off = off])
    show "slots_at entry_bytes 0 (entries n) 0 (length body) body"
      using assms(1) by (simp add: internal_layout_def)
    show "slice b x y = slice body x y"
      if "x \<le> y" "y \<le> off \<or> off + length (entry_bytes (?k, c)) \<le> x" for x y
      using same [of y x] that off(2) by auto
    show "24 + 0 + 2 * (0 + length (entries n)) + sum_list (map (\<lambda>r. length (entry_bytes r)) (entries n)) \<le> length body"
      unfolding entry_bytes_sum using assms(1) by (simp add: internal_layout_def)
  qed (use assms(2) off(1) rec in auto)
  have bl: "entry_bytes_len ((entries n)[j := (?k, c)]) = entry_bytes_len (entries n)"
    using assms(2) by (rule entry_bytes_len_repoint)
  have "slice b 0 24 = slice body 0 24" using same [of 24 0] off(2,3) by simp
  then have "read_header b = Ok (internal_header n)"
    using assms(1) off(4) read_header_slice [of b] read_header_slice [of body]
    by (auto simp: internal_layout_def slice_def split: if_splits)
  then show ?thesis
    using b len at bl assms(1)
    by (auto simp: internal_layout_def internal_header_def write_u64_le_def)
qed


lemma repoint_leftmost_layout:
  assumes "internal_layout body n"
  shows "\<exists>b. write_u64_le body OFF_DUAL_USE c = Ok b \<and> length b = length body \<and>
    internal_layout b (n\<lparr>leftmost_child := c\<rparr>)"
proof -
  have ge: "24 \<le> length body" using assms by (simp add: internal_layout_def)
  obtain b where b: "write_at body 16 (u64_to_le_bytes c) = Ok b"
    using write_at_Ok_if [of 16 "u64_to_le_bytes c" body] ge by auto
  have len: "length b = length body" using write_at_length [OF b] .
  have same: "slice b x y = slice body x y" if "y \<le> 16 \<or> 24 \<le> x" for x y
    using slice_write_at_other [OF b, of y x] that by auto
  have dual: "read_u64_le b 16 = Ok c"
    using slice_write_at_same [OF b, of 24] by (simp add: read_u64_le_def)
  have "index b 0 = index body 0"
    using index_write_at_other [OF b, of 0] by simp
  then have hdr: "read_header b = Ok (internal_header (n\<lparr>leftmost_child := c\<rparr>))"
    using assms same [of 4 2] same [of 6 4] same [of 16 8] dual len ge
    by (auto simp: internal_layout_def read_header_def internal_header_def node_consts read_u16_le_def
        read_u64_le_def rbind_eq_Ok)
  have "slots_at entry_bytes 0 (entries n) 0 (length body) b"
  proof (rule slots_at_frame)
    show "slots_at entry_bytes 0 (entries n) 0 (length body) body"
      using assms by (simp add: internal_layout_def)
    show "slice b x y = slice body x y"
      if "length body - sum_list (map (\<lambda>r. length (entry_bytes r)) (entries n)) \<le> x" for x y
    proof -
      have "24 \<le> x" using that assms unfolding entry_bytes_sum internal_layout_def by linarith
      then show ?thesis using same by blast
    qed
  qed (use same in auto)
  then show ?thesis
    using b len hdr assms by (auto simp: internal_layout_def write_u64_le_def node_consts)
qed

text \<open>
  Routing never reads out of the body of a page that passed validation and whose directory
  starts where the accessor looks for it.
\<close>

lemma entry_reads_not_crash:
  assumes "validate_node_body body = Ok h" and "hdr_kind h = Internal" and "hdr_prefix_len h = 0"
    and "i < unat (hdr_slot_count h)"
  shows "is_ok (entry_key (internal_acc body h) i)"
    and "is_ok (entry_right_child (internal_acc body h) i)"
proof -
  obtain off where "slot_offset body 0 i = Ok off" "validate_internal_record body off = Ok ()"
    using validate_node_body_slot [OF assms(1,4)] assms(2,3) by auto
  then show "is_ok (entry_key (internal_acc body h) i)"
    "is_ok (entry_right_child (internal_acc body h) i)"
    using validate_internal_record_decode [of body off]
    by (auto simp: entry_key_def entry_right_child_def right_child_offset_def internal_acc_def
        decode_entry_def rbind_eq_Ok rmap_eq_Ok is_ok_iff)
qed

lemma child_search_total:
  "(\<And>i. i < hi \<Longrightarrow> is_ok (entry_key acc i)) \<Longrightarrow> lo \<le> hi \<Longrightarrow>
     \<exists>i. child_search acc q lo hi = Ok i \<and> i \<le> hi"
proof (induction acc q lo hi rule: child_search.induct)
  case (1 acc q lo hi)
  show ?case
  proof (cases "lo < hi")
    case True
    define mid where "mid = lo + (hi - lo) div 2"
    have mid: "mid < hi" "lo \<le> mid" using True by (auto simp: mid_def)
    obtain k where k: "entry_key acc mid = Ok k" using 1(3) [OF mid(1)] by (auto simp: is_ok_iff)
    have step: "child_search acc q lo hi =
        (if k \<le> q then child_search acc q (mid + 1) hi else child_search acc q lo mid)"
      using True k unfolding mid_def by (subst child_search.simps) (simp add: Let_def)
    show ?thesis
      using 1(1) [OF True mid_def k] 1(2) [OF True mid_def k] 1(3) mid by (fastforce simp: step)
  next
    case False
    then show ?thesis using 1(4) by (subst child_search.simps) auto
  qed
qed

lemma child_for_total:
  assumes "validate_node_body body = Ok h" and "hdr_kind h = Internal" and "hdr_prefix_len h = 0"
  shows "is_ok (child_for (internal_acc body h) q)"
proof -
  obtain i where "child_search (internal_acc body h) q 0 (unat (hdr_slot_count h)) = Ok i"
      "i \<le> unat (hdr_slot_count h)"
    using child_search_total [of "unat (hdr_slot_count h)" "internal_acc body h" 0 q]
      entry_reads_not_crash(1) [OF assms] by auto
  then show ?thesis
    using entry_reads_not_crash(2) [OF assms, of "i - 1"]
    by (auto simp: child_for_def internal_acc_def)
qed

section \<open>Insertion and split\<close>

lemma internal_upsert_spec:
  assumes "sorted_keys (entries n)"
  shows "sorted_keys (entries (internal_upsert n k c))"
    and "map_of (entries (internal_upsert n k c)) = (map_of (entries n))(k \<mapsto> c)"
    and "leftmost_child (internal_upsert n k c) = leftmost_child n"
proof -
  have "sorted_keys (entries (internal_upsert n k c)) \<and>
    map_of (entries (internal_upsert n k c)) = (map_of (entries n))(k \<mapsto> c) \<and>
    leftmost_child (internal_upsert n k c) = leftmost_child n"
  proof (cases "key_search (entries n) k")
    case (Inl i)
    note hit = key_search_hit [OF Inl]
    then show ?thesis
      using Inl assms list_update_map_of [OF assms, of i k c]
        map_fst_update_same [of i "entries n" k c] by (simp add: internal_upsert_def)
  next
    case (Inr i)
    then show ?thesis
      using vec_insert_sorted [OF assms Inr, of c] vec_insert_map_of [OF assms Inr, of c]
      by (simp add: internal_upsert_def)
  qed
  then show "sorted_keys (entries (internal_upsert n k c))"
    and "map_of (entries (internal_upsert n k c)) = (map_of (entries n))(k \<mapsto> c)"
    and "leftmost_child (internal_upsert n k c) = leftmost_child n"
    by auto
qed

lemma internal_split_spec:
  assumes "entries n \<noteq> []"
  obtains l r p where "internal_split n = Ok (l, r, p)"
    and "entries n = entries l @ (p, leftmost_child r) # entries r"
    and "leftmost_child l = leftmost_child n"
    and "length (entries l) = length (entries n) div 2"
proof -
  let ?mid = "length (entries n) div 2"
  have lt: "?mid < length (entries n)" using assms by (cases "entries n") auto
  obtain p c where e: "entries n ! ?mid = (p, c)" by (cases "entries n ! ?mid")
  have split: "internal_split n =
    Ok (\<lparr> leftmost_child = leftmost_child n, entries = take ?mid (entries n) \<rparr>,
        \<lparr> leftmost_child = c, entries = drop (Suc ?mid) (entries n) \<rparr>, p)"
    using lt e by (simp add: internal_split_def Let_def index_def)
  have "entries n = take ?mid (entries n) @ (p, c) # drop (Suc ?mid) (entries n)"
    using id_take_nth_drop [OF lt] e by simp
  then show ?thesis using that [OF split] lt by simp
qed

lemma internal_split_route:
  assumes "entries n = entries l @ (p, leftmost_child r) # entries r"
    and "leftmost_child l = leftmost_child n" and "sorted_keys (entries n)"
  shows "route (leftmost_child n) (entries n) q =
    (if p \<le> q then route (leftmost_child r) (entries r) q else route (leftmost_child l) (entries l) q)"
proof -
  have "\<forall>e \<in> set (entries l). fst e < p"
    using assms(1,3) by (auto simp: sorted_wrt_append)
  then show ?thesis
    unfolding assms(1) route_append assms(2) by (auto intro: order.trans less_imp_le)
qed

section \<open>The page as its callers see it\<close>

text \<open>
  The promise of the extent check does not reach the in-place reader of internal pages: a
  4056-byte body with a non-empty key prefix passes \<open>validate_node_body\<close> and decodes, and yet
  \<open>child_for\<close> indexes the slot directory as if the prefix were empty and reads out of bounds.
\<close>
theorem internal_accessor_ignores_prefix:
  "let body = header_bytes Internal 1 2 0 7 @ [0xFF, 0xFF] @ u16_to_le_bytes 28
                @ u16_to_le_bytes 0 @ u64_to_le_bytes 9 @ replicate 4018 0 in
   length body = body_capacity 4096 \<and>
   decode_internal body = Ok \<lparr> leftmost_child = 7, entries = [([], 9)] \<rparr> \<and>
   (\<exists>acc. fst (internal_from_guard body False) = Ok acc \<and> crashes (child_for acc q))"
proof -
  define body where "body = header_bytes Internal 1 2 0 7 @ [0xFF, 0xFF] @ u16_to_le_bytes 28
                @ u16_to_le_bytes 0 @ u64_to_le_bytes 9 @ replicate 4018 0"
  let ?h = "\<lparr> hdr_kind = Internal, hdr_slot_count = 1, hdr_prefix_len = 2,
              hdr_left_sibling = 0, hdr_dual_use = 7 \<rparr> :: node_header"
  have bl: "length body = 4056" by (simp add: body_def)
  have "slice body 0 24 = Ok (header_bytes Internal 1 2 0 7)"
    by (simp add: body_def slice_def)
  then have hdr: "read_header body = Ok ?h"
    by (simp only: read_header_slice read_header_of_bytes)
  have slot: "slot_offset body 2 0 = Ok 28"
    by (simp add: body_def slot_offset_def read_u16_le_def slice_def HEADER_LEN_def)
  have slot0: "slot_offset body 0 0 = Ok 65535"
    by (simp add: body_def slot_offset_def read_u16_le_def slice_def HEADER_LEN_def
        u16_from_le_bytes_def)
  have entry: "decode_entry body 28 = Ok ([], 9)"
    by (simp add: body_def decode_entry_def read_u16_le_def read_u64_le_def slice_def)
  have valid: "validate_node_body body = Ok ?h"
    by (rule validate_node_bodyI [OF hdr])
      (use slot entry in \<open>simp_all add: bl HEADER_LEN_def validate_internal_record_iff\<close>)
  have dec: "decode_internal body = Ok \<lparr> leftmost_child = 7, entries = [([], 9)] \<rparr>"
    by (simp add: decode_internal_def valid slot entry)
  have acc: "fst (internal_from_guard body False) = Ok (internal_acc body ?h)"
    by (simp add: internal_from_guard_def validate_node_body_memoised_def valid
        internal_from_header_def internal_acc_def)
  have "entry_key (internal_acc body ?h) 0 = Err (Panic ''slice out of range'')"
    by (simp add: entry_key_def internal_acc_def slot0 read_u16_le_def slice_def bl)
  then have "crashes (child_for (internal_acc body ?h) q)"
    by (simp add: child_for_def child_search.simps internal_acc_def)
  then show ?thesis
    unfolding Let_def body_def [symmetric] using dec acc bl
    by (simp add: body_capacity_def ENVELOPE_OVERHEAD_def)
qed


text \<open>
  C7. Internal pages round trip: a node that fits is encoded without error and decodes to itself,
  and when its separators are sorted the in-place reader routes every key to the child the
  reference walk over the separators selects.
\<close>
theorem internal_page_roundtrip:
  assumes "internal_fits n page_size" and "length body = body_capacity page_size"
    and "page_size \<le> 65536" and "sorted_keys (entries n)"
  shows "\<exists>b acc. encode_internal n body = Ok b \<and> length b = body_capacity page_size \<and>
    decode_internal b = Ok n \<and> fst (internal_from_guard b False) = Ok acc \<and>
    (\<forall>q. child_for acc q = Ok (route (leftmost_child n) (entries n) q))"
proof -
  obtain b where b: "encode_internal n body = Ok b" "length b = length body"
      "decode_internal b = Ok n" "rmap hdr_prefix_len (read_header b) = Ok 0"
    using internal_encode_decode [OF assms(1-3)] by blast
  obtain h where h: "validate_node_body b = Ok h" "hdr_kind h = Internal"
    using b(3) by (auto simp: decode_internal_def rbind_eq_Ok split: if_splits)
  have hdr: "read_header b = Ok h" "hdr_prefix_len h = 0"
    using validate_node_body_header [OF h(1)] b(4) by auto
  have "fst (internal_from_guard b False) = Ok (internal_acc b h)"
    using h by (simp add: internal_from_guard_def validate_node_body_memoised_def
        internal_from_header_def internal_acc_def)
  then show ?thesis
    using b assms(2) child_for_route [OF b(3) hdr assms(4)] by auto
qed

theorem internal_page_roundtrip_witness:
  "\<exists>b acc. encode_internal \<lparr> leftmost_child = 5, entries = [([3], 6), ([3, 1], 7)] \<rparr>
      (replicate 4056 0) = Ok b \<and> fst (internal_from_guard b False) = Ok acc \<and>
    child_for acc [2, 9] = Ok 5 \<and> child_for acc [3] = Ok 6 \<and> child_for acc [4] = Ok 7"
proof -
  have "internal_fits \<lparr> leftmost_child = 5, entries = [([3], 6), ([3, 1], 7)] \<rparr> 4096"
    by (simp add: internal_fits_def body_capacity_def ENVELOPE_OVERHEAD_def HEADER_LEN_def)
  then show ?thesis
    using internal_page_roundtrip [of "\<lparr> leftmost_child = 5, entries = [([3], 6), ([3, 1], 7)] \<rparr>"
        4096 "replicate 4056 0"]
    by (fastforce simp: body_capacity_def ENVELOPE_OVERHEAD_def)
qed

text \<open>
  C8. Decoding arbitrary bytes as an internal page never panics, and neither does routing a key in
  place on a body that passed validation with the empty key prefix every encoder of the program
  writes.
\<close>
theorem internal_page_safe:
  "\<not> crashes (decode_internal body) \<and>
   (case validate_node_body body of
      Err e \<Rightarrow> True
    | Ok h \<Rightarrow> hdr_kind h = Leaf \<or> hdr_prefix_len h \<noteq> 0 \<or>
        (\<forall>q. is_ok (child_for (internal_acc body h) q)))"
  using internal_decode_not_crashes [of body] child_for_total [of body]
  by (auto split: result.splits)

theorem internal_page_safe_witness:
  "\<exists>h. validate_node_body (header_bytes Internal 0 0 0 7) = Ok h \<and>
     is_ok (child_for (internal_acc (header_bytes Internal 0 0 0 7) h) [1])"
proof -
  have "validate_node_body (header_bytes Internal 0 0 0 7) =
      Ok \<lparr> hdr_kind = Internal, hdr_slot_count = 0, hdr_prefix_len = 0, hdr_left_sibling = 0,
           hdr_dual_use = 7 \<rparr>"
    by (rule validate_node_bodyI) (simp_all add: read_header_of_bytes HEADER_LEN_def)
  then show ?thesis using internal_page_safe [of "header_bytes Internal 0 0 0 7"] by auto
qed

text \<open>
  C9. Splitting an internal node preserves routing: with the promoted key as the new separator,
  every key reaches the child it reached before, through the left half when it is below the
  promoted key and through the right half otherwise; both halves stay sorted.
\<close>
theorem internal_split_routes:
  assumes "sorted_keys (entries n)" and "entries n \<noteq> []"
  shows "\<exists>l r p. internal_split n = Ok (l, r, p) \<and> sorted_keys (entries l) \<and> sorted_keys (entries r)
    \<and> (\<forall>q. route (leftmost_child n) (entries n) q =
         (if p \<le> q then route (leftmost_child r) (entries r) q
          else route (leftmost_child l) (entries l) q))"
proof -
  obtain l r p where s: "internal_split n = Ok (l, r, p)"
    "entries n = entries l @ (p, leftmost_child r) # entries r"
    "leftmost_child l = leftmost_child n"
    using internal_split_spec [OF assms(2)] by metis
  have "sorted_keys (entries l)" "sorted_keys (entries r)"
    using assms(1) s(2) by (auto simp: sorted_wrt_append)
  then show ?thesis using s internal_split_route [OF s(2,3) assms(1)] by blast
qed

theorem internal_split_routes_witness:
  "\<exists>l r. internal_split \<lparr> leftmost_child = 5, entries = [([3], 6), ([4], 7), ([9], 8)] \<rparr>
    = Ok (l, r, [4]) \<and> route (leftmost_child r) (entries r) [5] = 7"
  using internal_split_routes [of "\<lparr> leftmost_child = 5, entries = [([3], 6), ([4], 7), ([9], 8)] \<rparr>"]
  by (simp add: internal_split_def index_def)

end
