(* ===== verification/Split.thy ===== *)
theory Split
  imports Leaf_Node Internal_Node
begin

text \<open>
  The node split policy (\<open>btree/split.rs\<close>). The search for a leaf's split point is a loop that
  moves the point one record at a time; it is defined as a partial function, so that not
  returning is the value \<open>None\<close>, and \<open>split_leaf\<close> reports that outcome as \<open>Hang\<close>.
\<close>

section \<open>Definitions\<close>

definition initial_split :: "nat \<Rightarrow> bool \<Rightarrow> nat" where
  "initial_split n monotonic =
     (if monotonic then max (min ((n * 9) div 10) (n - 1)) 1 else n div 2)"

definition clamp_split :: "nat \<Rightarrow> nat \<Rightarrow> nat" where
  "clamp_split n split_at = max (min split_at (n - 1)) 1"

partial_function (option) split_loop :: "leaf_record list \<Rightarrow> nat \<Rightarrow> nat \<Rightarrow> nat option" where
  "split_loop rs page_size split_at0 =
     (let n = length rs;
          split_at = clamp_split n split_at0;
          left_fits = slice_fits (take split_at rs) page_size;
          right_fits = slice_fits (drop split_at rs) page_size in
      if left_fits \<and> right_fits then Some split_at
      else if \<not> left_fits \<and> split_at > 1 then split_loop rs page_size (split_at - 1)
      else if \<not> right_fits \<and> split_at < n - 1 then split_loop rs page_size (split_at + 1)
      else Some split_at)"

definition split_leaf :: "leaf \<Rightarrow> bool \<Rightarrow> nat \<Rightarrow> (leaf \<times> leaf \<times> key) result" where
  "split_leaf self monotonic page_size =
     (let n = length (records self) in
      if n = 0 then Err (Panic ''attempt to subtract with overflow'')
      else
        (case split_loop (records self) page_size (initial_split n monotonic) of
           None \<Rightarrow> Err (Hang ''split_leaf'')
         | Some split_at \<Rightarrow>
             (let right_records = drop split_at (records self) in
              rbind (index right_records 0) (\<lambda>(sep_key, _).
              Ok (\<lparr> left_sibling = left_sibling self, right_sibling = 0,
                    records = take split_at (records self) \<rparr>,
                  \<lparr> left_sibling = 0, right_sibling = 0, records = right_records \<rparr>,
                  sep_key)))))"

definition split_internal :: "internal \<Rightarrow> (internal \<times> internal \<times> key) result" where
  "split_internal n = internal_split n"

section \<open>A part of a sorted leaf is no larger than the leaf\<close>

definition leaf_size :: "leaf_record list \<Rightarrow> nat" where
  "leaf_size rs = HEADER_LEN + lcp_len rs + length rs * 2 + record_bytes_len (lcp_len rs) rs"

lemma slice_fits_iff: "slice_fits rs page_size \<longleftrightarrow> leaf_size rs \<le> body_capacity page_size"
  by (simp add: slice_fits_def leaf_size_def Let_def)

lemma takeWhile_zip_longest:
  "take (length p) xs = p \<Longrightarrow> take (length p) ys = p \<Longrightarrow>
     length p \<le> length (takeWhile (\<lambda>(a, b). a = b) (zip xs ys))"
proof (induction p arbitrary: xs ys)
  case (Cons a p)
  then show ?case by (cases xs; cases ys) auto
qed simp

lemma lcp_len_longest:
  "rs \<noteq> [] \<Longrightarrow> \<forall>r \<in> set rs. take (length p) (fst r) = p \<Longrightarrow> length p \<le> lcp_len rs"
proof (induction rs rule: lcp_len.induct)
  case (2 r)
  then have "p = take (length p) (fst r)" by simp
  then have "length p \<le> length (fst r)" by (metis length_take min.cobounded1)
  then show ?case by simp
next
  case (3 r r' rs)
  have "last (r' # rs) \<in> set (r # r' # rs)" by (metis last_in_set list.distinct(1) list.set_intros(2))
  then have "take (length p) (fst (last (r' # rs))) = p" using 3(2) by blast
  moreover have "take (length p) (fst r) = p" using 3(2) by simp
  ultimately show ?case
    using takeWhile_zip_longest [of p "fst r" "fst (last (r' # rs))"] by (simp del: last.simps)
qed simp

lemma lcp_len_sublist:
  assumes "sorted_keys rs" and "set xs \<subseteq> set rs" and "xs \<noteq> []"
  shows "lcp_len rs \<le> lcp_len xs"
proof -
  have "take (lcp_len rs) (fst r) = lcp rs" if "r \<in> set rs" for r
    using lcp_common [OF assms(1), of "fst r" "snd r"] that
    by (metis append_eq_conv_conj length_lcp prod.collapse)
  then show ?thesis
    using lcp_len_longest [OF assms(3), of "lcp rs"] assms(2) by (metis length_lcp subsetD)
qed

lemma record_bytes_len_shift:
  "\<forall>r \<in> set rs. p + d \<le> length (fst r) \<Longrightarrow>
     record_bytes_len p rs = record_bytes_len (p + d) rs + length rs * d"
  by (induction rs) auto

lemma record_bytes_len_append:
  "record_bytes_len p (xs @ ys) = record_bytes_len p xs + record_bytes_len p ys"
  by (simp add: record_bytes_len_def)

lemma record_bytes_len_take: "record_bytes_len p (take s rs) \<le> record_bytes_len p rs"
  by (metis append_take_drop_id record_bytes_len_append le_add1)

lemma record_bytes_len_drop: "record_bytes_len p (drop s rs) \<le> record_bytes_len p rs"
  by (metis append_take_drop_id record_bytes_len_append le_add2)

lemma leaf_size_part:
  assumes "sorted_keys rs" and "xs \<noteq> []" and "sorted_keys xs" and "set xs \<subseteq> set rs"
    and "length xs \<le> length rs"
    and "record_bytes_len (lcp_len rs) xs \<le> record_bytes_len (lcp_len rs) rs"
  shows "leaf_size xs \<le> leaf_size rs"
proof -
  let ?p = "lcp_len rs" and ?q = "lcp_len xs"
  have pq: "?p \<le> ?q" using lcp_len_sublist [OF assms(1,4,2)] .
  have "record_bytes_len ?p xs = record_bytes_len ?q xs + length xs * (?q - ?p)"
    using record_bytes_len_shift [of xs ?p "?q - ?p"] lcp_common(2) [OF assms(3)] pq by force
  moreover have "?q - ?p \<le> length xs * (?q - ?p)" using assms(2) by (cases xs) auto
  ultimately show ?thesis unfolding leaf_size_def using pq assms(5,6) by linarith
qed

lemma leaf_size_take:
  assumes "sorted_keys rs" and "0 < s" and "s \<le> s'" and "s' \<le> length rs"
  shows "leaf_size (take s rs) \<le> leaf_size (take s' rs)"
proof -
  have "take s rs = take s (take s' rs)" using assms(3) by (simp add: min_def)
  then show ?thesis
    using assms record_bytes_len_take [of _ s "take s' rs"]
    by (intro leaf_size_part) (auto simp: sorted_keys_take_drop set_take_subset_set_take)
qed

lemma leaf_size_drop:
  assumes "sorted_keys rs" and "s' \<le> s" and "s < length rs"
  shows "leaf_size (drop s rs) \<le> leaf_size (drop s' rs)"
proof -
  have "drop s rs = drop (s - s') (drop s' rs)" using assms(2) by simp
  then show ?thesis
    using assms record_bytes_len_drop [of _ "s - s'" "drop s' rs"]
    by (intro leaf_size_part) (auto simp: sorted_keys_take_drop set_drop_subset_set_drop)
qed

section \<open>When the split returns\<close>

text \<open>A split point both of whose sides fit.\<close>

definition good_split :: "leaf_record list \<Rightarrow> nat \<Rightarrow> nat \<Rightarrow> bool" where
  "good_split rs page_size s \<longleftrightarrow>
     0 < s \<and> s < length rs \<and> slice_fits (take s rs) page_size \<and> slice_fits (drop s rs) page_size"

lemma good_split_below:
  "sorted_keys rs \<Longrightarrow> good_split rs ps g \<Longrightarrow> 0 < s \<Longrightarrow> s \<le> g \<Longrightarrow> slice_fits (take s rs) ps"
  using leaf_size_take [of rs s g] by (auto simp: good_split_def slice_fits_iff)

lemma good_split_above:
  "sorted_keys rs \<Longrightarrow> good_split rs ps g \<Longrightarrow> g \<le> s \<Longrightarrow> s < length rs \<Longrightarrow> slice_fits (drop s rs) ps"
  using leaf_size_drop [of rs g s] by (auto simp: good_split_def slice_fits_iff)

lemma clamp_split_id [simp]: "0 < s \<Longrightarrow> s < n \<Longrightarrow> clamp_split n s = s"
  by (simp add: clamp_split_def)

text \<open>One iteration at a clamped split point.\<close>

lemma split_loop_step:
  "0 < s \<Longrightarrow> s < length rs \<Longrightarrow> split_loop rs ps s =
     (if slice_fits (take s rs) ps \<and> slice_fits (drop s rs) ps then Some s
      else if \<not> slice_fits (take s rs) ps \<and> s > 1 then split_loop rs ps (s - 1)
      else if \<not> slice_fits (drop s rs) ps \<and> s < length rs - 1 then split_loop rs ps (s + 1)
      else Some s)"
  by (subst split_loop.simps) (simp add: Let_def)

lemma split_loop_clamp:
  "2 \<le> length rs \<Longrightarrow> split_loop rs ps s = split_loop rs ps (clamp_split (length rs) s)"
  by (subst (1 2) split_loop.simps) (simp add: clamp_split_def Let_def)

lemma split_loop_finds:
  assumes "sorted_keys rs" and "good_split rs ps g"
  shows "0 < s \<Longrightarrow> s < length rs \<Longrightarrow> \<exists>t. split_loop rs ps s = Some t \<and> good_split rs ps t"
proof (induction "if s \<le> g then g - s else s - g" arbitrary: s rule: less_induct)
  case less
  note below = good_split_below [OF assms, of s] and above = good_split_above [OF assms, of s]
  consider "good_split rs ps s" | "\<not> good_split rs ps s" "s < g" | "\<not> good_split rs ps s" "g < s"
    using assms(2) by (metis linorder_neqE_nat)
  then show ?case
  proof cases
    case 1
    then show ?thesis using less.prems by (auto simp: split_loop_step good_split_def)
  next
    case 2
    then have "split_loop rs ps s = split_loop rs ps (s + 1)"
      using below less.prems assms(2)
      by (simp add: split_loop_step [OF less.prems]) (auto simp: good_split_def)
    then show ?thesis using less.hyps [of "s + 1"] 2 less.prems assms(2) by (auto simp: good_split_def)
  next
    case 3
    then have "split_loop rs ps s = split_loop rs ps (s - 1)"
      using above less.prems assms(2)
      by (simp add: split_loop_step [OF less.prems]) (auto simp: good_split_def)
    moreover have "0 < g" using assms(2) by (simp add: good_split_def)
    moreover have "(if s - 1 \<le> g then g - (s - 1) else s - 1 - g) < (if s \<le> g then g - s else s - g)"
      using 3 by auto
    ultimately show ?thesis using less.hyps [of "s - 1"] 3 less.prems by simp
  qed
qed

text \<open>
  With no such point the loop steps back and forth between two points for ever, provided the
  outermost records fit on their own, as insertion checks.
\<close>

definition no_split :: "leaf_record list \<Rightarrow> nat \<Rightarrow> bool" where
  "no_split rs ps \<longleftrightarrow> 2 \<le> length rs \<and> slice_fits (take 1 rs) ps \<and>
     slice_fits (drop (length rs - 1) rs) ps \<and> (\<forall>g < length rs. \<not> good_split rs ps g)"

lemma split_loop_hangs:
  assumes "no_split rs ps"
  shows "split_loop rs ps s = None"
proof (rule ccontr)
  assume "split_loop rs ps s \<noteq> None"
  then obtain y where "split_loop rs ps s = Some y" by auto
  then have "\<not> no_split rs ps"
  proof (rule split_loop.raw_induct [where P = "\<lambda>rs ps s y. \<not> no_split rs ps", rotated])
    fix self rs ps s0 y
    assume IH: "\<And>rs ps s y. self rs ps s = Some y \<Longrightarrow> \<not> no_split rs ps"
      and eq: "(let n = length rs;
          split_at = clamp_split n s0;
          left_fits = slice_fits (take split_at rs) ps;
          right_fits = slice_fits (drop split_at rs) ps in
        if left_fits \<and> right_fits then Some split_at
        else if \<not> left_fits \<and> split_at > 1 then self rs ps (split_at - 1)
        else if \<not> right_fits \<and> split_at < n - 1 then self rs ps (split_at + 1)
        else Some split_at) = Some y"
    show "\<not> no_split rs ps"
    proof
      assume no: "no_split rs ps"
      define s where "s = clamp_split (length rs) s0"
      have s: "0 < s" "s < length rs" using no by (auto simp: s_def clamp_split_def no_split_def)
      have bad: "\<not> (slice_fits (take s rs) ps \<and> slice_fits (drop s rs) ps)"
        using no s by (auto simp: good_split_def no_split_def)
      have left: "s > 1" if "\<not> slice_fits (take s rs) ps"
        using that no s by (cases "s = 1") (auto simp: no_split_def)
      have right: "s < length rs - 1" if "\<not> slice_fits (drop s rs) ps"
        using that no s by (cases "s = length rs - 1") (auto simp: no_split_def)
      have "self rs ps (s - 1) = Some y \<or> self rs ps (s + 1) = Some y"
        using eq bad left right by (auto simp: Let_def s_def [symmetric] split: if_splits)
      then show False using IH no by blast
    qed
  qed
  with assms show False by simp
qed

section \<open>Correctness of the split\<close>

lemma split_leaf_eq:
  assumes "2 \<le> length (records l)"
  shows "split_leaf l m ps =
    (case split_loop (records l) ps (clamp_split (length (records l))
            (initial_split (length (records l)) m)) of
       None \<Rightarrow> Err (Hang ''split_leaf'')
     | Some s \<Rightarrow>
         rbind (index (drop s (records l)) 0) (\<lambda>(sep_key, _).
         Ok (\<lparr> left_sibling = left_sibling l, right_sibling = 0, records = take s (records l) \<rparr>,
             \<lparr> left_sibling = 0, right_sibling = 0, records = drop s (records l) \<rparr>, sep_key)))"
proof -
  have "records l \<noteq> []" using assms by auto
  then show ?thesis
    by (simp add: split_leaf_def Let_def split_loop_clamp [OF assms, symmetric]
        cong: option.case_cong)
qed

lemma clamp_split_bounds: "2 \<le> n \<Longrightarrow> 0 < clamp_split n s \<and> clamp_split n s < n"
  by (auto simp: clamp_split_def)

lemma split_leaf_returns:
  assumes "sorted_keys (records l)" and "good_split (records l) ps g"
  obtains left right sep where "split_leaf l m ps = Ok (left, right, sep)"
    and "fits left ps" and "fits right ps"
    and "records l = records left @ records right"
    and "records left \<noteq> []" and "records right \<noteq> []" and "sep = fst (hd (records right))"
proof -
  let ?rs = "records l"
  have len: "2 \<le> length ?rs" using assms(2) by (auto simp: good_split_def)
  obtain s where s: "split_loop ?rs ps (clamp_split (length ?rs) (initial_split (length ?rs) m))
      = Some s" "good_split ?rs ps s"
    using split_loop_finds [OF assms] clamp_split_bounds [OF len] by blast
  then have lt: "0 < s" "s < length ?rs" and
      fit: "slice_fits (take s ?rs) ps" "slice_fits (drop s ?rs) ps"
    by (auto simp: good_split_def)
  show ?thesis
    by (rule that [of "\<lparr> left_sibling = left_sibling l, right_sibling = 0, records = take s ?rs \<rparr>"
          "\<lparr> left_sibling = 0, right_sibling = 0, records = drop s ?rs \<rparr>" "fst (?rs ! s)"])
      (use s lt fit in \<open>auto simp: split_leaf_eq [OF len] index_def fits_def hd_drop_conv_nth
          split: prod.splits\<close>)
qed


text \<open>
  C10. Splitting a sorted leaf whose records each fit on a page of their own: if some two-way split
  has both halves fit, \<open>split_leaf\<close> returns such a split, for either bias, keeping every record in
  order with the separator the first key of the right half; if none exists, the search for the
  split point never returns.
\<close>
theorem split_leaf_decides:
  assumes "sorted_keys (records l)" and "2 \<le> length (records l)"
    and "\<forall>r \<in> set (records l). slice_fits [r] ps"
  shows "if \<exists>g < length (records l). good_split (records l) ps g
    then \<exists>left right sep. split_leaf l m ps = Ok (left, right, sep) \<and> fits left ps \<and> fits right ps \<and>
      records l = records left @ records right \<and> records left \<noteq> [] \<and> records right \<noteq> [] \<and>
      sep = fst (hd (records right))
    else split_leaf l m ps = Err (Hang ''split_leaf'')"
proof (cases "\<exists>g < length (records l). good_split (records l) ps g")
  case True
  then obtain g where "good_split (records l) ps g" by blast
  from split_leaf_returns [OF assms(1) this, of m] show ?thesis using True by (simp) metis
next
  case False
  have "take 1 (records l) = [hd (records l)]"
    using assms(2) by (cases "records l") auto
  moreover have "drop (length (records l) - 1) (records l) = [last (records l)]"
    using assms(2) by (cases "records l" rule: rev_cases) auto
  moreover have "hd (records l) \<in> set (records l)" "last (records l) \<in> set (records l)"
    using assms(2) by (cases "records l"; auto)+
  ultimately have "no_split (records l) ps"
    using False assms(2,3) by (simp add: no_split_def)
  then show ?thesis using False split_loop_hangs by (simp add: split_leaf_eq [OF assms(2)])
qed

theorem split_leaf_decides_witness:
  "let l = \<lparr> left_sibling = 5, right_sibling = 6,
      records = [([1], Inline (replicate 1000 0)), ([2], Inline (replicate 1000 0)),
                 ([3], Inline (replicate 1000 0)), ([4], Inline (replicate 1000 0))] \<rparr> in
   (\<exists>g < length (records l). good_split (records l) 4096 g) \<and>
   (\<exists>left right sep. split_leaf l False 4096 = Ok (left, right, sep) \<and> fits left 4096 \<and> fits right 4096)"
proof -
  let ?l = "\<lparr> left_sibling = 5, right_sibling = 6,
      records = [([1], Inline (replicate 1000 0)), ([2], Inline (replicate 1000 0)),
                 ([3], Inline (replicate 1000 0)), ([4], Inline (replicate 1000 0))] \<rparr>"
  have "\<exists>g < length (records ?l). good_split (records ?l) 4096 g"
    by (rule exI [of _ 2]) (simp add: good_split_def slice_fits_def body_capacity_def
        ENVELOPE_OVERHEAD_def HEADER_LEN_def)
  moreover have "sorted_keys (records ?l)" "2 \<le> length (records ?l)"
      "\<forall>r \<in> set (records ?l). slice_fits [r] 4096"
    by (simp_all add: slice_fits_def body_capacity_def ENVELOPE_OVERHEAD_def HEADER_LEN_def)
  ultimately show ?thesis
    using split_leaf_decides [of ?l 4096 False] by (simp add: Let_def) metis
qed

text \<open>
  C11. Reaching the loop that does not return: on 4096-byte pages a leaf with two 1000-byte inline
  values fits, a record with a 3901-byte key passes the single-record preflight, and once that
  record is inserted between the two the leaf no longer fits and neither bias of \<open>split_leaf\<close>
  returns.
\<close>
theorem split_leaf_hang_reachable:
  "let l = \<lparr> left_sibling = 0, right_sibling = 0,
              records = [([1], Inline (replicate 1000 0)), ([4], Inline (replicate 1000 0))] \<rparr>;
       k = 3 # replicate 3900 0;
       l' = fst (upsert l k (Inline [])) in
   fits l 4096 \<and> single_record_fits_encoded (length k) (encoded_size (Inline [])) 4096 \<and>
   separator_fits (length k) 4096 \<and> \<not> fits l' 4096 \<and>
   (\<forall>m. split_leaf l' m 4096 = Err (Hang ''split_leaf''))"
proof -
  let ?A = "([1], Inline (replicate 1000 0)) :: leaf_record"
  let ?C = "(3 # replicate 3900 0, Inline []) :: leaf_record"
  let ?D = "([4], Inline (replicate 1000 0)) :: leaf_record"
  let ?l = "\<lparr> left_sibling = 0, right_sibling = 0, records = [?A, ?D] \<rparr>"
  let ?l' = "\<lparr> left_sibling = 0, right_sibling = 0, records = [?A, ?C, ?D] \<rparr>"
  note defs = slice_fits_def body_capacity_def ENVELOPE_OVERHEAD_def HEADER_LEN_def
  have "key_search [?A, ?D] (3 # replicate 3900 0) = Inr 1"
    by (simp add: key_search_def binary_search_by.simps cmp_def)
  then have up: "fst (upsert ?l (3 # replicate 3900 0) (Inline [])) = ?l'"
    by (simp add: upsert_def position_def vec_insert_def)
  have "no_split (records ?l') 4096"
    by (auto simp: no_split_def good_split_def defs less_Suc_eq)
  then have "split_leaf ?l' m 4096 = Err (Hang ''split_leaf'')" for m
    using split_loop_hangs [of "records ?l'" 4096] by (subst split_leaf_eq) (simp_all)
  moreover have "fits ?l 4096" "\<not> fits ?l' 4096"
    by (simp_all add: fits_def defs)
  moreover have "single_record_fits_encoded (length (fst ?C)) (encoded_size (Inline [])) 4096"
    "separator_fits (length (fst ?C)) 4096"
    by (simp_all add: single_record_fits_encoded_def separator_fits_def separator_entry_size_def
        checked_add_def defs SEPARATOR_RECORD_OVERHEAD_def SLOT_DIRECTORY_ENTRY_SIZE_def)
  ultimately show ?thesis unfolding Let_def using up by simp
qed

text \<open>
  The 50/50 split of an internal node counts separators, not bytes: on 4096-byte pages a node
  with six 600-byte separators fits, a 3400-byte separator passes the separator preflight, and
  after inserting it the left half of \<open>split_internal\<close> is refused by the encoder.
\<close>
theorem split_internal_half_overflows:
  "let n = \<lparr> leftmost_child = 10,
             entries = map (\<lambda>b. (b # replicate 599 0, 20)) [2, 3, 4, 5, 6, 7] \<rparr>;
       k = 1 # replicate 3399 0;
       n' = internal_upsert n k 11 in
   internal_fits n 4096 \<and> separator_fits (length k) 4096 \<and> \<not> internal_fits n' 4096 \<and>
   (\<exists>left right promoted. split_internal n' = Ok (left, right, promoted) \<and>
      encode_internal left (replicate (body_capacity 4096) 0) = Err PayloadTooLarge)"
proof -
  let ?es = "map (\<lambda>b. (b # replicate 599 0, 20)) [2, 3, 4, 5, 6, 7] :: internal_entry list"
  let ?k = "1 # replicate 3399 0 :: key"
  note defs = body_capacity_def ENVELOPE_OVERHEAD_def HEADER_LEN_def
  have "key_search ?es ?k = Inr 0"
    by (simp add: key_search_def binary_search_by.simps cmp_def)
  then have up: "internal_upsert \<lparr> leftmost_child = 10, entries = ?es \<rparr> ?k 11 =
      \<lparr> leftmost_child = 10, entries = (?k, 11) # ?es \<rparr>"
    by (simp add: internal_upsert_def vec_insert_def)
  have split: "split_internal \<lparr> leftmost_child = 10, entries = (?k, 11) # ?es \<rparr> =
    Ok (\<lparr> leftmost_child = 10, entries = [(?k, 11), (2 # replicate 599 0, 20),
            (3 # replicate 599 0, 20)] \<rparr>,
        \<lparr> leftmost_child = 20, entries = map (\<lambda>b. (b # replicate 599 0, 20)) [5, 6, 7] \<rparr>,
        4 # replicate 599 0)"
    by (simp add: split_internal_def internal_split_def index_def Let_def)
  have "encode_internal \<lparr> leftmost_child = 10, entries = [(?k, 11), (2 # replicate 599 0, 20),
      (3 # replicate 599 0, 20)] \<rparr> (replicate (body_capacity 4096) 0) = Err PayloadTooLarge"
    by (simp add: encode_internal_def Let_def entry_bytes_len_def SLOT_DIRECTORY_ENTRY_SIZE_def
        SEPARATOR_RECORD_OVERHEAD_def defs)
  moreover have "internal_fits \<lparr> leftmost_child = 10, entries = ?es \<rparr> 4096"
    "\<not> internal_fits \<lparr> leftmost_child = 10, entries = (?k, 11) # ?es \<rparr> 4096"
    by (simp_all add: internal_fits_def defs)
  moreover have "separator_fits (length ?k) 4096"
    by (simp add: separator_fits_def separator_entry_size_def
        checked_add_def defs SEPARATOR_RECORD_OVERHEAD_def SLOT_DIRECTORY_ENTRY_SIZE_def)
  ultimately show ?thesis unfolding Let_def up split by blast
qed

end
