(* ===== verification/Pager_Store.thy ===== *)
theory Pager_Store
  imports Node
begin

text \<open>
  The pager as the B+ tree sees it (\<open>pager/core/read.rs\<close>, \<open>pager/core/write.rs\<close>): pages staged in
  the buffer pool under a kind and a realm, and the checks a read applies to a resident page.

  The state holds the resident pages, the dirty set and, as a function, the outcome of a cold
  read (disk bytes, key lookup and authentication), which nothing here looks into. A cold read
  leaves its page resident; since a clean resident page carries what the cold read returned,
  reads are modelled without that change of residency. Dirty pages are never evicted.
\<close>

type_synonym realm_id = bytes

datatype kind_binding = Fixed page_kind | NodeKind

record page =
  pg_body :: bytes
  kind_byte :: u8
  realm_id_bytes :: "realm_id option"

record pager =
  cfg_page_size :: nat
  cfg_buffer_pool_pages :: nat
  pool :: "page_id \<Rightarrow> page option"
  dirty_pages :: "page_id list"
  cold_read :: "realm_id \<Rightarrow> kind_binding \<Rightarrow> page_id \<Rightarrow> (bytes \<times> page_kind) result"

definition resolve_cached :: "kind_binding \<Rightarrow> u8 \<Rightarrow> page_kind result" where
  "resolve_cached binding cached_kind_byte =
     (case binding of
        Fixed k \<Rightarrow>
          if cached_kind_byte \<noteq> 0 \<and> cached_kind_byte \<noteq> as_byte k then Err ChecksumFailure else Ok k
      | NodeKind \<Rightarrow>
          (case page_kind_from_byte cached_kind_byte of
             Ok k \<Rightarrow> if k = BTreeLeaf \<or> k = BTreeInternal then Ok k else Err ChecksumFailure
           | Err _ \<Rightarrow> Err ChecksumFailure))"

definition check_resident_page :: "page \<Rightarrow> realm_id \<Rightarrow> kind_binding \<Rightarrow> page_kind result" where
  "check_resident_page pg realm binding =
     (if realm_id_bytes pg \<noteq> Some realm then Err ChecksumFailure
      else resolve_cached binding (kind_byte pg))"

definition read_page :: "pager \<Rightarrow> page_id \<Rightarrow> realm_id \<Rightarrow> kind_binding \<Rightarrow> (bytes \<times> page_kind) result" where
  "read_page s page_id realm binding =
     (case pool s page_id of
        Some pg \<Rightarrow> rbind (check_resident_page pg realm binding) (\<lambda>kind. Ok (pg_body pg, kind))
      | None \<Rightarrow> cold_read s realm binding page_id)"

definition read_main_page :: "pager \<Rightarrow> page_id \<Rightarrow> realm_id \<Rightarrow> page_kind \<Rightarrow> bytes result" where
  "read_main_page s page_id realm expected_kind =
     (if \<not> is_main_db expected_kind then Err IllegalPageKind
      else rmap fst (read_page s page_id realm (Fixed expected_kind)))"

definition read_main_node :: "pager \<Rightarrow> page_id \<Rightarrow> realm_id \<Rightarrow> (bytes \<times> page_kind) result" where
  "read_main_node s page_id realm = read_page s page_id realm NodeKind"

definition write_page :: "pager \<Rightarrow> page_id \<Rightarrow> realm_id \<Rightarrow> page_kind \<Rightarrow> bytes \<Rightarrow> pager result" where
  "write_page s page_id realm kind body_plain =
     (if length body_plain \<noteq> cfg_page_size s - ENVELOPE_OVERHEAD then Err PayloadTooLarge
      else
        Ok (s\<lparr>pool := (pool s)(page_id \<mapsto>
                  \<lparr> pg_body = body_plain, kind_byte = as_byte kind, realm_id_bytes = Some realm \<rparr>),
              dirty_pages := List.insert page_id (dirty_pages s)\<rparr>))"

definition write_main_page :: "pager \<Rightarrow> page_id \<Rightarrow> realm_id \<Rightarrow> page_kind \<Rightarrow> bytes \<Rightarrow> pager result" where
  "write_main_page s page_id realm kind body_plain =
     (if \<not> is_main_db kind then Err IllegalPageKind
      else write_page s page_id realm kind body_plain)"

definition main_dirty_at_budget :: "pager \<Rightarrow> bool" where
  "main_dirty_at_budget s \<longleftrightarrow> length (dirty_pages s) \<ge> max (cfg_buffer_pool_pages s) 1"

section \<open>The contract the tree relies on\<close>

text \<open>
  What a client of the pager may conclude: a page reads back as written under its realm and
  kind, other pages are untouched, and only the length and the kind of a page can be refused.
\<close>

locale page_store =
  fixes get_page :: "'s \<Rightarrow> page_id \<Rightarrow> realm_id \<Rightarrow> page_kind \<Rightarrow> bytes result"
    and read_node :: "'s \<Rightarrow> page_id \<Rightarrow> realm_id \<Rightarrow> (bytes \<times> page_kind) result"
    and put_page :: "'s \<Rightarrow> page_id \<Rightarrow> realm_id \<Rightarrow> page_kind \<Rightarrow> bytes \<Rightarrow> 's result"
    and capacity :: "'s \<Rightarrow> nat"
  assumes read_written: "put_page s p r k b = Ok s' \<Longrightarrow> get_page s' p r k = Ok b"
    and read_node_written: "put_page s p r k b = Ok s' \<Longrightarrow> k = BTreeLeaf \<or> k = BTreeInternal \<Longrightarrow>
      read_node s' p r = Ok (b, k)"
    and read_other: "put_page s p r k b = Ok s' \<Longrightarrow> q \<noteq> p \<Longrightarrow> get_page s' q r' k' = get_page s q r' k'"
    and read_node_other: "put_page s p r k b = Ok s' \<Longrightarrow> q \<noteq> p \<Longrightarrow> read_node s' q r' = read_node s q r'"
    and write_ok: "is_main_db k \<Longrightarrow> length b = capacity s \<Longrightarrow> \<exists>s'. put_page s p r k b = Ok s'"
    and write_length: "put_page s p r k b = Ok s' \<Longrightarrow> length b = capacity s"
    and capacity_write: "put_page s p r k b = Ok s' \<Longrightarrow> capacity s' = capacity s"
begin

primrec write_pages :: "'s \<Rightarrow> realm_id \<Rightarrow> (page_id \<times> page_kind \<times> bytes) list \<Rightarrow> 's result" where
  "write_pages s r [] = Ok s"
| "write_pages s r (w # ws) =
     rbind (put_page s (fst w) r (fst (snd w)) (snd (snd w))) (\<lambda>s. write_pages s r ws)"

lemma write_pages_other:
  "write_pages s r ws = Ok s' \<Longrightarrow> q \<notin> fst ` set ws \<Longrightarrow>
     get_page s' q r' k' = get_page s q r' k' \<and> read_node s' q r' = read_node s q r'"
  by (induction ws arbitrary: s) (auto simp: rbind_eq_Ok read_other read_node_other)

text \<open>A batch of writes to distinct pages leaves every one of them readable.\<close>

lemma write_pages_read:
  "write_pages s r ws = Ok s' \<Longrightarrow> distinct (map fst ws) \<Longrightarrow> (p, k, b) \<in> set ws \<Longrightarrow>
     get_page s' p r k = Ok b"
proof (induction ws arbitrary: s)
  case (Cons w ws)
  then obtain s1 where s1: "put_page s (fst w) r (fst (snd w)) (snd (snd w)) = Ok s1"
      "write_pages s1 r ws = Ok s'"
    by (auto simp: rbind_eq_Ok)
  show ?case
  proof (cases "(p, k, b) = w")
    case True
    then have "p \<notin> fst ` set ws" using Cons.prems(2) by (metis distinct.simps(2) fst_conv list.set_map list.simps(9))
    then show ?thesis using write_pages_other [OF s1(2)] read_written s1(1) True by fastforce
  next
    case False
    then show ?thesis using Cons.IH [OF s1(2)] Cons.prems by auto
  qed
qed simp

end

interpretation pager: page_store read_main_page read_main_node write_main_page
  "\<lambda>s. body_capacity (cfg_page_size s)"
  by unfold_locales
    (auto simp: read_main_page_def read_main_node_def write_main_page_def read_page_def
      write_page_def check_resident_page_def resolve_cached_def body_capacity_def
      page_kind_from_byte_def split: if_splits option.splits)

lemma write_main_page_frame:
  "write_main_page s p r k b = Ok s' \<Longrightarrow>
     cfg_page_size s' = cfg_page_size s \<and> cold_read s' = cold_read s \<and> set (dirty_pages s') = insert p (set (dirty_pages s))"
  by (auto simp: write_main_page_def write_page_def split: if_splits)

end
