(* ===== verification/Overflow.thy ===== *)
theory Overflow
  imports Pager_Store
begin

text \<open>
  Overflow chains (\<open>btree/overflow.rs\<close>): the bodies of root and chain pages, writing a value as
  a chain, and the four walks over a chain, each of which refuses a page it has already visited.

  A walk's loop terminates because every iteration adds a page id to the visited set and there
  are finitely many ids; \<open>seen_measure\<close> is the number still unvisited. \<open>write_chain\<close> is modelled for
  the write path, which disables flushing between pages; the allocator it is handed is an
  argument, a state transformer that may fail.
\<close>

section \<open>Page bodies\<close>

definition OVERFLOW_HEADER_LEN :: nat where "OVERFLOW_HEADER_LEN = 12"
definition OVERFLOW_ROOT_PREFIX :: nat where "OVERFLOW_ROOT_PREFIX = 4"

definition OVERFLOW_ROOT_HEADER_LEN :: nat where
  "OVERFLOW_ROOT_HEADER_LEN = OVERFLOW_ROOT_PREFIX + OVERFLOW_HEADER_LEN"

lemmas overflow_consts =
  OVERFLOW_HEADER_LEN_def OVERFLOW_ROOT_PREFIX_def OVERFLOW_ROOT_HEADER_LEN_def ENVELOPE_OVERHEAD_def

definition inline_value_threshold :: "nat \<Rightarrow> nat" where
  "inline_value_threshold page_size = page_size div 4"

definition overflow_page_capacity :: "nat \<Rightarrow> nat" where
  "overflow_page_capacity page_size = page_size - ENVELOPE_OVERHEAD - OVERFLOW_HEADER_LEN"

definition overflow_root_capacity :: "nat \<Rightarrow> nat" where
  "overflow_root_capacity page_size = page_size - ENVELOPE_OVERHEAD - OVERFLOW_ROOT_HEADER_LEN"

definition encode_overflow :: "bytes \<Rightarrow> u64 \<Rightarrow> bytes \<Rightarrow> bytes result" where
  "encode_overflow body next data =
     (let page_size = length body + ENVELOPE_OVERHEAD; cap = overflow_page_capacity page_size in
      if length data > cap then Err PayloadTooLarge
      else
        (let body = replicate (length body) 0 in
         rbind (write_at body 0 (u64_to_le_bytes next)) (\<lambda>body.
         rbind (of_option (Io ''overflow data_len overflow'') (u32_try_from (length data))) (\<lambda>data_len.
         rbind (write_at body 8 (u32_to_le_bytes data_len)) (\<lambda>body.
         write_at body 12 data)))))"

definition decode_overflow :: "bytes \<Rightarrow> (u64 \<times> bytes) result" where
  "decode_overflow body =
     (if length body < OVERFLOW_HEADER_LEN
      then Err (Corruption (OverflowBodyMalformed ''chain_page.header_length''))
      else
        rbind (slice body 0 8) (\<lambda>n.
        rbind (slice body 8 12) (\<lambda>l.
        let next = u64_from_le_bytes n; data_len = unat (u32_from_le_bytes l) in
        if 12 + data_len > length body
        then Err (Corruption (OverflowBodyMalformed ''chain_page.data_length''))
        else rbind (slice body 12 (12 + data_len)) (\<lambda>data. Ok (next, data)))))"

definition encode_overflow_root :: "bytes \<Rightarrow> u32 \<Rightarrow> u64 \<Rightarrow> bytes \<Rightarrow> bytes result" where
  "encode_overflow_root body refcount next data =
     (let page_size = length body + ENVELOPE_OVERHEAD; cap = overflow_root_capacity page_size in
      if length data > cap then Err PayloadTooLarge
      else
        (let body = replicate (length body) 0 in
         rbind (write_at body 0 (u32_to_le_bytes refcount)) (\<lambda>body.
         rbind (write_at body 4 (u64_to_le_bytes next)) (\<lambda>body.
         rbind (of_option (Io ''overflow root data_len overflow'') (u32_try_from (length data)))
           (\<lambda>data_len.
         rbind (write_at body 12 (u32_to_le_bytes data_len)) (\<lambda>body.
         write_at body 16 data))))))"

definition decode_overflow_root :: "bytes \<Rightarrow> (u32 \<times> u64 \<times> bytes) result" where
  "decode_overflow_root body =
     (if length body < OVERFLOW_ROOT_HEADER_LEN
      then Err (Corruption (OverflowBodyMalformed ''root.header_length''))
      else
        rbind (slice body 0 4) (\<lambda>r.
        rbind (slice body 4 12) (\<lambda>n.
        rbind (slice body 12 16) (\<lambda>l.
        let refcount = u32_from_le_bytes r; next = u64_from_le_bytes n;
            data_len = unat (u32_from_le_bytes l) in
        if 16 + data_len > length body
        then Err (Corruption (OverflowBodyMalformed ''root.data_length''))
        else rbind (slice body 16 (16 + data_len)) (\<lambda>data. Ok (refcount, next, data))))))"

definition overflow_root_next :: "bytes \<Rightarrow> u64 result" where
  "overflow_root_next body = rmap (\<lambda>(_, next, _). next) (decode_overflow_root body)"

record root_page_info =
  refcount :: u32
  root_next :: u64
  root_data :: bytes

definition read_root_page :: "pager \<Rightarrow> realm_id \<Rightarrow> page_id \<Rightarrow> root_page_info result" where
  "read_root_page pager realm root_page_id =
     rbind (read_main_page pager root_page_id realm OverflowRoot) (\<lambda>body.
     rbind (decode_overflow_root body) (\<lambda>(rc, next, data).
     Ok \<lparr> refcount = rc, root_next = next, root_data = data \<rparr>))"

section \<open>Writing a chain\<close>

function write_chain_loop ::
  "realm_id \<Rightarrow> nat \<Rightarrow> ('a \<Rightarrow> page_id result \<times> 'a) \<Rightarrow> bytes \<Rightarrow> page_id \<Rightarrow> nat \<Rightarrow> bool \<Rightarrow>
     pager \<Rightarrow> 'a \<Rightarrow> unit result \<times> pager \<times> 'a" where
  "write_chain_loop realm page_size allocate_page val page_id start is_root pager a =
     (let root_cap = overflow_root_capacity page_size;
          chain_cap = overflow_page_capacity page_size;
          cap = if is_root then root_cap else chain_cap;
          stop = min (start + cap) (length val) in
      case (if stop < length val then allocate_page a else (Ok 0, a)) of
        (Err e, a) \<Rightarrow> (Err e, pager, a)
      | (Ok next, a) \<Rightarrow>
          (let body = replicate (page_size - ENVELOPE_OVERHEAD) 0 in
           case rbind (slice val start stop) (\<lambda>chunk.
                if is_root
                then rbind (encode_overflow_root body 1 next chunk)
                       (write_main_page pager page_id realm OverflowRoot)
                else rbind (encode_overflow body next chunk)
                       (write_main_page pager page_id realm Overflow)) of
             Err e \<Rightarrow> (Err e, pager, a)
           | Ok pager \<Rightarrow>
               if next = 0 then (Ok (), pager, a)
               else if \<not> is_root \<and> stop \<le> start then (Err (Hang ''write_chain''), pager, a)
               else write_chain_loop realm page_size allocate_page val next stop False pager a))"
  by pat_completeness auto
termination
  by (relation "measures [\<lambda>(realm, ps, al, val, p, start, is_root, s, a). if is_root then 1 else 0,
        \<lambda>(realm, ps, al, val, p, start, is_root, s, a). length val - start]")
    (auto simp: min_def split: if_splits)

declare write_chain_loop.simps [simp del]

definition write_chain ::
  "pager \<Rightarrow> realm_id \<Rightarrow> bytes \<Rightarrow> nat \<Rightarrow> ('a \<Rightarrow> page_id result \<times> 'a) \<Rightarrow> 'a \<Rightarrow>
     page_id result \<times> pager \<times> 'a" where
  "write_chain pager realm val page_size allocate_page a =
     (case allocate_page a of
        (Err e, a) \<Rightarrow> (Err e, pager, a)
      | (Ok root_page_id, a) \<Rightarrow>
          mbind (write_chain_loop realm page_size allocate_page val root_page_id 0 True pager a)
            (\<lambda>_ s. (Ok root_page_id, s)))"

section \<open>Walking a chain\<close>

definition seen_measure :: "page_id set \<Rightarrow> nat" where
  "seen_measure seen = card (- seen)"

lemma seen_measure_insert: "p \<notin> seen \<Longrightarrow> seen_measure (insert p seen) < seen_measure seen"
  unfolding seen_measure_def by (intro psubset_card_mono) auto

datatype release_result = Decremented | Freed "page_id list"

function release_loop ::
  "pager \<Rightarrow> realm_id \<Rightarrow> page_id \<Rightarrow> page_id list \<Rightarrow> page_id set \<Rightarrow> page_id \<Rightarrow> page_id list result" where
  "release_loop pager realm root_page_id freed seen cur =
     (if cur = 0 then Ok freed
      else if cur \<in> seen then Err (Corruption (OverflowChainCycle root_page_id cur))
      else
        (case rbind (read_main_page pager cur realm Overflow) decode_overflow of
           Err e \<Rightarrow> Err e
         | Ok (n, _) \<Rightarrow> release_loop pager realm root_page_id (freed @ [cur]) (insert cur seen) n))"
  by pat_completeness auto
termination
  by (relation "measure (\<lambda>(s, r, root, freed, seen, cur). seen_measure seen)")
    (auto simp: seen_measure_insert)

declare release_loop.simps [simp del]

definition release ::
  "pager \<Rightarrow> realm_id \<Rightarrow> page_id \<Rightarrow> page_id \<Rightarrow> (release_result \<times> pager) result" where
  "release pager realm root_page_id new_page_id =
     rbind (read_root_page pager realm root_page_id) (\<lambda>info.
     if refcount info \<le> 1 then
       rbind (release_loop pager realm root_page_id [root_page_id] {root_page_id} (root_next info))
         (\<lambda>freed. Ok (Freed freed, pager))
     else
       (let new_refcount = refcount info - 1;
            body = replicate (cfg_page_size pager - ENVELOPE_OVERHEAD) 0 in
        rbind (encode_overflow_root body new_refcount (root_next info) (root_data info)) (\<lambda>body.
        rbind (write_main_page pager new_page_id realm OverflowRoot body) (\<lambda>pager.
        Ok (Decremented, pager)))))"

definition chain_total_len :: "u64 \<Rightarrow> nat result" where
  "chain_total_len total_len =
     (if unat total_len < 2 ^ 63 then Ok (unat total_len)
      else Err (Corruption (OverflowBodyMalformed ''chain.total_length'')))"

function read_chain_loop ::
  "pager \<Rightarrow> realm_id \<Rightarrow> page_id \<Rightarrow> nat \<Rightarrow> bytes \<Rightarrow> page_id set \<Rightarrow> page_id \<Rightarrow> bytes result" where
  "read_chain_loop pager realm root_page_id total_len out seen next =
     (if next = 0 then Ok out
      else if next \<in> seen then Err (Corruption (OverflowChainCycle root_page_id next))
      else
        (case rbind (read_main_page pager next realm Overflow) decode_overflow of
           Err e \<Rightarrow> Err e
         | Ok (n, data) \<Rightarrow>
             (if (case checked_add (length out) (length data) of
                    None \<Rightarrow> True | Some assembled \<Rightarrow> assembled > total_len)
              then Err (Corruption (OverflowBodyMalformed ''chain.assembled_length''))
              else read_chain_loop pager realm root_page_id total_len (out @ data)
                     (insert next seen) n)))"
  by pat_completeness auto
termination
  by (relation "measure (\<lambda>(s, r, root, t, out, seen, next). seen_measure seen)")
    (auto simp: seen_measure_insert)

declare read_chain_loop.simps [simp del]

definition read_chain :: "pager \<Rightarrow> realm_id \<Rightarrow> page_id \<Rightarrow> u64 \<Rightarrow> bytes result" where
  "read_chain pager realm root_page_id total_len =
     rbind (chain_total_len total_len) (\<lambda>total_len.
     rbind (read_root_page pager realm root_page_id) (\<lambda>info.
     if length (root_data info) > total_len
     then Err (Corruption (OverflowBodyMalformed ''chain.assembled_length''))
     else
       rbind (read_chain_loop pager realm root_page_id total_len (root_data info)
               {root_page_id} (root_next info)) (\<lambda>out.
       if length out \<noteq> total_len
       then Err (Corruption (OverflowBodyMalformed ''chain.assembled_length''))
       else Ok out)))"

function read_range_loop ::
  "pager \<Rightarrow> realm_id \<Rightarrow> page_id \<Rightarrow> nat \<Rightarrow> nat \<Rightarrow> bytes \<Rightarrow> nat \<Rightarrow> bytes \<Rightarrow> page_id set \<Rightarrow> page_id \<Rightarrow>
     bytes result" where
  "read_range_loop pager realm root_page_id start stop out consumed chunk seen next =
     (let chunk_end = consumed + length chunk;
          step =
            (if chunk_end > start then
               (if stop < consumed then Err (Panic ''attempt to subtract with overflow'')
                else
                  (let from = start - consumed; to = min (stop - consumed) (length chunk) in
                   rbind (slice chunk from to) (\<lambda>part. Ok (out @ part, consumed + to \<ge> stop))))
             else Ok (out, False)) in
      case step of
        Err e \<Rightarrow> Err e
      | Ok (out, finished) \<Rightarrow>
          if finished then Ok out
          else if next = 0 then
            (if length out \<noteq> stop - start
             then Err (Corruption (OverflowBodyMalformed ''chain.assembled_length''))
             else Ok out)
          else if next \<in> seen then Err (Corruption (OverflowChainCycle root_page_id next))
          else
            (case rbind (read_main_page pager next realm Overflow) decode_overflow of
               Err e \<Rightarrow> Err e
             | Ok (n, data) \<Rightarrow>
                 read_range_loop pager realm root_page_id start stop out chunk_end data
                   (insert next seen) n))"
  by pat_completeness auto
termination
  by (relation "measure (\<lambda>(s, r, root, st, en, out, c, ch, seen, next). seen_measure seen)")
    (auto simp: seen_measure_insert)

declare read_range_loop.simps [simp del]

definition read_chain_range ::
  "pager \<Rightarrow> realm_id \<Rightarrow> page_id \<Rightarrow> u64 \<Rightarrow> u64 \<Rightarrow> u64 \<Rightarrow> bytes result" where
  "read_chain_range pager realm root_page_id total_len offset len =
     rbind (chain_total_len total_len) (\<lambda>total_len.
     let start = min (unat offset) total_len;
         stop = min (case checked_add start (unat len) of None \<Rightarrow> total_len | Some e \<Rightarrow> e) total_len in
     if start \<ge> stop then Ok []
     else
       rbind (read_root_page pager realm root_page_id) (\<lambda>info.
       read_range_loop pager realm root_page_id start stop [] 0 (root_data info) {root_page_id}
         (root_next info)))"

function collect_chain_loop ::
  "pager \<Rightarrow> realm_id \<Rightarrow> page_id \<Rightarrow> page_id list \<Rightarrow> page_id set \<Rightarrow> page_id \<Rightarrow> page_id list result" where
  "collect_chain_loop pager realm root_page_id out seen next =
     (if next = 0 then Ok out
      else if next \<in> seen then Err (Corruption (OverflowChainCycle root_page_id next))
      else
        (case rbind (read_main_page pager next realm Overflow) decode_overflow of
           Err e \<Rightarrow> Err e
         | Ok (n, _) \<Rightarrow>
             collect_chain_loop pager realm root_page_id (out @ [next]) (insert next seen) n))"
  by pat_completeness auto
termination
  by (relation "measure (\<lambda>(s, r, root, out, seen, next). seen_measure seen)")
    (auto simp: seen_measure_insert)

declare collect_chain_loop.simps [simp del]

definition collect_chain :: "pager \<Rightarrow> realm_id \<Rightarrow> page_id \<Rightarrow> page_id list result" where
  "collect_chain pager realm root_page_id =
     rbind (read_root_page pager realm root_page_id) (\<lambda>info.
     collect_chain_loop pager realm root_page_id [root_page_id] {root_page_id} (root_next info))"


section \<open>Page body round trips\<close>

lemma encode_overflow_eq:
  assumes "length data \<le> overflow_page_capacity (length body + 40)" and "length data < 2 ^ 32"
  shows "encode_overflow body next data =
    write_at (replicate (length body) 0) 0
      (u64_to_le_bytes next @ u32_to_le_bytes (of_nat (length data)) @ data)"
  using assms
  by (simp add: encode_overflow_def Let_def ENVELOPE_OVERHEAD_def u32_try_from_def
      write_at_append_bind write_at_append)

lemma encode_overflow_root_eq:
  assumes "length data \<le> overflow_root_capacity (length body + 40)" and "length data < 2 ^ 32"
  shows "encode_overflow_root body rc next data =
    write_at (replicate (length body) 0) 0
      (u32_to_le_bytes rc @ u64_to_le_bytes next @ u32_to_le_bytes (of_nat (length data)) @ data)"
  using assms
  by (simp add: encode_overflow_root_def Let_def ENVELOPE_OVERHEAD_def u32_try_from_def
      write_at_append_bind write_at_append)

lemma overflow_roundtrip:
  assumes "length data \<le> overflow_page_capacity (length body + 40)" and "length data < 2 ^ 32"
    and "12 \<le> length body"
  obtains b where "encode_overflow body next data = Ok b" and "length b = length body"
    and "decode_overflow b = Ok (next, data)"
proof -
  let ?bs = "u64_to_le_bytes next @ u32_to_le_bytes (of_nat (length data)) @ data"
  have le: "length ?bs \<le> length body"
    using assms(1,3) by (simp add: overflow_page_capacity_def overflow_consts)
  obtain b where b: "write_at (replicate (length body) 0) 0 ?bs = Ok b"
    using write_at_Ok_if [of 0 ?bs "replicate (length body) 0"] le by auto
  have len: "length b = length body" using write_at_length [OF b] by simp
  have sl: "slice b 0 (12 + length data) = Ok ?bs"
    using slice_write_at_same [OF b] by simp
  have "slice b 0 8 = Ok (u64_to_le_bytes next)"
      "slice b 8 12 = Ok (u32_to_le_bytes (of_nat (length data)))"
      "slice b 12 (12 + length data) = Ok data"
    using slice_slice [OF sl, of 0 8] slice_slice [OF sl, of 8 12]
      slice_slice [OF sl, of 12 "12 + length data"] by (simp_all add: slice_def)
  then have "decode_overflow b = Ok (next, data)"
    using assms(2) le len by (simp add: decode_overflow_def overflow_consts Let_def)
  then show ?thesis using that b len encode_overflow_eq [OF assms(1,2)] by simp
qed

lemma overflow_root_roundtrip:
  assumes "length data \<le> overflow_root_capacity (length body + 40)" and "length data < 2 ^ 32"
    and "16 \<le> length body"
  obtains b where "encode_overflow_root body rc next data = Ok b" and "length b = length body"
    and "decode_overflow_root b = Ok (rc, next, data)"
proof -
  let ?bs = "u32_to_le_bytes rc @ u64_to_le_bytes next @ u32_to_le_bytes (of_nat (length data)) @ data"
  have le: "length ?bs \<le> length body"
    using assms(1,3) by (simp add: overflow_root_capacity_def overflow_consts)
  obtain b where b: "write_at (replicate (length body) 0) 0 ?bs = Ok b"
    using write_at_Ok_if [of 0 ?bs "replicate (length body) 0"] le by auto
  have len: "length b = length body" using write_at_length [OF b] by simp
  have sl: "slice b 0 (16 + length data) = Ok ?bs"
    using slice_write_at_same [OF b] by simp
  have "slice b 0 4 = Ok (u32_to_le_bytes rc)" "slice b 4 12 = Ok (u64_to_le_bytes next)"
      "slice b 12 16 = Ok (u32_to_le_bytes (of_nat (length data)))"
      "slice b 16 (16 + length data) = Ok data"
    using slice_slice [OF sl, of 0 4] slice_slice [OF sl, of 4 12] slice_slice [OF sl, of 12 16]
      slice_slice [OF sl, of 16 "16 + length data"] by (simp_all add: slice_def)
  then have "decode_overflow_root b = Ok (rc, next, data)"
    using assms(2) le len by (simp add: decode_overflow_root_def overflow_consts Let_def)
  then show ?thesis using that b len encode_overflow_root_eq [OF assms(1,2)] by simp
qed

lemma decode_overflow_not_crashes: "\<not> crashes (decode_overflow body)"
  by (auto simp: decode_overflow_def crashes_rbind crashes_slice Let_def overflow_consts)

lemma decode_overflow_root_not_crashes: "\<not> crashes (decode_overflow_root body)"
  by (auto simp: decode_overflow_root_def crashes_rbind crashes_slice Let_def overflow_consts)

section \<open>The chain a root names\<close>

text \<open>\<open>chain_at s r ids next data\<close>: from link \<open>next\<close>, the chain visits the pages \<open>ids\<close> in order and
  they carry \<open>data\<close>.\<close>

primrec chain_at :: "pager \<Rightarrow> realm_id \<Rightarrow> page_id list \<Rightarrow> u64 \<Rightarrow> bytes \<Rightarrow> bool" where
  "chain_at s r [] next data \<longleftrightarrow> next = 0 \<and> data = []"
| "chain_at s r (p # ps) next data \<longleftrightarrow>
     next = p \<and> p \<noteq> 0 \<and>
     (\<exists>n d rest. rbind (read_main_page s p r Overflow) decode_overflow = Ok (n, d) \<and>
        data = d @ rest \<and> chain_at s r ps n rest)"

definition same_pages :: "pager \<Rightarrow> pager \<Rightarrow> page_id set \<Rightarrow> bool" where
  "same_pages s s' P \<longleftrightarrow> cold_read s' = cold_read s \<and> cfg_page_size s' = cfg_page_size s \<and>
     (\<forall>q \<in> P. pool s' q = pool s q)"

lemma same_pages_refl [simp]: "same_pages s s P"
  by (simp add: same_pages_def)

lemma same_pages_trans:
  "same_pages s s' P \<Longrightarrow> same_pages s' s'' Q \<Longrightarrow> same_pages s s'' (P \<inter> Q)"
  by (auto simp: same_pages_def)

lemma same_pages_mono: "same_pages s s' P \<Longrightarrow> Q \<subseteq> P \<Longrightarrow> same_pages s s' Q"
  by (auto simp: same_pages_def)

lemma same_pages_read:
  "same_pages s s' P \<Longrightarrow> p \<in> P \<Longrightarrow> read_main_page s' p r k = read_main_page s p r k"
  by (simp add: same_pages_def read_main_page_def read_page_def split: option.split)

lemma same_pages_read_root:
  "same_pages s s' P \<Longrightarrow> p \<in> P \<Longrightarrow> read_root_page s' r p = read_root_page s r p"
  by (simp add: read_root_page_def same_pages_read)

lemma same_pages_write:
  "write_main_page s p r k b = Ok s' \<Longrightarrow> same_pages s s' (- {p})"
  by (auto simp: same_pages_def write_main_page_def write_page_def split: if_splits)

lemma chain_at_frame:
  "chain_at s r ids nx data \<Longrightarrow> same_pages s s' (set ids) \<Longrightarrow> chain_at s' r ids nx data"
proof (induction ids arbitrary: nx data)
  case (Cons p ps)
  then obtain n d rest where "rbind (read_main_page s p r Overflow) decode_overflow = Ok (n, d)"
      "data = d @ rest" "chain_at s r ps n rest"
    by auto
  moreover have "same_pages s s' (set ps)" using Cons.prems(2) same_pages_mono by fastforce
  moreover have "read_main_page s' p r Overflow = read_main_page s p r Overflow"
    using Cons.prems(2) same_pages_read [of s s' "set (p # ps)" p] by simp
  ultimately show ?case using Cons by auto
qed simp

section \<open>Writing\<close>

text \<open>
  What a chain writer needs of its allocator: pages it was not handed before, never page 0.
\<close>

locale page_allocator =
  fixes alloc :: "'a \<Rightarrow> page_id result \<times> 'a" and inv :: "'a \<Rightarrow> bool"
    and used :: "'a \<Rightarrow> page_id set"
  assumes alloc_fresh: "inv a \<Longrightarrow> alloc a = (Ok p, a') \<Longrightarrow>
    inv a' \<and> p \<noteq> 0 \<and> p \<notin> used a \<and> used a' = insert p (used a)"
begin

lemma write_chain_loop_spec:
  assumes "write_chain_loop r ps alloc val p start is_root s a = (Ok (), s', a')"
    and "inv a" and "p \<in> used a" and "start \<le> length val" and "cfg_page_size s = ps"
    and "56 \<le> ps" and "ps < 2 ^ 32"
  shows "\<exists>ids n d rest. inv a' \<and> used a' = used a \<union> set ids \<and> set ids \<inter> used a = {} \<and> distinct ids \<and>
    (if is_root then read_root_page s' r p = Ok \<lparr> refcount = 1, root_next = n, root_data = d \<rparr>
     else rbind (read_main_page s' p r Overflow) decode_overflow = Ok (n, d)) \<and>
    chain_at s' r ids n rest \<and> d @ rest = drop start val \<and>
    same_pages s s' (- insert p (set ids))"
  using assms
proof (induction "2 * (length val - start) + (if is_root then 1 else 0)"
    arbitrary: p start is_root s a s' a' rule: less_induct)
  case less
  define cap where "cap = (if is_root then overflow_root_capacity ps else overflow_page_capacity ps)"
  define stop where "stop = min (start + cap) (length val)"
  let ?body = "replicate (ps - ENVELOPE_OVERHEAD) 0 :: bytes"
  have st: "start \<le> stop" "stop \<le> length val" "stop - start \<le> cap"
    using less.prems(4) by (auto simp: stop_def)
  obtain nx a1 chunk s1 where
      al: "(if stop < length val then alloc a else (Ok 0, a)) = (Ok nx, a1)"
    and chunk: "slice val start stop = Ok chunk"
    and wr: "(if is_root
             then rbind (encode_overflow_root ?body 1 nx chunk) (write_main_page s p r OverflowRoot)
             else rbind (encode_overflow ?body nx chunk) (write_main_page s p r Overflow)) = Ok s1"
    and rest: "(if nx = 0 then (Ok (), s1, a1)
      else if \<not> is_root \<and> stop \<le> start then (Err (Hang ''write_chain''), s1, a1)
      else write_chain_loop r ps alloc val nx stop False s1 a1) = (Ok (), s', a')"
    using less.prems(1) [unfolded write_chain_loop.simps [of r ps alloc val p start is_root s a]
        Let_def, folded cap_def, folded stop_def]
    by (force simp: rbind_eq_Ok split: prod.splits result.splits)
  have chunk': "chunk = take (stop - start) (drop start val)" "length chunk = stop - start"
    using chunk by (auto simp: slice_eq_Ok)
  have lens: "length chunk < 2 ^ 32" "length ?body + 40 = ps"
      "is_root \<Longrightarrow> length chunk \<le> overflow_root_capacity ps"
      "\<not> is_root \<Longrightarrow> length chunk \<le> overflow_page_capacity ps"
    using chunk' st less.prems(6,7)
    by (auto simp: cap_def overflow_root_capacity_def overflow_page_capacity_def overflow_consts
        split: if_splits)
  have lb: "16 \<le> length ?body" "12 \<le> length ?body"
    using less.prems(6) by (simp_all add: ENVELOPE_OVERHEAD_def)
  have here: "(if is_root then read_root_page s1 r p = Ok \<lparr> refcount = 1, root_next = nx, root_data = chunk \<rparr>
     else rbind (read_main_page s1 p r Overflow) decode_overflow = Ok (nx, chunk))"
    and sp: "same_pages s s1 (- {p})"
  proof -
    show "same_pages s s1 (- {p})"
      using wr same_pages_write by (auto simp: rbind_eq_Ok split: if_splits)
    show "(if is_root then read_root_page s1 r p = Ok \<lparr> refcount = 1, root_next = nx, root_data = chunk \<rparr>
     else rbind (read_main_page s1 p r Overflow) decode_overflow = Ok (nx, chunk))"
    proof (cases is_root)
      case True
      obtain b where b: "encode_overflow_root ?body 1 nx chunk = Ok b"
          "decode_overflow_root b = Ok (1, nx, chunk)"
        using overflow_root_roundtrip [of chunk ?body 1 nx] lens(1,2) lens(3) [OF True] lb by metis
      then show ?thesis
        using wr True pager.read_written [of s p r OverflowRoot b s1] by (simp add: read_root_page_def)
    next
      case False
      obtain b where b: "encode_overflow ?body nx chunk = Ok b" "decode_overflow b = Ok (nx, chunk)"
        using overflow_roundtrip [of chunk ?body nx] lens(1,2) lens(4) [OF False] lb by metis
      then show ?thesis
        using wr False pager.read_written [of s p r Overflow b s1] by simp
    qed
  qed
  show ?case
  proof (cases "nx = 0")
    case True
    then have fin: "\<not> stop < length val" "a1 = a" "s1 = s'" "a' = a"
      using al rest alloc_fresh [OF less.prems(2)] by (auto split: if_splits)
    then have "chunk = drop start val" using chunk' st by simp
    then show ?thesis
      using here sp fin True less.prems(2)
      by (intro exI [of _ "[]"] exI [of _ nx] exI [of _ chunk]) auto
  next
    case False
    then have al': "alloc a = (Ok nx, a1)" "stop < length val" using al by (auto split: if_splits)
    note fr = alloc_fresh [OF less.prems(2) al'(1)]
    have loop: "write_chain_loop r ps alloc val nx stop False s1 a1 = (Ok (), s', a')"
      and prog: "is_root \<or> start < stop"
      using rest False by (auto split: if_splits)
    have dec: "2 * (length val - stop) + (if False then 1 else 0) <
        2 * (length val - start) + (if is_root then 1 else 0)"
      using prog st al'(2) by auto
    have ps1: "cfg_page_size s1 = ps" using sp less.prems(5) by (simp add: same_pages_def)
    obtain ids n d tl where IH: "inv a'" "used a' = used a1 \<union> set ids" "set ids \<inter> used a1 = {}"
        "distinct ids" "rbind (read_main_page s' nx r Overflow) decode_overflow = Ok (n, d)"
        "chain_at s' r ids n tl" "d @ tl = drop stop val" "same_pages s1 s' (- insert nx (set ids))"
      using less.hyps [OF dec loop] fr st ps1 less.prems(6,7) by auto
    have pn: "p \<notin> insert nx (set ids)" using IH(3) fr less.prems(3) by auto
    have "read_main_page s' p r k = read_main_page s1 p r k"
        "read_root_page s' r p = read_root_page s1 r p" for k
      using same_pages_read [OF IH(8), of p] same_pages_read_root [OF IH(8), of p] pn by auto
    then have here': "(if is_root then read_root_page s' r p = Ok \<lparr> refcount = 1, root_next = nx, root_data = chunk \<rparr>
     else rbind (read_main_page s' p r Overflow) decode_overflow = Ok (nx, chunk))"
      using here by simp
    have "chunk @ drop stop val = drop start val"
      using chunk' st by (metis append_take_drop_id drop_drop le_add_diff_inverse2)
    then have "chunk @ (d @ tl) = drop start val" using IH(7) by simp
    moreover have "chain_at s' r (nx # ids) nx (d @ tl)" using IH(5,6) fr by auto
    moreover have "same_pages s s' (- insert p (set (nx # ids)))"
      using same_pages_trans [OF sp IH(8)] by (rule same_pages_mono) auto
    moreover have "used a' = used a \<union> set (nx # ids)" "set (nx # ids) \<inter> used a = {}" "distinct (nx # ids)"
      using IH(2,3,4) fr by auto
    ultimately show ?thesis using here' IH(1) by blast
  qed
qed

lemma write_chain_spec:
  assumes "write_chain s r val ps alloc a = (Ok root, s', a')"
    and "inv a" and "cfg_page_size s = ps" and "56 \<le> ps" and "ps < 2 ^ 32"
  obtains ids n d rest where "inv a'" and "used a' = used a \<union> insert root (set ids)"
    and "insert root (set ids) \<inter> used a = {}" and "distinct (root # ids)" and "root \<noteq> 0"
    and "read_root_page s' r root = Ok \<lparr> refcount = 1, root_next = n, root_data = d \<rparr>"
    and "chain_at s' r ids n rest" and "d @ rest = val" and "same_pages s s' (- insert root (set ids))"
proof -
  obtain a1 where a1: "alloc a = (Ok root, a1)"
      "write_chain_loop r ps alloc val root 0 True s a1 = (Ok (), s', a')"
    using assms(1) by (auto simp: write_chain_def mbind_eq_Ok split: prod.splits result.splits)
  note fr = alloc_fresh [OF assms(2) a1(1)]
  show ?thesis
    using write_chain_loop_spec [OF a1(2)] fr assms(3-5) that by auto
qed

end

section \<open>Reading\<close>

lemma read_chain_loop_spec:
  "chain_at s r ids nx data \<Longrightarrow> distinct ids \<Longrightarrow> set ids \<inter> seen = {} \<Longrightarrow>
   length out + length data \<le> tot \<Longrightarrow> tot < 2 ^ 64 \<Longrightarrow>
     read_chain_loop s r root tot out seen nx = Ok (out @ data)"
proof (induction ids arbitrary: nx data seen out)
  case Nil
  then show ?case by (simp add: read_chain_loop.simps)
next
  case (Cons p ps)
  then obtain n d rest where pg: "rbind (read_main_page s p r Overflow) decode_overflow = Ok (n, d)"
      "data = d @ rest" "chain_at s r ps n rest" "nx = p" "p \<noteq> 0"
    by auto
  have "read_chain_loop s r root tot (out @ d) (insert p seen) n = Ok ((out @ d) @ rest)"
    by (rule Cons.IH) (use Cons.prems pg in auto)
  then show ?case
    using Cons.prems pg by (subst read_chain_loop.simps) (auto simp: checked_add_def)
qed

lemma collect_chain_loop_spec:
  "chain_at s r ids nx data \<Longrightarrow> distinct ids \<Longrightarrow> set ids \<inter> seen = {} \<Longrightarrow>
     collect_chain_loop s r root out seen nx = Ok (out @ ids)"
proof (induction ids arbitrary: nx data seen out)
  case Nil
  then show ?case by (simp add: collect_chain_loop.simps)
next
  case (Cons p ps)
  then obtain n d rest where pg: "rbind (read_main_page s p r Overflow) decode_overflow = Ok (n, d)"
      "chain_at s r ps n rest" "nx = p" "p \<noteq> 0"
    by auto
  have "collect_chain_loop s r root (out @ [p]) (insert p seen) n = Ok ((out @ [p]) @ ps)"
    by (rule Cons.IH) (use Cons.prems pg in auto)
  then show ?case
    using Cons.prems pg by (subst collect_chain_loop.simps) auto
qed

lemma release_loop_eq_collect:
  "release_loop s r root freed seen cur = collect_chain_loop s r root freed seen cur"
proof (induction s r root freed seen cur rule: release_loop.induct)
  case (1 s r root freed seen cur)
  then show ?case
    by (subst release_loop.simps, subst collect_chain_loop.simps)
      (auto split: result.splits prod.splits)
qed

text \<open>A walk that succeeds has followed a chain without repetition.\<close>

lemma read_chain_loop_chain:
  "read_chain_loop s r root tot out seen nx = Ok v \<Longrightarrow>
     \<exists>ids data. chain_at s r ids nx data \<and> distinct ids \<and> set ids \<inter> seen = {} \<and> v = out @ data"
proof (induction s r root tot out seen nx rule: read_chain_loop.induct)
  case (1 s r root tot out seen nx)
  show ?case
  proof (cases "nx = 0")
    case True
    then show ?thesis using 1(2) by (intro exI [of _ "[]"]) (simp add: read_chain_loop.simps)
  next
    case nz: False
    then obtain n d where pg: "nx \<notin> seen"
        "rbind (read_main_page s nx r Overflow) decode_overflow = Ok (n, d)"
        "\<not> (case checked_add (length out) (length d) of None \<Rightarrow> True | Some x \<Rightarrow> x > tot)"
        "read_chain_loop s r root tot (out @ d) (insert nx seen) n = Ok v"
      using 1(2) [unfolded read_chain_loop.simps [of s r root tot out seen nx]]
      by (auto split: if_splits result.splits prod.splits)
    obtain ids data where IH: "chain_at s r ids n data" "distinct ids"
        "set ids \<inter> insert nx seen = {}" "v = (out @ d) @ data"
      using 1(1) [OF nz pg(1,2) _ pg(3,4)] by auto
    then show ?thesis
      using nz pg by (intro exI [of _ "nx # ids"] exI [of _ "d @ data"]) auto
  qed
qed

lemma range_step:
  assumes "length pre < stop" and "start < stop"
  shows "(if length pre + length chunk > start then
       (if stop < length pre then Err (Panic ''attempt to subtract with overflow'')
        else
          (let from = start - length pre; to = min (stop - length pre) (length chunk) in
           rbind (slice chunk from to) (\<lambda>part. Ok (drop start pre @ part, length pre + to \<ge> stop))))
     else Ok (drop start pre, False)) =
    Ok (if stop \<le> length pre + length chunk then (take (stop - start) (drop start (pre @ chunk)), True)
        else (drop start (pre @ chunk), False))"
proof (cases "length pre + length chunk > start")
  case True
  let ?from = "start - length pre" and ?to = "min (stop - length pre) (length chunk)"
  have "slice chunk ?from ?to = Ok (take (?to - ?from) (drop ?from chunk))"
    using True assms by (auto simp: slice_def min_def)
  moreover have "drop start pre @ take (?to - ?from) (drop ?from chunk) =
      take (stop - start) (drop start (pre @ chunk))" if "stop \<le> length pre + length chunk"
    using that assms by (cases "start \<le> length pre") (auto simp: min_def)
  moreover have "drop start pre @ take (?to - ?from) (drop ?from chunk) = drop start (pre @ chunk)"
    if "\<not> stop \<le> length pre + length chunk"
    using that assms by (auto simp: min_def)
  ultimately show ?thesis using True assms by (auto simp: Let_def min_def)
next
  case False
  then show ?thesis using assms by auto
qed

lemma read_range_loop_step:
  assumes "length pre < stop" and "start < stop"
  shows "read_range_loop s r root start stop (drop start pre) (length pre) chunk seen nx =
    (if stop \<le> length pre + length chunk then Ok (take (stop - start) (drop start (pre @ chunk)))
     else if nx = 0 then
       (if length (drop start (pre @ chunk)) \<noteq> stop - start
        then Err (Corruption (OverflowBodyMalformed ''chain.assembled_length''))
        else Ok (drop start (pre @ chunk)))
     else if nx \<in> seen then Err (Corruption (OverflowChainCycle root nx))
     else
       (case rbind (read_main_page s nx r Overflow) decode_overflow of
          Err e \<Rightarrow> Err e
        | Ok (n, data) \<Rightarrow>
            read_range_loop s r root start stop (drop start (pre @ chunk)) (length (pre @ chunk)) data
              (insert nx seen) n))"
  unfolding read_range_loop.simps [of s r root start stop "drop start pre"] Let_def
    range_step [OF assms, unfolded Let_def]
  by (cases "stop \<le> length pre + length chunk") (simp_all cong: result.case_cong prod.case_cong)

lemma read_range_loop_spec:
  "chain_at s r ids nx data \<Longrightarrow> distinct ids \<Longrightarrow> set ids \<inter> seen = {} \<Longrightarrow>
   length pre < stop \<Longrightarrow> start < stop \<Longrightarrow> stop \<le> length (pre @ chunk @ data) \<Longrightarrow>
     read_range_loop s r root start stop (drop start pre) (length pre) chunk seen nx =
       Ok (take (stop - start) (drop start (pre @ chunk @ data)))"
proof (induction ids arbitrary: nx data seen pre chunk)
  case Nil
  then show ?case by (subst read_range_loop_step) auto
next
  case (Cons p ps)
  then obtain n d rest where pg: "rbind (read_main_page s p r Overflow) decode_overflow = Ok (n, d)"
      "chain_at s r ps n rest" "nx = p" "p \<noteq> 0" "data = d @ rest"
    by auto
  show ?case
  proof (cases "stop \<le> length pre + length chunk")
    case True
    then have "take (stop - start) (drop start (pre @ chunk)) =
        take (stop - start) (drop start ((pre @ chunk) @ data))"
      by (auto simp: not_le)
    then show ?thesis using True Cons.prems(4,5) by (subst read_range_loop_step) auto
  next
    case False
    have "read_range_loop s r root start stop (drop start (pre @ chunk)) (length (pre @ chunk)) d
        (insert p seen) n = Ok (take (stop - start) (drop start ((pre @ chunk) @ d @ rest)))"
      by (rule Cons.IH) (use Cons.prems pg False in auto)
    then show ?thesis using False Cons.prems pg by (subst read_range_loop_step) auto
  qed
qed

lemma read_chain_chain:
  assumes "read_chain s r root tot = Ok v"
  obtains info ids rest where "unat tot < 2 ^ 63" and "length v = unat tot"
    and "read_root_page s r root = Ok info" and "chain_at s r ids (root_next info) rest"
    and "distinct ids" and "root \<notin> set ids" and "v = root_data info @ rest"
proof -
  obtain info out where i: "unat tot < 2 ^ 63" "read_root_page s r root = Ok info"
      "read_chain_loop s r root (unat tot) (root_data info) {root} (root_next info) = Ok out"
      "length out = unat tot" "v = out"
    using assms by (auto simp: read_chain_def chain_total_len_def rbind_eq_Ok split: if_splits)
  then show ?thesis using read_chain_loop_chain [OF i(3)] that by auto
qed

lemma read_chain_of_chain:
  assumes "read_root_page s r root = Ok info" and "chain_at s r ids (root_next info) rest"
    and "distinct ids" and "root \<notin> set ids" and "length (root_data info @ rest) = unat tot"
    and "unat tot < 2 ^ 63"
  shows "read_chain s r root tot = Ok (root_data info @ rest)"
    and "collect_chain s r root = Ok (root # ids)"
  using assms read_chain_loop_spec [OF assms(2,3), of "{root}" "root_data info" "unat tot" root]
    collect_chain_loop_spec [OF assms(2,3), of "{root}" root "[root]"]
  by (simp_all add: read_chain_def chain_total_len_def collect_chain_def)

text \<open>
  C12. Reading a range of an overflow value is reading the value and taking the range: whenever the
  whole chain reads, so does every range of it, clamped to the value's length, and the result is
  that slice.
\<close>
theorem read_chain_range_slice:
  assumes "read_chain s r root tot = Ok v"
  shows "read_chain_range s r root tot off len = Ok (take (unat len) (drop (unat off) v))"
proof -
  obtain info ids rest where i: "unat tot < 2 ^ 63" "length v = unat tot"
    "read_root_page s r root = Ok info" "chain_at s r ids (root_next info) rest"
    "distinct ids" "root \<notin> set ids" "v = root_data info @ rest"
    using read_chain_chain [OF assms] .
  define start where "start = min (unat off) (unat tot)"
  define stop where "stop = min (case checked_add start (unat len) of None \<Rightarrow> unat tot | Some e \<Rightarrow> e)
    (unat tot)"
  have stop: "stop = min (start + unat len) (unat tot)"
    using i(1) by (auto simp: stop_def checked_add_def)
  have goal: "take (unat len) (drop (unat off) v) = take (stop - start) (drop start v)"
    using i(2) by (auto simp: stop start_def min_def)
  have unf: "read_chain_range s r root tot off len =
      (if start \<ge> stop then Ok []
       else read_range_loop s r root start stop [] 0 (root_data info) {root} (root_next info))"
    unfolding read_chain_range_def chain_total_len_def if_P [OF i(1)] rbind.simps Let_def
      start_def [symmetric] stop_def [symmetric] i(3) by simp
  show ?thesis
  proof (cases "start \<ge> stop")
    case True
    then show ?thesis using goal unf by simp
  next
    case False
    have "read_range_loop s r root start stop (drop start []) (length ([] :: bytes)) (root_data info)
        {root} (root_next info) = Ok (take (stop - start) (drop start ([] @ root_data info @ rest)))"
      by (rule read_range_loop_spec [OF i(4,5)]) (use i(2,6,7) stop False in auto)
    then show ?thesis using False goal unf i(7) by simp
  qed
qed

definition demo_pager :: pager where
  "demo_pager =
     \<lparr> cfg_page_size = 60, cfg_buffer_pool_pages = 8,
       pool = [5 \<mapsto> \<lparr> pg_body = u32_to_le_bytes 1 @ u64_to_le_bytes 6 @ u32_to_le_bytes 4 @ [1, 2, 3, 4],
                        kind_byte = as_byte OverflowRoot, realm_id_bytes = Some [] \<rparr>,
               6 \<mapsto> \<lparr> pg_body = u64_to_le_bytes 0 @ u32_to_le_bytes 2 @ [5, 6] @ replicate 6 0,
                        kind_byte = as_byte Overflow, realm_id_bytes = Some [] \<rparr>],
       dirty_pages = [5, 6], cold_read = (\<lambda>_ _ _. Err ChecksumFailure) \<rparr>"

lemma demo_chain: "read_chain demo_pager [] 5 6 = Ok [1, 2, 3, 4, 5, 6]"
proof -
  have root: "read_root_page demo_pager [] 5 =
      Ok \<lparr> refcount = 1, root_next = 6, root_data = [1, 2, 3, 4] \<rparr>"
    by (simp add: read_root_page_def read_main_page_def read_page_def demo_pager_def
        check_resident_page_def resolve_cached_def decode_overflow_root_def overflow_consts slice_def)
  have "rbind (read_main_page demo_pager 6 [] Overflow) decode_overflow = Ok (0, [5, 6])"
    by (simp add: read_main_page_def read_page_def demo_pager_def
        check_resident_page_def resolve_cached_def decode_overflow_def overflow_consts slice_def)
  then have "chain_at demo_pager [] [6] 6 [5, 6]" by auto
  then show ?thesis using read_chain_of_chain(1) [OF root, of "[6]" "[5, 6]" 6] by simp
qed

theorem read_chain_range_slice_witness:
  "read_chain demo_pager [] 5 6 = Ok [1, 2, 3, 4, 5, 6] \<and>
   read_chain_range demo_pager [] 5 6 2 3 = Ok [3, 4, 5]"
  using demo_chain read_chain_range_slice [OF demo_chain, of 2 3] by simp

section \<open>Stretches of a chain\<close>

text \<open>A stretch of a chain: from link \<open>nx\<close> through the pages \<open>ids\<close>, the last of which links to \<open>q\<close>.\<close>

primrec chain_seg :: "pager \<Rightarrow> realm_id \<Rightarrow> page_id list \<Rightarrow> u64 \<Rightarrow> u64 \<Rightarrow> bytes \<Rightarrow> bool" where
  "chain_seg s r [] nx q data \<longleftrightarrow> nx = q \<and> data = []"
| "chain_seg s r (p # ps) nx q data \<longleftrightarrow>
     nx = p \<and> p \<noteq> 0 \<and>
     (\<exists>n d rest. rbind (read_main_page s p r Overflow) decode_overflow = Ok (n, d) \<and>
        data = d @ rest \<and> chain_seg s r ps n q rest)"

lemma collect_chain_loop_seg:
  "chain_seg s r ids nx q data \<Longrightarrow> distinct ids \<Longrightarrow> set ids \<inter> seen = {} \<Longrightarrow>
     collect_chain_loop s r root out seen nx =
       collect_chain_loop s r root (out @ ids) (seen \<union> set ids) q"
proof (induction ids arbitrary: nx data seen out)
  case (Cons p ps)
  then obtain n d rest where pg: "rbind (read_main_page s p r Overflow) decode_overflow = Ok (n, d)"
      "chain_seg s r ps n q rest" "nx = p" "p \<noteq> 0"
    by auto
  have "collect_chain_loop s r root (out @ [p]) (insert p seen) n =
      collect_chain_loop s r root ((out @ [p]) @ ps) (insert p seen \<union> set ps) q"
    by (rule Cons.IH) (use Cons.prems pg in auto)
  then show ?case
    using Cons.prems pg by (subst collect_chain_loop.simps) auto
qed simp

lemma read_chain_loop_seg:
  "chain_seg s r ids nx q data \<Longrightarrow> distinct ids \<Longrightarrow> set ids \<inter> seen = {} \<Longrightarrow>
   length out + length data \<le> tot \<Longrightarrow> tot < 2 ^ 64 \<Longrightarrow>
     read_chain_loop s r root tot out seen nx =
       read_chain_loop s r root tot (out @ data) (seen \<union> set ids) q"
proof (induction ids arbitrary: nx data seen out)
  case (Cons p ps)
  then obtain n d rest where pg: "rbind (read_main_page s p r Overflow) decode_overflow = Ok (n, d)"
      "data = d @ rest" "chain_seg s r ps n q rest" "nx = p" "p \<noteq> 0"
    by auto
  have "read_chain_loop s r root tot (out @ d) (insert p seen) n =
      read_chain_loop s r root tot ((out @ d) @ rest) (insert p seen \<union> set ps) q"
    by (rule Cons.IH) (use Cons.prems pg in auto)
  then show ?case
    using Cons.prems pg by (subst read_chain_loop.simps) (auto simp: checked_add_def)
qed simp

lemma chain_at_split:
  "chain_at s r (xs @ p # ys) nx data \<Longrightarrow> \<exists>d. chain_seg s r xs nx p d \<and> length d \<le> length data \<and> p \<noteq> 0"
proof (induction xs arbitrary: nx data)
  case (Cons x xs)
  then show ?case by fastforce
qed auto

lemma chain_seg_frame:
  "chain_seg s r ids nx q data \<Longrightarrow> same_pages s s' (set ids) \<Longrightarrow> chain_seg s' r ids nx q data"
proof (induction ids arbitrary: nx data)
  case (Cons p ps)
  have "same_pages s s' (set ps)" using Cons.prems(2) same_pages_mono by fastforce
  moreover have "read_main_page s' p r Overflow = read_main_page s p r Overflow"
    using Cons.prems(2) same_pages_read [of s s' "set (p # ps)" p] by simp
  ultimately show ?case using Cons by fastforce
qed simp

section \<open>The pages a walk reads\<close>

text \<open>A page that no read accepts, under any realm and kind.\<close>

definition unreadable :: "pager \<Rightarrow> page_id \<Rightarrow> bool" where
  "unreadable s p \<longleftrightarrow> (\<forall>r k. \<exists>e. read_main_page s p r k = Err e)"

text \<open>
  The pages an operation reads: its result depends on no other page, and it fails when any one of
  them cannot be read.
\<close>

definition reads_exactly :: "(pager \<Rightarrow> 'a result) \<Rightarrow> pager \<Rightarrow> page_id set \<Rightarrow> bool" where
  "reads_exactly f s P \<longleftrightarrow> (\<forall>s'. same_pages s s' P \<longrightarrow> f s' = f s) \<and>
     (\<forall>p \<in> P. \<forall>s'. same_pages s s' (- {p}) \<longrightarrow> unreadable s' p \<longrightarrow> (\<exists>e. f s' = Err e))"

lemma unreadable_root: "unreadable s root \<Longrightarrow> \<exists>e. read_root_page s r root = Err e"
proof -
  assume "unreadable s root"
  then obtain e where "read_main_page s root r OverflowRoot = Err e" unfolding unreadable_def by blast
  then show ?thesis by (simp add: read_root_page_def)
qed

lemma walk_unreadable:
  assumes "read_root_page s r root = Ok info" and "chain_at s r ids (root_next info) rest" and "distinct (root # ids)"
    and "p \<in> set (root # ids)" and "same_pages s s' (- {p})" and "unreadable s' p"
    and "length (root_data info @ rest) \<le> tot" and "tot < 2 ^ 64"
  shows "\<exists>e. rbind (read_root_page s' r root) (\<lambda>info. read_chain_loop s' r root tot (root_data info) {root} (root_next info)) = Err e"
    and "\<exists>e. rbind (read_root_page s' r root) (\<lambda>info. collect_chain_loop s' r root [root] {root} (root_next info)) = Err e"
proof -
  let ?read = "\<lambda>info. read_chain_loop s' r root tot (root_data info) {root} (root_next info)"
  let ?collect = "\<lambda>info. collect_chain_loop s' r root [root] {root} (root_next info)"
  have "(\<exists>e. rbind (read_root_page s' r root) ?read = Err e) \<and> (\<exists>e. rbind (read_root_page s' r root) ?collect = Err e)"
  proof (cases "p = root")
    case True
    then show ?thesis using unreadable_root [of s' root r] assms(6) by auto
  next
    case False
    then obtain xs ys where ids: "ids = xs @ p # ys" using assms(4) split_list [of p ids] by auto
    obtain d where d: "chain_seg s r xs (root_next info) p d" "length d \<le> length rest" "p \<noteq> 0"
      using chain_at_split assms(2) ids by blast
    have x: "distinct xs" "p \<notin> set xs" "root \<notin> set xs" using assms(3) ids by auto
    have seg: "chain_seg s' r xs (root_next info) p d"
      by (rule chain_seg_frame [OF d(1)]) (use x assms(5) in \<open>auto elim: same_pages_mono\<close>)
    have root: "read_root_page s' r root = Ok info"
      using same_pages_read_root [OF assms(5), of root r] False assms(1) by simp
    obtain e where e: "read_main_page s' p r Overflow = Err e" using assms(6) by (auto simp: unreadable_def)
    show ?thesis
      using read_chain_loop_seg [OF seg x(1), of "{root}" "root_data info" tot root] assms(7,8) d(2)
        collect_chain_loop_seg [OF seg x(1), of "{root}" root "[root]"] x root e d(3) False
        read_chain_loop.simps [of s' r root tot "root_data info @ d" "insert root (set xs)" p]
        collect_chain_loop.simps [of s' r root "root # xs" "insert root (set xs)" p]
      by simp
  qed
  then show "\<exists>e. rbind (read_root_page s' r root) ?read = Err e" "\<exists>e. rbind (read_root_page s' r root) ?collect = Err e"
    by blast+
qed

lemma walks_read_exactly:
  assumes "read_root_page s r root = Ok info" and "chain_at s r ids (root_next info) rest" and "distinct (root # ids)"
    and "length (root_data info @ rest) = unat tot" and "unat tot < 2 ^ 63"
  shows "reads_exactly (\<lambda>s. read_chain s r root tot) s (set (root # ids))"
    and "reads_exactly (\<lambda>s. collect_chain s r root) s (set (root # ids))"
    and "refcount info \<le> 1 \<Longrightarrow> reads_exactly (\<lambda>s. rmap fst (release s r root new_page)) s (set (root # ids))"
proof -
  have same: "read_root_page s' r root = Ok info \<and> chain_at s' r ids (root_next info) rest"
    if "same_pages s s' (set (root # ids))" for s'
    using same_pages_read_root [OF that, of root r] chain_at_frame [OF assms(2) same_pages_mono [OF that]] assms(1) by auto
  have d: "distinct ids" "root \<notin> set ids" using assms(3) by auto
  have walk: "read_chain s' r root tot = Ok (root_data info @ rest)" "collect_chain s' r root = Ok (root # ids)"
      "refcount info \<le> 1 \<Longrightarrow> release s' r root new_page = Ok (Freed (root # ids), s')"
    if "read_root_page s' r root = Ok info \<and> chain_at s' r ids (root_next info) rest" for s'
    using that read_chain_of_chain [OF _ _ d assms(4,5), of s' r] collect_chain_loop_spec [of s' r ids "root_next info" rest "{root}" root "[root]"] d
    by (auto simp: release_def release_loop_eq_collect)
  have bad: "(\<exists>e. read_chain s' r root tot = Err e) \<and> (\<exists>e. collect_chain s' r root = Err e) \<and>
      (refcount info \<le> 1 \<longrightarrow> (\<exists>e. rmap fst (release s' r root new_page) = Err e))"
    if p: "p \<in> set (root # ids)" "same_pages s s' (- {p})" "unreadable s' p" for p s'
  proof -
    note w = walk_unreadable [OF assms(1-3) p, of "unat tot"]
    show ?thesis
    proof (cases "read_root_page s' r root")
      case (Err e)
      then show ?thesis using assms(5) by (simp add: read_chain_def chain_total_len_def collect_chain_def release_def)
    next
      case (Ok info')
      have "p = root \<or> info' = info"
        using same_pages_read_root [OF p(2), of root r] Ok assms(1) by auto
      then have "info' = info" using Ok unreadable_root [of s' root r] p(3) by auto
      then show ?thesis
        using w Ok assms(4,5)
        by (auto simp: read_chain_def chain_total_len_def collect_chain_def release_def release_loop_eq_collect)
    qed
  qed
  note ok = walk [OF conjI [OF assms(1,2)]]
  show "reads_exactly (\<lambda>s. read_chain s r root tot) s (set (root # ids))"
    unfolding reads_exactly_def using same walk(1) ok(1) bad by metis
  show "reads_exactly (\<lambda>s. collect_chain s r root) s (set (root # ids))"
    unfolding reads_exactly_def using same walk(2) ok(2) bad by metis
  show "reads_exactly (\<lambda>s. rmap fst (release s r root new_page)) s (set (root # ids))" if "refcount info \<le> 1"
    unfolding reads_exactly_def using same walk(3) ok(3) bad that by (metis rmap.simps(1) fst_conv)
qed

lemma release_shared:
  assumes "read_root_page s r root = Ok info" and "1 < refcount info"
    and "length (root_data info) \<le> overflow_root_capacity (cfg_page_size s)" and "56 \<le> cfg_page_size s"
    and "cfg_page_size s \<le> 65536"
  shows "\<exists>s'. release s r root new_page = Ok (Decremented, s') \<and> same_pages s s' (- {new_page}) \<and>
    read_root_page s' r new_page = Ok (info\<lparr>refcount := refcount info - 1\<rparr>)"
proof -
  let ?body = "replicate (cfg_page_size s - ENVELOPE_OVERHEAD) (0 :: u8)"
  have len: "length ?body + 40 = cfg_page_size s" using assms(4) by (simp add: ENVELOPE_OVERHEAD_def)
  have room: "length (root_data info) \<le> overflow_root_capacity (length ?body + 40)" "length (root_data info) < 2 ^ 32"
      "16 \<le> length ?body"
    using assms(3-5) unfolding len by (auto simp: overflow_root_capacity_def ENVELOPE_OVERHEAD_def)
  obtain b where b: "encode_overflow_root ?body (refcount info - 1) (root_next info) (root_data info) = Ok b"
      "length b = length ?body" "decode_overflow_root b = Ok (refcount info - 1, root_next info, root_data info)"
    using overflow_root_roundtrip [OF room] .
  obtain s' where w: "write_main_page s new_page r OverflowRoot b = Ok s'"
    using b(2) by (simp add: write_main_page_def write_page_def)
  then have "read_main_page s' new_page r OverflowRoot = Ok b"
    by (auto simp: write_main_page_def write_page_def read_main_page_def read_page_def check_resident_page_def
        resolve_cached_def split: if_splits)
  then have "read_root_page s' r new_page = Ok (info\<lparr>refcount := refcount info - 1\<rparr>)"
    using b(3) by (simp add: read_root_page_def)
  moreover have "release s r root new_page = Ok (Decremented, s')"
    using assms(1) assms(2) [folded not_le] b(1) w by (simp add: release_def Let_def)
  ultimately show ?thesis using same_pages_write [OF w] by blast
qed

text \<open>
  C13. Reading, collecting and releasing walk the same pages. When a value reads, it has the announced
  length and is the payload of the root followed by that of the pages \<open>ids\<close> the links lead through,
  without a repetition; the collection returns the root and these pages; and each of read, collection
  and release by the last owner reads exactly them: its result depends on no other page, and it fails
  when one of them cannot be read. The last owner's release frees exactly these pages. A release of
  a shared value walks nothing: it writes the root with a count one lower to the new page, changes
  no other page, and the value reads from there as before.
\<close>
theorem chain_walks_agree:
  assumes "read_chain s r root tot = Ok v"
  shows "\<exists>info ids rest. read_root_page s r root = Ok info \<and> chain_at s r ids (root_next info) rest \<and>
    distinct (root # ids) \<and> v = root_data info @ rest \<and> length v = unat tot \<and>
    collect_chain s r root = Ok (root # ids) \<and>
    reads_exactly (\<lambda>s. read_chain s r root tot) s (set (root # ids)) \<and>
    reads_exactly (\<lambda>s. collect_chain s r root) s (set (root # ids)) \<and>
    (refcount info \<le> 1 \<longrightarrow> release s r root new_page = Ok (Freed (root # ids), s) \<and>
       reads_exactly (\<lambda>s. rmap fst (release s r root new_page)) s (set (root # ids))) \<and>
    (1 < refcount info \<longrightarrow> length (root_data info) \<le> overflow_root_capacity (cfg_page_size s) \<longrightarrow>
       56 \<le> cfg_page_size s \<longrightarrow> cfg_page_size s \<le> 65536 \<longrightarrow> new_page \<notin> set ids \<longrightarrow>
       (\<exists>s'. release s r root new_page = Ok (Decremented, s') \<and> same_pages s s' (- {new_page}) \<and>
          read_root_page s' r new_page = Ok (info\<lparr>refcount := refcount info - 1\<rparr>) \<and>
          read_chain s' r new_page tot = Ok v))"
proof -
  obtain info ids rest where i: "unat tot < 2 ^ 63" "length v = unat tot"
    "read_root_page s r root = Ok info" "chain_at s r ids (root_next info) rest"
    "distinct ids" "root \<notin> set ids" "v = root_data info @ rest"
    using read_chain_chain [OF assms] .
  have d: "distinct (root # ids)" and len: "length (root_data info @ rest) = unat tot" using i by auto
  note w = walks_read_exactly [OF i(3,4) d len i(1)]
  have freed: "release s r root new_page = Ok (Freed (root # ids), s)" if "refcount info \<le> 1"
    using that i(3) collect_chain_loop_spec [OF i(4,5), of "{root}" root "[root]"] i(6)
    by (simp add: release_def release_loop_eq_collect)
  have shared: "read_chain s' r new_page tot = Ok v"
    if "same_pages s s' (- {new_page})" "new_page \<notin> set ids"
      "read_root_page s' r new_page = Ok (info\<lparr>refcount := refcount info - 1\<rparr>)" for s'
  proof -
    have "chain_at s' r ids (root_next info) rest"
      by (rule chain_at_frame [OF i(4)]) (use that in \<open>auto elim: same_pages_mono\<close>)
    then show ?thesis using read_chain_of_chain(1) [OF that(3), of ids rest tot] i that(2) len by simp
  qed
  show ?thesis
    using i d w freed shared release_shared [OF i(3)] read_chain_of_chain(2) [OF i(3-6) len i(1)]
    by (intro exI [of _ info] exI [of _ ids] exI [of _ rest]) blast
qed

definition demo_shared :: pager where
  "demo_shared = demo_pager\<lparr>pool := (pool demo_pager)(5 \<mapsto>
     \<lparr> pg_body = u32_to_le_bytes 2 @ u64_to_le_bytes 6 @ u32_to_le_bytes 4 @ [1, 2, 3, 4],
       kind_byte = as_byte OverflowRoot, realm_id_bytes = Some [] \<rparr>)\<rparr>"

lemma demo_root_page:
  "read_root_page demo_pager [] 5 = Ok \<lparr> refcount = 1, root_next = 6, root_data = [1, 2, 3, 4] \<rparr>"
  "read_root_page demo_shared [] 5 = Ok \<lparr> refcount = 2, root_next = 6, root_data = [1, 2, 3, 4] \<rparr>"
  by (simp_all add: read_root_page_def read_main_page_def read_page_def demo_pager_def demo_shared_def
      check_resident_page_def resolve_cached_def decode_overflow_root_def overflow_consts slice_def)

lemma demo_chain_at: "chain_at demo_pager [] [6] 6 [5, 6]" "chain_at demo_shared [] [6] 6 [5, 6]"
  by (simp_all add: read_main_page_def read_page_def demo_pager_def demo_shared_def
      check_resident_page_def resolve_cached_def decode_overflow_def overflow_consts slice_def)

lemma demo_walks: "read_chain demo_pager [] 5 6 = Ok [1, 2, 3, 4, 5, 6]" "collect_chain demo_pager [] 5 = Ok [5, 6]"
  "read_chain demo_shared [] 5 6 = Ok [1, 2, 3, 4, 5, 6]" "collect_chain demo_shared [] 5 = Ok [5, 6]"
  using read_chain_of_chain [OF demo_root_page(1), of "[6]" "[5, 6]" 6]
    read_chain_of_chain [OF demo_root_page(2), of "[6]" "[5, 6]" 6] demo_chain_at by simp_all

theorem chain_walks_agree_witness:
  "release demo_pager [] 5 9 = Ok (Freed [5, 6], demo_pager) \<and>
   reads_exactly (\<lambda>s. read_chain s [] 5 6) demo_pager {5, 6} \<and>
   (\<exists>s'. release demo_shared [] 5 9 = Ok (Decremented, s') \<and> read_chain s' [] 9 6 = Ok [1, 2, 3, 4, 5, 6])"
proof -
  have "length [1, 2, 3, 4 :: u8] \<le> overflow_root_capacity (cfg_page_size demo_shared)" "cfg_page_size demo_shared = 60"
    by (simp_all add: demo_shared_def demo_pager_def overflow_root_capacity_def overflow_consts ENVELOPE_OVERHEAD_def)
  then show ?thesis
    using chain_walks_agree [OF demo_walks(1), of 9] chain_walks_agree [OF demo_walks(3), of 9]
      demo_root_page demo_walks(2,4) by (auto simp: insert_commute)
qed

section \<open>Cycles\<close>

lemma read_chain_loop_too_long:
  "chain_seg s r ids nx q data \<Longrightarrow> distinct ids \<Longrightarrow> set ids \<inter> seen = {} \<Longrightarrow>
   length out \<le> tot \<Longrightarrow> tot < length out + length data \<Longrightarrow>
     read_chain_loop s r root tot out seen nx = Err (Corruption (OverflowBodyMalformed ''chain.assembled_length''))"
proof (induction ids arbitrary: nx data seen out)
  case (Cons p ps)
  then obtain n d rest where pg: "rbind (read_main_page s p r Overflow) decode_overflow = Ok (n, d)"
      "data = d @ rest" "chain_seg s r ps n q rest" "nx = p" "p \<noteq> 0"
    by auto
  show ?case
  proof (cases "tot < length out + length d")
    case True
    then show ?thesis using Cons.prems pg by (subst read_chain_loop.simps) (auto simp: checked_add_def)
  next
    case False
    have "read_chain_loop s r root tot (out @ d) (insert p seen) n =
        Err (Corruption (OverflowBodyMalformed ''chain.assembled_length''))"
      by (rule Cons.IH) (use Cons.prems pg False in auto)
    then show ?thesis
      using Cons.prems pg False by (subst read_chain_loop.simps) (auto simp: checked_add_def)
  qed
qed simp

lemma read_range_loop_seg:
  "chain_seg s r ids nx q data \<Longrightarrow> distinct ids \<Longrightarrow> set ids \<inter> seen = {} \<Longrightarrow> q \<in> seen \<union> set ids \<Longrightarrow> q \<noteq> 0 \<Longrightarrow>
   length pre < stop \<Longrightarrow> start < stop \<Longrightarrow>
     read_range_loop s r root start stop (drop start pre) (length pre) chunk seen nx =
       (if stop \<le> length (pre @ chunk @ data) then Ok (take (stop - start) (drop start (pre @ chunk @ data)))
        else Err (Corruption (OverflowChainCycle root q)))"
proof (induction ids arbitrary: nx data seen pre chunk)
  case Nil
  then show ?case by (subst read_range_loop_step) auto
next
  case (Cons p ps)
  then obtain n d rest where pg: "rbind (read_main_page s p r Overflow) decode_overflow = Ok (n, d)"
      "chain_seg s r ps n q rest" "nx = p" "p \<noteq> 0" "data = d @ rest"
    by auto
  show ?case
  proof (cases "stop \<le> length pre + length chunk")
    case True
    then have "take (stop - start) (drop start (pre @ chunk)) =
        take (stop - start) (drop start ((pre @ chunk) @ data))"
      by (auto simp: not_le)
    then show ?thesis using True Cons.prems(6,7) by (subst read_range_loop_step) auto
  next
    case False
    have "read_range_loop s r root start stop (drop start (pre @ chunk)) (length (pre @ chunk)) d (insert p seen) n =
        (if stop \<le> length ((pre @ chunk) @ d @ rest)
         then Ok (take (stop - start) (drop start ((pre @ chunk) @ d @ rest)))
         else Err (Corruption (OverflowChainCycle root q)))"
      by (rule Cons.IH) (use Cons.prems pg False in auto)
    then show ?thesis using False Cons.prems pg by (subst read_range_loop_step) auto
  qed
qed

text \<open>
  C14. A chain that links back to a page already visited, after any number of pages, is never followed
  around. Collection and release by the last owner report the cycle, naming the root and the repeated
  page. A read reports it too, or the excess when the pages before it already carry more bytes than
  announced. A range read returns its bytes when they all come before the cycle, and otherwise
  reports the cycle.
\<close>
theorem chain_cycle_refused:
  assumes "read_root_page s r root = Ok info" and "chain_seg s r ids (root_next info) q data"
    and "distinct (root # ids)" and "q \<in> set (root # ids)" and "q \<noteq> 0" and "unat tot < 2 ^ 63"
  shows "collect_chain s r root = Err (Corruption (OverflowChainCycle root q)) \<and>
    (refcount info \<le> 1 \<longrightarrow> release s r root new_page = Err (Corruption (OverflowChainCycle root q))) \<and>
    read_chain s r root tot = Err (Corruption (if length (root_data info @ data) \<le> unat tot
      then OverflowChainCycle root q else OverflowBodyMalformed ''chain.assembled_length'')) \<and>
    (let start = min (unat off) (unat tot); stop = min (start + unat len) (unat tot) in
     read_chain_range s r root tot off len =
       (if stop \<le> start then Ok []
        else if stop \<le> length (root_data info @ data) then Ok (take (stop - start) (drop start (root_data info @ data)))
        else Err (Corruption (OverflowChainCycle root q))))"
proof -
  have d: "distinct ids" "set ids \<inter> {root} = {}" "q \<in> {root} \<union> set ids" using assms(3,4) by auto
  have collect: "collect_chain_loop s r root [root] {root} (root_next info) = Err (Corruption (OverflowChainCycle root q))"
    using collect_chain_loop_seg [OF assms(2) d(1,2), of root "[root]"] d(3) assms(5)
      collect_chain_loop.simps [of s r root "root # ids" "insert root (set ids)" q] by simp
  have read: "read_chain s r root tot = Err (Corruption (if length (root_data info @ data) \<le> unat tot
      then OverflowChainCycle root q else OverflowBodyMalformed ''chain.assembled_length''))"
    using assms(1,5,6) d read_chain_loop_seg [OF assms(2) d(1,2), of "root_data info" "unat tot" root]
      read_chain_loop_too_long [OF assms(2) d(1,2), of "root_data info" "unat tot" root]
      read_chain_loop.simps [of s r root "unat tot" "root_data info @ data" "insert root (set ids)" q]
    by (auto simp: read_chain_def chain_total_len_def)
  define start where "start = min (unat off) (unat tot)"
  define stop where "stop = min (start + unat len) (unat tot)"
  have "min (case checked_add start (unat len) of None \<Rightarrow> unat tot | Some e \<Rightarrow> e) (unat tot) = stop"
    using assms(6) by (auto simp: stop_def checked_add_def)
  then have "read_chain_range s r root tot off len = (if stop \<le> start then Ok []
       else read_range_loop s r root start stop (drop start []) (length ([] :: bytes)) (root_data info) {root} (root_next info))"
    unfolding read_chain_range_def chain_total_len_def if_P [OF assms(6)] rbind.simps Let_def
      start_def [symmetric] assms(1) by simp
  then have "read_chain_range s r root tot off len = (if stop \<le> start then Ok []
       else if stop \<le> length (root_data info @ data) then Ok (take (stop - start) (drop start (root_data info @ data)))
       else Err (Corruption (OverflowChainCycle root q)))"
    using read_range_loop_seg [OF assms(2) d assms(5), of "[]" stop start root "root_data info"] by auto
  moreover have "collect_chain s r root = Err (Corruption (OverflowChainCycle root q))"
      "refcount info \<le> 1 \<Longrightarrow> release s r root new_page = Err (Corruption (OverflowChainCycle root q))"
    using collect assms(1) by (simp_all add: collect_chain_def release_def release_loop_eq_collect)
  ultimately show ?thesis using read unfolding Let_def stop_def start_def by blast
qed

definition demo_cycle :: pager where
  "demo_cycle = demo_pager\<lparr>pool := (pool demo_pager)(6 \<mapsto>
     \<lparr> pg_body = u64_to_le_bytes 5 @ u32_to_le_bytes 2 @ [5, 6] @ replicate 6 0,
       kind_byte = as_byte Overflow, realm_id_bytes = Some [] \<rparr>)\<rparr>"

theorem chain_cycle_refused_witness:
  "read_chain demo_cycle [] 5 6 = Err (Corruption (OverflowChainCycle 5 5)) \<and>
   collect_chain demo_cycle [] 5 = Err (Corruption (OverflowChainCycle 5 5)) \<and>
   release demo_cycle [] 5 9 = Err (Corruption (OverflowChainCycle 5 5)) \<and>
   read_chain_range demo_cycle [] 5 9 2 3 = Ok [3, 4, 5] \<and>
   read_chain_range demo_cycle [] 5 9 2 7 = Err (Corruption (OverflowChainCycle 5 5))"
proof -
  have root: "read_root_page demo_cycle [] 5 =
      Ok \<lparr> refcount = 1, root_next = 6, root_data = [1, 2, 3, 4] \<rparr>"
    by (simp add: read_root_page_def read_main_page_def read_page_def demo_pager_def demo_cycle_def
        check_resident_page_def resolve_cached_def decode_overflow_root_def overflow_consts slice_def)
  have "rbind (read_main_page demo_cycle 6 [] Overflow) decode_overflow = Ok (5, [5, 6])"
    by (simp add: read_main_page_def read_page_def demo_pager_def demo_cycle_def
        check_resident_page_def resolve_cached_def decode_overflow_def overflow_consts slice_def)
  then have seg: "chain_seg demo_cycle [] [6] (root_next \<lparr> refcount = 1, root_next = 6, root_data = [1, 2, 3, 4] \<rparr>) 5 [5, 6]"
    by auto
  show ?thesis
    using chain_cycle_refused [OF root seg, of 6 9] chain_cycle_refused [OF root seg, of 9 9 2 3]
      chain_cycle_refused [OF root seg, of 9 9 2 7] by (simp add: Let_def)
qed

end
