(* ===== verification/Tree_Core.thy ===== *)
theory Tree_Core
  imports Split Overflow "HOL-Library.AList"
begin

text \<open>
  The copy-on-write B+ tree's state and its page-level operations (\<open>btree/tree/core.rs\<close>,
  \<open>btree/tree/page_source.rs\<close>): the exact duplicate detector of a descent, page allocation and
  freeing inside a write session, and reading and writing nodes through the pager.

  A method on \<open>&mut self\<close> is a function from the tree's state to an outcome and the state it leaves,
  on an error too; a method on \<open>&self\<close> is a function to an outcome. The hash maps of the write
  session are association lists without repeated keys, in an arbitrary order. The page source a
  session shares between its trees is held by the one tree modelled.
\<close>

section \<open>Duplicate detection\<close>

definition malformed_btree_topology :: "string \<Rightarrow> page_id \<Rightarrow> error" where
  "malformed_btree_topology structure page_id = Corruption (PageChainCycle structure page_id)"

definition INLINE_SEEN_PAGE_IDS :: nat where "INLINE_SEEN_PAGE_IDS = 4"

record seen_page_ids =
  seen_structure :: string
  inline_ids :: "page_id list"
  seen_len :: nat
  overflow_ids :: "page_id set option"

definition seen_new :: "string \<Rightarrow> seen_page_ids" where
  "seen_new s =
     \<lparr> seen_structure = s, inline_ids = replicate INLINE_SEEN_PAGE_IDS 0, seen_len = 0,
       overflow_ids = None \<rparr>"

definition seen_insert_inner :: "seen_page_ids \<Rightarrow> page_id \<Rightarrow> bool \<times> seen_page_ids" where
  "seen_insert_inner self page_id =
     (case overflow_ids self of
        Some ov \<Rightarrow> (page_id \<notin> ov, self\<lparr>overflow_ids := Some (insert page_id ov)\<rparr>)
      | None \<Rightarrow>
          if page_id \<in> set (take (seen_len self) (inline_ids self)) then (False, self)
          else if seen_len self < INLINE_SEEN_PAGE_IDS then
            (True, self\<lparr>inline_ids := (inline_ids self)[seen_len self := page_id],
                        seen_len := seen_len self + 1\<rparr>)
          else
            (let ov = set (inline_ids self) in
             (page_id \<notin> ov, self\<lparr>overflow_ids := Some (insert page_id ov)\<rparr>)))"

definition seen_insert :: "seen_page_ids \<Rightarrow> page_id \<Rightarrow> seen_page_ids result" where
  "seen_insert self page_id =
     (if page_id = 0 then Err (malformed_btree_topology (seen_structure self) page_id)
      else
        (let (inserted, self') = seen_insert_inner self page_id in
         if \<not> inserted then Err (malformed_btree_topology (seen_structure self) page_id)
         else Ok self'))"

definition seen_from_existing :: "string \<Rightarrow> page_id list \<Rightarrow> seen_page_ids result" where
  "seen_from_existing s path = fold_result (\<lambda>p seen. seen_insert seen p) path (seen_new s)"

section \<open>The tree's state\<close>

record page_source =
  reuse_threshold :: page_id
  ps_cache :: "page_id list"
  ps_consumed :: "page_id set"

record tree =
  tr_pager :: pager
  tr_realm :: realm_id
  root_page_id :: page_id
  next_page_id :: page_id
  freed :: "page_id list"
  freed_reusable :: "page_id list"
  tr_page_size :: nat
  dirty_leaves :: "(page_id \<times> leaf) list"
  scheduled_frees :: "page_id list"
  dirty_parent_paths :: "(page_id \<times> page_id list) list"
  fresh_leaves :: "(page_id \<times> leaf) list"
  source_of :: "page_source option"
  append_last_key :: "key option"
  append_cached_path :: "page_id list option"

definition new_tree ::
  "pager \<Rightarrow> realm_id \<Rightarrow> page_id \<Rightarrow> page_id \<Rightarrow> nat \<Rightarrow> page_source option \<Rightarrow> tree" where
  "new_tree pager realm root next page_size src =
     \<lparr> tr_pager = pager, tr_realm = realm, root_page_id = root, next_page_id = max next 4,
       freed = [], freed_reusable = [], tr_page_size = page_size, dirty_leaves = [],
       scheduled_frees = [], dirty_parent_paths = [], fresh_leaves = [], source_of = src,
       append_last_key = None, append_cached_path = None \<rparr>"

definition open_tree :: "pager \<Rightarrow> realm_id \<Rightarrow> page_id \<Rightarrow> page_id \<Rightarrow> nat \<Rightarrow> tree" where
  "open_tree pager realm root next page_size = new_tree pager realm root next page_size None"

definition open_session ::
  "pager \<Rightarrow> realm_id \<Rightarrow> page_id \<Rightarrow> page_id \<Rightarrow> nat \<Rightarrow> page_source \<Rightarrow> tree" where
  "open_session pager realm root next page_size src =
     new_tree pager realm root next page_size (Some src)"

definition set_next_page_id :: "tree \<Rightarrow> page_id \<Rightarrow> tree" where
  "set_next_page_id self val =
     (if val > next_page_id self then self\<lparr>next_page_id := val\<rparr> else self)"

section \<open>Allocation\<close>

definition bump_page :: "tree \<Rightarrow> page_id result \<times> tree" where
  "bump_page self =
     (let id = next_page_id self in
      if id < 4 then (Err (Panic ''allocate_page bumped into reserved page''), self)
      else if id = - 1 then (Err (Panic ''attempt to add with overflow''), self)
      else (Ok id, self\<lparr>next_page_id := id + 1\<rparr>))"

definition allocate_page :: "tree \<Rightarrow> page_id result \<times> tree" where
  "allocate_page self =
     (if freed_reusable self \<noteq> [] then
        (let id = last (freed_reusable self);
             self = self\<lparr>freed_reusable := butlast (freed_reusable self)\<rparr> in
         if id < 4 then (Err (Panic ''allocate_page recycled reserved page from freed''), self)
         else (Ok id, self))
      else
        (case source_of self of
           None \<Rightarrow> bump_page self
         | Some src \<Rightarrow>
             if ps_cache src = [] then bump_page self
             else
               (let id = last (ps_cache src);
                    src = src\<lparr>ps_cache := butlast (ps_cache src)\<rparr> in
                if id < 4 then
                  (Err (Panic ''allocate_page recycled reserved page from free-list cache''),
                   self\<lparr>source_of := Some src\<rparr>)
                else
                  (Ok id, self\<lparr>source_of := Some (src\<lparr>ps_consumed := insert id (ps_consumed src)\<rparr>)\<rparr>))))"

definition is_reusable_in_session :: "tree \<Rightarrow> page_id \<Rightarrow> bool" where
  "is_reusable_in_session self page_id =
     (case source_of self of
        None \<Rightarrow> True
      | Some src \<Rightarrow> page_id \<ge> reuse_threshold src \<or> page_id \<in> ps_consumed src)"

definition free_page :: "tree \<Rightarrow> page_id \<Rightarrow> unit result \<times> tree" where
  "free_page self page_id =
     (if page_id < 4 then (Err (Panic ''free_page called on reserved page''), self)
      else if is_reusable_in_session self page_id
      then (Ok (), self\<lparr>freed_reusable := freed_reusable self @ [page_id]\<rparr>)
      else (Ok (), self\<lparr>freed := freed self @ [page_id]\<rparr>))"

primrec free_pages :: "tree \<Rightarrow> page_id list \<Rightarrow> unit result \<times> tree" where
  "free_pages self [] = (Ok (), self)"
| "free_pages self (p # ps) = mbind (free_page self p) (\<lambda>_ self. free_pages self ps)"

definition drain_freed :: "tree \<Rightarrow> page_id list \<times> tree" where
  "drain_freed self =
     (freed self @ freed_reusable self @ scheduled_frees self,
      self\<lparr>freed := [], freed_reusable := [], scheduled_frees := []\<rparr>)"

section \<open>Reading and writing nodes\<close>

definition stored_leaf_value_encoded_size :: "nat \<Rightarrow> nat \<Rightarrow> nat result" where
  "stored_leaf_value_encoded_size value_len page_size =
     (if value_len > inline_value_threshold page_size then Ok OVERFLOW_REF_ENCODED_SIZE
      else of_option PayloadTooLarge (checked_add 2 value_len))"

definition validate_insert_record_fits :: "tree \<Rightarrow> key \<Rightarrow> bytes \<Rightarrow> unit result" where
  "validate_insert_record_fits self k val =
     rbind (stored_leaf_value_encoded_size (length val) (tr_page_size self)) (\<lambda>value_encoded_size.
     if \<not> single_record_fits_encoded (length k) value_encoded_size (tr_page_size self)
        \<or> \<not> separator_fits (length k) (tr_page_size self)
     then Err PayloadTooLarge else Ok ())"

definition read_node_guard :: "tree \<Rightarrow> page_id \<Rightarrow> (bytes \<times> node_kind) result" where
  "read_node_guard self page_id =
     rbind (read_main_node (tr_pager self) page_id (tr_realm self)) (\<lambda>(body, authenticated_kind).
     rbind (read_header body) (\<lambda>h.
     let decoded_kind = hdr_kind h in
     rbind (if authenticated_kind = BTreeLeaf then Ok Leaf
            else if authenticated_kind = BTreeInternal then Ok Internal
            else Err IllegalPageKind) (\<lambda>expected_kind.
     if decoded_kind \<noteq> expected_kind
     then Err (Corruption (NodeKindMismatch (Some page_id) (node_kind_name expected_kind)
            (node_kind_name decoded_kind)))
     else Ok (body, decoded_kind))))"

definition decode_leaf_from_pager :: "tree \<Rightarrow> page_id \<Rightarrow> leaf result" where
  "decode_leaf_from_pager self page_id =
     rbind (read_main_page (tr_pager self) page_id (tr_realm self) BTreeLeaf) decode_leaf"

definition read_leaf :: "tree \<Rightarrow> page_id \<Rightarrow> leaf result" where
  "read_leaf self page_id =
     (case map_of (fresh_leaves self) page_id of
        Some l \<Rightarrow> Ok l
      | None \<Rightarrow>
          (case map_of (dirty_leaves self) page_id of
             Some l \<Rightarrow> Ok l
           | None \<Rightarrow> rbind (read_main_page (tr_pager self) page_id (tr_realm self) BTreeLeaf) decode_leaf))"

definition read_internal :: "tree \<Rightarrow> page_id \<Rightarrow> internal result" where
  "read_internal self page_id =
     rbind (read_main_page (tr_pager self) page_id (tr_realm self) BTreeInternal) decode_internal"

definition write_body :: "tree \<Rightarrow> page_id \<Rightarrow> page_kind \<Rightarrow> bytes \<Rightarrow> unit result \<times> tree" where
  "write_body self page_id kind body =
     (case write_main_page (tr_pager self) page_id (tr_realm self) kind body of
        Err e \<Rightarrow> (Err e, self)
      | Ok pager \<Rightarrow> (Ok (), self\<lparr>tr_pager := pager\<rparr>))"

definition write_leaf :: "tree \<Rightarrow> page_id \<Rightarrow> leaf \<Rightarrow> unit result \<times> tree" where
  "write_leaf self page_id l =
     (case encode_leaf l (replicate (body_capacity (tr_page_size self)) 0) of
        Err e \<Rightarrow> (Err e, self)
      | Ok body \<Rightarrow> write_body self page_id BTreeLeaf body)"

definition write_internal :: "tree \<Rightarrow> page_id \<Rightarrow> internal \<Rightarrow> unit result \<times> tree" where
  "write_internal self page_id n =
     (case encode_internal n (replicate (body_capacity (tr_page_size self)) 0) of
        Err e \<Rightarrow> (Err e, self)
      | Ok body \<Rightarrow> write_body self page_id BTreeInternal body)"

text \<open>The index of the first slot whose child is \<open>child\<close>, among slots \<open>i\<close> to \<open>n - 1\<close>.\<close>

fun find_child_slot :: "internal_accessor \<Rightarrow> page_id \<Rightarrow> nat list \<Rightarrow> nat option result" where
  "find_child_slot acc child [] = Ok None"
| "find_child_slot acc child (i # is) =
     rbind (entry_right_child acc i) (\<lambda>c. if c = child then Ok (Some i) else find_child_slot acc child is)"

definition cow_internal_repointing_child ::
  "tree \<Rightarrow> page_id \<Rightarrow> page_id \<Rightarrow> page_id \<Rightarrow> page_id \<Rightarrow> unit result \<times> tree" where
  "cow_internal_repointing_child self old_page_id new_page_id child_old child_new =
     (case rbind (read_main_page (tr_pager self) old_page_id (tr_realm self) BTreeInternal) (\<lambda>body.
           rbind (fst (internal_from_guard body False)) (\<lambda>accessor.
           if ia_leftmost_child accessor = child_old
           then write_u64_le body OFF_DUAL_USE child_new
           else
             rbind (find_child_slot accessor child_old [0..<ia_slot_count accessor]) (\<lambda>slot.
             case slot of
               None \<Rightarrow> Ok body
             | Some idx \<Rightarrow>
                 rbind (right_child_offset accessor idx) (\<lambda>offset.
                 write_u64_le body offset child_new)))) of
        Err e \<Rightarrow> (Err e, self)
      | Ok body \<Rightarrow> write_body self new_page_id BTreeInternal body)"


section \<open>Finding a child's slot\<close>

lemma find_child_slot_spec:
  assumes "\<And>i. i < length es \<Longrightarrow> entry_right_child acc i = Ok (snd (es ! i))"
  shows "m \<le> length es \<Longrightarrow> find_child_slot acc c [m..<length es] =
     Ok (case List.find (\<lambda>i. snd (es ! i) = c) [m..<length es] of None \<Rightarrow> None | Some i \<Rightarrow> Some i)"
proof (induction "length es - m" arbitrary: m)
  case (Suc d)
  then have "m < length es" by simp
  then show ?case
    using Suc.hyps(1) [of "Suc m"] Suc.hyps(2) assms [of m] by (simp add: upt_conv_Cons)
qed simp

section \<open>Duplicate detection is exact\<close>

definition seen_set :: "seen_page_ids \<Rightarrow> page_id set" where
  "seen_set self =
     (case overflow_ids self of
        Some ov \<Rightarrow> ov
      | None \<Rightarrow> set (take (seen_len self) (inline_ids self)))"

definition seen_inv :: "seen_page_ids \<Rightarrow> bool" where
  "seen_inv self \<longleftrightarrow> length (inline_ids self) = INLINE_SEEN_PAGE_IDS \<and> seen_len self \<le> INLINE_SEEN_PAGE_IDS"

lemma seen_new_props [simp]: "seen_inv (seen_new s)" "seen_set (seen_new s) = {}"
    "seen_structure (seen_new s) = s"
  by (auto simp: seen_inv_def seen_set_def seen_new_def)

text \<open>
  The inline array and the overflow set together behave as one set, whichever side of the switch
  between them an insertion falls on.
\<close>

lemma seen_insert_exact:
  assumes "seen_inv self"
  shows "seen_insert self p =
      (if p = 0 \<or> p \<in> seen_set self then Err (malformed_btree_topology (seen_structure self) p)
       else Ok (snd (seen_insert_inner self p)))"
    and "p \<notin> seen_set self \<Longrightarrow>
      seen_set (snd (seen_insert_inner self p)) = insert p (seen_set self)"
    and "seen_inv (snd (seen_insert_inner self p))"
    and "seen_structure (snd (seen_insert_inner self p)) = seen_structure self"
proof -
  have app: "set (take (Suc n) (xs[n := x])) = insert x (set (take n xs))" if "n < length xs" for n x and xs :: "page_id list"
    using that by (simp add: take_Suc_conv_app_nth)
  show "seen_insert self p =
      (if p = 0 \<or> p \<in> seen_set self then Err (malformed_btree_topology (seen_structure self) p)
       else Ok (snd (seen_insert_inner self p)))"
    using assms
    by (auto simp: seen_insert_def seen_insert_inner_def seen_set_def seen_inv_def Let_def
        split: option.splits)
  show "p \<notin> seen_set self \<Longrightarrow>
      seen_set (snd (seen_insert_inner self p)) = insert p (seen_set self)"
    using assms app [of "seen_len self" "inline_ids self" p]
    by (auto simp: seen_insert_inner_def seen_set_def seen_inv_def Let_def split: option.splits)
  show "seen_inv (snd (seen_insert_inner self p))"
    using assms by (auto simp: seen_insert_inner_def seen_inv_def Let_def split: option.splits)
  show "seen_structure (snd (seen_insert_inner self p)) = seen_structure self"
    by (auto simp: seen_insert_inner_def Let_def split: option.splits)
qed

lemma seen_insert_Ok:
  assumes "seen_inv self" and "p \<noteq> 0" and "p \<notin> seen_set self"
  obtains self' where "seen_insert self p = Ok self'" and "seen_inv self'"
    and "seen_set self' = insert p (seen_set self)" and "seen_structure self' = seen_structure self"
  using that seen_insert_exact [OF assms(1), of p] assms(2,3) by simp

text \<open>Every accepted insertion uses up something, so a descent ends on every page graph.\<close>

definition seen_rank :: "seen_page_ids \<Rightarrow> nat" where
  "seen_rank self =
     (case overflow_ids self of
        Some ov \<Rightarrow> card (- ov)
      | None \<Rightarrow> card (UNIV :: page_id set) + 1 + (INLINE_SEEN_PAGE_IDS - seen_len self))"

lemma card_compl_le: "card (- ov :: page_id set) \<le> card (UNIV :: page_id set)"
  by (rule card_mono) auto

lemma seen_insert_rank: "seen_insert self p = Ok self' \<Longrightarrow> seen_rank self' < seen_rank self"
proof -
  assume ins: "seen_insert self p = Ok self'"
  show ?thesis
  proof (cases "overflow_ids self")
    case None
    have "card (- insert p ov) < card (UNIV :: page_id set) + 1" for ov
      using card_compl_le [of "insert p ov"] by simp
    then show ?thesis
      using ins None
      by (auto simp: seen_insert_def seen_insert_inner_def seen_rank_def Let_def
          split: if_splits intro: le_imp_less_Suc card_compl_le)
  next
    case (Some ov)
    then have "p \<notin> ov" "self' = self\<lparr>overflow_ids := Some (insert p ov)\<rparr>"
      using ins by (auto simp: seen_insert_def seen_insert_inner_def split: if_splits)
    then show ?thesis
      using Some seen_measure_insert [of p ov] by (simp add: seen_rank_def seen_measure_def)
  qed
qed

section \<open>Allocation hands out pages nothing else holds\<close>

definition cache_of :: "tree \<Rightarrow> page_id list" where
  "cache_of self = (case source_of self of None \<Rightarrow> [] | Some src \<Rightarrow> ps_cache src)"

definition consumed_of :: "tree \<Rightarrow> page_id set" where
  "consumed_of self = (case source_of self of None \<Rightarrow> {} | Some src \<Rightarrow> ps_consumed src)"

definition alloc_inv :: "tree \<Rightarrow> bool" where
  "alloc_inv self \<longleftrightarrow> distinct (freed_reusable self @ cache_of self) \<and>
     (\<forall>p \<in> set (freed_reusable self @ cache_of self). 4 \<le> p \<and> p < next_page_id self) \<and>
     4 \<le> next_page_id self"

lemma cache_of_update [simp]:
  "cache_of (t\<lparr>freed_reusable := x\<rparr>) = cache_of t" "cache_of (t\<lparr>freed := x\<rparr>) = cache_of t"
  "cache_of (t\<lparr>next_page_id := y\<rparr>) = cache_of t" "cache_of (t\<lparr>tr_pager := z\<rparr>) = cache_of t"
  "cache_of (t\<lparr>source_of := Some src\<rparr>) = ps_cache src"
  by (simp_all add: cache_of_def)

text \<open>The pages in use: below the cursor and in neither pool.\<close>

definition in_use :: "tree \<Rightarrow> page_id set" where
  "in_use self = {p. p < next_page_id self} - set (freed_reusable self) - set (cache_of self)"

lemma butlast_last_set: "xs \<noteq> [] \<Longrightarrow> set xs = insert (last xs) (set (butlast xs))"
  by (metis append_butlast_last_id list.set(1) list.set(2) set_append Un_insert_right sup_bot.right_neutral)

lemma distinct_butlast_last: "distinct xs \<Longrightarrow> xs \<noteq> [] \<Longrightarrow> last xs \<notin> set (butlast xs)"
  by (metis append_butlast_last_id distinct_append disjoint_insert(1) list.set(2) list.simps(15))

lemma unat_plus_one: "(p :: page_id) \<noteq> - 1 \<Longrightarrow> unat (p + 1) = unat p + 1"
proof -
  assume "p \<noteq> - 1"
  then have "unat p \<noteq> unat (- 1 :: page_id)" by (simp add: word_unat_eq_iff)
  then have "unat p + 1 < 2 ^ 64"
    using unat_lt2p [of p] by (simp add: unsigned_minus_1_eq_mask mask_eq_exp_minus_1)
  then show ?thesis using unat_add_u64_no_wrap [of p 1] by simp
qed

lemma less_plus_one: "(p :: page_id) \<noteq> - 1 \<Longrightarrow> q < p + 1 \<longleftrightarrow> q \<le> p"
  by (simp add: word_less_nat_alt word_le_nat_alt unat_plus_one less_Suc_eq_le)

lemma alloc_spec:
  assumes "alloc_inv t" and "allocate_page t = (Ok p, t')"
  shows "alloc_inv t'" and "4 \<le> p" and "p \<notin> in_use t" and "in_use t' = insert p (in_use t)"
    and "tr_pager t' = tr_pager t" and "p \<in> set (freed_reusable t) \<or> p \<in> set (cache_of t) \<or> p = next_page_id t"
proof -
  have "alloc_inv t' \<and> 4 \<le> p \<and> p \<notin> in_use t \<and> in_use t' = insert p (in_use t) \<and>
    tr_pager t' = tr_pager t \<and> (p \<in> set (freed_reusable t) \<or> p \<in> set (cache_of t) \<or> p = next_page_id t)"
  proof (cases "freed_reusable t = []")
    case False
    then have t': "p = last (freed_reusable t)" "t' = t\<lparr>freed_reusable := butlast (freed_reusable t)\<rparr>"
      using assms(2) by (auto simp: allocate_page_def Let_def split: if_splits)
    have d: "distinct (freed_reusable t)" using assms(1) by (simp add: alloc_inv_def)
    have "set (freed_reusable t) = insert p (set (butlast (freed_reusable t)))"
      "p \<notin> set (butlast (freed_reusable t))"
      using butlast_last_set [OF False] distinct_butlast_last [OF d False] t'(1) by auto
    then show ?thesis
      using assms(1) t' d
      by (auto simp: alloc_inv_def in_use_def distinct_butlast)
  next
    case fr: True
    show ?thesis
    proof (cases "cache_of t = []")
      case True
      then have "bump_page t = (Ok p, t')"
        using assms(2) fr by (auto simp: allocate_page_def cache_of_def split: option.splits if_splits)
      then have b: "p = next_page_id t" "p \<noteq> - 1" "4 \<le> p" "t' = t\<lparr>next_page_id := p + 1\<rparr>"
        by (auto simp: bump_page_def Let_def split: if_splits)
      have "in_use t' = insert p (in_use t)"
        using b fr True by (auto simp: in_use_def less_plus_one)
      moreover have "4 \<le> p + 1"
        using less_plus_one [OF b(2), of p] b(3) by (simp add: order.strict_implies_order order.strict_trans1)
      then have "alloc_inv t'"
        using b(4) fr True by (simp add: alloc_inv_def)
      moreover have "p \<notin> in_use t" using b(1) by (simp add: in_use_def)
      ultimately show ?thesis using b by simp
    next
      case False
      then obtain src where src: "source_of t = Some src" "ps_cache src \<noteq> []"
        by (auto simp: cache_of_def split: option.splits)
      then have t': "p = last (ps_cache src)" "t' = t\<lparr>source_of := Some (src\<lparr>ps_cache := butlast (ps_cache src),
          ps_consumed := insert p (ps_consumed src)\<rparr>)\<rparr>" "4 \<le> p"
        using assms(2) fr by (auto simp: allocate_page_def Let_def split: if_splits)
      have d: "distinct (ps_cache src)" using assms(1) src by (simp add: alloc_inv_def cache_of_def)
      have "set (ps_cache src) = insert p (set (butlast (ps_cache src)))"
        "p \<notin> set (butlast (ps_cache src))"
        using butlast_last_set [OF src(2)] distinct_butlast_last [OF d src(2)] t'(1) by auto
      moreover have "cache_of t = ps_cache src" using src by (simp add: cache_of_def)
      ultimately show ?thesis
        using assms(1) t' d fr by (auto simp: alloc_inv_def in_use_def distinct_butlast)
    qed
  qed
  then show "alloc_inv t'" "4 \<le> p" "p \<notin> in_use t" "in_use t' = insert p (in_use t)"
    "tr_pager t' = tr_pager t" "p \<in> set (freed_reusable t) \<or> p \<in> set (cache_of t) \<or> p = next_page_id t"
    by auto
qed

interpretation tree_alloc: page_allocator allocate_page alloc_inv in_use
proof
  fix t p t'
  assume a: "alloc_inv t" "allocate_page t = (Ok p, t')"
  have "(4 :: page_id) \<le> p \<Longrightarrow> p \<noteq> 0" by auto
  then show "alloc_inv t' \<and> p \<noteq> 0 \<and> p \<notin> in_use t \<and> in_use t' = insert p (in_use t)"
    using alloc_spec [OF a] by auto
qed

lemma free_page_spec:
  assumes "alloc_inv t" and "p \<in> in_use t" and "free_page t p = (Ok (), t')"
  shows "alloc_inv t'" and "in_use t' \<subseteq> in_use t"
    and "set (freed t') \<union> set (freed_reusable t') = insert p (set (freed t) \<union> set (freed_reusable t))"
  using assms
  by (auto simp: free_page_def alloc_inv_def in_use_def split: if_splits)

section \<open>What a write session may overwrite\<close>

text \<open>A session is any sequence of allocations and frees of pages in use.\<close>

inductive session :: "tree \<Rightarrow> page_id list \<Rightarrow> tree \<Rightarrow> bool" for t0 where
  session_start: "session t0 [] t0"
| session_alloc: "session t0 ps t \<Longrightarrow> allocate_page t = (Ok p, t') \<Longrightarrow> session t0 (p # ps) t'"
| session_free: "session t0 ps t \<Longrightarrow> p \<in> in_use t \<Longrightarrow> free_page t p = (Ok (), t') \<Longrightarrow> session t0 ps t'"

inductive_cases session_ConsE: "session t0 (p # ps) t"

definition session_inv :: "tree \<Rightarrow> page_source \<Rightarrow> tree \<Rightarrow> bool" where
  "session_inv t0 src0 t \<longleftrightarrow> alloc_inv t \<and>
     (\<exists>src. source_of t = Some src \<and> reuse_threshold src = reuse_threshold src0 \<and>
        set (ps_cache src) \<subseteq> set (ps_cache src0) \<and>
        ps_consumed src \<subseteq> ps_consumed src0 \<union> set (ps_cache src0)) \<and>
     next_page_id t0 \<le> next_page_id t \<and>
     (\<forall>p \<in> set (freed_reusable t). reuse_threshold src0 \<le> p \<or> p \<in> ps_consumed src0 \<union> set (ps_cache src0))"

lemma session_inv_alloc:
  assumes "session_inv t0 src0 t" and "allocate_page t = (Ok p, t')"
    and "reuse_threshold src0 \<le> next_page_id t0"
  shows "session_inv t0 src0 t' \<and> (reuse_threshold src0 \<le> p \<or> p \<in> ps_consumed src0 \<union> set (ps_cache src0))"
proof -
  have inv: "alloc_inv t" using assms(1) by (simp add: session_inv_def)
  note sp = alloc_spec [OF inv assms(2)]
  obtain src where src: "source_of t = Some src" "reuse_threshold src = reuse_threshold src0"
      "set (ps_cache src) \<subseteq> set (ps_cache src0)"
      "ps_consumed src \<subseteq> ps_consumed src0 \<union> set (ps_cache src0)"
    using assms(1) by (auto simp: session_inv_def)
  have p: "reuse_threshold src0 \<le> p \<or> p \<in> ps_consumed src0 \<union> set (ps_cache src0)"
    using sp(6) assms(1,3) src by (auto simp: session_inv_def cache_of_def)
  have bump: "next_page_id t \<le> next_page_id t'"
    using assms(2)
    by (auto simp: allocate_page_def bump_page_def Let_def less_plus_one less_imp_le split: if_splits option.splits)
  have "\<exists>src'. source_of t' = Some src' \<and> reuse_threshold src' = reuse_threshold src0 \<and>
        set (ps_cache src') \<subseteq> set (ps_cache src0) \<and>
        ps_consumed src' \<subseteq> ps_consumed src0 \<union> set (ps_cache src0)"
    using assms(2) src butlast_last_set [of "ps_cache src"]
    by (auto simp: allocate_page_def bump_page_def Let_def split: if_splits dest: in_set_butlastD)
  moreover have "set (freed_reusable t') \<subseteq> set (freed_reusable t)"
    using assms(2)
    by (auto simp: allocate_page_def bump_page_def Let_def split: if_splits option.splits dest: in_set_butlastD)
  ultimately show ?thesis
    using p sp(1) assms(1) bump order.trans by (fastforce simp: session_inv_def)
qed

lemma session_inv_free:
  assumes "session_inv t0 src0 t" and "p \<in> in_use t" and "free_page t p = (Ok (), t')"
  shows "session_inv t0 src0 t'"
  using assms free_page_spec(1) [OF _ assms(2,3)]
  by (auto simp: session_inv_def free_page_def is_reusable_in_session_def split: if_splits)

lemma session_invariant:
  assumes "session t0 ps t" and "session_inv t0 src0 t0" and "reuse_threshold src0 \<le> next_page_id t0"
  shows "session_inv t0 src0 t \<and>
    (\<forall>p \<in> set ps. 4 \<le> p \<and> (reuse_threshold src0 \<le> p \<or> p \<in> ps_consumed src0 \<union> set (ps_cache src0)))"
  using assms(1)
proof induction
  case session_start
  then show ?case using assms(2) by simp
next
  case (session_alloc ps t p t')
  then show ?case
    using session_inv_alloc [of t0 src0 t p t'] alloc_spec(2) [of t p t'] assms(3)
    by (auto simp: session_inv_def)
next
  case (session_free ps t p t')
  then show ?case using session_inv_free by blast
qed

text \<open>
  C15. A write session never overwrites a page the last durable header may name: every page it
  allocates is at or above the reuse threshold it was opened with, or was in the free-page cache
  handed to it, and is never one of the reserved ids, whatever it allocated and freed before.
\<close>
theorem session_spares_durable_pages:
  assumes "session (open_session pager realm root nx page_size src) ps t"
    and "distinct (ps_cache src)" and "\<forall>p \<in> set (ps_cache src). 4 \<le> p \<and> p < max nx 4"
    and "ps_consumed src = {}" and "reuse_threshold src \<le> max nx 4" and "p \<in> set ps"
  shows "4 \<le> p \<and> (reuse_threshold src \<le> p \<or> p \<in> set (ps_cache src))"
proof -
  define t0 where "t0 = open_session pager realm root nx page_size src"
  have t0: "source_of t0 = Some src" "next_page_id t0 = max nx 4" "freed_reusable t0 = []"
    by (simp_all add: t0_def open_session_def new_tree_def)
  have "alloc_inv t0"
    unfolding alloc_inv_def cache_of_def t0 using assms(2,3) by simp
  then have "session_inv t0 src t0"
    unfolding session_inv_def t0 by simp
  then show ?thesis
    using session_invariant [OF assms(1) [folded t0_def], of src] assms(4,5,6) unfolding t0 by blast
qed

definition demo_source :: page_source where
  "demo_source = \<lparr> reuse_threshold = 10, ps_cache = [5, 6], ps_consumed = {} \<rparr>"

lemma demo_session:
  "\<exists>t. session (open_session demo_pager [] 7 10 4096 demo_source) [5, 6] t"
proof -
  let ?t0 = "open_session demo_pager [] 7 10 4096 demo_source"
  let ?t1 = "?t0\<lparr>source_of := Some \<lparr> reuse_threshold = 10, ps_cache = [5], ps_consumed = {6} \<rparr>\<rparr>"
  let ?t2 = "?t1\<lparr>freed := [7]\<rparr>"
  let ?t3 = "?t2\<lparr>source_of := Some \<lparr> reuse_threshold = 10, ps_cache = [], ps_consumed = {5, 6} \<rparr>\<rparr>"
  note defs = allocate_page_def free_page_def is_reusable_in_session_def open_session_def new_tree_def
    demo_source_def in_use_def cache_of_def
  have "allocate_page ?t0 = (Ok 6, ?t1)" "free_page ?t1 7 = (Ok (), ?t2)" "7 \<in> in_use ?t1"
    "allocate_page ?t2 = (Ok 5, ?t3)"
    by (simp_all add: defs Let_def)
  then show ?thesis by (meson session.intros)
qed

theorem session_spares_durable_pages_witness:
  "\<exists>t. session (open_session demo_pager [] 7 10 4096 demo_source) [5, 6] t \<and>
     (4 \<le> (5 :: page_id) \<and> (reuse_threshold demo_source \<le> 5 \<or> 5 \<in> set (ps_cache demo_source)))"
proof -
  obtain t where t: "session (open_session demo_pager [] 7 10 4096 demo_source) [5, 6] t"
    using demo_session by blast
  show ?thesis
    using session_spares_durable_pages [OF t, of 5] t by (auto simp: demo_source_def)
qed

text \<open>
  The duplicate detector of a descent is exact: starting empty, after any pages inserted
  without error it refuses page 0 and exactly the pages inserted before, on both sides of the
  switch from the inline array to the overflow set, and accepts every other page.
\<close>
theorem seen_page_ids_exact:
  assumes "seen_from_existing s path = Ok seen"
  shows "distinct path \<and> 0 \<notin> set path \<and>
    (\<forall>p. (p = 0 \<or> p \<in> set path \<longrightarrow> seen_insert seen p = Err (malformed_btree_topology s p)) \<and>
         (p \<noteq> 0 \<and> p \<notin> set path \<longrightarrow> is_ok (seen_insert seen p)))"
proof -
  have gen: "fold_result (\<lambda>p seen. seen_insert seen p) path s0 = Ok seen \<Longrightarrow> seen_inv s0 \<Longrightarrow>
      seen_inv seen \<and> seen_set seen = seen_set s0 \<union> set path \<and> seen_structure seen = seen_structure s0 \<and>
      distinct path \<and> set path \<inter> insert 0 (seen_set s0) = {}" for s0
  proof (induction path arbitrary: s0)
    case (Cons p path)
    then obtain s1 where s1: "seen_insert s0 p = Ok s1"
        "fold_result (\<lambda>p seen. seen_insert seen p) path s1 = Ok seen"
      by (auto simp: rbind_eq_Ok)
    have "p \<noteq> 0" "p \<notin> seen_set s0" "s1 = snd (seen_insert_inner s0 p)"
      using s1(1) seen_insert_exact(1) [OF Cons.prems(2), of p] by (auto split: if_splits)
    then show ?case
      using Cons.IH [OF s1(2)] seen_insert_exact(2,3,4) [OF Cons.prems(2), of p] by auto
  qed simp
  show ?thesis
    using gen [of "seen_new s"] assms seen_insert_exact(1) [of seen]
    by (auto simp: seen_from_existing_def)
qed

theorem seen_page_ids_exact_witness:
  "\<exists>seen. seen_from_existing ''btree_descent'' [4, 9, 6, 7, 12] = Ok seen \<and>
     seen_insert seen 9 = Err (malformed_btree_topology ''btree_descent'' 9) \<and>
     is_ok (seen_insert seen 5)"
proof -
  have four: "replicate (4 :: nat) (0 :: u64) = [0, 0, 0, 0]" by (simp add: numeral_eq_Suc)
  have "\<exists>seen. seen_from_existing ''btree_descent'' [4, 9, 6, 7, 12] = Ok seen"
    by (simp add: seen_from_existing_def seen_insert_def seen_insert_inner_def seen_new_def
        INLINE_SEEN_PAGE_IDS_def Let_def four)
  then obtain seen where seen: "seen_from_existing ''btree_descent'' [4, 9, 6, 7, 12] = Ok seen" by blast
  have "is_ok (seen_insert seen 5)" "seen_insert seen 9 = Err (malformed_btree_topology ''btree_descent'' 9)"
    using seen_page_ids_exact [OF seen] by (auto simp del: of_nat_numeral)
  then show ?thesis using seen by blast
qed

end
