(* ===== verification/Tree_Navigate.thy ===== *)
theory Tree_Navigate
  imports Tree_Core
begin

text \<open>
  Navigation in the tree (\<open>btree/tree/navigate.rs\<close>): descents to a leaf, the leaves to the right and
  to the left of a path, the key range a descent routes to one leaf, and the propagation of a leaf
  split up the spine.

  The source's descents differ in one step, the choice of the child to follow; \<open>descend\<close> is their
  common loop and takes that choice as an argument. The loop ends because the duplicate detector
  accepts every page at most once.
\<close>

section \<open>Bounds of a leaf\<close>

record leaf_bounds =
  lower :: "key option"
  upper :: "key option"

definition bounds_contains :: "leaf_bounds \<Rightarrow> key \<Rightarrow> bool" where
  "bounds_contains self k \<longleftrightarrow>
     (case lower self of None \<Rightarrow> True | Some l \<Rightarrow> k \<ge> l) \<and>
     (case upper self of None \<Rightarrow> True | Some u \<Rightarrow> k < u)"

section \<open>Siblings inside one internal node\<close>

fun next_entry_child :: "internal_entry list \<Rightarrow> page_id \<Rightarrow> page_id option" where
  "next_entry_child [] child = None"
| "next_entry_child ((k, c) # es) child =
     (if c = child then (case es of [] \<Rightarrow> None | (k', c') # _ \<Rightarrow> Some c') else next_entry_child es child)"

definition right_sibling_child :: "internal \<Rightarrow> page_id \<Rightarrow> page_id option" where
  "right_sibling_child n child =
     (if leftmost_child n = child
      then (case entries n of [] \<Rightarrow> None | (k, c) # _ \<Rightarrow> Some c)
      else next_entry_child (entries n) child)"

fun prev_entry_child :: "page_id \<Rightarrow> internal_entry list \<Rightarrow> page_id \<Rightarrow> page_id option" where
  "prev_entry_child before [] child = None"
| "prev_entry_child before ((k, c) # es) child =
     (if c = child then Some before else prev_entry_child c es child)"

definition left_sibling_child :: "internal \<Rightarrow> page_id \<Rightarrow> page_id option" where
  "left_sibling_child n child =
     (if leftmost_child n = child then None
      else prev_entry_child (leftmost_child n) (entries n) child)"

section \<open>Descents\<close>

function descend ::
  "(bytes \<Rightarrow> page_id result) \<Rightarrow> tree \<Rightarrow> page_id \<Rightarrow> page_id list \<Rightarrow> seen_page_ids \<Rightarrow> page_id list result" where
  "descend follow self page_id path seen =
     rbind (seen_insert seen page_id) (\<lambda>seen.
     let path = path @ [page_id] in
     if map_of (fresh_leaves self) page_id \<noteq> None then Ok path
     else
       rbind (read_node_guard self page_id) (\<lambda>(body, kind).
       if kind = Leaf then Ok path
       else rbind (follow body) (\<lambda>child. descend follow self child path seen)))"
  by pat_completeness auto
termination
  by (relation "measure (\<lambda>(_, _, _, _, seen). seen_rank seen)") (auto simp: seen_insert_rank)

declare descend.simps [simp del]

definition child_for_key :: "key \<Rightarrow> bytes \<Rightarrow> page_id result" where
  "child_for_key k body = rbind (fst (internal_from_guard body False)) (\<lambda>acc. child_for acc k)"

definition leftmost_of :: "bytes \<Rightarrow> page_id result" where
  "leftmost_of body = rmap leftmost_child (decode_internal body)"

definition rightmost_child :: "internal \<Rightarrow> page_id" where
  "rightmost_child n =
     (if entries n = [] then leftmost_child n else snd (last (entries n)))"

definition rightmost_of :: "bytes \<Rightarrow> page_id result" where
  "rightmost_of body = rmap rightmost_child (decode_internal body)"

definition path_to_leaf_for_key :: "tree \<Rightarrow> key \<Rightarrow> page_id list result" where
  "path_to_leaf_for_key self k =
     descend (child_for_key k) self (root_page_id self) [] (seen_new ''btree_descent'')"

definition path_to_rightmost_leaf :: "tree \<Rightarrow> page_id list result" where
  "path_to_rightmost_leaf self =
     descend rightmost_of self (root_page_id self) [] (seen_new ''btree_descent'')"

text \<open>Reading the internal node of a path, whatever kind its page authenticated under.\<close>

definition read_path_node :: "tree \<Rightarrow> page_id \<Rightarrow> internal result" where
  "read_path_node self page_id =
     rbind (read_node_guard self page_id) (\<lambda>(body, kind). decode_internal body)"

fun next_leaf_loop ::
  "tree \<Rightarrow> page_id list \<Rightarrow> seen_page_ids \<Rightarrow> nat list \<Rightarrow> page_id \<Rightarrow> page_id list option result" where
  "next_leaf_loop self path seen [] child = Ok None"
| "next_leaf_loop self path seen (i # is) child =
     rbind (read_path_node self (path ! i)) (\<lambda>n.
     case right_sibling_child n child of
       Some next_child \<Rightarrow> rmap Some (descend leftmost_of self next_child (take (i + 1) path) seen)
     | None \<Rightarrow> next_leaf_loop self path seen is (path ! i))"

definition next_leaf_after :: "tree \<Rightarrow> page_id list \<Rightarrow> page_id list option result" where
  "next_leaf_after self path =
     (if length path < 2 then Ok None
      else
        rbind (seen_from_existing ''btree_descent'' path) (\<lambda>seen.
        next_leaf_loop self path seen (rev [0..<length path - 1]) (last path)))"

fun prev_leaf_loop ::
  "tree \<Rightarrow> page_id list \<Rightarrow> seen_page_ids \<Rightarrow> nat list \<Rightarrow> page_id \<Rightarrow> page_id list option result" where
  "prev_leaf_loop self path seen [] child = Ok None"
| "prev_leaf_loop self path seen (i # is) child =
     rbind (read_path_node self (path ! i)) (\<lambda>n.
     case left_sibling_child n child of
       Some prev_child \<Rightarrow> rmap Some (descend rightmost_of self prev_child (take (i + 1) path) seen)
     | None \<Rightarrow> prev_leaf_loop self path seen is (path ! i))"

definition prev_leaf_before :: "tree \<Rightarrow> page_id list \<Rightarrow> page_id list option result" where
  "prev_leaf_before self path =
     (if length path < 2 then Ok None
      else
        rbind (seen_from_existing ''btree_descent'' path) (\<lambda>seen.
        prev_leaf_loop self path seen (rev [0..<length path - 1]) (last path)))"

section \<open>The range of keys routed to a leaf\<close>

fun entry_bounds :: "internal_entry list \<Rightarrow> page_id \<Rightarrow> (key \<times> key option) option" where
  "entry_bounds [] child = None"
| "entry_bounds ((k, c) # es) child =
     (if c = child then Some (k, case es of [] \<Rightarrow> None | (k', c') # _ \<Rightarrow> Some k')
      else entry_bounds es child)"

definition level_bounds :: "internal \<Rightarrow> page_id \<Rightarrow> leaf_bounds \<Rightarrow> leaf_bounds" where
  "level_bounds n child b =
     (if leftmost_child n = child then
        (if upper b = None then
           (case entries n of [] \<Rightarrow> b | (k, c) # _ \<Rightarrow> b\<lparr>upper := Some k\<rparr>)
         else b)
      else
        (case entry_bounds (entries n) child of
           None \<Rightarrow> b
         | Some (l, u) \<Rightarrow>
             (let b = (if lower b = None then b\<lparr>lower := Some l\<rparr> else b) in
              if upper b = None then (case u of None \<Rightarrow> b | Some u' \<Rightarrow> b\<lparr>upper := Some u'\<rparr>) else b)))"

fun bounds_loop :: "tree \<Rightarrow> page_id list \<Rightarrow> page_id \<Rightarrow> leaf_bounds \<Rightarrow> leaf_bounds result" where
  "bounds_loop self [] child b = Ok b"
| "bounds_loop self (internal_page # rest) child b =
     rbind (read_path_node self internal_page) (\<lambda>n.
     let b = level_bounds n child b in
     if lower b \<noteq> None \<and> upper b \<noteq> None then Ok b
     else bounds_loop self rest internal_page b)"

definition separator_bounds_for_path :: "tree \<Rightarrow> page_id list \<Rightarrow> leaf_bounds result" where
  "separator_bounds_for_path self path =
     (let b = \<lparr> lower = None, upper = None \<rparr> in
      if length path < 2 then Ok b
      else bounds_loop self (rev (butlast path)) (last path) b)"

section \<open>Propagating a split\<close>

text \<open>Replacing the pointer to one child, the leftmost or the first entry that names it.\<close>

fun repoint_entries :: "internal_entry list \<Rightarrow> page_id \<Rightarrow> page_id \<Rightarrow> internal_entry list" where
  "repoint_entries [] old new = []"
| "repoint_entries ((k, c) # es) old new =
     (if c = old then (k, new) # es else (k, c) # repoint_entries es old new)"

definition repoint_child :: "internal \<Rightarrow> page_id \<Rightarrow> page_id \<Rightarrow> internal" where
  "repoint_child n old new =
     (if leftmost_child n = old then n\<lparr>leftmost_child := new\<rparr>
      else n\<lparr>entries := repoint_entries (entries n) old new\<rparr>)"

definition remap_dirty_parent_paths :: "tree \<Rightarrow> page_id \<Rightarrow> page_id \<Rightarrow> tree" where
  "remap_dirty_parent_paths self old new =
     self\<lparr>dirty_parent_paths :=
       map (\<lambda>(leaf_id, path). (leaf_id, map (\<lambda>p. if p = old then new else p) path)) (dirty_parent_paths self)\<rparr>"

fun remap_path_split :: "page_id \<Rightarrow> page_id \<Rightarrow> page_id \<Rightarrow> page_id set \<Rightarrow> page_id \<Rightarrow> page_id list \<Rightarrow> page_id list" where
  "remap_path_split old left_new right_new right_children leaf_id [] = []"
| "remap_path_split old left_new right_new right_children leaf_id (p # ps) =
     (if p = old then
        (let next_hop = (case ps of [] \<Rightarrow> leaf_id | q # _ \<Rightarrow> q) in
         if next_hop \<in> right_children then right_new else left_new)
      else p) # remap_path_split old left_new right_new right_children leaf_id ps"

definition remap_dirty_parent_paths_split ::
  "tree \<Rightarrow> page_id \<Rightarrow> page_id \<Rightarrow> page_id \<Rightarrow> internal \<Rightarrow> tree" where
  "remap_dirty_parent_paths_split self old left_new right_new right =
     (let right_children = insert (leftmost_child right) (set (map snd (entries right))) in
      self\<lparr>dirty_parent_paths :=
        map (\<lambda>(leaf_id, path). (leaf_id, remap_path_split old left_new right_new right_children leaf_id path))
          (dirty_parent_paths self)\<rparr>)"

text \<open>Copying the ancestors above a page that was replaced, from the deepest one to the root.\<close>

fun cow_spine ::
  "tree \<Rightarrow> page_id list \<Rightarrow> page_id \<Rightarrow> page_id \<Rightarrow> unit result \<times> tree" where
  "cow_spine self [] child_old child_new = (Ok (), self\<lparr>root_page_id := child_new\<rparr>)"
| "cow_spine self (p # ps) child_old child_new =
     mbind (allocate_page self) (\<lambda>new_p self.
     mbind (cow_internal_repointing_child self p new_p child_old child_new) (\<lambda>_ self.
     mbind (free_page self p) (\<lambda>_ self.
     cow_spine (remap_dirty_parent_paths self p new_p) ps p new_p)))"

text \<open>
  The loop over the levels above the split, given the internal pages of the path still to be
  treated, the deepest one first. The next-hop test of the source reads a path before the element
  after it is replaced, as \<open>remap_path_split\<close> does.
\<close>

fun propagate_loop ::
  "tree \<Rightarrow> page_id list \<Rightarrow> page_id \<Rightarrow> page_id \<Rightarrow> key \<Rightarrow> page_id \<Rightarrow> unit result \<times> tree" where
  "propagate_loop self [] child_old left_replacement sep right_to_insert =
     mbind (allocate_page self) (\<lambda>new_root_page self.
     mbind (write_internal self new_root_page
         \<lparr> leftmost_child = left_replacement, entries = [(sep, right_to_insert)] \<rparr>) (\<lambda>_ self.
     (Ok (), self\<lparr>root_page_id := new_root_page,
        dirty_parent_paths := map (\<lambda>(leaf_id, path). (leaf_id, new_root_page # path)) (dirty_parent_paths self)\<rparr>)))"
| "propagate_loop self (internal_page # ancestors) child_old left_replacement sep right_to_insert =
     mbind (read_internal self internal_page, self) (\<lambda>n self.
     let n = internal_upsert (repoint_child n child_old left_replacement) sep right_to_insert in
     mbind (allocate_page self) (\<lambda>new_internal_page self.
     if \<not> internal_fits n (tr_page_size self) then
       mbind (split_internal n, self) (\<lambda>(left, right, promoted) self.
       mbind (allocate_page self) (\<lambda>right_internal_page self.
       mbind (write_internal self new_internal_page left) (\<lambda>_ self.
       mbind (write_internal self right_internal_page right) (\<lambda>_ self.
       mbind (free_page self internal_page) (\<lambda>_ self.
       propagate_loop
         (remap_dirty_parent_paths_split self internal_page new_internal_page right_internal_page right)
         ancestors internal_page new_internal_page promoted right_internal_page)))))
     else
       mbind (write_internal self new_internal_page n) (\<lambda>_ self.
       mbind (free_page self internal_page) (\<lambda>_ self.
       cow_spine (remap_dirty_parent_paths self internal_page new_internal_page)
         ancestors internal_page new_internal_page))))"

definition propagate_split_up ::
  "tree \<Rightarrow> page_id list \<Rightarrow> page_id \<Rightarrow> page_id \<Rightarrow> key \<Rightarrow> unit result \<times> tree" where
  "propagate_split_up self path new_left_child new_right_child promoted_key =
     (if path = [] then (Err (Panic ''non-empty path''), self)
      else propagate_loop self (rev (butlast path)) (last path) new_left_child promoted_key new_right_child)"

lemma repoint_entries_find:
  "repoint_entries es old new =
     (case List.find (\<lambda>i. snd (es ! i) = old) [0..<length es] of
        None \<Rightarrow> es | Some i \<Rightarrow> es[i := (fst (es ! i), new)])"
proof (induction es old new rule: repoint_entries.induct)
  case (2 k c es old new)
  have shift: "List.find (\<lambda>i. snd (((k, c) # es) ! i) = old) [1..<Suc (length es)] =
      map_option Suc (List.find (\<lambda>i. snd (es ! i) = old) [0..<length es])"
  proof -
    have "[1..<Suc (length es)] = map Suc [0..<length es]" by (simp add: map_Suc_upt)
    moreover have "List.find P (map f xs) = map_option f (List.find (\<lambda>x. P (f x)) xs)"
      for P :: "nat \<Rightarrow> bool" and f and xs :: "nat list" by (induction xs) auto
    ultimately show ?thesis by simp
  qed
  show ?case
    using 2 shift by (auto simp: upt_conv_Cons simp del: upt_Suc split: option.splits)
qed simp

end
