(* ===== verification/Tree_Read.thy ===== *)
theory Tree_Read
  imports Tree_Navigate
begin

text \<open>
  Point lookups (\<open>btree/tree/read.rs\<close>): the descent that reads each page in place, the value of a
  leaf that is cached decoded in the write session, and values kept in overflow chains.
\<close>

section \<open>Values\<close>

definition resolve_leaf_value :: "tree \<Rightarrow> leaf_value \<Rightarrow> bytes result" where
  "resolve_leaf_value self v =
     (case v of
        Inline b \<Rightarrow> Ok b
      | OverflowRef total_len root \<Rightarrow> read_chain (tr_pager self) (tr_realm self) root total_len)"

definition value_from_cached_leaf :: "pager \<Rightarrow> realm_id \<Rightarrow> leaf \<Rightarrow> key \<Rightarrow> bytes option result" where
  "value_from_cached_leaf pager realm l k =
     (case get l k of
        None \<Rightarrow> Ok None
      | Some (Inline v) \<Rightarrow> Ok (Some v)
      | Some (OverflowRef total_len root) \<Rightarrow> rmap Some (read_chain pager realm root total_len))"

definition extract_leaf_value :: "tree \<Rightarrow> key \<Rightarrow> page_id \<Rightarrow> bytes \<Rightarrow> bytes option result" where
  "extract_leaf_value self k leaf_page_id body =
     (case (case map_of (fresh_leaves self) leaf_page_id of
              Some l \<Rightarrow> Some l
            | None \<Rightarrow> map_of (dirty_leaves self) leaf_page_id) of
        Some l \<Rightarrow>
          (case get l k of
             None \<Rightarrow> Ok None
           | Some (Inline v) \<Rightarrow> Ok (Some v)
           | Some (OverflowRef total_len root) \<Rightarrow>
               rmap Some (read_chain (tr_pager self) (tr_realm self) root total_len))
      | None \<Rightarrow>
          rbind (fst (leaf_from_guard body False)) (\<lambda>acc.
          rbind (leaf_find acc k) (\<lambda>slot.
          case slot of
            None \<Rightarrow> Ok None
          | Some idx \<Rightarrow>
              rbind (value_loc acc idx) (\<lambda>loc.
              case loc of
                InlineAt a b \<Rightarrow> rmap Some (slice body a b)
              | OverflowAt total_len root \<Rightarrow>
                  rmap Some (read_chain (tr_pager self) (tr_realm self) root total_len)))))"

section \<open>Lookups\<close>

function get_loop :: "tree \<Rightarrow> key \<Rightarrow> page_id \<Rightarrow> seen_page_ids \<Rightarrow> bytes option result" where
  "get_loop self k page_id seen =
     rbind (seen_insert seen page_id) (\<lambda>seen.
     case map_of (fresh_leaves self) page_id of
       Some l \<Rightarrow> value_from_cached_leaf (tr_pager self) (tr_realm self) l k
     | None \<Rightarrow>
         rbind (read_node_guard self page_id) (\<lambda>(body, kind).
         if kind = Leaf then extract_leaf_value self k page_id body
         else
           rbind (fst (internal_from_guard body False)) (\<lambda>acc.
           rbind (child_for acc k) (\<lambda>child. get_loop self k child seen))))"
  by pat_completeness auto
termination
  by (relation "measure (\<lambda>(_, _, _, seen). seen_rank seen)") (auto simp: seen_insert_rank)

declare get_loop.simps [simp del]

definition get_from_node :: "tree \<Rightarrow> key \<Rightarrow> page_id \<Rightarrow> bytes \<Rightarrow> node_kind \<Rightarrow> bytes option result" where
  "get_from_node self k start_page_id start_body start_kind =
     (if start_kind = Leaf then extract_leaf_value self k start_page_id start_body
      else
        rbind (fst (internal_from_guard start_body False)) (\<lambda>acc.
        rbind (child_for acc k) (\<lambda>next_page_id.
        rbind (seen_insert (seen_new ''btree_descent'') start_page_id) (\<lambda>seen.
        get_loop self k next_page_id seen))))"

definition tree_get :: "tree \<Rightarrow> key \<Rightarrow> bytes option result" where
  "tree_get self k =
     (if root_page_id self = 0 then Ok None
      else
        (case map_of (fresh_leaves self) (root_page_id self) of
           Some l \<Rightarrow> value_from_cached_leaf (tr_pager self) (tr_realm self) l k
         | None \<Rightarrow>
             rbind (read_node_guard self (root_page_id self)) (\<lambda>(body, kind).
             get_from_node self k (root_page_id self) body kind)))"

definition get_with_cached_root :: "tree \<Rightarrow> key \<Rightarrow> bytes \<Rightarrow> node_kind \<Rightarrow> bytes option result" where
  "get_with_cached_root self k root_body root_kind =
     (if root_page_id self = 0 then Ok None
      else get_from_node self k (root_page_id self) root_body root_kind)"

definition get_range :: "tree \<Rightarrow> key \<Rightarrow> u64 \<Rightarrow> u64 \<Rightarrow> bytes option result" where
  "get_range self k offset len =
     (if root_page_id self = 0 then Ok None
      else
        rbind (path_to_leaf_for_key self k) (\<lambda>path.
        rbind (read_leaf self (last path)) (\<lambda>l.
        case List.find (\<lambda>(k', v). k' = k) (records l) of
          None \<Rightarrow> Ok None
        | Some (k', Inline v) \<Rightarrow>
            (let start = min (unat offset) (length v);
                 stop = min (case checked_add start (unat len) of None \<Rightarrow> length v | Some e \<Rightarrow> e) (length v) in
             rmap Some (slice v start stop))
        | Some (k', OverflowRef total_len root) \<Rightarrow>
            rmap Some (read_chain_range (tr_pager self) (tr_realm self) root total_len offset len))))"

end
