(* ===== verification/Tree_Scan.thy ===== *)
theory Tree_Scan
  imports Tree_Read "HOL-Library.Sublist"
begin

text \<open>
  Scans (\<open>btree/tree/scan.rs\<close>, \<open>btree/tree/scan_bounded.rs\<close>): forward, reverse, prefix and bounded.

  Every scan of the source is a loop over successive leaves that stops early or when no leaf is
  left; the loops differ in what they do with the records of one leaf. \<open>scan_loop\<close> is the common
  loop: the step says what one leaf contributes and whether the scan is over, and the duplicate
  detector that lives as long as the scan makes it end on every page graph.
\<close>

definition scan_guard :: seen_page_ids where
  "scan_guard = seen_new ''btree_scan''"

type_synonym pair = "key \<times> bytes"

function scan_loop ::
  "(tree \<Rightarrow> page_id list \<Rightarrow> page_id list option result) \<Rightarrow> (leaf \<Rightarrow> 's \<Rightarrow> (bool \<times> 's) result) \<Rightarrow>
     tree \<Rightarrow> page_id list \<Rightarrow> seen_page_ids \<Rightarrow> 's \<Rightarrow> 's result" where
  "scan_loop step_path visit self path seen_leaves st =
     (let leaf_id = last path in
      rbind (seen_insert seen_leaves leaf_id) (\<lambda>seen_leaves.
      rbind (read_leaf self leaf_id) (\<lambda>l.
      rbind (visit l st) (\<lambda>(finished, st).
      if finished then Ok st
      else
        rbind (step_path self path) (\<lambda>n.
        case n of
          Some path' \<Rightarrow> scan_loop step_path visit self path' seen_leaves st
        | None \<Rightarrow> Ok st)))))"
  by pat_completeness auto
termination
  by (relation "measure (\<lambda>(_, _, _, _, seen, _). seen_rank seen)") (auto simp: seen_insert_rank)

declare scan_loop.simps [simp del]

section \<open>Range scans\<close>

fun visit_range :: "tree \<Rightarrow> key \<Rightarrow> key \<Rightarrow> leaf_record list \<Rightarrow> pair list \<Rightarrow> (bool \<times> pair list) result" where
  "visit_range self start stop [] out = Ok (False, out)"
| "visit_range self start stop ((k, v) # rs) out =
     (if k \<ge> stop then Ok (True, out)
      else if k \<ge> start then
        rbind (resolve_leaf_value self v) (\<lambda>val. visit_range self start stop rs (out @ [(k, val)]))
      else visit_range self start stop rs out)"

definition collect_range :: "tree \<Rightarrow> key \<Rightarrow> key \<Rightarrow> pair list result" where
  "collect_range self start stop =
     (if root_page_id self = 0 then Ok []
      else
        rbind (path_to_leaf_for_key self start) (\<lambda>path.
        scan_loop next_leaf_after (\<lambda>l. visit_range self start stop (records l)) self path scan_guard []))"

fun visit_all :: "tree \<Rightarrow> leaf_record list \<Rightarrow> pair list \<Rightarrow> (bool \<times> pair list) result" where
  "visit_all self [] out = Ok (False, out)"
| "visit_all self ((k, v) # rs) out =
     rbind (resolve_leaf_value self v) (\<lambda>val. visit_all self rs (out @ [(k, val)]))"

definition collect_all :: "tree \<Rightarrow> pair list result" where
  "collect_all self =
     (if root_page_id self = 0 then Ok []
      else
        rbind (path_to_leaf_for_key self []) (\<lambda>path.
        scan_loop next_leaf_after (\<lambda>l. visit_all self (records l)) self path scan_guard []))"

fun visit_batch :: "tree \<Rightarrow> key \<Rightarrow> nat \<Rightarrow> leaf_record list \<Rightarrow> pair list \<Rightarrow> (bool \<times> pair list) result" where
  "visit_batch self start limit [] out = Ok (length out = limit, out)"
| "visit_batch self start limit ((k, v) # rs) out =
     (if k < start then visit_batch self start limit rs out
      else if length out = limit then Ok (True, out)
      else rbind (resolve_leaf_value self v) (\<lambda>val. visit_batch self start limit rs (out @ [(k, val)])))"

definition collect_batch_from :: "tree \<Rightarrow> key \<Rightarrow> nat \<Rightarrow> pair list result" where
  "collect_batch_from self start limit =
     (if root_page_id self = 0 \<or> limit = 0 then Ok []
      else
        rbind (path_to_leaf_for_key self start) (\<lambda>path.
        scan_loop next_leaf_after (\<lambda>l. visit_batch self start limit (records l)) self path scan_guard []))"

definition collect_prefix_batch_from :: "tree \<Rightarrow> key \<Rightarrow> key \<Rightarrow> nat \<Rightarrow> pair list result" where
  "collect_prefix_batch_from self pre start limit =
     rmap (takeWhile (\<lambda>(k, v). prefix pre k)) (collect_batch_from self start limit)"

section \<open>Keys of a range\<close>

fun visit_keys :: "key \<Rightarrow> key \<Rightarrow> nat \<Rightarrow> leaf_record list \<Rightarrow> key list \<Rightarrow> bool \<times> key list" where
  "visit_keys start stop limit [] out = (False, out)"
| "visit_keys start stop limit ((k, v) # rs) out =
     (if k \<ge> stop then (True, out)
      else if k \<ge> start then
        (let out = out @ [k] in if length out = limit then (True, out) else visit_keys start stop limit rs out)
      else visit_keys start stop limit rs out)"

function keys_loop ::
  "tree \<Rightarrow> key \<Rightarrow> key \<Rightarrow> nat \<Rightarrow> page_id list \<Rightarrow> seen_page_ids \<Rightarrow> key list \<Rightarrow> key list result" where
  "keys_loop self start stop limit path seen_leaves out =
     (let leaf_page_id = last path in
      rbind (seen_insert seen_leaves leaf_page_id) (\<lambda>seen_leaves.
      rbind (read_leaf self leaf_page_id) (\<lambda>l.
      let (finished, out) = visit_keys start stop limit (records l) out in
      if finished then Ok out
      else
        rbind (next_leaf_after self path) (\<lambda>next_path.
        case next_path of
          Some parent_next \<Rightarrow>
            if right_sibling l = 0 \<or> last parent_next = right_sibling l
            then keys_loop self start stop limit parent_next seen_leaves out
            else Err (Corruption (LeafSiblingMismatch leaf_page_id (right_sibling l) (Some (last parent_next))))
        | None \<Rightarrow>
            if right_sibling l = 0 then Ok out
            else Err (Corruption (LeafSiblingMismatch leaf_page_id (right_sibling l) None))))))"
  by pat_completeness auto
termination
  by (relation "measure (\<lambda>(_, _, _, _, _, seen, _). seen_rank seen)") (auto simp: seen_insert_rank)

declare keys_loop.simps [simp del]

definition collect_keys_batch_in_range :: "tree \<Rightarrow> key \<Rightarrow> key \<Rightarrow> nat \<Rightarrow> key list result" where
  "collect_keys_batch_in_range self start stop limit =
     (if root_page_id self = 0 \<or> limit = 0 then Ok []
      else
        rbind (path_to_leaf_for_key self start) (\<lambda>path.
        keys_loop self start stop limit path (seen_new ''leaf_siblings'') []))"

section \<open>Ends of the tree and reverse scans\<close>

definition first_key :: "tree \<Rightarrow> key option result" where
  "first_key self =
     (if root_page_id self = 0 then Ok None
      else
        rbind (path_to_leaf_for_key self []) (\<lambda>path.
        rbind (read_leaf self (last path)) (\<lambda>l.
        Ok (case records l of [] \<Rightarrow> None | (k, v) # _ \<Rightarrow> Some k))))"

definition last_key :: "tree \<Rightarrow> key option result" where
  "last_key self =
     (if root_page_id self = 0 then Ok None
      else
        rbind (path_to_rightmost_leaf self) (\<lambda>path.
        rbind (read_leaf self (last path)) (\<lambda>l.
        Ok (if records l = [] then None else Some (fst (last (records l)))))))"

fun visit_rev :: "tree \<Rightarrow> key option \<Rightarrow> nat \<Rightarrow> leaf_record list \<Rightarrow> pair list \<Rightarrow> (bool \<times> pair list) result" where
  "visit_rev self bef limit [] out = Ok (False, out)"
| "visit_rev self bef limit ((k, v) # rs) out =
     (if (case bef of None \<Rightarrow> False | Some b \<Rightarrow> k \<ge> b) then visit_rev self bef limit rs out
      else
        rbind (resolve_leaf_value self v) (\<lambda>val.
        let out = out @ [(k, val)] in
        if length out = limit then Ok (True, out) else visit_rev self bef limit rs out))"

definition collect_rev_batch_before :: "tree \<Rightarrow> key option \<Rightarrow> nat \<Rightarrow> pair list result" where
  "collect_rev_batch_before self bef limit =
     (if root_page_id self = 0 \<or> limit = 0 then Ok []
      else
        rbind (case bef of Some b \<Rightarrow> path_to_leaf_for_key self b | None \<Rightarrow> path_to_rightmost_leaf self) (\<lambda>path.
        scan_loop prev_leaf_before (\<lambda>l. visit_rev self bef limit (rev (records l))) self path scan_guard []))"

definition scan_rev :: "tree \<Rightarrow> key \<Rightarrow> key \<Rightarrow> pair list result" where
  "scan_rev self start stop = rmap rev (collect_range self start stop)"

section \<open>Prefix scans\<close>

fun visit_prefix :: "tree \<Rightarrow> key \<Rightarrow> leaf_record list \<Rightarrow> pair list \<Rightarrow> (bool \<times> pair list) result" where
  "visit_prefix self pre [] out = Ok (False, out)"
| "visit_prefix self pre ((k, v) # rs) out =
     (if k < pre then visit_prefix self pre rs out
      else if \<not> prefix pre k then Ok (True, out)
      else rbind (resolve_leaf_value self v) (\<lambda>val. visit_prefix self pre rs (out @ [(k, val)])))"

definition scan_prefix :: "tree \<Rightarrow> key \<Rightarrow> pair list result" where
  "scan_prefix self pre =
     (if root_page_id self = 0 then Ok []
      else
        rbind (path_to_leaf_for_key self pre) (\<lambda>path.
        scan_loop next_leaf_after (\<lambda>l. visit_prefix self pre (records l)) self path scan_guard []))"

datatype scan_limit = LimitRecords | LimitBytes

record scan_batch =
  batch_entries :: "pair list"
  batch_limit :: "scan_limit option"

fun stored_value_len :: "leaf_value \<Rightarrow> nat" where
  "stored_value_len (Inline b) = length b"
| "stored_value_len (OverflowRef total_len root) = unat total_len"

fun visit_bounded ::
  "tree \<Rightarrow> key \<Rightarrow> key \<Rightarrow> nat \<Rightarrow> nat \<Rightarrow> leaf_record list \<Rightarrow> scan_batch \<times> nat \<Rightarrow> (bool \<times> scan_batch \<times> nat) result" where
  "visit_bounded self pre start max_records max_bytes [] st = Ok (False, st)"
| "visit_bounded self pre start max_records max_bytes ((k, v) # rs) st =
     (let (batch, used_bytes) = st in
      if k < start then visit_bounded self pre start max_records max_bytes rs st
      else if \<not> prefix pre k then Ok (True, st)
      else if length (batch_entries batch) = max_records
        then Ok (True, batch\<lparr>batch_limit := Some LimitRecords\<rparr>, used_bytes)
      else
        (case Option.bind (checked_add (length k) (stored_value_len v)) (checked_add used_bytes) of
           None \<Rightarrow> Ok (True, batch\<lparr>batch_limit := Some LimitBytes\<rparr>, used_bytes)
         | Some next_bytes \<Rightarrow>
             if next_bytes > max_bytes then Ok (True, batch\<lparr>batch_limit := Some LimitBytes\<rparr>, used_bytes)
             else
               rbind (resolve_leaf_value self v) (\<lambda>resolved.
               visit_bounded self pre start max_records max_bytes rs
                 (batch\<lparr>batch_entries := batch_entries batch @ [(k, resolved)]\<rparr>, next_bytes))))"

definition collect_prefix_batch_bounded :: "tree \<Rightarrow> key \<Rightarrow> key \<Rightarrow> nat \<Rightarrow> nat \<Rightarrow> scan_batch result" where
  "collect_prefix_batch_bounded self pre start max_records max_bytes =
     (let batch = \<lparr> batch_entries = [], batch_limit = None \<rparr> in
      if root_page_id self = 0 then Ok batch
      else
        (let start = max start pre in
         rbind (path_to_leaf_for_key self start) (\<lambda>path.
         rmap fst (scan_loop next_leaf_after
           (\<lambda>l. visit_bounded self pre start max_records max_bytes (records l)) self path scan_guard (batch, 0)))))"

end
