(* ===== verification/Tree_Write.thy ===== *)
theory Tree_Write
  imports Tree_Scan
begin

text \<open>
  The write path (\<open>btree/tree/write.rs\<close>, \<open>btree/tree/flush.rs\<close>): insertion with its overflow value,
  the leaf caches of a write session, splitting, appending, deletion, the batch operations, and the
  flush that copies every dirty leaf and its ancestors to new pages.
\<close>

section \<open>Caches\<close>

definition invalidate_append_state :: "tree \<Rightarrow> tree" where
  "invalidate_append_state self = self\<lparr>append_cached_path := None, append_last_key := None\<rparr>"

text \<open>The source borrows the cached leaf mutably: reading it and storing its new value.\<close>

definition cached_leaf :: "tree \<Rightarrow> page_id \<Rightarrow> bool \<Rightarrow> leaf result" where
  "cached_leaf self page_id leaf_is_fresh =
     (if leaf_is_fresh then of_option (Panic ''fresh_leaves contains key'') (map_of (fresh_leaves self) page_id)
      else of_option (Panic ''ensure_leaf_dirty populated'') (map_of (dirty_leaves self) page_id))"

definition set_cached_leaf :: "tree \<Rightarrow> page_id \<Rightarrow> bool \<Rightarrow> leaf \<Rightarrow> tree" where
  "set_cached_leaf self page_id leaf_is_fresh l =
     (if leaf_is_fresh then self\<lparr>fresh_leaves := AList.update page_id l (fresh_leaves self)\<rparr>
      else self\<lparr>dirty_leaves := AList.update page_id l (dirty_leaves self)\<rparr>)"

definition ensure_leaf_dirty :: "tree \<Rightarrow> page_id \<Rightarrow> page_id list \<Rightarrow> unit result \<times> tree" where
  "ensure_leaf_dirty self page_id path =
     (if map_of (dirty_leaves self) page_id \<noteq> None then (Ok (), self)
      else
        mbind (decode_leaf_from_pager self page_id, self) (\<lambda>l self.
        (Ok (), self\<lparr>dirty_leaves := AList.update page_id l (dirty_leaves self),
            scheduled_frees := scheduled_frees self @ [page_id],
            dirty_parent_paths := AList.update page_id (butlast path) (dirty_parent_paths self)\<rparr>)))"

section \<open>Overflow values\<close>

definition apply_release_result :: "tree \<Rightarrow> page_id \<Rightarrow> page_id \<Rightarrow> release_result \<Rightarrow> unit result \<times> tree" where
  "apply_release_result self old_root unused_cow_page rr =
     (case rr of
        Freed freed_pages \<Rightarrow> mbind (free_pages self freed_pages) (\<lambda>_ self. free_page self unused_cow_page)
      | Decremented \<Rightarrow> free_page self old_root)"

definition discard_uncommitted_value :: "tree \<Rightarrow> leaf_value option \<Rightarrow> unit result \<times> tree" where
  "discard_uncommitted_value self val =
     (case val of
        Some (OverflowRef total_len root) \<Rightarrow>
          (case collect_chain (tr_pager self) (tr_realm self) root of
             Ok page_ids \<Rightarrow> free_pages self page_ids
           | Err e \<Rightarrow> (Ok (), self))
      | _ \<Rightarrow> (Ok (), self))"

definition leaf_value_for :: "tree \<Rightarrow> bytes \<Rightarrow> leaf_value result \<times> tree" where
  "leaf_value_for self val =
     (if length val > inline_value_threshold (tr_page_size self) then
        (case write_chain (tr_pager self) (tr_realm self) val (tr_page_size self) allocate_page self of
           (Ok root, pager, self) \<Rightarrow>
             (Ok (OverflowRef (of_nat (length val)) root), self\<lparr>tr_pager := pager\<rparr>)
         | (Err e, pager, self) \<Rightarrow> (Err e, self\<lparr>tr_pager := pager\<rparr>))
      else (Ok (Inline val), self))"

definition max_key_at_path :: "tree \<Rightarrow> page_id list \<Rightarrow> key option result" where
  "max_key_at_path self path =
     (let leaf_page_id = last path;
          max_key = (\<lambda>l :: leaf. if records l = [] then None else Some (fst (last (records l)))) in
      case map_of (fresh_leaves self) leaf_page_id of
        Some l \<Rightarrow> Ok (max_key l)
      | None \<Rightarrow>
          (case map_of (dirty_leaves self) leaf_page_id of
             Some l \<Rightarrow> Ok (max_key l)
           | None \<Rightarrow> rmap max_key (decode_leaf_from_pager self leaf_page_id)))"

section \<open>Insertion\<close>

text \<open>Releasing the overflow chain of a replaced value, with the undo of the insertion on an error.\<close>

definition release_replaced ::
  "tree \<Rightarrow> page_id \<Rightarrow> bool \<Rightarrow> key \<Rightarrow> leaf_value option \<Rightarrow> unit result \<times> tree" where
  "release_replaced self leaf_page_id leaf_is_fresh k old_value =
     (case old_value of
        Some (OverflowRef total_len old_root) \<Rightarrow>
          mbind (allocate_page self) (\<lambda>new_cow_page self.
          case release (tr_pager self) (tr_realm self) old_root new_cow_page of
            Ok (rr, pager) \<Rightarrow> apply_release_result (self\<lparr>tr_pager := pager\<rparr>) old_root new_cow_page rr
          | Err e \<Rightarrow>
              mbind (free_page self new_cow_page) (\<lambda>_ self.
              mbind (cached_leaf self leaf_page_id leaf_is_fresh, self) (\<lambda>l self.
              let (l, _, attempted_value) = upsert l k (OverflowRef total_len old_root) in
              mbind (discard_uncommitted_value (set_cached_leaf self leaf_page_id leaf_is_fresh l) attempted_value)
                (\<lambda>_ self. (Err e, self)))))
      | _ \<Rightarrow> (Ok (), self))"

definition swap_remove :: "nat \<Rightarrow> 'a list \<Rightarrow> 'a list" where
  "swap_remove i xs = (if Suc i = length xs then butlast xs else (butlast xs)[i := last xs])"

definition unschedule :: "page_id \<Rightarrow> page_id list \<Rightarrow> page_id list" where
  "unschedule p ps = (if p \<in> set ps then swap_remove (length (takeWhile (\<lambda>q. q \<noteq> p) ps)) ps else ps)"

definition split_at_path ::
  "tree \<Rightarrow> page_id list \<Rightarrow> bool \<Rightarrow> bool \<Rightarrow> bool result \<times> tree" where
  "split_at_path self path leaf_is_fresh monotonic =
     (let leaf_page_id = last path in
      mbind (cached_leaf self leaf_page_id leaf_is_fresh, self) (\<lambda>l self.
      let self =
        (if leaf_is_fresh then self\<lparr>fresh_leaves := AList.delete leaf_page_id (fresh_leaves self)\<rparr>
         else self\<lparr>scheduled_frees := unschedule leaf_page_id (scheduled_frees self),
                   dirty_parent_paths := AList.delete leaf_page_id (dirty_parent_paths self),
                   dirty_leaves := AList.delete leaf_page_id (dirty_leaves self)\<rparr>) in
      mbind (allocate_page self) (\<lambda>new_leaf_page self.
      mbind (split_leaf l monotonic (tr_page_size self), self) (\<lambda>(left, right, sep_key) self.
      mbind (allocate_page self) (\<lambda>right_page self.
      let left = left\<lparr>left_sibling := 0, right_sibling := 0\<rparr>;
          right = right\<lparr>left_sibling := 0, right_sibling := 0\<rparr>;
          self = self\<lparr>fresh_leaves := AList.update right_page right
                        (AList.update new_leaf_page left (fresh_leaves self))\<rparr> in
      mbind (free_page self leaf_page_id) (\<lambda>_ self.
      mbind (propagate_split_up self path new_leaf_page right_page sep_key) (\<lambda>_ self.
      (Ok True, self))))))))"

definition put_at_path :: "tree \<Rightarrow> page_id list \<Rightarrow> key \<Rightarrow> leaf_value \<Rightarrow> bool result \<times> tree" where
  "put_at_path self path k v =
     (if path = [] then (Err (Panic ''non-empty path''), self)
      else
        (let leaf_page_id = last path;
             leaf_is_fresh = (map_of (fresh_leaves self) leaf_page_id \<noteq> None) in
         mbind (if \<not> leaf_is_fresh then ensure_leaf_dirty self leaf_page_id path else (Ok (), self)) (\<lambda>_ self.
         mbind (cached_leaf self leaf_page_id leaf_is_fresh, self) (\<lambda>l self.
         let monotonic = (records l \<noteq> [] \<and> k > fst (last (records l)) \<and> (\<forall>r \<in> set (records l). fst r \<noteq> k));
             (l', _, old_value) = upsert l k v;
             leaf_fits = fits l' (tr_page_size self) in
         mbind (release_replaced (set_cached_leaf self leaf_page_id leaf_is_fresh l')
                  leaf_page_id leaf_is_fresh k old_value) (\<lambda>_ self.
         if leaf_fits then (Ok False, self)
         else split_at_path self path leaf_is_fresh monotonic)))))"

definition create_root :: "tree \<Rightarrow> key \<Rightarrow> leaf_value \<Rightarrow> unit result \<times> tree" where
  "create_root self k v =
     mbind (allocate_page self) (\<lambda>new_root self.
     mbind (write_leaf self new_root (fst (upsert new_leaf k v))) (\<lambda>_ self.
     (Ok (), self\<lparr>root_page_id := new_root\<rparr>)))"

definition put :: "tree \<Rightarrow> key \<Rightarrow> bytes \<Rightarrow> unit result \<times> tree" where
  "put self k val =
     (let self = invalidate_append_state self in
      mbind (validate_insert_record_fits self k val, self) (\<lambda>_ self.
      mbind (leaf_value_for self val) (\<lambda>v self.
      if root_page_id self = 0 then
        mbind (create_root self k v) (\<lambda>_ self. (Ok (), self\<lparr>append_cached_path := None\<rparr>))
      else
        mbind (path_to_leaf_for_key self k, self) (\<lambda>path self.
        mbind (put_at_path self path k v) (\<lambda>_ self. (Ok (), self))))))"

definition put_append :: "tree \<Rightarrow> key \<Rightarrow> bytes \<Rightarrow> unit result \<times> tree" where
  "put_append self k val =
     (if (case append_last_key self of None \<Rightarrow> False | Some prev \<Rightarrow> k \<le> prev)
      then (Err AppendNotMonotonic, self)
      else
        mbind (validate_insert_record_fits self k val, self) (\<lambda>_ self.
        if root_page_id self = 0 then
          mbind (leaf_value_for self val) (\<lambda>v self.
          mbind (create_root self k v) (\<lambda>_ self.
          (Ok (), self\<lparr>append_last_key := Some k, append_cached_path := Some [root_page_id self]\<rparr>)))
        else
          mbind (case append_cached_path self of Some cached \<Rightarrow> Ok cached | None \<Rightarrow> path_to_rightmost_leaf self,
                 self) (\<lambda>path self.
          mbind (if append_last_key self = None
                 then rmap (\<lambda>m. case m of None \<Rightarrow> False | Some max_key \<Rightarrow> k \<le> max_key) (max_key_at_path self path)
                 else Ok False, self) (\<lambda>not_monotonic self.
          if not_monotonic then (Err AppendNotMonotonic, self)
          else
            mbind (leaf_value_for (self\<lparr>append_cached_path := None\<rparr>) val) (\<lambda>v self.
            mbind (put_at_path self path k v) (\<lambda>split self.
            (Ok (), self\<lparr>append_last_key := Some k,
                        append_cached_path := (if split then None else Some path)\<rparr>)))))))"

section \<open>Deletion\<close>

definition release_removed ::
  "tree \<Rightarrow> page_id \<Rightarrow> bool \<Rightarrow> key \<Rightarrow> leaf_value \<Rightarrow> unit result \<times> tree" where
  "release_removed self leaf_page_id leaf_is_fresh k old_value =
     (case old_value of
        OverflowRef total_len old_root \<Rightarrow>
          mbind (allocate_page self) (\<lambda>new_cow_page self.
          case release (tr_pager self) (tr_realm self) old_root new_cow_page of
            Ok (rr, pager) \<Rightarrow> apply_release_result (self\<lparr>tr_pager := pager\<rparr>) old_root new_cow_page rr
          | Err e \<Rightarrow>
              mbind (free_page self new_cow_page) (\<lambda>_ self.
              mbind (cached_leaf self leaf_page_id leaf_is_fresh, self) (\<lambda>l self.
              (Err e, set_cached_leaf self leaf_page_id leaf_is_fresh (fst (upsert l k old_value))))))
      | Inline b \<Rightarrow> (Ok (), self))"

definition delete_at_path :: "tree \<Rightarrow> page_id list \<Rightarrow> key \<Rightarrow> bool result \<times> tree" where
  "delete_at_path self path k =
     (if path = [] then (Err (Panic ''non-empty path''), self)
      else
        (let leaf_page_id = last path;
             leaf_is_fresh = (map_of (fresh_leaves self) leaf_page_id \<noteq> None) in
         mbind (if \<not> leaf_is_fresh then ensure_leaf_dirty self leaf_page_id path else (Ok (), self)) (\<lambda>_ self.
         mbind (cached_leaf self leaf_page_id leaf_is_fresh, self) (\<lambda>l self.
         let (l', removed) = remove l k;
             self = set_cached_leaf self leaf_page_id leaf_is_fresh l' in
         case removed of
           None \<Rightarrow> (Ok False, self)
         | Some old_value \<Rightarrow>
             mbind (release_removed self leaf_page_id leaf_is_fresh k old_value) (\<lambda>_ self. (Ok True, self))))))"

definition tree_delete :: "tree \<Rightarrow> key \<Rightarrow> bool result \<times> tree" where
  "tree_delete self k =
     (let self = invalidate_append_state self in
      if root_page_id self = 0 then (Ok False, self)
      else mbind (path_to_leaf_for_key self k, self) (\<lambda>path self. delete_at_path self path k))"

section \<open>Batches\<close>

text \<open>The path of the previous key is reused exactly when its leaf's bounds contain the next key.\<close>

definition batch_path ::
  "tree \<Rightarrow> (page_id list \<times> leaf_bounds) option \<Rightarrow> key \<Rightarrow> (page_id list \<times> leaf_bounds) result" where
  "batch_path self cached k =
     (case cached of
        Some (path, bounds) \<Rightarrow>
          if bounds_contains bounds k then Ok (path, bounds)
          else
            rbind (path_to_leaf_for_key self k) (\<lambda>path.
            rmap (\<lambda>bounds. (path, bounds)) (separator_bounds_for_path self path))
      | None \<Rightarrow>
          rbind (path_to_leaf_for_key self k) (\<lambda>path.
          rmap (\<lambda>bounds. (path, bounds)) (separator_bounds_for_path self path)))"

fun put_batch_loop ::
  "tree \<Rightarrow> (page_id list \<times> leaf_bounds) option \<Rightarrow> (key \<times> bytes) list \<Rightarrow> unit result \<times> tree" where
  "put_batch_loop self cached [] = (Ok (), self)"
| "put_batch_loop self cached ((k, val) # pairs) =
     mbind (validate_insert_record_fits self k val, self) (\<lambda>_ self.
     if root_page_id self = 0 then
       mbind (put self k val) (\<lambda>_ self. put_batch_loop self cached pairs)
     else
       mbind (batch_path self cached k, self) (\<lambda>(path, bounds) self.
       mbind (leaf_value_for self val) (\<lambda>v self.
       mbind (put_at_path self path k v) (\<lambda>split self.
       put_batch_loop self (if split then None else Some (path, bounds)) pairs))))"

definition put_batch :: "tree \<Rightarrow> (key \<times> bytes) list \<Rightarrow> unit result \<times> tree" where
  "put_batch self pairs = put_batch_loop (invalidate_append_state self) None pairs"

fun delete_batch_loop ::
  "tree \<Rightarrow> (page_id list \<times> leaf_bounds) option \<Rightarrow> key list \<Rightarrow> unit result \<times> tree" where
  "delete_batch_loop self cached [] = (Ok (), self)"
| "delete_batch_loop self cached (k # ks) =
     mbind (batch_path self cached k, self) (\<lambda>(path, bounds) self.
     mbind (delete_at_path self path k) (\<lambda>_ self.
     delete_batch_loop self (Some (path, bounds)) ks))"

definition delete_batch :: "tree \<Rightarrow> key list \<Rightarrow> unit result \<times> tree" where
  "delete_batch self keys =
     (let self = invalidate_append_state self in
      if root_page_id self = 0 then (Ok (), self) else delete_batch_loop self None keys)"

definition DELETE_RANGE_CHUNK :: nat where "DELETE_RANGE_CHUNK = 1024"

text \<open>
  A range delete runs in rounds; \<open>None\<close> is a range delete whose rounds do not end.
\<close>

partial_function (option) delete_range_loop ::
  "tree \<Rightarrow> key \<Rightarrow> key \<Rightarrow> u64 \<Rightarrow> (u64 result \<times> tree) option" where
  "delete_range_loop self cursor stop removed =
     (case collect_keys_batch_in_range self cursor stop DELETE_RANGE_CHUNK of
        Err e \<Rightarrow> Some (Err e, self)
      | Ok keys \<Rightarrow>
          if keys = [] then Some (Ok removed, self)
          else
            (let removed = (if unat removed + length keys < 2 ^ 64 then removed + of_nat (length keys) else - 1) in
             case delete_batch self keys of
               (Err e, self) \<Rightarrow> Some (Err e, self)
             | (Ok _, self) \<Rightarrow>
                 if length keys < DELETE_RANGE_CHUNK then Some (Ok removed, self)
                 else delete_range_loop self (last keys @ [0]) stop removed))"

definition delete_range :: "tree \<Rightarrow> key \<Rightarrow> key \<Rightarrow> (u64 result \<times> tree) option" where
  "delete_range self start stop =
     (if root_page_id self = 0 then Some (Ok 0, self) else delete_range_loop self start stop 0)"

section \<open>Flush\<close>

fun write_fresh :: "tree \<Rightarrow> (page_id \<times> leaf) list \<Rightarrow> unit result \<times> tree" where
  "write_fresh self [] = (Ok (), self)"
| "write_fresh self ((page_id, l) # ls) =
     mbind (write_leaf self page_id l) (\<lambda>_ self. write_fresh self ls)"

fun write_dirty ::
  "tree \<Rightarrow> (page_id \<times> leaf) list \<Rightarrow> (page_id \<times> page_id) list \<Rightarrow> (page_id \<times> page_id) list result \<times> tree" where
  "write_dirty self [] redirects = (Ok redirects, self)"
| "write_dirty self ((old_page_id, l) # ls) redirects =
     mbind (allocate_page self) (\<lambda>new_page_id self.
     mbind (write_leaf self new_page_id l) (\<lambda>_ self.
     write_dirty self ls (AList.update old_page_id new_page_id redirects)))"

definition redirect :: "(page_id \<times> page_id) list \<Rightarrow> page_id \<Rightarrow> page_id" where
  "redirect redirects p = (case map_of redirects p of None \<Rightarrow> p | Some q \<Rightarrow> q)"

definition redirect_node :: "(page_id \<times> page_id) list \<Rightarrow> internal \<Rightarrow> internal" where
  "redirect_node redirects n =
     n\<lparr>leftmost_child := redirect redirects (leftmost_child n),
       entries := map (\<lambda>(k, c). (k, redirect redirects c)) (entries n)\<rparr>"

definition redirect_changes :: "(page_id \<times> page_id) list \<Rightarrow> internal \<Rightarrow> bool" where
  "redirect_changes redirects n \<longleftrightarrow>
     (\<exists>c \<in> set (leftmost_child n # map snd (entries n)). map_of redirects c \<noteq> None)"

text \<open>The internal pages to visit: the deepest level first, each level in ascending page order.\<close>

definition pages_at_depth :: "page_id list list \<Rightarrow> nat \<Rightarrow> page_id list" where
  "pages_at_depth paths d = sort (remdups (map (\<lambda>p. p ! d) (filter (\<lambda>p. d < length p) paths)))"

definition spine_order :: "page_id list list \<Rightarrow> page_id list" where
  "spine_order paths =
     concat (map (pages_at_depth paths) (rev [0..<fold max (map length paths) 0]))"

fun flush_spine ::
  "tree \<Rightarrow> page_id list \<Rightarrow> (page_id \<times> page_id) list \<Rightarrow> page_id list \<Rightarrow>
     ((page_id \<times> page_id) list \<times> page_id list) result \<times> tree" where
  "flush_spine self [] redirects spine_frees = (Ok (redirects, spine_frees), self)"
| "flush_spine self (old_page_id # ps) redirects spine_frees =
     mbind (read_internal self old_page_id, self) (\<lambda>n self.
     if \<not> redirect_changes redirects n then flush_spine self ps redirects spine_frees
     else
       mbind (allocate_page self) (\<lambda>new_page_id self.
       mbind (write_internal self new_page_id (redirect_node redirects n)) (\<lambda>_ self.
       flush_spine self ps (AList.update old_page_id new_page_id redirects) (spine_frees @ [old_page_id]))))"

definition flush_dirty_leaves :: "tree \<Rightarrow> unit result \<times> tree" where
  "flush_dirty_leaves self =
     mbind (write_fresh (self\<lparr>fresh_leaves := []\<rparr>) (fresh_leaves self)) (\<lambda>_ self.
     if dirty_leaves self = [] then (Ok (), self)
     else
       (let dirties = dirty_leaves self;
            parent_paths = dirty_parent_paths self in
        mbind (write_dirty (self\<lparr>dirty_leaves := [], dirty_parent_paths := []\<rparr>) dirties []) (\<lambda>redirects self.
        mbind (flush_spine self (spine_order (map snd parent_paths)) redirects []) (\<lambda>(redirects, spine_frees) self.
        free_pages (self\<lparr>root_page_id := redirect redirects (root_page_id self)\<rparr>) spine_frees))))"

definition materialize_dirty :: "tree \<Rightarrow> unit result \<times> tree" where
  "materialize_dirty self = flush_dirty_leaves self"

end
