(* ===== verification/Tree_Rep.thy ===== *)
theory Tree_Rep
  imports Tree_Write "HOL-Library.Multiset"
begin

text \<open>
  The abstract tree a write session represents: leaves and internal nodes with the pages that hold
  them, the order of its keys, and the zipper of frames between the root and one node, which is the
  form the write path works on (a path from the root, processed from the leaf upwards).
\<close>

section \<open>Abstract trees\<close>

datatype atree = ALeaf page_id leaf | ANode page_id atree "(key \<times> atree) list"

fun page_of :: "atree \<Rightarrow> page_id" where
  "page_of (ALeaf p l) = p"
| "page_of (ANode p t ts) = p"

fun plist :: "atree \<Rightarrow> page_id list" where
  "plist (ALeaf p l) = [p]"
| "plist (ANode p t ts) = p # plist t @ concat (map (\<lambda>(k, t). plist t) ts)"

fun recs :: "atree \<Rightarrow> leaf_record list" where
  "recs (ALeaf p l) = records l"
| "recs (ANode p t ts) = recs t @ concat (map (\<lambda>(k, t). recs t) ts)"

fun lpaths :: "atree \<Rightarrow> (page_id \<times> page_id list) list" where
  "lpaths (ALeaf p l) = [(p, [])]"
| "lpaths (ANode p t ts) =
     map (\<lambda>(q, path). (q, p # path)) (lpaths t @ concat (map (\<lambda>(k, t). lpaths t) ts))"

definition plists :: "(key \<times> atree) list \<Rightarrow> page_id list" where
  "plists ts = concat (map (\<lambda>(k, t). plist t) ts)"

definition recss :: "(key \<times> atree) list \<Rightarrow> leaf_record list" where
  "recss ts = concat (map (\<lambda>(k, t). recs t) ts)"

definition lpathss :: "(key \<times> atree) list \<Rightarrow> (page_id \<times> page_id list) list" where
  "lpathss ts = concat (map (\<lambda>(k, t). lpaths t) ts)"

lemma lists_simps [simp]:
  "plists [] = []" "plists ((k, t) # ts) = plist t @ plists ts" "plists (xs @ ys) = plists xs @ plists ys"
  "recss [] = []" "recss ((k, t) # ts) = recs t @ recss ts" "recss (xs @ ys) = recss xs @ recss ys"
  "lpathss [] = []" "lpathss ((k, t) # ts) = lpaths t @ lpathss ts"
  "lpathss (xs @ ys) = lpathss xs @ lpathss ys"
  by (simp_all add: plists_def recss_def lpathss_def)

lemma plist_ANode [simp]: "plist (ANode p t ts) = p # plist t @ plists ts"
  and recs_ANode [simp]: "recs (ANode p t ts) = recs t @ recss ts"
  and lpaths_ANode [simp]: "lpaths (ANode p t ts) = map (\<lambda>(q, path). (q, p # path)) (lpaths t @ lpathss ts)"
  by (simp_all add: plists_def recss_def lpathss_def)

declare plist.simps(2) [simp del] recs.simps(2) [simp del] lpaths.simps(2) [simp del]

definition node_of :: "atree \<Rightarrow> (key \<times> atree) list \<Rightarrow> internal" where
  "node_of t ts = \<lparr> leftmost_child = page_of t, entries = map (\<lambda>(k, t). (k, page_of t)) ts \<rparr>"

text \<open>Induction with the children of a node as one list.\<close>

lemma atree_induct [case_names ALeaf ANode]:
  assumes "\<And>p l. P (ALeaf p l)"
    and "\<And>p t ts. P t \<Longrightarrow> (\<And>k t'. (k, t') \<in> set ts \<Longrightarrow> P t') \<Longrightarrow> P (ANode p t ts)"
  shows "P a"
proof (induction a)
  case (ANode p t ts)
  then show ?case by (intro assms(2)) (force simp: prod_set_simps snds.simps)+
qed (rule assms(1))

lemma children_induct:
  assumes "\<And>k t. (k, t) \<in> set ts \<Longrightarrow> P t" and "Q []" and "\<And>k t ts. P t \<Longrightarrow> Q ts \<Longrightarrow> Q ((k, t) # ts)"
  shows "Q ts"
  using assms(1)
proof (induction ts)
  case (Cons e ts)
  obtain k t where e: "e = (k, t)" by (cases e)
  have "Q ts" by (rule Cons.IH) (use Cons.prems in auto)
  then show ?case using assms(3) [of t ts k] Cons.prems [of k t] e by simp
qed (rule assms(2))

lemma page_of_in_plist [simp]: "page_of a \<in> set (plist a)"
  by (cases a) auto

section \<open>Order\<close>

definition below :: "key \<Rightarrow> key option \<Rightarrow> bool" where
  "below k hi \<longleftrightarrow> (case hi of None \<Rightarrow> True | Some h \<Rightarrow> k < h)"

lemma below_simps [simp]: "below k None" "below k (Some h) \<longleftrightarrow> k < h"
  by (simp_all add: below_def)

definition inside :: "key \<Rightarrow> key option \<Rightarrow> key \<Rightarrow> bool" where
  "inside lo hi k \<longleftrightarrow> lo \<le> k \<and> below k hi"

function (sequential) ordered :: "key \<Rightarrow> key option \<Rightarrow> atree \<Rightarrow> bool"
  and ordereds :: "key \<Rightarrow> key option \<Rightarrow> atree \<Rightarrow> (key \<times> atree) list \<Rightarrow> bool" where
  "ordered lo hi (ALeaf p l) \<longleftrightarrow> sorted_keys (records l) \<and> (\<forall>r \<in> set (records l). inside lo hi (fst r))"
| "ordered lo hi (ANode p t ts) \<longleftrightarrow> ordereds lo hi t ts"
| "ordereds lo hi t [] \<longleftrightarrow> ordered lo hi t"
| "ordereds lo hi t ((k, t') # ts) \<longleftrightarrow>
     lo < k \<and> below k hi \<and> ordered lo (Some k) t \<and> ordereds k hi t' ts"
  by pat_completeness auto
termination
  by (relation "measure (\<lambda>x. case x of Inl (lo, hi, t) \<Rightarrow> 2 * size t
        | Inr (lo, hi, t, ts) \<Rightarrow> 2 * (size t + size_list (size_prod (\<lambda>_. 0) size) ts) + 1)") auto

lemma ordereds_append:
  "ordereds lo hi t (xs @ (k, t') # ys) \<longleftrightarrow>
     lo < k \<and> below k hi \<and> ordereds lo (Some k) t xs \<and> ordereds k hi t' ys"
proof (induction xs arbitrary: lo t)
  case (Cons x xs)
  then show ?case by (cases x; cases hi) auto
qed auto

lemma inside_mono: "inside lo hi k \<Longrightarrow> lo' \<le> lo \<Longrightarrow> (\<And>x. below x hi \<Longrightarrow> below x hi') \<Longrightarrow> inside lo' hi' k"
  by (auto simp: inside_def)

lemma below_trans: "below k hi \<Longrightarrow> x < k \<Longrightarrow> below x hi"
  by (cases hi) auto

lemma ordered_recs_aux:
  "ordered lo hi a \<Longrightarrow> sorted_keys (recs a) \<and> (\<forall>r \<in> set (recs a). inside lo hi (fst r))"
  "ordereds lo hi t ts \<Longrightarrow>
     sorted_keys (recs t @ recss ts) \<and> (\<forall>r \<in> set (recs t @ recss ts). inside lo hi (fst r))"
proof (induction lo hi a and lo hi t ts rule: ordered_ordereds.induct)
  case (4 lo hi t k t' ts)
  then have l: "sorted_keys (recs t)" "\<forall>r \<in> set (recs t). inside lo (Some k) (fst r)"
    and r: "sorted_keys (recs t' @ recss ts)" "\<forall>r \<in> set (recs t' @ recss ts). inside k hi (fst r)"
    and k: "lo < k" "below k hi"
    by auto
  have "fst x < fst y" if "x \<in> set (recs t)" "y \<in> set (recs t' @ recss ts)" for x y
    using l(2) r(2) that by (fastforce simp: inside_def)
  then have "sorted_keys (recs t @ (recs t' @ recss ts))"
    using l(1) r(1) unfolding map_append [of _ "recs t"] sorted_wrt_append by auto
  moreover have "inside lo hi (fst x)" if "x \<in> set (recs t) \<or> x \<in> set (recs t' @ recss ts)" for x
    using that l(2) r(2) k below_trans [OF k(2)] by (fastforce simp: inside_def)
  ultimately show ?case by auto
qed auto

lemmas ordered_recs = ordered_recs_aux(1)

lemma ordereds_keys:
  "ordereds lo hi t ts \<Longrightarrow> sorted_keys ts \<and> (\<forall>e \<in> set ts. lo < fst e \<and> below (fst e) hi)"
proof (induction ts arbitrary: lo t)
  case (Cons e ts)
  obtain k t' where e: "e = (k, t')" by (cases e)
  have "ordereds k hi t' ts" and k: "lo < k" "below k hi" using Cons.prems e by auto
  then show ?case using Cons.IH [of k t'] e by fastforce
qed simp

section \<open>Frames\<close>

datatype frame = FLeft page_id "(key \<times> atree) list"
  | FEntry page_id atree "(key \<times> atree) list" key "(key \<times> atree) list"

fun plug :: "frame \<Rightarrow> atree \<Rightarrow> atree" where
  "plug (FLeft p ts) t = ANode p t ts"
| "plug (FEntry p t0 xs k ys) t = ANode p t0 (xs @ (k, t) # ys)"

fun fpage :: "frame \<Rightarrow> page_id" where
  "fpage (FLeft p ts) = p"
| "fpage (FEntry p t0 xs k ys) = p"

fun set_fpage :: "frame \<Rightarrow> page_id \<Rightarrow> frame" where
  "set_fpage (FLeft p ts) q = FLeft q ts"
| "set_fpage (FEntry p t0 xs k ys) q = FEntry q t0 xs k ys"

text \<open>The node a frame describes when its hole holds a child on page \<open>c\<close>.\<close>

fun fnode :: "frame \<Rightarrow> page_id \<Rightarrow> internal" where
  "fnode (FLeft p ts) c = \<lparr> leftmost_child = c, entries = map (\<lambda>(k, t). (k, page_of t)) ts \<rparr>"
| "fnode (FEntry p t0 xs k ys) c =
     \<lparr> leftmost_child = page_of t0,
       entries = map (\<lambda>(k, t). (k, page_of t)) xs @ (k, c) # map (\<lambda>(k, t). (k, page_of t)) ys \<rparr>"

fun fsubs :: "frame \<Rightarrow> atree list" where
  "fsubs (FLeft p ts) = map snd ts"
| "fsubs (FEntry p t0 xs k ys) = t0 # map snd xs @ map snd ys"

fun fside :: "frame \<Rightarrow> page_id list" where
  "fside (FLeft p ts) = plists ts"
| "fside (FEntry p t0 xs k ys) = plist t0 @ plists xs @ plists ys"

fun fleft :: "frame \<Rightarrow> leaf_record list" where
  "fleft (FLeft p ts) = []"
| "fleft (FEntry p t0 xs k ys) = recs t0 @ recss xs"

fun fright :: "frame \<Rightarrow> leaf_record list" where
  "fright (FLeft p ts) = recss ts"
| "fright (FEntry p t0 xs k ys) = recss ys"

fun fpaths :: "frame \<Rightarrow> (page_id \<times> page_id list) list" where
  "fpaths (FLeft p ts) = lpathss ts"
| "fpaths (FEntry p t0 xs k ys) = lpaths t0 @ lpathss xs @ lpathss ys"

fun flo :: "frame \<Rightarrow> key \<Rightarrow> key" where
  "flo (FLeft p ts) lo = lo"
| "flo (FEntry p t0 xs k ys) lo = k"

fun first_key_or :: "(key \<times> atree) list \<Rightarrow> key option \<Rightarrow> key option" where
  "first_key_or [] hi = hi"
| "first_key_or ((k, t) # ts) hi = Some k"

fun fhi :: "frame \<Rightarrow> key option \<Rightarrow> key option" where
  "fhi (FLeft p ts) hi = first_key_or ts hi"
| "fhi (FEntry p t0 xs k ys) hi = first_key_or ys hi"

fun right_ordered :: "key \<Rightarrow> key option \<Rightarrow> (key \<times> atree) list \<Rightarrow> bool" where
  "right_ordered lo hi [] = True"
| "right_ordered lo hi ((k, t) # ts) \<longleftrightarrow> lo < k \<and> below k hi \<and> ordereds k hi t ts"

fun fordered :: "key \<Rightarrow> key option \<Rightarrow> frame \<Rightarrow> bool" where
  "fordered lo hi (FLeft p ts) = right_ordered lo hi ts"
| "fordered lo hi (FEntry p t0 xs k ys) \<longleftrightarrow>
     lo < k \<and> below k hi \<and> ordereds lo (Some k) t0 xs \<and> right_ordered k hi ys"

lemma ordereds_hole: "ordereds lo hi t ts \<longleftrightarrow> ordered lo (first_key_or ts hi) t \<and> right_ordered lo hi ts"
  by (cases ts) auto

lemma ordered_plug: "ordered lo hi (plug f t) \<longleftrightarrow> fordered lo hi f \<and> ordered (flo f lo) (fhi f hi) t"
  by (cases f) (auto simp: ordereds_append ordereds_hole [of _ _ t])

lemma set_fpage_simps [simp]:
  "fpage (set_fpage f q) = q" "fnode (set_fpage f q) = fnode f" "fsubs (set_fpage f q) = fsubs f"
  "fside (set_fpage f q) = fside f" "fleft (set_fpage f q) = fleft f" "fright (set_fpage f q) = fright f"
  "fpaths (set_fpage f q) = fpaths f" "flo (set_fpage f q) = flo f" "fhi (set_fpage f q) = fhi f"
  "fordered lo hi (set_fpage f q) = fordered lo hi f"
  by (cases f; auto simp: fun_eq_iff)+

lemma recs_plug: "recs (plug f t) = fleft f @ recs t @ fright f"
  by (cases f) auto

lemma page_of_plug [simp]: "page_of (plug f t) = fpage f"
  by (cases f) auto

lemma mset_plist_plug: "mset (plist (plug f t)) = add_mset (fpage f) (mset (fside f) + mset (plist t))"
  by (cases f) auto

lemma set_lpaths_plug:
  "set (lpaths (plug f t)) = (\<lambda>(q, path). (q, fpage f # path)) ` (set (fpaths f) \<union> set (lpaths t))"
  by (cases f) (auto simp: image_Un)

section \<open>Contexts\<close>

text \<open>A context is the list of frames between a hole and the root, the innermost first.\<close>

primrec plugs :: "frame list \<Rightarrow> atree \<Rightarrow> atree" where
  "plugs [] t = t"
| "plugs (f # fs) t = plugs fs (plug f t)"

primrec ctx_lo :: "frame list \<Rightarrow> key" where
  "ctx_lo [] = []"
| "ctx_lo (f # fs) = flo f (ctx_lo fs)"

primrec ctx_hi :: "frame list \<Rightarrow> key option" where
  "ctx_hi [] = None"
| "ctx_hi (f # fs) = fhi f (ctx_hi fs)"

primrec ctx_ordered :: "frame list \<Rightarrow> bool" where
  "ctx_ordered [] = True"
| "ctx_ordered (f # fs) = (fordered (ctx_lo fs) (ctx_hi fs) f \<and> ctx_ordered fs)"

primrec ctx_left :: "frame list \<Rightarrow> leaf_record list" where
  "ctx_left [] = []"
| "ctx_left (f # fs) = ctx_left fs @ fleft f"

primrec ctx_right :: "frame list \<Rightarrow> leaf_record list" where
  "ctx_right [] = []"
| "ctx_right (f # fs) = fright f @ ctx_right fs"

primrec ctx_side :: "frame list \<Rightarrow> page_id list" where
  "ctx_side [] = []"
| "ctx_side (f # fs) = fside f @ ctx_side fs"

abbreviation ctx_pages :: "frame list \<Rightarrow> page_id list" where
  "ctx_pages ctx \<equiv> map fpage ctx"

lemma ordered_plugs: "ordered [] None (plugs ctx t) \<longleftrightarrow> ctx_ordered ctx \<and> ordered (ctx_lo ctx) (ctx_hi ctx) t"
  by (induction ctx arbitrary: t) (auto simp: ordered_plug)

lemma recs_plugs: "recs (plugs ctx t) = ctx_left ctx @ recs t @ ctx_right ctx"
  by (induction ctx arbitrary: t) (auto simp: recs_plug)

lemma mset_plist_plugs:
  "mset (plist (plugs ctx t)) = mset (ctx_pages ctx) + mset (ctx_side ctx) + mset (plist t)"
  by (induction ctx arbitrary: t) (auto simp: mset_plist_plug)

lemma distinct_plugs:
  "distinct (plist (plugs ctx t)) \<longleftrightarrow> distinct (ctx_pages ctx @ ctx_side ctx @ plist t)"
  by (rule mset_eq_imp_distinct_iff) (simp add: mset_plist_plugs)

lemma set_plugs: "set (plist (plugs ctx t)) = set (ctx_pages ctx) \<union> set (ctx_side ctx) \<union> set (plist t)"
  by (metis mset_plist_plugs set_mset_mset set_mset_union)

lemma plugs_append: "plugs (xs @ ys) t = plugs ys (plugs xs t)"
  by (induction xs arbitrary: t) auto

lemma page_of_plugs: "page_of (plugs ctx t) = last (page_of t # ctx_pages ctx)"
  by (induction ctx arbitrary: t) auto

lemma lpaths_plugs: "(q, path) \<in> set (lpaths t) \<Longrightarrow> (q, rev (ctx_pages ctx) @ path) \<in> set (lpaths (plugs ctx t))"
proof (induction ctx arbitrary: t path)
  case (Cons f fs)
  have "(q, fpage f # path) \<in> set (lpaths (plug f t))" using Cons.prems by (force simp: set_lpaths_plug)
  then show ?case using Cons.IH by fastforce
qed simp

lemma ordereds_recs_between:
  "ordereds lo hi t ts \<Longrightarrow> r \<in> set (recs t @ recss ts) \<Longrightarrow> inside lo hi (fst r)"
  using ordered_recs_aux(2) by blast

lemma right_ordered_recs: "right_ordered lo hi ts \<Longrightarrow> r \<in> set (recss ts) \<Longrightarrow>
    \<not> below (fst r) (first_key_or ts hi) \<and> inside lo hi (fst r)"
proof (cases ts)
  case (Cons e ts')
  obtain k t where e: "e = (k, t)" by (cases e)
  assume "right_ordered lo hi ts" "r \<in> set (recss ts)"
  then show ?thesis
    using ordereds_recs_between [of k hi t ts' r] Cons e by (auto simp: inside_def)
qed simp

lemma ctx_left_below: "ctx_ordered ctx \<Longrightarrow> r \<in> set (ctx_left ctx) \<Longrightarrow> fst r < ctx_lo ctx"
proof (induction ctx)
  case (Cons f fs)
  show ?case
  proof (cases f)
    case (FLeft p ts)
    then show ?thesis using Cons by simp
  next
    case (FEntry p t0 xs k ys)
    then have "ordereds (ctx_lo fs) (Some k) t0 xs" "ctx_lo fs < k" using Cons.prems(1) by auto
    then show ?thesis
      using Cons FEntry ordereds_recs_between [of "ctx_lo fs" "Some k" t0 xs r]
      by (auto simp: inside_def dest: order.strict_trans)
  qed
qed simp

lemma not_below_mono: "\<not> below x hi \<Longrightarrow> right_ordered lo hi ts \<Longrightarrow> \<not> below x (first_key_or ts hi)"
  by (cases ts; cases hi) auto

lemma ctx_right_above: "ctx_ordered ctx \<Longrightarrow> r \<in> set (ctx_right ctx) \<Longrightarrow> \<not> below (fst r) (ctx_hi ctx)"
proof (induction ctx)
  case (Cons f fs)
  have IH: "r \<in> set (ctx_right fs) \<Longrightarrow> \<not> below (fst r) (ctx_hi fs)" using Cons by simp
  show ?case
  proof (cases f)
    case (FLeft p ts)
    then show ?thesis
      using Cons.prems IH right_ordered_recs [of "ctx_lo fs" "ctx_hi fs" ts r]
        not_below_mono [of "fst r" "ctx_hi fs" "ctx_lo fs" ts] by auto
  next
    case (FEntry p t0 xs k ys)
    then show ?thesis
      using Cons.prems IH right_ordered_recs [of k "ctx_hi fs" ys r]
        not_below_mono [of "fst r" "ctx_hi fs" k ys] by auto
  qed
qed simp

lemma map_of_notin: "\<forall>r \<in> set xs. fst r \<noteq> k \<Longrightarrow> map_of xs k = None"
  by (induction xs) auto

lemma map_of_plugs:
  assumes "ctx_ordered ctx" and "inside (ctx_lo ctx) (ctx_hi ctx) k"
  shows "map_of (recs (plugs ctx t)) k = map_of (recs t) k"
proof -
  have "map_of (ctx_left ctx) k = None" "map_of (ctx_right ctx) k = None"
    using ctx_left_below [OF assms(1)] ctx_right_above [OF assms(1)] assms(2)
    by (force intro!: map_of_notin simp: inside_def)+
  then show ?thesis by (simp add: recs_plugs map_add_def split: option.splits)
qed

text \<open>A key inside the bounds of a node is routed to the child whose bounds contain it.\<close>

lemma route_child:
  assumes "ordereds lo hi t ts" and "inside lo hi k"
  shows "\<exists>f t'. plug f t' = ANode p t ts \<and> fpage f = p \<and>
    route (page_of t) (map (\<lambda>(k, t). (k, page_of t)) ts) k = page_of t' \<and> inside (flo f lo) (fhi f hi) k"
  using assms
proof (induction ts arbitrary: lo t)
  case Nil
  then show ?case by (intro exI [of _ "FLeft p []"] exI [of _ t]) simp
next
  case (Cons e ts)
  obtain k1 t1 where e: "e = (k1, t1)" by (cases e)
  show ?case
  proof (cases "k < k1")
    case True
    then show ?thesis
      using Cons.prems e
      by (intro exI [of _ "FLeft p (e # ts)"] exI [of _ t]) (auto simp: inside_def)
  next
    case False
    then have "ordereds k1 hi t1 ts" "inside k1 hi k" using Cons.prems e by (auto simp: inside_def)
    from Cons.IH [OF this] obtain f t' where f: "plug f t' = ANode p t1 ts" "fpage f = p"
        "route (page_of t1) (map (\<lambda>(k, t). (k, page_of t)) ts) k = page_of t'"
        "inside (flo f k1) (fhi f hi) k" by blast
    define g where "g = (case f of FLeft p ts \<Rightarrow> FEntry p t [] k1 ts
        | FEntry p t1 xs k2 ys \<Rightarrow> FEntry p t ((k1, t1) # xs) k2 ys)"
    have "plug g t' = ANode p t (e # ts)" "fpage g = p" "inside (flo g lo) (fhi g hi) k"
      using f e by (auto simp: g_def split: frame.splits)
    moreover have "route (page_of t) (map (\<lambda>(k, t). (k, page_of t)) (e # ts)) k = page_of t'"
      using f(3) e False by (simp add: not_less)
    ultimately show ?thesis by blast
  qed
qed

section \<open>Leaves and their paths\<close>

fun aleaves :: "atree \<Rightarrow> (page_id \<times> leaf) list" where
  "aleaves (ALeaf p l) = [(p, l)]"
| "aleaves (ANode p t ts) = aleaves t @ concat (map (\<lambda>(k, t). aleaves t) ts)"

definition aleavess :: "(key \<times> atree) list \<Rightarrow> (page_id \<times> leaf) list" where
  "aleavess ts = concat (map (\<lambda>(k, t). aleaves t) ts)"

lemma aleavess_simps [simp]:
  "aleavess [] = []" "aleavess ((k, t) # ts) = aleaves t @ aleavess ts"
  "aleavess (xs @ ys) = aleavess xs @ aleavess ys"
  "aleaves (ANode p t ts) = aleaves t @ aleavess ts"
  by (simp_all add: aleavess_def)

declare aleaves.simps(2) [simp del]

definition lrecs :: "(page_id \<times> leaf) list \<Rightarrow> leaf_record list" where
  "lrecs ls = concat (map (\<lambda>(p, l). records l) ls)"

lemma lrecs_simps [simp]:
  "lrecs [] = []" "lrecs ((p, l) # ls) = records l @ lrecs ls" "lrecs (xs @ ys) = lrecs xs @ lrecs ys"
  by (simp_all add: lrecs_def)

lemma recs_aleaves: "recs a = lrecs (aleaves a)"
proof (induction a rule: atree_induct)
  case (ANode p t ts)
  then have "recss ts = lrecs (aleavess ts)"
    by - (rule children_induct [where P = "\<lambda>t. recs t = lrecs (aleaves t)"], auto)
  then show ?case using ANode by simp
qed simp

fun fll :: "frame \<Rightarrow> (page_id \<times> leaf) list" where
  "fll (FLeft p ts) = []"
| "fll (FEntry p t0 xs k ys) = aleaves t0 @ aleavess xs"

fun flr :: "frame \<Rightarrow> (page_id \<times> leaf) list" where
  "flr (FLeft p ts) = aleavess ts"
| "flr (FEntry p t0 xs k ys) = aleavess ys"

primrec ctx_ll :: "frame list \<Rightarrow> (page_id \<times> leaf) list" where
  "ctx_ll [] = []"
| "ctx_ll (f # fs) = ctx_ll fs @ fll f"

primrec ctx_lr :: "frame list \<Rightarrow> (page_id \<times> leaf) list" where
  "ctx_lr [] = []"
| "ctx_lr (f # fs) = flr f @ ctx_lr fs"

lemma aleaves_plug: "aleaves (plug f t) = fll f @ aleaves t @ flr f"
  by (cases f) auto

lemma aleaves_plugs: "aleaves (plugs ctx t) = ctx_ll ctx @ aleaves t @ ctx_lr ctx"
  by (induction ctx arbitrary: t) (auto simp: aleaves_plug)

lemma fl_set_fpage [simp]: "fll (set_fpage f q) = fll f" "flr (set_fpage f q) = flr f"
  by (cases f; simp)+

lemma lpaths_aleaves: "map fst (lpaths a) = map fst (aleaves a)"
proof (induction a rule: atree_induct)
  case (ANode p t ts)
  then have "map fst (lpathss ts) = map fst (aleavess ts)"
    by - (rule children_induct [where P = "\<lambda>t. map fst (lpaths t) = map fst (aleaves t)"], auto)
  then show ?case using ANode by (simp add: comp_def case_prod_beta)
qed simp

lemma lpaths_pages: "(q, path) \<in> set (lpaths a) \<Longrightarrow> q \<in> set (plist a) \<and> set path \<subseteq> set (plist a)"
proof (induction a arbitrary: path rule: atree_induct)
  case (ANode p t ts)
  then obtain path' where path': "path = p # path'" "(q, path') \<in> set (lpaths t) \<or> (q, path') \<in> set (lpathss ts)"
    by auto
  have "(q, path') \<in> set (lpathss ts) \<longrightarrow> q \<in> set (plists ts) \<and> set path' \<subseteq> set (plists ts)"
    by (rule children_induct [where P = "\<lambda>t. (q, path') \<in> set (lpaths t) \<longrightarrow>
          q \<in> set (plist t) \<and> set path' \<subseteq> set (plist t)"]) (use ANode.IH(2) in auto)
  then show ?case using path' ANode.IH(1) by auto
qed simp

lemma lpathss_pages: "(q, path) \<in> set (lpathss ts) \<Longrightarrow> q \<in> set (plists ts) \<and> set path \<subseteq> set (plists ts)"
proof (induction ts)
  case (Cons e ts)
  then show ?case by (cases e) (auto dest: lpaths_pages)
qed simp

lemma fpaths_pages: "(q, path) \<in> set (fpaths f) \<Longrightarrow> set path \<subseteq> set (fside f) \<and> q \<in> set (fside f)"
  by (cases f) (auto dest: lpathss_pages lpaths_pages)

text \<open>The paths of the leaves beside a hole, and those below it given their paths in the hole.\<close>

primrec ctx_paths :: "frame list \<Rightarrow> (page_id \<times> page_id list) set" where
  "ctx_paths [] = {}"
| "ctx_paths (f # fs) = ctx_paths fs \<union>
     (\<lambda>(q, path). (q, rev (ctx_pages (f # fs)) @ path)) ` set (fpaths f)"

definition hole_paths ::
  "frame list \<Rightarrow> (page_id \<times> page_id list) set \<Rightarrow> (page_id \<times> page_id list) set" where
  "hole_paths ctx S = ctx_paths ctx \<union> (\<lambda>(q, path). (q, rev (ctx_pages ctx) @ path)) ` S"

lemma lpaths_plugs_eq: "set (lpaths (plugs ctx t)) = hole_paths ctx (set (lpaths t))"
proof (induction ctx arbitrary: t)
  case (Cons f fs)
  show ?case
    unfolding plugs.simps Cons.IH hole_paths_def
    by (auto simp: set_lpaths_plug image_Un image_image case_prod_beta)
qed (auto simp: hole_paths_def)

lemma ctx_paths_pages:
  "(q, path) \<in> ctx_paths ctx \<Longrightarrow> set path \<subseteq> set (ctx_pages ctx) \<union> set (ctx_side ctx) \<and> q \<in> set (ctx_side ctx)"
proof (induction ctx)
  case (Cons f fs)
  then show ?case
    using fpaths_pages [of q _ f] by (auto; blast)
qed simp

lemma map_id_on: "(\<And>x. x \<in> set xs \<Longrightarrow> f x = x) \<Longrightarrow> map f xs = xs"
  by (induction xs) auto

lemma hole_paths_rename:
  assumes "(l, path) \<in> hole_paths (f # fs) S"
    and "fpage f \<notin> set (ctx_pages fs) \<union> set (ctx_side (f # fs))"
    and "\<And>l path. (l, path) \<in> S \<Longrightarrow> fpage f \<notin> set path"
  shows "(l, map (\<lambda>p. if p = fpage f then q else p) path) \<in> hole_paths (set_fpage f q # fs) S"
proof -
  let ?g = "\<lambda>p. if p = fpage f then q else p"
  have up: "map ?g (rev (ctx_pages fs)) = rev (ctx_pages fs)"
    using assms(2) by (intro map_id_on) (auto simp: image_iff)
  consider (out) "(l, path) \<in> ctx_paths fs"
    | (side) path' where "path = rev (ctx_pages fs) @ fpage f # path'" "(l, path') \<in> set (fpaths f)"
    | (hole) path' where "path = rev (ctx_pages fs) @ fpage f # path'" "(l, path') \<in> S"
    using assms(1) by (auto simp: hole_paths_def)
  then show ?thesis
  proof cases
    case out
    then have "map ?g path = path"
      using ctx_paths_pages [OF out] assms(2) by (intro map_id_on) auto
    then show ?thesis using out by (auto simp: hole_paths_def)
  next
    case side
    then have "map ?g path' = path'"
      using fpaths_pages [OF side(2)] assms(2) by (intro map_id_on) auto
    then have "map ?g path = rev (ctx_pages fs) @ q # path'" using side(1) up by simp
    then show ?thesis using side(2) by (force simp: hole_paths_def)
  next
    case hole
    then have "map ?g path' = path'" using assms(3) by (intro map_id_on) auto
    then have "map ?g path = rev (ctx_pages fs) @ q # path'" using hole(1) up by simp
    then show ?thesis using hole(2) by (force simp: hole_paths_def)
  qed
qed

section \<open>Stored trees\<close>

definition page_bytes :: "tree \<Rightarrow> page_id \<Rightarrow> page_kind \<Rightarrow> bytes \<Rightarrow> bool" where
  "page_bytes self p kind body \<longleftrightarrow> read_main_page (tr_pager self) p (tr_realm self) kind = Ok body \<and>
     read_main_node (tr_pager self) p (tr_realm self) = Ok (body, kind)"

definition node_at :: "tree \<Rightarrow> page_id \<Rightarrow> internal \<Rightarrow> bool" where
  "node_at self p n \<longleftrightarrow> map_of (fresh_leaves self) p = None \<and>
     (\<exists>body. page_bytes self p BTreeInternal body \<and> internal_layout body n \<and>
        length body = body_capacity (tr_page_size self))"

text \<open>A leaf is in the fresh cache, or on a page that the dirty cache may shadow.\<close>

definition leaf_at :: "tree \<Rightarrow> page_id \<Rightarrow> leaf \<Rightarrow> bool" where
  "leaf_at self p l \<longleftrightarrow>
     (case map_of (fresh_leaves self) p of
        Some l' \<Rightarrow> l' = l
      | None \<Rightarrow> (\<exists>body l0. page_bytes self p BTreeLeaf body \<and> decode_leaf body = Ok l0 \<and>
          (case map_of (dirty_leaves self) p of None \<Rightarrow> l = l0 | Some l' \<Rightarrow> l = l')))"

fun holds :: "tree \<Rightarrow> atree \<Rightarrow> bool" where
  "holds self (ALeaf p l) = leaf_at self p l"
| "holds self (ANode p t ts) \<longleftrightarrow>
     node_at self p (node_of t ts) \<and> holds self t \<and> (\<forall>(k, t) \<in> set ts. holds self t)"

primrec frames_hold :: "tree \<Rightarrow> frame list \<Rightarrow> page_id \<Rightarrow> bool" where
  "frames_hold self [] c = True"
| "frames_hold self (f # fs) c \<longleftrightarrow>
     node_at self (fpage f) (fnode f c) \<and> (\<forall>t \<in> set (fsubs f). holds self t) \<and> frames_hold self fs (fpage f)"

lemma holds_plug:
  "holds self (plug f t) \<longleftrightarrow>
     node_at self (fpage f) (fnode f (page_of t)) \<and> (\<forall>t \<in> set (fsubs f). holds self t) \<and> holds self t"
  by (cases f) (force simp: node_of_def)+

lemma holds_plugs: "holds self (plugs ctx t) \<longleftrightarrow> frames_hold self ctx (page_of t) \<and> holds self t"
  by (induction ctx arbitrary: t) (auto simp: holds_plug)

lemma node_at_guard:
  assumes "node_at self p n"
  obtains body where "read_node_guard self p = Ok (body, Internal)" and "internal_layout body n"
    and "map_of (fresh_leaves self) p = None"
proof -
  obtain body where body: "page_bytes self p BTreeInternal body" "internal_layout body n"
      "map_of (fresh_leaves self) p = None"
    using assms by (auto simp: node_at_def)
  have "read_header body = Ok (internal_header n)" using body(2) by (simp add: internal_layout_def)
  then show ?thesis
    using that body by (simp add: read_node_guard_def page_bytes_def internal_header_def)
qed

lemma decode_leaf_kind: "decode_leaf body = Ok l \<Longrightarrow> \<exists>h. read_header body = Ok h \<and> hdr_kind h = Leaf"
  by (metis decode_leaf_header)

lemma leaf_at_guard:
  assumes "leaf_at self p l" and "map_of (fresh_leaves self) p = None"
  obtains body l0 where "read_node_guard self p = Ok (body, Leaf)" and "decode_leaf body = Ok l0"
    and "case map_of (dirty_leaves self) p of None \<Rightarrow> l = l0 | Some l' \<Rightarrow> l = l'"
proof -
  obtain body l0 where body: "page_bytes self p BTreeLeaf body" "decode_leaf body = Ok l0"
      "case map_of (dirty_leaves self) p of None \<Rightarrow> l = l0 | Some l' \<Rightarrow> l = l'"
    using assms by (auto simp: leaf_at_def)
  obtain h where "read_header body = Ok h" "hdr_kind h = Leaf" using decode_leaf_kind [OF body(2)] by blast
  then show ?thesis
    using that body by (simp add: read_node_guard_def page_bytes_def)
qed

lemma leaf_at_read: "leaf_at self p l \<Longrightarrow> read_leaf self p = Ok l"
  by (auto simp: leaf_at_def read_leaf_def page_bytes_def split: option.splits)

section \<open>Descents\<close>

text \<open>What a descent needs to know: the tree is stored, on distinct pages, none of them page 0.\<close>

definition stored :: "tree \<Rightarrow> atree \<Rightarrow> bool" where
  "stored self a \<longleftrightarrow> holds self a \<and> distinct (plist a) \<and> 0 \<notin> set (plist a)"

lemma descend_leaf:
  assumes "leaf_at self p l" and "seen_insert seen p = Ok seen'"
  shows "descend follow self p path seen = Ok (path @ [p])"
proof (cases "map_of (fresh_leaves self) p")
  case None
  obtain body where "read_node_guard self p = Ok (body, Leaf)"
    using leaf_at_guard [OF assms(1) None] by metis
  then show ?thesis using None assms(2) by (subst descend.simps) simp
next
  case (Some l')
  then show ?thesis using assms(2) by (subst descend.simps) simp
qed

lemma descend_node:
  assumes "node_at self p n" and "seen_insert seen p = Ok seen'"
    and "\<And>body. internal_layout body n \<Longrightarrow> follow body = Ok c"
  shows "descend follow self p path seen = descend follow self c (path @ [p]) seen'"
proof -
  obtain body where "read_node_guard self p = Ok (body, Internal)" "internal_layout body n"
    "map_of (fresh_leaves self) p = None"
    using node_at_guard [OF assms(1)] by metis
  then show ?thesis using assms(2,3) by (subst descend.simps) simp
qed

lemma seen_step:
  assumes "seen_inv seen" and "seen_set seen = P" and "p \<notin> P" and "p \<noteq> 0"
  obtains seen' where "seen_insert seen p = Ok seen'" and "seen_inv seen'" and "seen_set seen' = insert p P"
  using seen_insert_Ok [of seen p] assms by metis

lemma sorted_node_of: "ordereds lo hi t ts \<Longrightarrow> sorted_keys (entries (node_of t ts))"
  using ordereds_keys [of lo hi t ts] by (auto simp: node_of_def comp_def case_prod_beta)

lemma child_for_key_node:
  "internal_layout body n \<Longrightarrow> sorted_keys (entries n) \<Longrightarrow>
     child_for_key k body = Ok (route (leftmost_child n) (entries n) k)"
  by (simp add: child_for_key_def internal_layout_guard internal_layout_child_for)

text \<open>
  A descent for a key ends at the leaf whose bounds contain it; \<open>P\<close> are the pages of the frames
  passed so far.
\<close>

lemma descend_for_key:
  assumes "stored self (plugs ctx t)" and "ordered [] None (plugs ctx t)"
    and "inside (ctx_lo ctx) (ctx_hi ctx) k" and "seen_inv seen" and "seen_set seen = set (ctx_pages ctx)"
  shows "\<exists>ctx' p l. plugs ctx t = plugs ctx' (ALeaf p l) \<and> inside (ctx_lo ctx') (ctx_hi ctx') k \<and>
    descend (child_for_key k) self (page_of t) (rev (ctx_pages ctx)) seen = Ok (rev (ctx_pages ctx') @ [p])"
  using assms
proof (induction "size t" arbitrary: t ctx seen rule: less_induct)
  case less
  have h: "holds self t" "distinct (ctx_pages ctx @ ctx_side ctx @ plist t)" "page_of t \<noteq> 0"
    using less.prems(1) page_of_in_plist [of t]
    by (auto simp: stored_def holds_plugs distinct_plugs set_plugs simp del: page_of_in_plist)
  have "page_of t \<notin> set (ctx_pages ctx)"
    using h(2) page_of_in_plist [of t] unfolding distinct_append set_append by blast
  then obtain seen' where seen': "seen_insert seen (page_of t) = Ok seen'" "seen_inv seen'"
      "seen_set seen' = insert (page_of t) (set (ctx_pages ctx))"
    using seen_step [OF less.prems(4,5)] h(3) by metis
  show ?case
  proof (cases t)
    case (ALeaf p l)
    then show ?thesis
      using descend_leaf [of self p l seen seen'] h(1) seen'(1) less.prems(3)
      by (intro exI [of _ ctx] exI [of _ p] exI [of _ l]) simp
  next
    case (ANode p t0 ts)
    have ord: "ordereds (ctx_lo ctx) (ctx_hi ctx) t0 ts"
      using less.prems(2) ANode by (simp add: ordered_plugs)
    obtain f t' where f: "plug f t' = ANode p t0 ts" "fpage f = p"
        "route (page_of t0) (map (\<lambda>(k, t). (k, page_of t)) ts) k = page_of t'"
        "inside (flo f (ctx_lo ctx)) (fhi f (ctx_hi ctx)) k"
      using route_child [OF ord less.prems(3)] by blast
    have eq: "plugs ctx t = plugs (f # ctx) t'" using ANode f(1) by simp
    have sz: "size t' < size t" using f(1) ANode
      by (cases f) (auto simp: size_list_estimation)
    have step: "descend (child_for_key k) self (page_of t) (rev (ctx_pages ctx)) seen =
        descend (child_for_key k) self (page_of t') (rev (ctx_pages ctx) @ [p]) seen'"
    proof -
      have "node_at self p (node_of t0 ts)" using h(1) ANode by simp
      moreover have "child_for_key k body = Ok (page_of t')" if "internal_layout body (node_of t0 ts)" for body
        using child_for_key_node [OF that sorted_node_of [OF ord]] f(3) by (simp add: node_of_def)
      ultimately show ?thesis using descend_node [of self p "node_of t0 ts" seen seen'] seen'(1) ANode by simp
    qed
    have "\<exists>ctx' p l. plugs (f # ctx) t' = plugs ctx' (ALeaf p l) \<and> inside (ctx_lo ctx') (ctx_hi ctx') k \<and>
      descend (child_for_key k) self (page_of t') (rev (ctx_pages (f # ctx))) seen' = Ok (rev (ctx_pages ctx') @ [p])"
      by (rule less.hyps [OF sz]) (use less.prems(1,2) eq f seen' ANode in auto)
    then show ?thesis using step eq f(2) by simp
  qed
qed

lemma path_to_leaf_for_key_spec:
  assumes "stored self a" and "ordered [] None a" and "root_page_id self = page_of a"
  obtains ctx p l where "a = plugs ctx (ALeaf p l)" and "inside (ctx_lo ctx) (ctx_hi ctx) k"
    and "path_to_leaf_for_key self k = Ok (rev (ctx_pages ctx) @ [p])"
  using descend_for_key [of self "[]" a k "seen_new ''btree_descent''"] assms that
  by (auto simp: path_to_leaf_for_key_def inside_def)

end
