(* ===== verification/Tree_Lookup.thy ===== *)
theory Tree_Lookup
  imports Tree_Rep
begin

text \<open>
  Lookups return what the stored tree's records say: the in-place descent of \<open>get\<close> is the path
  descent followed by a lookup in the leaf it ends at.
\<close>

section \<open>Point lookups\<close>

definition leaf_value_at :: "tree \<Rightarrow> key \<Rightarrow> page_id \<Rightarrow> bytes option result" where
  "leaf_value_at self k p =
     (case map_of (fresh_leaves self) p of
        Some l \<Rightarrow> value_from_cached_leaf (tr_pager self) (tr_realm self) l k
      | None \<Rightarrow> rbind (read_node_guard self p) (\<lambda>(body, kind). extract_leaf_value self k p body))"

lemma get_loop_descend:
  "get_loop self k p seen =
     rbind (descend (child_for_key k) self p path seen) (\<lambda>path. leaf_value_at self k (last path))"
proof (induction self k p seen arbitrary: path rule: get_loop.induct)
  case (1 self k p seen)
  show ?case
  proof (cases "seen_insert seen p")
    case (Err e)
    then show ?thesis by (subst get_loop.simps, subst descend.simps) simp
  next
    case seen: (Ok seen')
    show ?thesis
    proof (cases "map_of (fresh_leaves self) p")
      case (Some l)
      then show ?thesis
        using seen by (subst get_loop.simps, subst descend.simps) (simp add: leaf_value_at_def)
    next
      case None
      show ?thesis
      proof (cases "read_node_guard self p")
        case (Err e)
        then show ?thesis using seen None by (subst get_loop.simps, subst descend.simps) simp
      next
        case (Ok bk)
        obtain body kind where bk: "bk = (body, kind)" by (cases bk)
        show ?thesis
        proof (cases "kind = Leaf")
          case True
          then show ?thesis
            using seen None Ok bk
            by (subst get_loop.simps, subst descend.simps) (simp add: leaf_value_at_def)
        next
          case False
          have IH: "get_loop self k child seen' =
              rbind (descend (child_for_key k) self child (path @ [p]) seen') (\<lambda>path. leaf_value_at self k (last path))"
            if "child_for_key k body = Ok child" for child
            using 1 [OF seen None Ok bk [symmetric] False] that
            unfolding child_for_key_def [of k body] rbind_eq_Ok by blast
          have "get_loop self k p seen = rbind (child_for_key k body) (\<lambda>child. get_loop self k child seen')"
            using seen None Ok bk False
            by (subst get_loop.simps) (simp add: child_for_key_def rbind_assoc)
          moreover have "descend (child_for_key k) self p path seen =
              rbind (child_for_key k body) (\<lambda>child. descend (child_for_key k) self child (path @ [p]) seen')"
            using seen None Ok bk False by (subst descend.simps) simp
          ultimately show ?thesis
            using IH by (cases "child_for_key k body") simp_all
        qed
      qed
    qed
  qed
qed

lemma tree_get_descend:
  "tree_get self k =
     (if root_page_id self = 0 then Ok None
      else rbind (path_to_leaf_for_key self k) (\<lambda>path. leaf_value_at self k (last path)))"
proof (cases "root_page_id self = 0")
  case False
  let ?r = "root_page_id self"
  obtain seen where seen: "seen_insert (seen_new ''btree_descent'') ?r = Ok seen"
    using seen_insert_Ok [of "seen_new ''btree_descent''" ?r] False by auto
  show ?thesis
  proof (cases "map_of (fresh_leaves self) ?r")
    case (Some l)
    then show ?thesis
      using False seen
      by (subst path_to_leaf_for_key_def, subst descend.simps) (simp add: tree_get_def leaf_value_at_def)
  next
    case None
    show ?thesis
    proof (cases "read_node_guard self ?r")
      case (Err e)
      then show ?thesis
        using False seen None by (subst path_to_leaf_for_key_def, subst descend.simps) (simp add: tree_get_def)
    next
      case (Ok bk)
      obtain body kind where bk: "bk = (body, kind)" by (cases bk)
      show ?thesis
      proof (cases "kind = Leaf")
        case True
        then show ?thesis
          using False seen None Ok bk
          by (subst path_to_leaf_for_key_def, subst descend.simps)
            (simp add: tree_get_def get_from_node_def leaf_value_at_def)
      next
        case nl: False
        have "tree_get self k = rbind (child_for_key k body) (\<lambda>child. get_loop self k child seen)"
          using False seen None Ok bk nl
          by (simp add: tree_get_def get_from_node_def child_for_key_def rbind_assoc)
        moreover have "path_to_leaf_for_key self k =
            rbind (child_for_key k body) (\<lambda>child. descend (child_for_key k) self child [?r] seen)"
          using seen None Ok bk nl by (subst path_to_leaf_for_key_def, subst descend.simps) simp
        ultimately show ?thesis
          using False get_loop_descend [of self k _ seen "[?r]"] by (simp add: rbind_assoc)
      qed
    qed
  qed
qed (simp add: tree_get_def)

definition resolved :: "tree \<Rightarrow> leaf_value option \<Rightarrow> bytes option result" where
  "resolved self v = (case v of None \<Rightarrow> Ok None | Some v \<Rightarrow> rmap Some (resolve_leaf_value self v))"

lemma value_from_cached_leaf_resolved:
  "value_from_cached_leaf (tr_pager self) (tr_realm self) l k = resolved self (get l k)"
  by (auto simp: value_from_cached_leaf_def resolved_def resolve_leaf_value_def
      split: option.splits leaf_value.splits)

lemma extract_leaf_value_resolved:
  assumes "map_of (fresh_leaves self) p = None" and "decode_leaf body = Ok l0"
  shows "extract_leaf_value self k p body =
     resolved self (case map_of (dirty_leaves self) p of None \<Rightarrow> get l0 k | Some l \<Rightarrow> get l k)"
proof (cases "map_of (dirty_leaves self) p")
  case (Some l)
  then show ?thesis
    using assms(1)
    by (auto simp: extract_leaf_value_def resolved_def resolve_leaf_value_def
        split: option.splits leaf_value.splits)
next
  case None
  have lk: "lookup_in_place body False k = Ok (get l0 k)" by (rule lookup_in_place_get [OF assms(2)])
  obtain h where h: "fst (leaf_from_guard body False) = Ok (leaf_acc body h)"
    using decode_leaf_header [OF assms(2)] by metis
  obtain slot where slot: "leaf_find (leaf_acc body h) k = Ok slot"
    using lk h by (auto simp: lookup_in_place_def rbind_eq_Ok)
  show ?thesis
  proof (cases slot)
    case None
    then show ?thesis
      using assms(1) h slot lk \<open>map_of (dirty_leaves self) p = None\<close>
      by (simp add: extract_leaf_value_def lookup_in_place_def resolved_def)
  next
    case (Some idx)
    then obtain loc where loc: "value_loc (leaf_acc body h) idx = Ok loc"
        "rmap Some (read_loc body loc) = Ok (get l0 k)"
      using lk h slot by (auto simp: lookup_in_place_def rmap_eq_Ok rbind_eq_Ok)
    then show ?thesis
      using assms(1) h slot Some \<open>map_of (dirty_leaves self) p = None\<close>
      by (cases loc; cases "get l0 k") (auto simp: extract_leaf_value_def resolved_def read_loc_def
          rmap_eq_Ok resolve_leaf_value_def)
  qed
qed

lemma leaf_value_at_resolved:
  assumes "leaf_at self p l"
  shows "leaf_value_at self k p = resolved self (get l k)"
proof (cases "map_of (fresh_leaves self) p")
  case (Some l')
  then show ?thesis
    using assms by (simp add: leaf_value_at_def value_from_cached_leaf_resolved leaf_at_def)
next
  case None
  obtain body l0 where "read_node_guard self p = Ok (body, Leaf)" "decode_leaf body = Ok l0"
      "case map_of (dirty_leaves self) p of None \<Rightarrow> l = l0 | Some l' \<Rightarrow> l = l'"
    using leaf_at_guard [OF assms None] by metis
  then show ?thesis
    using None extract_leaf_value_resolved [OF None, of body l0 k]
    by (auto simp: leaf_value_at_def split: option.splits)
qed

lemma tree_get_stored:
  assumes "stored self a" and "ordered [] None a" and "root_page_id self = page_of a"
  shows "tree_get self k = resolved self (map_of (recs a) k)"
proof -
  obtain ctx p l where a: "a = plugs ctx (ALeaf p l)" "inside (ctx_lo ctx) (ctx_hi ctx) k"
      "path_to_leaf_for_key self k = Ok (rev (ctx_pages ctx) @ [p])"
    using path_to_leaf_for_key_spec [OF assms] by metis
  have l: "leaf_at self p l" "sorted_keys (records l)" "ctx_ordered ctx"
    using assms by (auto simp: stored_def a(1) holds_plugs ordered_plugs)
  have nz: "root_page_id self \<noteq> 0"
    using assms(1,3) page_of_in_plist [of a] by (metis stored_def)
  have "get l k = map_of (records l) k"
    using get_map_of [OF l(2)] by simp
  also have "\<dots> = map_of (recs a) k"
    using map_of_plugs [OF l(3) a(2), of "ALeaf p l"] a(1) by simp
  finally show ?thesis
    using a(3) leaf_value_at_resolved [OF l(1)] nz by (simp add: tree_get_descend)
qed

end
