(* ===== verification/Tree_Update.thy ===== *)
theory Tree_Update
  imports Tree_Lookup
begin

text \<open>
  The write path on stored trees. Each operation is specified by the pages it owns: it takes new
  pages from the allocator, writes only to those, and gives back the pages it replaced, so that
  everything else that is stored stays readable.
\<close>

section \<open>Owned pages\<close>

definition core :: "tree \<Rightarrow> _" where
  "core self = (tr_realm self, tr_page_size self, root_page_id self, dirty_leaves self,
     fresh_leaves self, scheduled_frees self, dirty_parent_paths self, append_last_key self,
     append_cached_path self)"

definition good :: "tree \<Rightarrow> page_id set \<Rightarrow> bool" where
  "good self U \<longleftrightarrow> alloc_inv self \<and> U \<subseteq> in_use self \<and> (\<forall>p \<in> U. 4 \<le> p) \<and>
     cfg_page_size (tr_pager self) = tr_page_size self \<and> 56 \<le> tr_page_size self \<and>
     tr_page_size self \<le> 65536 \<and> fst ` set (fresh_leaves self) \<subseteq> U \<and> fst ` set (dirty_leaves self) \<subseteq> U"

lemma allocate_page_core: "allocate_page self = (r, self') \<Longrightarrow> core self' = core self \<and> tr_pager self' = tr_pager self"
  by (auto simp: allocate_page_def bump_page_def core_def Let_def split: if_splits option.splits)

lemma free_page_core: "free_page self p = (r, self') \<Longrightarrow> core self' = core self \<and> tr_pager self' = tr_pager self"
  by (auto simp: free_page_def core_def split: if_splits)

lemma alloc_good:
  assumes "good self U" and "allocate_page self = (Ok p, self')"
  shows "good self' (insert p U)" and "p \<notin> U" and "core self' = core self" and "tr_pager self' = tr_pager self"
    and "4 \<le> p" and "p \<noteq> 0"
proof -
  have inv: "alloc_inv self" using assms(1) by (simp add: good_def)
  note sp = alloc_spec [OF inv assms(2)]
  show c: "core self' = core self" "tr_pager self' = tr_pager self"
    using allocate_page_core [OF assms(2)] by auto
  show "4 \<le> p" by (rule sp(2))
  then show "p \<noteq> 0" by auto
  show "p \<notin> U" using sp(3) assms(1) by (auto simp: good_def)
  show "good self' (insert p U)"
    using assms(1) sp(1,2,4) c by (auto simp: good_def core_def)
qed

lemma free_good:
  assumes "good self U" and "p \<in> U" and "p \<notin> fst ` set (fresh_leaves self)" and "p \<notin> fst ` set (dirty_leaves self)"
  obtains self' where "free_page self p = (Ok (), self')" and "good self' (U - {p})"
    and "core self' = core self" and "tr_pager self' = tr_pager self"
proof -
  have p: "p \<in> in_use self" "4 \<le> p" "alloc_inv self" using assms(1,2) by (auto simp: good_def)
  obtain self' where f: "free_page self p = (Ok (), self')"
    using p(2) by (cases "is_reusable_in_session self p") (auto simp: free_page_def dest: leD)
  note c = free_page_core [OF f]
  have "alloc_inv self'" using free_page_spec(1) [OF p(3,1) f] .
  moreover have "in_use self - {p} \<subseteq> in_use self'"
    using f by (auto simp: free_page_def in_use_def split: if_splits)
  ultimately have "good self' (U - {p})"
    using assms c by (auto simp: good_def core_def)
  then show ?thesis using that f c by blast
qed

lemma write_body_core:
  assumes "write_body self p kind body = (Ok (), self')" and "kind = BTreeLeaf \<or> kind = BTreeInternal"
  shows "core self' = core self" and "same_pages (tr_pager self) (tr_pager self') (- {p})"
    and "page_bytes self' p kind body"
proof -
  obtain s' where s': "write_main_page (tr_pager self) p (tr_realm self) kind body = Ok s'"
      "self' = self\<lparr>tr_pager := s'\<rparr>"
    using assms(1) by (auto simp: write_body_def split: result.splits)
  show "core self' = core self" by (simp add: s'(2) core_def)
  show "same_pages (tr_pager self) (tr_pager self') (- {p})" using same_pages_write [OF s'(1)] s'(2) by simp
  show "page_bytes self' p kind body"
    using pager.read_written [OF s'(1)] pager.read_node_written [OF s'(1) assms(2)] s'(2)
    by (simp add: page_bytes_def)
qed

lemma good_pager:
  assumes "good self U" and "core self' = core self" and "same_pages (tr_pager self) (tr_pager self') P"
    and "in_use self' = in_use self" and "alloc_inv self'"
  shows "good self' U"
  using assms by (auto simp: good_def core_def same_pages_def)

lemma write_body_alloc:
  "write_body self p kind body = (r, self') \<Longrightarrow> in_use self' = in_use self \<and> (alloc_inv self \<longrightarrow> alloc_inv self')"
  by (auto simp: write_body_def in_use_def alloc_inv_def split: result.splits)

lemma write_body_good:
  assumes "good self U" and "length body = body_capacity (tr_page_size self)"
    and "kind = BTreeLeaf \<or> kind = BTreeInternal"
  obtains self' where "write_body self p kind body = (Ok (), self')" and "good self' U"
    and "core self' = core self" and "same_pages (tr_pager self) (tr_pager self') (- {p})"
    and "page_bytes self' p kind body"
proof -
  have "is_main_db kind" using assms(3) by auto
  then obtain s' where "write_main_page (tr_pager self) p (tr_realm self) kind body = Ok s'"
    using pager.write_ok [of kind body "tr_pager self" p "tr_realm self"] assms(1,2) by (auto simp: good_def)
  then have w: "write_body self p kind body = (Ok (), self\<lparr>tr_pager := s'\<rparr>)"
    by (simp add: write_body_def)
  note c = write_body_core [OF w assms(3)] and a = write_body_alloc [OF w]
  have "good (self\<lparr>tr_pager := s'\<rparr>) U"
    by (rule good_pager [OF assms(1)]) (use c a assms in \<open>auto simp: good_def\<close>)
  then show ?thesis using that w c by blast
qed

lemma write_internal_good:
  assumes "good self U" and "internal_fits n (tr_page_size self)" and "p \<notin> fst ` set (fresh_leaves self)"
  obtains self' where "write_internal self p n = (Ok (), self')" and "good self' U"
    and "core self' = core self" and "same_pages (tr_pager self) (tr_pager self') (- {p})"
    and "node_at self' p n"
proof -
  let ?cap = "body_capacity (tr_page_size self)"
  obtain b where b: "encode_internal n (replicate ?cap 0) = Ok b" "length b = ?cap" "internal_layout b n"
    using encode_internal_layout [OF assms(2), of "replicate ?cap 0"] assms(1) by (auto simp: good_def)
  obtain self' where w: "write_body self p BTreeInternal b = (Ok (), self')" "good self' U"
      "core self' = core self" "same_pages (tr_pager self) (tr_pager self') (- {p})"
      "page_bytes self' p BTreeInternal b"
    using write_body_good [OF assms(1) b(2)] by metis
  have "node_at self' p n"
    using w(3,5) b assms(3) by (auto simp: node_at_def core_def map_of_eq_None_iff)
  then show ?thesis using that [of self'] w b(1) by (simp add: write_internal_def)
qed

lemma write_leaf_good:
  assumes "good self U" and "wf_records (records l)" and "fits l (tr_page_size self)"
  obtains self' body where "write_leaf self p l = (Ok (), self')" and "good self' U"
    and "core self' = core self" and "same_pages (tr_pager self) (tr_pager self') (- {p})"
    and "page_bytes self' p BTreeLeaf body" and "decode_leaf body = Ok l"
proof -
  let ?cap = "body_capacity (tr_page_size self)"
  obtain b where b: "encode_leaf l (replicate ?cap 0) = Ok b" "length b = ?cap" "decode_leaf b = Ok l"
    using leaf_encode_decode [OF assms(2,3), of "replicate ?cap 0"] assms(1) by (auto simp: good_def)
  obtain self' where w: "write_body self p BTreeLeaf b = (Ok (), self')" "good self' U"
      "core self' = core self" "same_pages (tr_pager self) (tr_pager self') (- {p})"
      "page_bytes self' p BTreeLeaf b"
    using write_body_good [OF assms(1) b(2)] by metis
  then show ?thesis using that [of self'] b by (simp add: write_leaf_def)
qed

section \<open>Stored nodes under writes elsewhere\<close>

lemma same_pages_read_node:
  "same_pages s s' P \<Longrightarrow> p \<in> P \<Longrightarrow> read_main_node s' p r = read_main_node s p r"
  by (simp add: same_pages_def read_main_node_def read_page_def split: option.split)

definition agree :: "tree \<Rightarrow> tree \<Rightarrow> page_id set \<Rightarrow> bool" where
  "agree self self' P \<longleftrightarrow> same_pages (tr_pager self) (tr_pager self') P \<and> tr_realm self' = tr_realm self \<and>
     tr_page_size self' = tr_page_size self \<and>
     (\<forall>p \<in> P. map_of (fresh_leaves self') p = map_of (fresh_leaves self) p \<and>
        map_of (dirty_leaves self') p = map_of (dirty_leaves self) p)"

lemma agree_core:
  "core self' = core self \<Longrightarrow> same_pages (tr_pager self) (tr_pager self') P \<Longrightarrow> agree self self' P"
  by (auto simp: agree_def core_def)

lemma agree_mono: "agree self self' P \<Longrightarrow> Q \<subseteq> P \<Longrightarrow> agree self self' Q"
  by (auto simp: agree_def intro: same_pages_mono)

lemma agree_refl [simp]: "agree self self P"
  by (simp add: agree_def)

lemma agree_trans: "agree s1 s2 P \<Longrightarrow> agree s2 s3 Q \<Longrightarrow> agree s1 s3 (P \<inter> Q)"
  unfolding agree_def using same_pages_trans by fastforce

lemma page_bytes_agree: "agree self self' P \<Longrightarrow> p \<in> P \<Longrightarrow> page_bytes self' p k b = page_bytes self p k b"
  using same_pages_read [of "tr_pager self" "tr_pager self'" P p]
    same_pages_read_node [of "tr_pager self" "tr_pager self'" P p]
  by (simp add: agree_def page_bytes_def)

lemma node_at_agree: "agree self self' P \<Longrightarrow> p \<in> P \<Longrightarrow> node_at self' p n = node_at self p n"
  using page_bytes_agree [of self self' P p] by (simp add: node_at_def agree_def)

lemma leaf_at_agree: "agree self self' P \<Longrightarrow> p \<in> P \<Longrightarrow> leaf_at self' p l = leaf_at self p l"
  using page_bytes_agree [of self self' P p] by (simp add: leaf_at_def agree_def cong: option.case_cong)

lemma holds_agree: "agree self self' P \<Longrightarrow> set (plist a) \<subseteq> P \<Longrightarrow> holds self' a = holds self a"
proof (induction a rule: atree_induct)
  case (ALeaf p l)
  then show ?case by (simp add: leaf_at_agree)
next
  case (ANode p t ts)
  have "set (plist t') \<subseteq> P" if "(k, t') \<in> set ts" for k t'
    using that ANode.prems(2) by (force simp: plists_def)
  then have "(\<forall>(k, t) \<in> set ts. holds self' t) = (\<forall>(k, t) \<in> set ts. holds self t)"
    using ANode.IH(2) ANode.prems(1) by fastforce
  then show ?case using ANode by (simp add: node_at_agree)
qed

lemma fsubs_pages: "t \<in> set (fsubs f) \<Longrightarrow> set (plist t) \<subseteq> set (fside f)"
  by (cases f) (force simp: plists_def)+

lemma frames_hold_agree:
  "agree self self' P \<Longrightarrow> set (ctx_pages ctx) \<union> set (ctx_side ctx) \<subseteq> P \<Longrightarrow>
     frames_hold self' ctx c = frames_hold self ctx c"
proof (induction ctx arbitrary: c)
  case (Cons f fs)
  have "holds self' t = holds self t" if "t \<in> set (fsubs f)" for t
    using holds_agree [OF Cons.prems(1), of t] fsubs_pages [OF that] Cons.prems(2) by auto
  then show ?case using Cons by (auto simp: node_at_agree)
qed simp

section \<open>Copying a node with one child repointed\<close>

lemma cow_good:
  assumes "good self U" and "node_at self p n" and "q \<notin> fst ` set (fresh_leaves self)"
  obtains self' where "cow_internal_repointing_child self p q old new = (Ok (), self')" and "good self' U"
    and "core self' = core self" and "same_pages (tr_pager self) (tr_pager self') (- {q})"
    and "node_at self' q (repoint_child n old new)"
proof -
  obtain body where body: "page_bytes self p BTreeInternal body" "internal_layout body n"
      "length body = body_capacity (tr_page_size self)"
    using assms(2) by (auto simp: node_at_def)
  let ?acc = "internal_acc body (internal_header n)"
  have rc: "entry_right_child ?acc i = Ok (snd (entries n ! i))" if "i < length (entries n)" for i
    using internal_layout_right_child [OF body(2) that] by auto
  have cnt: "ia_slot_count ?acc = length (entries n)" "ia_leftmost_child ?acc = leftmost_child n"
    using internal_layout_count [OF body(2)] by (simp_all add: internal_acc_def internal_header_def)
  define found where "found = List.find (\<lambda>i. snd (entries n ! i) = old) [0..<length (entries n)]"
  have slot: "find_child_slot ?acc old [0..<length (entries n)] = Ok found"
    using find_child_slot_spec [of "entries n" ?acc 0 old] rc by (simp add: found_def split: option.splits)
  define edit where "edit = (if leftmost_child n = old then write_u64_le body OFF_DUAL_USE new
     else case found of None \<Rightarrow> Ok body
      | Some idx \<Rightarrow> rbind (right_child_offset ?acc idx) (\<lambda>offset. write_u64_le body offset new))"
  obtain b where b: "edit = Ok b" "length b = length body" "internal_layout b (repoint_child n old new)"
  proof (cases "leftmost_child n = old")
    case True
    then show ?thesis
      using that repoint_leftmost_layout [OF body(2), of new] by (auto simp: edit_def repoint_child_def)
  next
    case False
    show ?thesis
    proof (cases found)
      case None
      then have "repoint_child n old new = n"
        using False by (simp add: repoint_child_def repoint_entries_find found_def)
      then show ?thesis using that None False body(2) by (simp add: edit_def)
    next
      case (Some i)
      then have i: "i < length (entries n)" by (auto simp: found_def find_Some_iff)
      obtain off where off: "right_child_offset ?acc i = Ok off"
        using internal_layout_right_child [OF body(2) i] by auto
      have "repoint_child n old new = n\<lparr>entries := (entries n)[i := (fst (entries n ! i), new)]\<rparr>"
        using False Some by (simp add: repoint_child_def repoint_entries_find found_def)
      then show ?thesis
        using that repoint_entry_layout [OF body(2) i off, of new] False Some off by (auto simp: edit_def)
    qed
  qed
  obtain self' where w: "write_body self q BTreeInternal b = (Ok (), self')" "good self' U"
      "core self' = core self" "same_pages (tr_pager self) (tr_pager self') (- {q})"
      "page_bytes self' q BTreeInternal b"
    using write_body_good [OF assms(1)] b(2) body(3) by metis
  have "cow_internal_repointing_child self p q old new = (Ok (), self')"
    using body(1) internal_layout_guard [OF body(2)] cnt slot b(1) w(1)
    by (simp add: cow_internal_repointing_child_def page_bytes_def edit_def cong: if_cong)
  moreover have "node_at self' q (repoint_child n old new)"
    using w(3,5) b body(3) assms(3) by (auto simp: node_at_def core_def map_of_eq_None_iff)
  ultimately show ?thesis using that w by blast
qed

section \<open>Copying the spine\<close>

lemma page_of_map_notin: "c \<notin> set (plists ts) \<Longrightarrow> c \<notin> snd ` set (map (\<lambda>(k, t). (k, page_of t)) ts)"
proof (induction ts)
  case (Cons e ts)
  obtain k t where e: "e = (k, t)" by (cases e)
  have "c \<noteq> page_of t" using Cons.prems e page_of_in_plist [of t] by auto
  then show ?case using Cons e by auto
qed simp

lemma repoint_entries_append:
  "c \<notin> snd ` set xs \<Longrightarrow> repoint_entries (xs @ (k, c) # ys) c new = xs @ (k, new) # ys"
  by (induction xs) auto

lemma fnode_repoint:
  assumes "c \<notin> set (fside f)"
  shows "repoint_child (fnode f c) c new = fnode f new"
proof (cases f)
  case (FLeft p ts)
  then show ?thesis by (simp add: repoint_child_def)
next
  case (FEntry p t0 xs k ys)
  then have "page_of t0 \<noteq> c" "c \<notin> set (plists xs)" using assms page_of_in_plist [of t0] by auto
  then show ?thesis
    using FEntry repoint_entries_append [OF page_of_map_notin] by (simp add: repoint_child_def)
qed

definition ctx_like :: "frame list \<Rightarrow> frame list \<Rightarrow> bool" where
  "ctx_like ctx ctx' \<longleftrightarrow> list_all2 (\<lambda>f f'. \<exists>q. f' = set_fpage f q) ctx ctx'"

lemma ctx_like_eqs:
  assumes "ctx_like ctx ctx'"
  shows "ctx_lo ctx' = ctx_lo ctx" and "ctx_hi ctx' = ctx_hi ctx" and "ctx_ordered ctx' = ctx_ordered ctx"
    and "ctx_ll ctx' = ctx_ll ctx" and "ctx_lr ctx' = ctx_lr ctx" and "ctx_side ctx' = ctx_side ctx"
proof -
  have "list_all2 (\<lambda>f f'. \<exists>q. f' = set_fpage f q) ctx ctx'" using assms by (simp add: ctx_like_def)
  then have "ctx_lo ctx' = ctx_lo ctx \<and> ctx_hi ctx' = ctx_hi ctx \<and> ctx_ordered ctx' = ctx_ordered ctx \<and>
      ctx_ll ctx' = ctx_ll ctx \<and> ctx_lr ctx' = ctx_lr ctx \<and> ctx_side ctx' = ctx_side ctx"
    by (induction rule: list_all2_induct) auto
  then show "ctx_lo ctx' = ctx_lo ctx" "ctx_hi ctx' = ctx_hi ctx" "ctx_ordered ctx' = ctx_ordered ctx"
    "ctx_ll ctx' = ctx_ll ctx" "ctx_lr ctx' = ctx_lr ctx" "ctx_side ctx' = ctx_side ctx" by auto
qed

lemma hole_paths_plug: "hole_paths (f # fs) (set (lpaths t)) = hole_paths fs (set (lpaths (plug f t)))"
  using lpaths_plugs_eq [of "f # fs" t] lpaths_plugs_eq [of fs "plug f t"] by simp

text \<open>What copying the spine leaves alone: everything but the root and the cached paths.\<close>

definition caches :: "tree \<Rightarrow> _" where
  "caches self = (tr_realm self, tr_page_size self, dirty_leaves self, fresh_leaves self,
     scheduled_frees self, append_last_key self, append_cached_path self)"

lemma core_caches: "core self' = core self \<Longrightarrow> caches self' = caches self"
  by (simp add: core_def caches_def)

lemma caches_fields:
  "caches self' = caches self \<Longrightarrow> fresh_leaves self' = fresh_leaves self"
  "caches self' = caches self \<Longrightarrow> dirty_leaves self' = dirty_leaves self"
  "caches self' = caches self \<Longrightarrow> tr_page_size self' = tr_page_size self"
  "caches self' = caches self \<Longrightarrow> tr_realm self' = tr_realm self"
  by (simp_all add: caches_def)

lemma agree_caches:
  "caches self' = caches self \<Longrightarrow> same_pages (tr_pager self) (tr_pager self') P \<Longrightarrow> agree self self' P"
  by (auto simp: agree_def caches_def)

lemma good_paths:
  "good (self\<lparr>dirty_parent_paths := x\<rparr>) U = good self U"
  "good (self\<lparr>root_page_id := r\<rparr>) U = good self U"
  by (simp_all add: good_def alloc_inv_def in_use_def cache_of_def)

lemma remap_simps [simp]:
  "caches (remap_dirty_parent_paths self p q) = caches self"
  "tr_pager (remap_dirty_parent_paths self p q) = tr_pager self"
  "root_page_id (remap_dirty_parent_paths self p q) = root_page_id self"
  "good (remap_dirty_parent_paths self p q) U = good self U"
  by (simp_all add: remap_dirty_parent_paths_def caches_def good_paths)

lemma node_not_cached: "node_at self p n \<Longrightarrow> p \<notin> fst ` set (fresh_leaves self)"
  by (simp add: node_at_def map_of_eq_None_iff)

lemma remap_hole_paths:
  assumes "set (dirty_parent_paths self) \<subseteq> hole_paths (f # fs) (set (lpaths t))"
    and "distinct (ctx_pages (f # fs) @ ctx_side (f # fs) @ plist t)"
  shows "set (dirty_parent_paths (remap_dirty_parent_paths self (fpage f) q)) \<subseteq>
    hole_paths fs (set (lpaths (plug (set_fpage f q) t)))"
proof -
  have "(l, map (\<lambda>p. if p = fpage f then q else p) path) \<in> hole_paths (set_fpage f q # fs) (set (lpaths t))"
    if "(l, path) \<in> set (dirty_parent_paths self)" for l path
    by (rule hole_paths_rename) (use that assms lpaths_pages in \<open>auto; blast\<close>)+
  then show ?thesis
    unfolding hole_paths_plug [symmetric] by (auto simp: remap_dirty_parent_paths_def)
qed

text \<open>One level: a new page takes the copy and the old page is given back.\<close>

lemma cow_step:
  assumes "cow_spine self (ctx_pages (f # fs)) c_old c_new = (Ok (), self')"
    and "good self U" and "node_at self (fpage f) (fnode f c_old)" and "fpage f \<in> U"
    and "c_old \<notin> set (fside f)" and "fpage f \<notin> fst ` set (dirty_leaves self)"
  obtains q s where "q \<notin> U" and "good s (insert q U - {fpage f})" and "caches s = caches self"
    and "same_pages (tr_pager self) (tr_pager s) (- {q})" and "node_at s q (fnode f c_new)"
    and "dirty_parent_paths s = dirty_parent_paths (remap_dirty_parent_paths self (fpage f) q)"
    and "cow_spine s (ctx_pages fs) (fpage f) q = (Ok (), self')"
proof -
  let ?p = "fpage f"
  obtain q s1 s2 s3 where al: "allocate_page self = (Ok q, s1)"
    and cw: "cow_internal_repointing_child s1 ?p q c_old c_new = (Ok (), s2)"
    and fr: "free_page s2 ?p = (Ok (), s3)"
    and rest: "cow_spine (remap_dirty_parent_paths s3 ?p q) (ctx_pages fs) ?p q = (Ok (), self')"
    using assms(1) by (auto simp: mbind_eq_Ok)
  note a = alloc_good [OF assms(2) al]
  have ag1: "agree self s1 UNIV" using a(3,4) by (auto intro: agree_core)
  have n1: "node_at s1 ?p (fnode f c_old)" using assms(3) node_at_agree [OF ag1, of ?p] by simp
  have qf: "q \<notin> fst ` set (fresh_leaves s1)"
    using a(2,3) assms(2) by (auto simp: good_def core_def)
  have w: "good s2 (insert q U)" "core s2 = core s1" "same_pages (tr_pager s1) (tr_pager s2) (- {q})"
      "node_at s2 q (fnode f c_new)"
    using cow_good [OF a(1) n1 qf, of c_old c_new] fnode_repoint [OF assms(5), of c_new] cw
    by (metis prod.inject)+
  have ag2: "agree self s2 (- {q})" using agree_trans [OF ag1 agree_core [OF w(2,3)]] by simp
  have pq: "?p \<noteq> q" using assms(4) a(2) by auto
  have n2: "?p \<notin> fst ` set (fresh_leaves s2)"
    using node_not_cached [OF n1] w(2) by (auto simp: core_def)
  have pd: "?p \<notin> fst ` set (dirty_leaves s2)" using assms(6) w(2) a(3) by (auto simp: core_def)
  have f: "good s3 (insert q U - {?p})" "core s3 = core s2" "tr_pager s3 = tr_pager s2"
    using free_good [OF w(1) _ n2 pd] fr assms(4) by (metis insertCI prod.inject)+
  define s4 where "s4 = remap_dirty_parent_paths s3 ?p q"
  have c4: "caches s4 = caches self" "tr_pager s4 = tr_pager s2"
    using core_caches [OF f(2)] core_caches [OF w(2)] core_caches [OF a(3)] f(3) by (simp_all add: s4_def)
  have "agree s2 s4 UNIV"
    using c4 core_caches [OF w(2)] core_caches [OF a(3)] by (intro agree_caches) auto
  then have "node_at s4 q (fnode f c_new)" using w(4) node_at_agree [of s2 s4 UNIV q] by simp
  moreover have "dirty_parent_paths s3 = dirty_parent_paths self" using f(2) w(2) a(3) by (simp add: core_def)
  moreover have "good s4 (insert q U - {?p})" using f(1) by (simp add: s4_def)
  moreover have "same_pages (tr_pager self) (tr_pager s4) (- {q})" using ag2 c4(2) by (simp add: agree_def)
  ultimately show ?thesis
    using that [of q s4] a(2) c4(1) rest by (simp add: s4_def remap_dirty_parent_paths_def)
qed

lemma cow_spine_spec:
  assumes "cow_spine self (ctx_pages ctx) c_old (page_of t) = (Ok (), self')"
    and "good self U" and "frames_hold self ctx c_old" and "holds self t"
    and "distinct (ctx_pages ctx @ ctx_side ctx @ plist t)"
    and "set (ctx_pages ctx @ ctx_side ctx @ plist t) \<subseteq> U"
    and "c_old \<notin> set (ctx_side ctx)" and "set (ctx_pages ctx) \<inter> fst ` set (dirty_leaves self) = {}"
    and "set (dirty_parent_paths self) \<subseteq> hole_paths ctx (set (lpaths t))"
  shows "\<exists>ctx'. ctx_like ctx ctx' \<and> root_page_id self' = page_of (plugs ctx' t) \<and>
    frames_hold self' ctx' (page_of t) \<and> distinct (ctx_pages ctx') \<and>
    set (ctx_pages ctx') \<inter> (U - set (ctx_pages ctx)) = {} \<and>
    good self' (U - set (ctx_pages ctx) \<union> set (ctx_pages ctx')) \<and>
    caches self' = caches self \<and> same_pages (tr_pager self) (tr_pager self') (U - set (ctx_pages ctx)) \<and>
    set (dirty_parent_paths self') \<subseteq> hole_paths ctx' (set (lpaths t))"
  using assms
proof (induction ctx arbitrary: self c_old t U)
  case Nil
  then show ?case
    by (intro exI [of _ "[]"]) (auto simp: ctx_like_def good_paths caches_def)
next
  case (Cons f fs)
  let ?p = "fpage f"
  have pU: "?p \<in> U" "?p \<notin> fst ` set (dirty_leaves self)" "c_old \<notin> set (fside f)"
      "node_at self ?p (fnode f c_old)"
    using Cons.prems(3,6,7,8) by auto
  obtain q s4 where q: "q \<notin> U" "good s4 (insert q U - {?p})" and c4: "caches s4 = caches self"
    and sm4: "same_pages (tr_pager self) (tr_pager s4) (- {q})" and nq4: "node_at s4 q (fnode f (page_of t))"
    and dpp4: "dirty_parent_paths s4 = dirty_parent_paths (remap_dirty_parent_paths self ?p q)"
    and rest: "cow_spine s4 (ctx_pages fs) ?p q = (Ok (), self')"
    using cow_step [OF Cons.prems(1,2) pU(4,1,3,2)] by metis
  have ag4: "agree self s4 (- {q})" using c4 sm4 by (rule agree_caches)
  have pq: "?p \<noteq> q" using pU(1) q(1) by auto
  define t1 where "t1 = plug (set_fpage f q) t"
  let ?rest = "fside f @ ctx_pages fs @ ctx_side fs @ plist t"
  have dist: "distinct ?rest" "?p \<notin> set ?rest" "q \<notin> set ?rest" "set ?rest \<subseteq> insert q U - {?p}"
    using Cons.prems(5,6) q(1) unfolding image_iff by (auto simp: image_iff)
  have m1: "mset (plist t1) = add_mset q (mset (fside f) + mset (plist t))"
    by (simp add: t1_def mset_plist_plug)
  have sp1: "set (plist t1) = insert q (set (fside f) \<union> set (plist t))"
    using arg_cong [OF m1, of set_mset] by simp
  have d1: "distinct (ctx_pages fs @ ctx_side fs @ plist t1)"
  proof -
    have "mset (ctx_pages fs @ ctx_side fs @ plist t1) = mset (q # ?rest)" using m1 by simp
    then show ?thesis using dist by (metis distinct.simps(2) mset_eq_imp_distinct_iff)
  qed
  have h1: "holds s4 t1"
  proof -
    have "holds s4 t" using Cons.prems(4) holds_agree [OF ag4, of t] dist(3) by auto
    moreover have "holds s4 t'" if "t' \<in> set (fsubs f)" for t'
      using Cons.prems(3) that holds_agree [OF ag4, of t'] fsubs_pages [OF that] dist(3) by auto
    ultimately show ?thesis using nq4 by (simp add: t1_def holds_plug)
  qed
  have "\<exists>ctx'. ctx_like fs ctx' \<and> root_page_id self' = page_of (plugs ctx' t1) \<and>
    frames_hold self' ctx' (page_of t1) \<and> distinct (ctx_pages ctx') \<and>
    set (ctx_pages ctx') \<inter> ((insert q U - {?p}) - set (ctx_pages fs)) = {} \<and>
    good self' ((insert q U - {?p}) - set (ctx_pages fs) \<union> set (ctx_pages ctx')) \<and>
    caches self' = caches s4 \<and> same_pages (tr_pager s4) (tr_pager self') ((insert q U - {?p}) - set (ctx_pages fs)) \<and>
    set (dirty_parent_paths self') \<subseteq> hole_paths ctx' (set (lpaths t1))"
  proof (rule Cons.IH)
    show "cow_spine s4 (ctx_pages fs) ?p (page_of t1) = (Ok (), self')"
      using rest by (simp add: t1_def)
    show "good s4 (insert q U - {?p})" by (rule q(2))
    show "frames_hold s4 fs ?p"
      using Cons.prems(3) frames_hold_agree [OF ag4, of fs ?p] dist(3) by auto
    show "holds s4 t1" by (rule h1)
    show "distinct (ctx_pages fs @ ctx_side fs @ plist t1)" by (rule d1)
    show "set (ctx_pages fs @ ctx_side fs @ plist t1) \<subseteq> insert q U - {?p}"
      using dist(4) pq sp1 by auto
    show "?p \<notin> set (ctx_side fs)" using dist(2) by simp
    show "set (ctx_pages fs) \<inter> fst ` set (dirty_leaves s4) = {}"
      using Cons.prems(8) c4 by (auto simp: caches_def)
    show "set (dirty_parent_paths s4) \<subseteq> hole_paths fs (set (lpaths t1))"
      unfolding dpp4 t1_def by (rule remap_hole_paths) (use Cons.prems(5,9) in auto)
  qed
  then obtain ctx' where IH: "ctx_like fs ctx'" "root_page_id self' = page_of (plugs ctx' t1)"
    "frames_hold self' ctx' q" "distinct (ctx_pages ctx')"
    "set (ctx_pages ctx') \<inter> ((insert q U - {?p}) - set (ctx_pages fs)) = {}"
    "good self' ((insert q U - {?p}) - set (ctx_pages fs) \<union> set (ctx_pages ctx'))"
    "caches self' = caches s4" "same_pages (tr_pager s4) (tr_pager self') ((insert q U - {?p}) - set (ctx_pages fs))"
    "set (dirty_parent_paths self') \<subseteq> hole_paths ctx' (set (lpaths t1))"
    by (auto simp: t1_def)
  have qn: "q \<notin> set (ctx_pages fs)" using dist(3) by simp
  have agE: "agree s4 self' ((insert q U - {?p}) - set (ctx_pages fs))"
    using agree_caches [OF IH(7,8)] .
  have nq: "node_at self' q (fnode f (page_of t))"
    using h1 node_at_agree [OF agE, of q] qn pq by (simp add: t1_def holds_plug)
  have "set (fside f) \<subseteq> (insert q U - {?p}) - set (ctx_pages fs)" using dist by auto
  then have subs: "holds self' t'" if "t' \<in> set (fsubs f)" for t'
    using h1 that holds_agree [OF agE, of t'] fsubs_pages [OF that] by (simp add: t1_def holds_plug)
  have sm: "same_pages (tr_pager self) (tr_pager self') (U - set (ctx_pages (f # fs)))"
  proof -
    from same_pages_trans [OF sm4 IH(8)] show ?thesis
      by (rule same_pages_mono) (use q(1) in auto)
  qed
  have ge: "(insert q U - {?p}) - set (ctx_pages fs) \<union> set (ctx_pages ctx') =
      U - set (ctx_pages (f # fs)) \<union> set (ctx_pages (set_fpage f q # ctx'))"
    using qn pq by auto
  show ?case
  proof (intro exI [of _ "set_fpage f q # ctx'"] conjI)
    show "ctx_like (f # fs) (set_fpage f q # ctx')" using IH(1) by (auto simp: ctx_like_def)
    show "root_page_id self' = page_of (plugs (set_fpage f q # ctx') t)" using IH(2) by (simp add: t1_def)
    show "frames_hold self' (set_fpage f q # ctx') (page_of t)" using IH(3) nq subs by simp
    show "distinct (ctx_pages (set_fpage f q # ctx'))" using IH(4,5) qn pq by auto
    show "set (ctx_pages (set_fpage f q # ctx')) \<inter> (U - set (ctx_pages (f # fs))) = {}"
      using IH(5) q(1) by auto
    show "good self' (U - set (ctx_pages (f # fs)) \<union> set (ctx_pages (set_fpage f q # ctx')))"
      using IH(6) ge by simp
    show "caches self' = caches self" using IH(7) c4 by simp
    show "same_pages (tr_pager self) (tr_pager self') (U - set (ctx_pages (f # fs)))" by (rule sm)
    show "set (dirty_parent_paths self') \<subseteq> hole_paths (set_fpage f q # ctx') (set (lpaths t))"
      using IH(9) by (simp add: hole_paths_plug t1_def)
  qed
qed

end
