(* ===== verification/Tree_Split.thy ===== *)
theory Tree_Split
  imports Tree_Update
begin

text \<open>
  Propagation of a split up the spine keeps the tree stored and in order: the two halves replace
  the old child in its parent, which may itself split, up to a new root.
\<close>

section \<open>A node with a child replaced by two\<close>

lemma key_search_between:
  assumes "sorted_keys (A @ B)" and "\<forall>a \<in> set A. fst a < k" and "\<forall>b \<in> set B. k < fst b"
  shows "key_search (A @ B) k = Inr (length A)"
proof (cases "key_search (A @ B) k")
  case (Inl i)
  then have "i < length (A @ B)" "fst ((A @ B) ! i) = k" using key_search_hit [OF Inl] by auto
  then have "k \<in> fst ` set (A @ B)" by (metis image_eqI nth_mem)
  then show ?thesis using assms(2,3) by auto
next
  case (Inr i)
  note miss = key_search_miss [OF assms(1) Inr] and le = key_search_le [OF Inr]
  have "\<not> i < length A"
  proof
    assume "i < length A"
    then have "k < fst (A ! i)" "A ! i \<in> set A" using miss(2) by (auto simp: nth_append)
    then show False using assms(2) by (metis less_asym)
  qed
  moreover have "\<not> length A < i"
  proof
    assume i: "length A < i"
    then have "B \<noteq> []" using le by auto
    then have "fst (hd B) < k" "hd B \<in> set B" using miss(1) i by (auto simp: nth_append hd_conv_nth dest!: spec [of _ "length A"])
    then show False using assms(3) by (metis less_asym)
  qed
  ultimately show ?thesis using Inr by simp
qed

lemma internal_upsert_between:
  assumes "entries n = A @ B" and "sorted_keys (A @ B)" and "\<forall>a \<in> set A. fst a < k" and "\<forall>b \<in> set B. k < fst b"
  shows "internal_upsert n k c = n\<lparr>entries := A @ (k, c) # B\<rparr>"
  using key_search_between [OF assms(2-4)] assms(1) by (simp add: internal_upsert_def vec_insert_def)

fun grow :: "frame \<Rightarrow> atree \<Rightarrow> key \<Rightarrow> atree \<Rightarrow> atree \<times> (key \<times> atree) list" where
  "grow (FLeft p ts) tL sep tR = (tL, (sep, tR) # ts)"
| "grow (FEntry p t0 xs k ys) tL sep tR = (t0, xs @ (k, tL) # (sep, tR) # ys)"

lemma right_ordered_keys:
  assumes "right_ordered lo hi ts" and "below k (first_key_or ts hi)"
  shows "sorted_keys ts" and "\<forall>e \<in> set ts. k < fst e"
proof -
  have "sorted_keys ts \<and> (\<forall>e \<in> set ts. k < fst e)"
  proof (cases ts)
    case (Cons e ts')
    obtain k1 t1 where e: "e = (k1, t1)" by (cases e)
    have "ordereds k1 hi t1 ts'" "k < k1" using assms Cons e by auto
    then show ?thesis using ordereds_keys [of k1 hi t1 ts'] Cons e by (auto dest: order.strict_trans)
  qed simp
  then show "sorted_keys ts" "\<forall>e \<in> set ts. k < fst e" by auto
qed

lemma pages_map_keys [simp]: "map fst (map (\<lambda>(k, t). (k, page_of t)) ts) = map fst ts"
  by (simp add: comp_def case_prod_beta)

lemma set_pages_map: "(\<forall>e \<in> set (map (\<lambda>(k, t). (k, page_of t)) ts). P (fst e)) = (\<forall>e \<in> set ts. P (fst e))"
  by auto

lemma grow_node:
  assumes "fordered lo hi f" and "flo f lo < sep" and "below sep (fhi f hi)" and "c \<notin> set (fside f)"
    and "grow f tL sep tR = (c0, es)"
  shows "internal_upsert (repoint_child (fnode f c) c (page_of tL)) sep (page_of tR) = node_of c0 es"
proof (cases f)
  case (FLeft p ts)
  have r: "sorted_keys ts" "\<forall>e \<in> set ts. sep < fst e"
    using right_ordered_keys [of lo hi ts sep] assms(1,3) FLeft by auto
  have "internal_upsert (fnode f (page_of tL)) sep (page_of tR) =
      (fnode f (page_of tL))\<lparr>entries := [] @ (sep, page_of tR) # map (\<lambda>(k, t). (k, page_of t)) ts\<rparr>"
  proof (rule internal_upsert_between)
    show "sorted_keys ([] @ map (\<lambda>(k, t). (k, page_of t)) ts)" using r(1) unfolding append_Nil pages_map_keys .
  qed (use r(2) FLeft in auto)
  then show ?thesis
    using fnode_repoint [OF assms(4)] assms(5) FLeft by (auto simp: node_of_def)
next
  case (FEntry p t0 xs k ys)
  let ?m = "map (\<lambda>(k, t). (k, page_of t))"
  have r: "sorted_keys ys" "\<forall>e \<in> set ys. sep < fst e"
    using right_ordered_keys [of k hi ys sep] assms(1,3) FEntry by auto
  have l: "sorted_keys xs" "\<forall>e \<in> set xs. fst e < k" "k < sep"
    using ordereds_keys [of lo "Some k" t0 xs] assms(1,2) FEntry by auto
  have "internal_upsert (fnode f (page_of tL)) sep (page_of tR) =
      (fnode f (page_of tL))\<lparr>entries := (?m xs @ [(k, page_of tL)]) @ (sep, page_of tR) # ?m ys\<rparr>"
  proof (rule internal_upsert_between)
    show "entries (fnode f (page_of tL)) = (?m xs @ [(k, page_of tL)]) @ ?m ys" using FEntry by simp
    show "sorted_keys ((?m xs @ [(k, page_of tL)]) @ ?m ys)"
      using l r unfolding map_append pages_map_keys by (fastforce simp: sorted_wrt_append)
    show "\<forall>a \<in> set (?m xs @ [(k, page_of tL)]). fst a < sep" using l by fastforce
    show "\<forall>b \<in> set (?m ys). sep < fst b" using r(2) by fastforce
  qed
  then show ?thesis
    using fnode_repoint [OF assms(4)] assms(5) FEntry by (auto simp: node_of_def)
qed

lemma grow_ordered:
  assumes "fordered lo hi f" and "flo f lo < sep" and "below sep (fhi f hi)"
    and "ordered (flo f lo) (Some sep) tL" and "ordered sep (fhi f hi) tR" and "grow f tL sep tR = (c0, es)"
  shows "ordereds lo hi c0 es"
proof -
  have b: "right_ordered x hi ys \<Longrightarrow> below sep (first_key_or ys hi) \<Longrightarrow> below sep hi \<and> right_ordered sep hi ys"
    for x ys by (cases ys) (auto dest: below_trans)
  show ?thesis
  proof (cases f)
    case (FLeft p ts)
    then show ?thesis
      using assms b [of lo ts] by (auto simp: ordereds_hole [of sep hi tR])
  next
    case (FEntry p t0 xs k ys)
    then show ?thesis
      using assms b [of k ys] by (auto simp: ordereds_append ordereds_hole [of sep hi tR])
  qed
qed

lemma grow_leaves: "grow f tL sep tR = (c0, es) \<Longrightarrow> aleaves c0 @ aleavess es = fll f @ aleaves tL @ aleaves tR @ flr f"
  by (cases f) auto

lemma grow_pages:
  "grow f tL sep tR = (c0, es) \<Longrightarrow> mset (plist c0 @ plists es) = mset (fside f) + mset (plist tL) + mset (plist tR)"
  by (cases f) auto

lemma grow_holds:
  "grow f tL sep tR = (c0, es) \<Longrightarrow> \<forall>t \<in> set (fsubs f). holds self t \<Longrightarrow> holds self tL \<Longrightarrow> holds self tR \<Longrightarrow>
     holds self c0 \<and> (\<forall>(k, t) \<in> set es. holds self t)"
  by (cases f) force+

lemma grow_paths:
  "grow f tL sep tR = (c0, es) \<Longrightarrow>
     set (lpaths c0 @ lpathss es) = set (fpaths f) \<union> (set (lpaths tL) \<union> set (lpaths tR))"
  by (cases f) auto

section \<open>Paths through a split node\<close>

lemma hole_paths_Cons:
  "hole_paths (f # fs) S = hole_paths fs ((\<lambda>(l, path). (l, fpage f # path)) ` (set (fpaths f) \<union> S))"
  by (auto simp: hole_paths_def image_Un image_image case_prod_beta)

lemma hole_paths_in: "(l, path) \<in> S \<Longrightarrow> (l, rev (ctx_pages ctx) @ path) \<in> hole_paths ctx S"
  by (force simp: hole_paths_def)

lemma first_hop: "(l, path) \<in> set (lpaths c) \<Longrightarrow> (case path of [] \<Rightarrow> l | q # _ \<Rightarrow> q) = page_of c"
  by (cases c) auto

lemma remap_path_split_notin: "old \<notin> set path \<Longrightarrow> remap_path_split old nl nr R l path = path"
  by (induction path) auto

lemma remap_path_split_at:
  "old \<notin> set pre \<Longrightarrow> old \<notin> set path \<Longrightarrow>
     remap_path_split old nl nr R l (pre @ old # path) =
       pre @ (if (case path of [] \<Rightarrow> l | q # _ \<Rightarrow> q) \<in> R then nr else nl) # path"
  by (induction pre) (auto simp: remap_path_split_notin Let_def split: list.splits)

lemma lpathss_mem: "(l, path) \<in> set (lpathss ts) \<longleftrightarrow> (\<exists>(k, t) \<in> set ts. (l, path) \<in> set (lpaths t))"
  by (induction ts) auto

lemma plists_mem: "p \<in> set (plists ts) \<longleftrightarrow> (\<exists>(k, t) \<in> set ts. p \<in> set (plist t))"
  by (induction ts) auto

lemma split_paths:
  assumes "(l, path) \<in> set (lpaths c0 @ lpathss (es1 @ (pk, tm) # es2))"
    and "distinct (plist c0 @ plists (es1 @ (pk, tm) # es2))"
    and "R = insert (page_of tm) (set (map (\<lambda>(k, t). page_of t) es2))"
  shows "(l, (if (case path of [] \<Rightarrow> l | q # _ \<Rightarrow> q) \<in> R then nr else nl) # path)
    \<in> set (lpaths (ANode nl c0 es1)) \<union> set (lpaths (ANode nr tm es2))"
proof -
  consider (left) "(l, path) \<in> set (lpaths c0) \<union> set (lpathss es1)"
    | (right) "(l, path) \<in> set (lpaths tm) \<union> set (lpathss es2)"
    using assms(1) by auto
  then show ?thesis
  proof cases
    case left
    then obtain c where c: "(l, path) \<in> set (lpaths c)" "c = c0 \<or> (\<exists>k. (k, c) \<in> set es1)"
      by (auto simp: lpathss_mem)
    have "page_of c \<in> set (plist c0) \<union> set (plists es1)"
      using c(2) page_of_in_plist [of c] by (auto simp: plists_mem simp del: page_of_in_plist)
    moreover have "R \<subseteq> set (plist tm) \<union> set (plists es2)"
      using assms(3) by (auto simp: plists_mem) (metis page_of_in_plist case_prodI)+
    ultimately have "page_of c \<notin> R" using assms(2) by auto
    then show ?thesis using first_hop [OF c(1)] left by auto
  next
    case right
    then obtain c where c: "(l, path) \<in> set (lpaths c)" "c = tm \<or> (\<exists>k. (k, c) \<in> set es2)"
      by (auto simp: lpathss_mem)
    then have "page_of c \<in> R" using assms(3) by force
    then show ?thesis using first_hop [OF c(1)] right by auto
  qed
qed

lemma remap_split_hole_paths:
  assumes "set (dirty_parent_paths self) \<subseteq> hole_paths (f # fs) (set (lpaths tL) \<union> set (lpaths tR))"
    and "grow f tL sep tR = (c0, es1 @ (pk, tm) # es2)"
    and "distinct (ctx_pages (f # fs) @ ctx_side (f # fs) @ plist tL @ plist tR)"
  shows "set (dirty_parent_paths (remap_dirty_parent_paths_split self (fpage f) nl nr (node_of tm es2))) \<subseteq>
    hole_paths fs (set (lpaths (ANode nl c0 es1)) \<union> set (lpaths (ANode nr tm es2)))"
proof -
  let ?es = "es1 @ (pk, tm) # es2"
  define R where "R = insert (page_of tm) (set (map (\<lambda>(k, t). page_of t) es2))"
  have pg: "set (plist c0 @ plists ?es) = set (fside f) \<union> set (plist tL) \<union> set (plist tR)"
    using arg_cong [OF grow_pages [OF assms(2)], of set_mset] by simp
  have dist: "distinct (plist c0 @ plists ?es)" "fpage f \<notin> set (plist c0 @ plists ?es)"
      "fpage f \<notin> set (ctx_pages fs @ ctx_side fs)"
  proof -
    have "mset (plist c0 @ plists ?es) = mset (fside f @ plist tL @ plist tR)"
      using grow_pages [OF assms(2)] by simp
    moreover have "distinct (fside f @ plist tL @ plist tR)" using assms(3) by auto
    ultimately show "distinct (plist c0 @ plists ?es)" using mset_eq_imp_distinct_iff by blast
    show "fpage f \<notin> set (plist c0 @ plists ?es)" unfolding pg using assms(3) by auto
    show "fpage f \<notin> set (ctx_pages fs @ ctx_side fs)" using assms(3) by auto
  qed
  have "(l, remap_path_split (fpage f) nl nr R l path) \<in>
      hole_paths fs (set (lpaths (ANode nl c0 es1)) \<union> set (lpaths (ANode nr tm es2)))"
    if mem: "(l, path) \<in> set (dirty_parent_paths self)" for l path
  proof -
    have "(l, path) \<in> ctx_paths fs \<or>
        (\<exists>path'. path = rev (ctx_pages fs) @ fpage f # path' \<and> (l, path') \<in> set (lpaths c0 @ lpathss ?es))"
      using subsetD [OF assms(1) mem] grow_paths [OF assms(2)] unfolding hole_paths_Cons
      by (auto simp: hole_paths_def)
    then show ?thesis
    proof (elim disjE exE conjE)
      assume o: "(l, path) \<in> ctx_paths fs"
      have "fpage f \<notin> set path" using ctx_paths_pages [OF o] dist(3) by auto
      then show ?thesis using o by (simp add: remap_path_split_notin hole_paths_def)
    next
      fix path' assume p: "path = rev (ctx_pages fs) @ fpage f # path'" "(l, path') \<in> set (lpaths c0 @ lpathss ?es)"
      have "fpage f \<notin> set path'"
        using p(2) dist(2) lpaths_pages [of l path' c0] lpathss_pages [of l path' ?es]
        unfolding set_append Un_iff by blast
      then have "remap_path_split (fpage f) nl nr R l path =
          rev (ctx_pages fs) @ (if (case path' of [] \<Rightarrow> l | q # _ \<Rightarrow> q) \<in> R then nr else nl) # path'"
        using remap_path_split_at [of "fpage f" "rev (ctx_pages fs)"] dist(3) p(1) by simp
      then show ?thesis
        using hole_paths_in [OF split_paths [OF p(2) dist(1) R_def, of nr nl]] by (simp only:)
    qed
  qed
  then show ?thesis
    by (auto simp: remap_dirty_parent_paths_split_def node_of_def R_def case_prod_beta comp_def)
qed

section \<open>The tree after the levels above a change were rewritten\<close>

text \<open>
  Session \<open>self'\<close> stores the tree \<open>a'\<close> with leaves \<open>ls\<close>. Of the owned pages \<open>U\<close> it gave back
  \<open>P\<close>, kept the others as they were, and \<open>a'\<close> uses the pages \<open>W\<close> of them beside new ones.
\<close>

definition rebuilt :: "tree \<Rightarrow> page_id set \<Rightarrow> page_id set \<Rightarrow> page_id set \<Rightarrow> (page_id \<times> leaf) list \<Rightarrow> tree \<Rightarrow> atree \<Rightarrow> bool" where
  "rebuilt self U P W ls self' a' \<longleftrightarrow> root_page_id self' = page_of a' \<and> holds self' a' \<and>
     ordered [] None a' \<and> distinct (plist a') \<and> aleaves a' = ls \<and> set (plist a') \<inter> (U - P) = W \<and>
     good self' (U - P \<union> set (plist a')) \<and> caches self' = caches self \<and>
     same_pages (tr_pager self) (tr_pager self') (U - P) \<and>
     set (dirty_parent_paths self') \<subseteq> set (lpaths a')"

lemma rebuilt_via:
  assumes "rebuilt s U1 P1 W1 ls self' a'" and "caches s = caches self"
    and "same_pages (tr_pager self) (tr_pager s) (U - P)"
    and "U - P \<subseteq> U1 - P1" and "U1 - P1 \<subseteq> U - P \<union> W1" and "W1 \<inter> (U - P) = W"
  shows "rebuilt self U P W ls self' a'"
proof -
  note r = assms(1) [unfolded rebuilt_def]
  have "set (plist a') \<inter> (U - P) = W" using r assms(4-6) by blast
  moreover have "U1 - P1 \<union> set (plist a') = U - P \<union> set (plist a')" using r assms(4,5) by blast
  moreover have "same_pages (tr_pager self) (tr_pager self') (U - P)"
  proof -
    have "same_pages (tr_pager s) (tr_pager self') (U1 - P1)" using r by blast
    from same_pages_trans [OF assms(3) this] show ?thesis
      by (rule same_pages_mono) (use assms(4) in blast)
  qed
  ultimately show ?thesis using r assms(2) unfolding rebuilt_def by simp
qed

lemma spine_rebuilt:
  assumes "cow_spine self (ctx_pages ctx) c_old (page_of t) = (Ok (), self')"
    and "good self U" and "frames_hold self ctx c_old" and "holds self t"
    and "distinct (ctx_pages ctx @ ctx_side ctx @ plist t)"
    and "set (ctx_pages ctx @ ctx_side ctx @ plist t) \<subseteq> U"
    and "c_old \<notin> set (ctx_side ctx)" and "set (ctx_pages ctx) \<inter> fst ` set (dirty_leaves self) = {}"
    and "set (dirty_parent_paths self) \<subseteq> hole_paths ctx (set (lpaths t))"
    and "ctx_ordered ctx" and "ordered (ctx_lo ctx) (ctx_hi ctx) t"
  shows "\<exists>a'. rebuilt self U (set (ctx_pages ctx)) (set (ctx_side ctx) \<union> set (plist t))
    (ctx_ll ctx @ aleaves t @ ctx_lr ctx) self' a'"
proof -
  let ?P = "set (ctx_pages ctx)"
  obtain ctx' where c: "ctx_like ctx ctx'" "root_page_id self' = page_of (plugs ctx' t)"
    "frames_hold self' ctx' (page_of t)" "distinct (ctx_pages ctx')"
    "set (ctx_pages ctx') \<inter> (U - ?P) = {}" "good self' (U - ?P \<union> set (ctx_pages ctx'))"
    "caches self' = caches self" "same_pages (tr_pager self) (tr_pager self') (U - ?P)"
    "set (dirty_parent_paths self') \<subseteq> hole_paths ctx' (set (lpaths t))"
    using cow_spine_spec [OF assms(1-9)] by blast
  note eqs = ctx_like_eqs [OF c(1)]
  have old: "set (ctx_side ctx) \<union> set (plist t) \<subseteq> U - ?P" using assms(5,6) by auto
  have pl: "set (plist (plugs ctx' t)) = set (ctx_pages ctx') \<union> (set (ctx_side ctx) \<union> set (plist t))"
    using eqs(6) by (auto simp: set_plugs)
  have "holds self' t"
    using assms(4) holds_agree [OF agree_caches [OF c(7,8)], of t] old by simp
  then have "holds self' (plugs ctx' t)" using c(3) by (simp add: holds_plugs)
  moreover have "ordered [] None (plugs ctx' t)" using assms(10,11) eqs by (simp add: ordered_plugs)
  moreover have "distinct (plist (plugs ctx' t))"
    unfolding distinct_plugs using assms(5) c(4,5) eqs(6) old by auto
  moreover have "aleaves (plugs ctx' t) = ctx_ll ctx @ aleaves t @ ctx_lr ctx"
    using eqs by (simp add: aleaves_plugs)
  moreover have "set (plist (plugs ctx' t)) \<inter> (U - ?P) = set (ctx_side ctx) \<union> set (plist t)"
    unfolding pl using c(5) old by blast
  moreover have "U - ?P \<union> set (plist (plugs ctx' t)) = U - ?P \<union> set (ctx_pages ctx')"
    unfolding pl using old by blast
  ultimately show ?thesis
    using c(2,6-9) by (intro exI [of _ "plugs ctx' t"]) (simp add: rebuilt_def lpaths_plugs_eq)
qed

section \<open>Steps of one level\<close>

lemma read_internal_node_at: "node_at self p n \<Longrightarrow> read_internal self p = Ok n"
  by (auto simp: node_at_def page_bytes_def read_internal_def internal_layout_decode(2))

lemma write_internal_fits: "write_internal self p n = (Ok (), self') \<Longrightarrow> internal_fits n (tr_page_size self)"
  unfolding internal_fits_def Let_def entry_bytes_len_fits
  by (auto simp: write_internal_def encode_internal_def SLOT_DIRECTORY_ENTRY_SIZE_def Let_def
      split: result.splits if_splits)

lemma write_internal_step:
  assumes "write_internal self p n = (Ok (), self')" and "good self U" and "p \<notin> fst ` set (fresh_leaves self)"
  shows "good self' U" and "core self' = core self" and "same_pages (tr_pager self) (tr_pager self') (- {p})"
    and "node_at self' p n"
  using write_internal_good [OF assms(2) write_internal_fits [OF assms(1)] assms(3)] assms(1)
  by (metis prod.inject)+

lemma free_step:
  assumes "free_page self p = (Ok (), self')" and "good self U" and "p \<in> U"
    and "p \<notin> fst ` set (fresh_leaves self)" and "p \<notin> fst ` set (dirty_leaves self)"
  shows "good self' (U - {p})" and "core self' = core self" and "tr_pager self' = tr_pager self"
  using free_good [OF assms(2-5)] assms(1) by (metis prod.inject)+

text \<open>
  A replaced page: the new pages \<open>Q\<close> hold nodes, the old page \<open>p\<close> is given back, and the session
  is otherwise unchanged.
\<close>

definition replaced :: "tree \<Rightarrow> page_id set \<Rightarrow> page_id set \<Rightarrow> page_id \<Rightarrow> tree \<Rightarrow> bool" where
  "replaced self U Q p s \<longleftrightarrow> Q \<inter> U = {} \<and> good s (Q \<union> U - {p}) \<and> core s = core self \<and>
     same_pages (tr_pager self) (tr_pager s) (- Q)"

lemma replaced_agree: "replaced self U Q p s \<Longrightarrow> agree self s U"
  unfolding replaced_def by (auto intro!: agree_core elim!: same_pages_mono)

lemma new_not_cached: "good self U \<Longrightarrow> q \<notin> U \<Longrightarrow> q \<notin> fst ` set (fresh_leaves self) \<and> q \<notin> fst ` set (dirty_leaves self)"
  by (auto simp: good_def)

lemma replace_one:
  assumes "allocate_page self = (Ok q, s1)" and "write_internal s1 q n = (Ok (), s2)" and "free_page s2 p = (Ok (), s3)"
    and "good self U" and "node_at self p m" and "p \<in> U" and "p \<notin> fst ` set (dirty_leaves self)"
  shows "replaced self U {q} p s3" and "node_at s3 q n" and "q \<noteq> p"
proof -
  note a = alloc_good [OF assms(4,1)]
  note nf = new_not_cached [OF assms(4) a(2)]
  have f1: "fresh_leaves s1 = fresh_leaves self" "dirty_leaves s1 = dirty_leaves self"
    using a(3) by (simp_all add: core_def)
  note w = write_internal_step [OF assms(2) a(1)] 
  have w1: "good s2 (insert q U)" "core s2 = core s1" "same_pages (tr_pager s1) (tr_pager s2) (- {q})"
      "node_at s2 q n"
    using w nf f1 by auto
  have f2: "fresh_leaves s2 = fresh_leaves self" "dirty_leaves s2 = dirty_leaves self"
    using w1(2) f1 by (simp_all add: core_def)
  have fr: "good s3 (insert q U - {p})" "core s3 = core s2" "tr_pager s3 = tr_pager s2"
    using free_step [OF assms(3) w1(1)] assms(6,7) node_not_cached [OF assms(5)] f2 by auto
  show "replaced self U {q} p s3"
    using a(2,3,4) w1 fr by (auto simp: replaced_def)
  have "agree s2 s3 UNIV" using fr by (intro agree_core) auto
  then show "node_at s3 q n" using w1(4) node_at_agree [of s2 s3 UNIV q] by simp
  show "q \<noteq> p" using a(2) assms(6) by auto
qed

lemma replace_two:
  assumes "allocate_page self = (Ok q, s1)" and "allocate_page s1 = (Ok r, s2)"
    and "write_internal s2 q n = (Ok (), s3)" and "write_internal s3 r m = (Ok (), s4)"
    and "free_page s4 p = (Ok (), s5)"
    and "good self U" and "node_at self p m'" and "p \<in> U" and "p \<notin> fst ` set (dirty_leaves self)"
  shows "replaced self U {q, r} p s5" and "node_at s5 q n" and "node_at s5 r m" and "q \<noteq> r"
    and "q \<noteq> p" and "r \<noteq> p"
proof -
  note a = alloc_good [OF assms(6,1)]
  note b = alloc_good [OF a(1) assms(2)]
  note nq = new_not_cached [OF assms(6) a(2)] and nr = new_not_cached [OF a(1) b(2)]
  have f2: "fresh_leaves s2 = fresh_leaves self" "dirty_leaves s2 = dirty_leaves self"
      "fresh_leaves s1 = fresh_leaves self" "dirty_leaves s1 = dirty_leaves self"
    using a(3) b(3) by (simp_all add: core_def)
  have w: "good s3 (insert r (insert q U))" "core s3 = core s2" "same_pages (tr_pager s2) (tr_pager s3) (- {q})"
      "node_at s3 q n"
    using write_internal_step [OF assms(3) b(1)] nq f2 by auto
  have f3: "fresh_leaves s3 = fresh_leaves self" "dirty_leaves s3 = dirty_leaves self"
    using w(2) f2 by (simp_all add: core_def)
  have x: "good s4 (insert r (insert q U))" "core s4 = core s3" "same_pages (tr_pager s3) (tr_pager s4) (- {r})"
      "node_at s4 r m"
    using write_internal_step [OF assms(4) w(1)] nr f2 f3 by auto
  have f4: "fresh_leaves s4 = fresh_leaves self" "dirty_leaves s4 = dirty_leaves self"
    using x(2) f3 by (simp_all add: core_def)
  have fr: "good s5 (insert r (insert q U) - {p})" "core s5 = core s4" "tr_pager s5 = tr_pager s4"
    using free_step [OF assms(5) x(1)] assms(8,9) node_not_cached [OF assms(7)] f4 by auto
  show qr: "q \<noteq> r" using b(2) by auto
  have "same_pages (tr_pager self) (tr_pager s5) (- {q, r})"
    using same_pages_trans [OF w(3) x(3)] a(4) b(4) fr(3) by (auto elim!: same_pages_mono)
  then show "replaced self U {q, r} p s5"
    using a(2,3) b(2,3) w(2) x(2) fr(1,2) by (auto simp: replaced_def insert_commute)
  have ag: "agree s4 s5 UNIV" "agree s3 s4 (- {r})" using fr x by (auto intro!: agree_core)
  then show "node_at s5 r m" using x(4) node_at_agree [of s4 s5 UNIV r] by simp
  show "node_at s5 q n"
    using w(4) qr node_at_agree [OF ag(2), of q] node_at_agree [OF ag(1), of q] by simp
  show "q \<noteq> p" "r \<noteq> p" using a(2) b(2) assms(8) by auto
qed

section \<open>Propagation of a split\<close>

lemma split_node_of:
  assumes "split_internal (node_of c0 es) = Ok (l, r, pk)"
  obtains es1 tm es2 where "es = es1 @ (pk, tm) # es2" and "l = node_of c0 es1" and "r = node_of tm es2"
proof -
  have ne: "entries (node_of c0 es) \<noteq> []"
    using assms by (auto simp: split_internal_def internal_split_def index_def)
  obtain l' r' p' where s: "internal_split (node_of c0 es) = Ok (l', r', p')"
      "entries (node_of c0 es) = entries l' @ (p', leftmost_child r') # entries r'"
      "leftmost_child l' = leftmost_child (node_of c0 es)"
    using internal_split_spec [OF ne] by metis
  then have eq: "l' = l" "r' = r" "p' = pk" using assms by (auto simp: split_internal_def)
  have "map (\<lambda>(k, t). (k, page_of t)) es = entries l @ (pk, leftmost_child r) # entries r"
    using s(2) eq by (simp add: node_of_def)
  then obtain es1 e es2 where d: "es = es1 @ e # es2" "map (\<lambda>(k, t). (k, page_of t)) es1 = entries l"
      "(case e of (k, t) \<Rightarrow> (k, page_of t)) = (pk, leftmost_child r)"
      "map (\<lambda>(k, t). (k, page_of t)) es2 = entries r"
    by (auto simp: map_eq_append_conv map_eq_Cons_conv)
  obtain k tm where e: "e = (k, tm)" by (cases e)
  show ?thesis
    by (rule that [of es1 tm es2]) (use d e s(3) eq in \<open>auto simp: node_of_def intro!: internal.equality\<close>)
qed

definition split_pre :: "tree \<Rightarrow> page_id set \<Rightarrow> frame list \<Rightarrow> page_id \<Rightarrow> atree \<Rightarrow> key \<Rightarrow> atree \<Rightarrow> bool" where
  "split_pre self U ctx c tL sep tR \<longleftrightarrow> good self U \<and> frames_hold self ctx c \<and> holds self tL \<and> holds self tR \<and>
     distinct (ctx_pages ctx @ ctx_side ctx @ plist tL @ plist tR) \<and>
     set (ctx_pages ctx @ ctx_side ctx @ plist tL @ plist tR) \<subseteq> U \<and> c \<notin> set (ctx_side ctx) \<and>
     set (ctx_pages ctx) \<inter> fst ` set (dirty_leaves self) = {} \<and> ctx_ordered ctx \<and>
     ordered (ctx_lo ctx) (Some sep) tL \<and> ordered sep (ctx_hi ctx) tR \<and>
     ctx_lo ctx < sep \<and> below sep (ctx_hi ctx) \<and>
     set (dirty_parent_paths self) \<subseteq> hole_paths ctx (set (lpaths tL) \<union> set (lpaths tR))"

lemma side_pages:
  "split_pre self U ctx c tL sep tR \<Longrightarrow>
     set (ctx_side ctx) \<union> set (plist tL) \<union> set (plist tR) \<subseteq> U - set (ctx_pages ctx)"
  unfolding split_pre_def distinct_append set_append by blast

text \<open>The node of the innermost frame once its child is replaced by two.\<close>

lemma level_facts:
  assumes "split_pre self U (f # fs) c tL sep tR" and "grow f tL sep tR = (c0, es)"
  shows "read_internal self (fpage f) = Ok (fnode f c)"
    and "internal_upsert (repoint_child (fnode f c) c (page_of tL)) sep (page_of tR) = node_of c0 es"
    and "ordereds (ctx_lo fs) (ctx_hi fs) c0 es"
    and "distinct (fpage f # plist c0 @ plists es @ ctx_pages fs @ ctx_side fs)"
    and "set (plist c0 @ plists es) = set (fside f) \<union> set (plist tL) \<union> set (plist tR)"
    and "holds self c0" and "\<forall>(k, t) \<in> set es. holds self t"
proof -
  note pre = assms(1) [unfolded split_pre_def]
  show "read_internal self (fpage f) = Ok (fnode f c)"
    using pre by (simp add: read_internal_node_at)
  show "internal_upsert (repoint_child (fnode f c) c (page_of tL)) sep (page_of tR) = node_of c0 es"
    by (rule grow_node [OF _ _ _ _ assms(2)]) (use pre in auto)
  show "ordereds (ctx_lo fs) (ctx_hi fs) c0 es"
    by (rule grow_ordered [OF _ _ _ _ _ assms(2)]) (use pre in auto)
  have "mset (fpage f # plist c0 @ plists es @ ctx_pages fs @ ctx_side fs) =
      mset (ctx_pages (f # fs) @ ctx_side (f # fs) @ plist tL @ plist tR)"
    using grow_pages [OF assms(2)] by simp
  moreover have "distinct (ctx_pages (f # fs) @ ctx_side (f # fs) @ plist tL @ plist tR)" using pre by blast
  ultimately show "distinct (fpage f # plist c0 @ plists es @ ctx_pages fs @ ctx_side fs)"
    using mset_eq_imp_distinct_iff by blast
  show "set (plist c0 @ plists es) = set (fside f) \<union> set (plist tL) \<union> set (plist tR)"
    using arg_cong [OF grow_pages [OF assms(2)], of set_mset] by simp
  have "\<forall>t \<in> set (fsubs f). holds self t" "holds self tL" "holds self tR" using pre by auto
  then show "holds self c0" "\<forall>(k, t) \<in> set es. holds self t"
    using grow_holds [OF assms(2), of self] by auto
qed

lemma level_pages:
  assumes "split_pre self U (f # fs) c tL sep tR" and "grow f tL sep tR = (c0, es)"
  shows "set (plist c0 @ plists es @ ctx_pages fs @ ctx_side fs) \<subseteq> U - {fpage f}"
proof -
  note lev = level_facts(4,5) [OF assms]
  have "set (plist c0 @ plists es @ ctx_pages fs @ ctx_side fs) \<subseteq> U"
    using lev(2) assms(1) [unfolded split_pre_def] by auto
  moreover have "fpage f \<notin> set (plist c0 @ plists es @ ctx_pages fs @ ctx_side fs)"
    using lev(1) by simp
  ultimately show ?thesis by blast
qed

lemma fit_paths:
  assumes "split_pre self U (f # fs) c tL sep tR" and "grow f tL sep tR = (c0, es)"
    and "dirty_parent_paths s = dirty_parent_paths self"
  shows "set (dirty_parent_paths (remap_dirty_parent_paths s (fpage f) q)) \<subseteq>
    hole_paths fs (set (lpaths (ANode q c0 es)))"
proof -
  let ?S = "set (lpaths tL) \<union> set (lpaths tR)"
  note pre = assms(1) [unfolded split_pre_def]
  have "(l, map (\<lambda>p. if p = fpage f then q else p) path) \<in> hole_paths (set_fpage f q # fs) ?S"
    if "(l, path) \<in> set (dirty_parent_paths self)" for l path
  proof (rule hole_paths_rename)
    show "(l, path) \<in> hole_paths (f # fs) ?S" using that pre by auto
    show "fpage f \<notin> set (ctx_pages fs) \<union> set (ctx_side (f # fs))" using pre by auto
    fix l path assume "(l, path) \<in> ?S"
    then have "set path \<subseteq> set (plist tL) \<union> set (plist tR)" using lpaths_pages by blast
    then show "fpage f \<notin> set path" using pre by auto
  qed
  moreover have "hole_paths (set_fpage f q # fs) ?S = hole_paths fs (set (lpaths (ANode q c0 es)))"
    using grow_paths [OF assms(2)] by (simp add: hole_paths_Cons flip: image_Un)
  ultimately show ?thesis using assms(3) by (auto simp: remap_dirty_parent_paths_def)
qed

abbreviation split_done :: "tree \<Rightarrow> page_id set \<Rightarrow> frame list \<Rightarrow> atree \<Rightarrow> atree \<Rightarrow> tree \<Rightarrow> atree \<Rightarrow> bool" where
  "split_done self U ctx tL tR self' a' \<equiv> rebuilt self U (set (ctx_pages ctx))
     (set (ctx_side ctx) \<union> set (plist tL) \<union> set (plist tR))
     (ctx_ll ctx @ aleaves tL @ aleaves tR @ ctx_lr ctx) self' a'"

lemma propagate_root:
  assumes "propagate_loop self [] c (page_of tL) sep (page_of tR) = (Ok (), self')"
    and "split_pre self U [] c tL sep tR"
  shows "\<exists>a'. split_done self U [] tL tR self' a'"
proof -
  note pre = assms(2) [unfolded split_pre_def]
  obtain q s1 s2 where al: "allocate_page self = (Ok q, s1)"
    and wr: "write_internal s1 q (node_of tL [(sep, tR)]) = (Ok (), s2)"
    and self': "self' = s2\<lparr>root_page_id := q,
        dirty_parent_paths := map (\<lambda>(leaf_id, path). (leaf_id, q # path)) (dirty_parent_paths s2)\<rparr>"
    using assms(1) by (auto simp: mbind_eq_Ok node_of_def)
  have g: "good self U" using pre by blast
  note a = alloc_good [OF g al]
  have "q \<notin> fst ` set (fresh_leaves s1)"
    using new_not_cached [OF g a(2)] a(3) by (simp add: core_def)
  note w = write_internal_step [OF wr a(1) this]
  have c: "caches self' = caches self" "tr_pager self' = tr_pager s2"
    using w(2) a(3) by (simp_all add: self' caches_def core_def)
  have sm: "same_pages (tr_pager self) (tr_pager self') U"
    using w(3) a(2,4) c(2) by (auto elim!: same_pages_mono)
  have h: "holds self' tL" "holds self' tR"
    using holds_agree [OF agree_caches [OF c(1) sm]] pre by auto
  have "agree s2 self' UNIV" unfolding self' by (auto simp: agree_def)
  then have n: "node_at self' q (node_of tL [(sep, tR)])" using w(4) node_at_agree [of s2 self' UNIV q] by simp
  have dp: "set (dirty_parent_paths self') \<subseteq> set (lpaths (ANode q tL [(sep, tR)]))"
    using pre w(2) a(3) by (fastforce simp: self' core_def hole_paths_def)
  have "good self' (insert q U)" using w(1) by (simp add: self' good_paths)
  moreover have "U \<union> set (plist (ANode q tL [(sep, tR)])) = insert q U" using pre by auto
  ultimately have "split_done self U [] tL tR self' (ANode q tL [(sep, tR)])"
    unfolding rebuilt_def using pre h n c sm dp a(2) by (auto simp: self')
  then show ?thesis by blast
qed

lemma propagate_fit:
  assumes run: "propagate_loop self (ctx_pages (f # fs)) c (page_of tL) sep (page_of tR) = (Ok (), self')"
    and spre: "split_pre self U (f # fs) c tL sep tR" and g: "grow f tL sep tR = (c0, es)"
    and fit: "internal_fits (node_of c0 es) (tr_page_size self)"
  shows "\<exists>a'. split_done self U (f # fs) tL tR self' a'"
proof -
  let ?p = "fpage f"
  note pre = spre [unfolded split_pre_def] and lev = level_facts [OF spre g]
  obtain q s1 s2 s3 where al: "allocate_page self = (Ok q, s1)"
    and wr: "write_internal s1 q (node_of c0 es) = (Ok (), s2)" and fr: "free_page s2 ?p = (Ok (), s3)"
    and rest: "cow_spine (remap_dirty_parent_paths s3 ?p q) (ctx_pages fs) ?p q = (Ok (), self')"
  proof -
    have "tr_page_size s1 = tr_page_size self" if "allocate_page self = (Ok q, s1)" for q s1
      using allocate_page_core [OF that] by (simp add: core_def)
    then show ?thesis using that run lev(1,2) fit by (auto simp: mbind_eq_Ok Let_def split: if_splits)
  qed
  have pU: "good self U" "node_at self ?p (fnode f c)" "?p \<in> U" "?p \<notin> fst ` set (dirty_leaves self)"
    using pre by auto
  note rp = replace_one [OF al wr fr pU]
  define t1 s4 where "t1 = ANode q c0 es" and "s4 = remap_dirty_parent_paths s3 ?p q"
  have qU: "q \<notin> U" and core3: "core s3 = core self" using rp(1) by (auto simp: replaced_def)
  have c4: "caches s4 = caches self" "tr_pager s4 = tr_pager s3"
    using core_caches [OF core3] by (simp_all add: s4_def)
  have sm: "same_pages (tr_pager self) (tr_pager s4) (- {q})" using rp(1) c4(2) by (simp add: replaced_def)
  have ag: "agree self s4 U" using agree_mono [OF agree_caches [OF c4(1) sm]] qU by blast
  have in_U: "set (plist c0 @ plists es @ ctx_pages fs @ ctx_side fs) \<subseteq> U - {?p}"
    by (rule level_pages [OF spre g])
  have ag34: "agree s3 s4 UNIV" using c4 core_caches [OF core3] by (intro agree_caches) auto
  have ht: "holds s4 t" if "holds self t" "set (plist t) \<subseteq> U" for t
    using that holds_agree [OF ag, of t] by simp
  have h1: "holds s4 t1"
  proof -
    have "set (plist t) \<subseteq> U" if "(k, t) \<in> set es" for k t
      using that in_U by (fastforce simp: plists_mem)
    moreover have "node_at s4 q (node_of c0 es)" using rp(2) node_at_agree [OF ag34, of q] by simp
    moreover have "holds s4 c0" using ht [OF lev(6)] in_U by auto
    ultimately show ?thesis using lev(7) ht by (fastforce simp: t1_def)
  qed
  have "\<exists>a'. rebuilt s4 ({q} \<union> U - {?p}) (set (ctx_pages fs)) (set (ctx_side fs) \<union> set (plist t1))
    (ctx_ll fs @ aleaves t1 @ ctx_lr fs) self' a'"
  proof (rule spine_rebuilt)
    show "cow_spine s4 (ctx_pages fs) ?p (page_of t1) = (Ok (), self')" using rest by (simp add: s4_def t1_def)
    show "good s4 ({q} \<union> U - {?p})" using rp(1) by (simp add: s4_def replaced_def)
    show "frames_hold s4 fs ?p" using pre frames_hold_agree [OF ag, of fs ?p] by simp
    show "holds s4 t1" by (rule h1)
    show "distinct (ctx_pages fs @ ctx_side fs @ plist t1)" using lev(4) in_U qU by (auto simp: t1_def)
    show "set (ctx_pages fs @ ctx_side fs @ plist t1) \<subseteq> {q} \<union> U - {?p}"
      using in_U rp(3) by (auto simp: t1_def)
    show "?p \<notin> set (ctx_side fs)" using lev(4) by simp
    show "set (ctx_pages fs) \<inter> fst ` set (dirty_leaves s4) = {}" using pre caches_fields(2) [OF c4(1)] by auto
    show "set (dirty_parent_paths s4) \<subseteq> hole_paths fs (set (lpaths t1))"
      unfolding s4_def t1_def by (rule fit_paths [OF spre g]) (use core3 in \<open>simp add: core_def\<close>)
    show "ctx_ordered fs" using pre by simp
    show "ordered (ctx_lo fs) (ctx_hi fs) t1" using lev(3) by (simp add: t1_def)
  qed
  then obtain a' where r: "rebuilt s4 ({q} \<union> U - {?p}) (set (ctx_pages fs)) (set (ctx_side fs) \<union> set (plist t1))
    (ctx_ll fs @ aleaves t1 @ ctx_lr fs) self' a'" by blast
  have ls: "ctx_ll fs @ aleaves t1 @ ctx_lr fs = ctx_ll (f # fs) @ aleaves tL @ aleaves tR @ ctx_lr (f # fs)"
    using grow_leaves [OF g] by (simp add: t1_def)
  have pl: "set (plist t1) = insert q (set (fside f) \<union> set (plist tL) \<union> set (plist tR))"
    using lev(5) by (simp add: t1_def)
  have "split_done self U (f # fs) tL tR self' a'"
    using r unfolding ls
  proof (rule rebuilt_via)
    show "caches s4 = caches self" by (rule c4(1))
    show "same_pages (tr_pager self) (tr_pager s4) (U - set (ctx_pages (f # fs)))"
      using sm by (rule same_pages_mono) (use qU in blast)
    show "({q} \<union> U - {?p}) - set (ctx_pages fs) \<subseteq>
        (U - set (ctx_pages (f # fs))) \<union> (set (ctx_side fs) \<union> set (plist t1))"
      unfolding pl by auto
    show "(set (ctx_side fs) \<union> set (plist t1)) \<inter> (U - set (ctx_pages (f # fs))) =
        set (ctx_side (f # fs)) \<union> set (plist tL) \<union> set (plist tR)"
      unfolding pl using side_pages [OF spre] qU unfolding ctx_side.simps set_append by blast
  qed auto
  then show ?thesis by blast
qed

lemma remap_split_simps [simp]:
  "caches (remap_dirty_parent_paths_split self p q r n) = caches self"
  "tr_pager (remap_dirty_parent_paths_split self p q r n) = tr_pager self"
  "good (remap_dirty_parent_paths_split self p q r n) U = good self U"
  by (simp_all add: remap_dirty_parent_paths_split_def caches_def good_paths Let_def)

lemma split_step:
  assumes spre: "split_pre self U (f # fs) c tL sep tR" and g: "grow f tL sep tR = (c0, es1 @ (pk, tm) # es2)"
    and rp: "replaced self U {q, r} (fpage f) s" and ne: "q \<noteq> r" "q \<noteq> fpage f" "r \<noteq> fpage f"
    and nodes: "node_at s q (node_of c0 es1)" "node_at s r (node_of tm es2)"
  shows "split_pre (remap_dirty_parent_paths_split s (fpage f) q r (node_of tm es2)) ({q, r} \<union> U - {fpage f})
    fs (fpage f) (ANode q c0 es1) pk (ANode r tm es2)"
proof -
  let ?p = "fpage f" and ?es = "es1 @ (pk, tm) # es2"
  define s4 where "s4 = remap_dirty_parent_paths_split s ?p q r (node_of tm es2)"
  note pre = spre [unfolded split_pre_def] and lev = level_facts [OF spre g] and in_U = level_pages [OF spre g]
  have qU: "q \<notin> U" "r \<notin> U" and cs: "core s = core self" and gs: "good s ({q, r} \<union> U - {?p})"
    using rp by (auto simp: replaced_def)
  have c4: "caches s4 = caches s" "tr_pager s4 = tr_pager s" by (simp_all add: s4_def)
  have ag34: "agree s s4 P" for P using c4 by (intro agree_caches) auto
  have ag: "agree self s4 U" using agree_trans [OF replaced_agree [OF rp] ag34 [of U]] by simp
  have ht: "holds s4 t" if "holds self t" "set (plist t) \<subseteq> U" for t
    using that holds_agree [OF ag, of t] by simp
  have hes: "holds s4 t" if "(k, t) \<in> set ?es" for k t
    by (rule ht) (use that lev(7) in_U in \<open>fastforce simp: plists_mem\<close>)+
  have "holds s4 c0" using ht [OF lev(6)] in_U by auto
  moreover have "node_at s4 q (node_of c0 es1)" "node_at s4 r (node_of tm es2)"
    using nodes node_at_agree [OF ag34 [of UNIV]] by simp_all
  ultimately have h: "holds s4 (ANode q c0 es1)" "holds s4 (ANode r tm es2)"
    using hes by (auto simp: Ball_def)
  have o: "ordereds (ctx_lo fs) (Some pk) c0 es1" "ordereds pk (ctx_hi fs) tm es2"
      "ctx_lo fs < pk" "below pk (ctx_hi fs)"
    using lev(3) by (simp_all add: ordereds_append)
  have d: "distinct (ctx_pages fs @ ctx_side fs @ plist (ANode q c0 es1) @ plist (ANode r tm es2))"
    using lev(4) in_U qU ne(1) by auto
  have sub: "set (ctx_pages fs @ ctx_side fs @ plist (ANode q c0 es1) @ plist (ANode r tm es2)) \<subseteq> {q, r} \<union> U - {?p}"
    using in_U ne by auto
  have dp: "set (dirty_parent_paths s4) \<subseteq>
      hole_paths fs (set (lpaths (ANode q c0 es1)) \<union> set (lpaths (ANode r tm es2)))"
    unfolding s4_def
    by (rule remap_split_hole_paths [OF _ g]) (use pre cs in \<open>simp_all add: core_def\<close>)
  have fh: "frames_hold s4 fs ?p" using pre frames_hold_agree [OF ag, of fs ?p] by simp
  have dl: "set (ctx_pages fs) \<inter> fst ` set (dirty_leaves s4) = {}"
    using pre caches_fields(2) [OF c4(1)] caches_fields(2) [OF core_caches [OF cs]] by auto
  have "good s4 ({q, r} \<union> U - {?p})" using gs by (simp add: s4_def)
  moreover have "?p \<notin> set (ctx_side fs)" "ctx_ordered fs" using lev(4) pre by simp_all
  ultimately show ?thesis
    unfolding s4_def [symmetric] split_pre_def using fh h d sub dl o dp by (simp only: ordered.simps) blast
qed

lemma propagate_spec:
  assumes "propagate_loop self (ctx_pages ctx) c (page_of tL) sep (page_of tR) = (Ok (), self')"
    and "split_pre self U ctx c tL sep tR"
  shows "\<exists>a'. split_done self U ctx tL tR self' a'"
  using assms
proof (induction ctx arbitrary: self U c tL sep tR)
  case Nil
  then show ?case using propagate_root by simp
next
  case (Cons f fs)
  let ?p = "fpage f"
  obtain c0 es where g: "grow f tL sep tR = (c0, es)" by (cases "grow f tL sep tR")
  note pre = Cons.prems(2) [unfolded split_pre_def] and lev = level_facts [OF Cons.prems(2) g]
  show ?case
  proof (cases "internal_fits (node_of c0 es) (tr_page_size self)")
    case True
    then show ?thesis using propagate_fit [OF Cons.prems g] by blast
  next
    case False
    have size: "tr_page_size s1 = tr_page_size self" if "allocate_page self = (Ok q, s1)" for q s1
      using allocate_page_core [OF that] by (simp add: core_def)
    obtain q r l rt pk s1 s2 s3 s4 s5 where al: "allocate_page self = (Ok q, s1)"
      and sp: "split_internal (node_of c0 es) = Ok (l, rt, pk)" and al2: "allocate_page s1 = (Ok r, s2)"
      and wr: "write_internal s2 q l = (Ok (), s3)" "write_internal s3 r rt = (Ok (), s4)"
      and fr: "free_page s4 ?p = (Ok (), s5)"
      and rest: "propagate_loop (remap_dirty_parent_paths_split s5 ?p q r rt) (ctx_pages fs) ?p q pk r = (Ok (), self')"
      using Cons.prems(1) lev(1,2) False size by (auto simp: mbind_eq_Ok Let_def split: if_splits prod.splits)
    obtain es1 tm es2 where es: "es = es1 @ (pk, tm) # es2" "l = node_of c0 es1" "rt = node_of tm es2"
      using split_node_of [OF sp] by metis
    have pU: "good self U" "node_at self ?p (fnode f c)" "?p \<in> U" "?p \<notin> fst ` set (dirty_leaves self)"
      using pre by auto
    note rp = replace_two [OF al al2 wr fr pU]
    let ?s = "remap_dirty_parent_paths_split s5 ?p q r rt"
    let ?tL = "ANode q c0 es1" and ?tR = "ANode r tm es2" and ?U = "{q, r} \<union> U - {?p}"
    have spre: "split_pre ?s ?U fs ?p ?tL pk ?tR"
      using split_step [OF Cons.prems(2) g [unfolded es(1)] rp(1,4-6)] rp(2,3) es by simp
    obtain a' where a': "split_done ?s ?U fs ?tL ?tR self' a'"
      using Cons.IH [OF _ spre] rest by auto
    have ls: "ctx_ll fs @ aleaves ?tL @ aleaves ?tR @ ctx_lr fs =
        ctx_ll (f # fs) @ aleaves tL @ aleaves tR @ ctx_lr (f # fs)"
      using grow_leaves [OF g] es(1) by simp
    have pl: "set (plist ?tL) \<union> set (plist ?tR) = {q, r} \<union> (set (fside f) \<union> set (plist tL) \<union> set (plist tR))"
      using lev(5) es(1) by auto
    have r5: "{q, r} \<inter> U = {}" "core s5 = core self" "same_pages (tr_pager self) (tr_pager s5) (- {q, r})"
      using rp(1) by (auto simp: replaced_def)
    have "split_done self U (f # fs) tL tR self' a'"
      using a' unfolding ls
    proof (rule rebuilt_via)
      show "caches ?s = caches self" using core_caches [OF r5(2)] by simp
      show "same_pages (tr_pager self) (tr_pager ?s) (U - set (ctx_pages (f # fs)))"
        using r5(1,3) by (auto elim!: same_pages_mono)
      show "?U - set (ctx_pages fs) \<subseteq>
          (U - set (ctx_pages (f # fs))) \<union> (set (ctx_side fs) \<union> set (plist ?tL) \<union> set (plist ?tR))"
        by auto
      show "(set (ctx_side fs) \<union> set (plist ?tL) \<union> set (plist ?tR)) \<inter> (U - set (ctx_pages (f # fs))) =
          set (ctx_side (f # fs)) \<union> set (plist tL) \<union> set (plist tR)"
        unfolding Un_assoc pl [unfolded Un_assoc]
        using side_pages [OF Cons.prems(2)] r5(1) unfolding ctx_side.simps set_append by blast
    qed auto
    then show ?thesis by blast
  qed
qed

end
