(* ===== verification/Tree_Inv.thy ===== *)
theory Tree_Inv
  imports Tree_Split
begin

text \<open>
  The invariant of a write session: the tree it stores, the overflow chains of its values, the pages
  both own, and what the leaf caches hold.
\<close>

section \<open>Pages of a value\<close>

definition vpages :: "pager \<Rightarrow> realm_id \<Rightarrow> leaf_value \<Rightarrow> page_id list" where
  "vpages s r v =
     (case v of Inline b \<Rightarrow> []
      | OverflowRef n root \<Rightarrow> (case collect_chain s r root of Ok ps \<Rightarrow> ps | Err e \<Rightarrow> []))"

text \<open>A value whose chain is complete, owned by it alone, and carries \<open>data\<close>.\<close>

definition value_at :: "pager \<Rightarrow> realm_id \<Rightarrow> leaf_value \<Rightarrow> bytes \<Rightarrow> bool" where
  "value_at s r v data \<longleftrightarrow> value_ok v \<and>
     (case v of Inline b \<Rightarrow> data = b
      | OverflowRef n root \<Rightarrow> (\<exists>info ids rest. read_root_page s r root = Ok info \<and> refcount info = 1 \<and>
          chain_at s r ids (root_next info) rest \<and> distinct (root # ids) \<and> data = root_data info @ rest \<and>
          length data = unat n \<and> unat n < 2 ^ 63))"

lemma value_at_cases:
  assumes "value_at s r v data"
  obtains (inline) "v = Inline data" "vpages s r v = []"
  | (chain) n root ids info rest where "v = OverflowRef n root" and "vpages s r v = root # ids"
      and "read_root_page s r root = Ok info" and "refcount info = 1"
      and "chain_at s r ids (root_next info) rest" and "distinct (root # ids)" and "data = root_data info @ rest"
      and "read_chain s r root n = Ok data"
proof (cases v)
  case (Inline b)
  then show ?thesis using assms inline by (simp add: value_at_def vpages_def)
next
  case (OverflowRef n root)
  then obtain info ids rest where i: "read_root_page s r root = Ok info" "refcount info = 1"
      "chain_at s r ids (root_next info) rest" "distinct (root # ids)" "data = root_data info @ rest"
      "length data = unat n" "unat n < 2 ^ 63"
    using assms by (auto simp: value_at_def)
  note c = read_chain_of_chain [OF i(1,3), of n]
  show ?thesis
    by (rule chain [OF OverflowRef, of ids info rest]) (use i c OverflowRef in \<open>auto simp: vpages_def\<close>)
qed

lemma value_at_frame:
  assumes "value_at s r v data" and "same_pages s s' P" and "set (vpages s r v) \<subseteq> P"
  shows "value_at s' r v data" and "vpages s' r v = vpages s r v"
proof -
  have "value_at s' r v data \<and> vpages s' r v = vpages s r v"
    using assms(1)
  proof (cases rule: value_at_cases)
    case inline
    then show ?thesis using assms(1) by (auto simp: value_at_def vpages_def)
  next
    case (chain n root ids info rest)
    have sm: "same_pages s s' (set ids)" "root \<in> P"
      using assms(2,3) chain(2) by (auto elim: same_pages_mono)
    have c: "read_root_page s' r root = Ok info" "chain_at s' r ids (root_next info) rest"
      using chain(3) same_pages_read_root [OF assms(2) sm(2)] chain_at_frame [OF chain(5) sm(1)] by simp_all
    have len: "length data = unat n" "unat n < 2 ^ 63"
      using assms(1) chain(1) by (auto simp: value_at_def)
    have "collect_chain s' r root = Ok (root # ids)"
      using read_chain_of_chain(2) [OF c, of n] chain(6,7) len by simp
    then show ?thesis
      using assms(1) chain c len by (auto simp: value_at_def vpages_def)
  qed
  then show "value_at s' r v data" "vpages s' r v = vpages s r v" by auto
qed

definition vps :: "pager \<Rightarrow> realm_id \<Rightarrow> leaf_record list \<Rightarrow> page_id list" where
  "vps s r rs = concat (map (\<lambda>(k, v). vpages s r v) rs)"

lemma vps_simps [simp]:
  "vps s r [] = []" "vps s r ((k, v) # rs) = vpages s r v @ vps s r rs" "vps s r (xs @ ys) = vps s r xs @ vps s r ys"
  by (simp_all add: vps_def)

definition values_at :: "pager \<Rightarrow> realm_id \<Rightarrow> leaf_record list \<Rightarrow> bool" where
  "values_at s r rs \<longleftrightarrow> (\<forall>(k, v) \<in> set rs. \<exists>data. value_at s r v data)"

lemma values_at_simps [simp]:
  "values_at s r []" "values_at s r ((k, v) # rs) \<longleftrightarrow> (\<exists>data. value_at s r v data) \<and> values_at s r rs"
  "values_at s r (xs @ ys) \<longleftrightarrow> values_at s r xs \<and> values_at s r ys"
  by (auto simp: values_at_def ball_Un)

lemma values_at_frame:
  "values_at s r rs \<Longrightarrow> same_pages s s' P \<Longrightarrow> set (vps s r rs) \<subseteq> P \<Longrightarrow> values_at s' r rs \<and> vps s' r rs = vps s r rs"
proof (induction rs)
  case (Cons e rs)
  obtain k v where e: "e = (k, v)" by (cases e)
  obtain data where d: "value_at s r v data" using Cons.prems(1) e by auto
  have "value_at s' r v data" "vpages s' r v = vpages s r v"
    using value_at_frame [OF d Cons.prems(2)] Cons.prems(3) e by auto
  then show ?case using Cons e by auto
qed simp

section \<open>The invariant\<close>

definition leaf_pages :: "atree \<Rightarrow> page_id set" where
  "leaf_pages a = fst ` set (aleaves a)"

definition caches_ok :: "tree \<Rightarrow> atree \<Rightarrow> bool" where
  "caches_ok self a \<longleftrightarrow> fst ` set (fresh_leaves self) \<subseteq> leaf_pages a \<and> fst ` set (dirty_leaves self) \<subseteq> leaf_pages a \<and>
     fst ` set (fresh_leaves self) \<inter> fst ` set (dirty_leaves self) = {} \<and>
     distinct (map fst (dirty_leaves self)) \<and> distinct (map fst (fresh_leaves self)) \<and>
     set (dirty_parent_paths self) \<subseteq> set (lpaths a) \<and>
     fst ` set (dirty_parent_paths self) = fst ` set (dirty_leaves self) \<and>
     mset (scheduled_frees self) = mset (map fst (dirty_leaves self))"

abbreviation pages_of_values :: "tree \<Rightarrow> leaf_record list \<Rightarrow> page_id list" where
  "pages_of_values self rs \<equiv> vps (tr_pager self) (tr_realm self) rs"

abbreviation owned :: "tree \<Rightarrow> atree \<Rightarrow> page_id list \<Rightarrow> page_id list" where
  "owned self a X \<equiv> plist a @ pages_of_values self (recs a) @ X"

text \<open>Pages \<open>X\<close> belong to a value that is about to enter the tree or has just left it.\<close>

definition tree_inv :: "tree \<Rightarrow> atree \<Rightarrow> page_id list \<Rightarrow> bool" where
  "tree_inv self a X \<longleftrightarrow> root_page_id self = page_of a \<and> holds self a \<and> ordered [] None a \<and>
     distinct (owned self a X) \<and> good self (set (owned self a X)) \<and>
     values_at (tr_pager self) (tr_realm self) (recs a) \<and> caches_ok self a"

lemma good_ge4: "good self U \<Longrightarrow> p \<in> U \<Longrightarrow> 4 \<le> p"
  by (auto simp: good_def)

lemma tree_inv_stored: "tree_inv self a X \<Longrightarrow> stored self a"
proof -
  assume t: "tree_inv self a X"
  then have "good self (set (owned self a X))" by (simp add: tree_inv_def)
  then have "4 \<le> p" if "p \<in> set (plist a)" for p using good_ge4 that by fastforce
  then have "0 \<notin> set (plist a)" by fastforce
  then show ?thesis using t by (auto simp: tree_inv_def stored_def)
qed

text \<open>The map a session represents.\<close>

definition contents :: "tree \<Rightarrow> leaf_record list \<Rightarrow> key \<Rightarrow> bytes option" where
  "contents self rs k =
     (case map_of rs k of None \<Rightarrow> None
      | Some v \<Rightarrow> (case resolve_leaf_value self v of Ok d \<Rightarrow> Some d | Err e \<Rightarrow> None))"

lemma value_at_resolve: "value_at (tr_pager self) (tr_realm self) v data \<Longrightarrow> resolve_leaf_value self v = Ok data"
  by (cases rule: value_at_cases, assumption) (auto simp: resolve_leaf_value_def)

lemma contents_resolved:
  assumes "values_at (tr_pager self) (tr_realm self) rs"
  shows "resolved self (map_of rs k) = Ok (contents self rs k)"
proof (cases "map_of rs k")
  case None
  then show ?thesis by (simp add: resolved_def contents_def)
next
  case (Some v)
  then obtain data where "value_at (tr_pager self) (tr_realm self) v data"
    using assms map_of_SomeD [OF Some] by (auto simp: values_at_def)
  then show ?thesis using Some by (simp add: resolved_def contents_def value_at_resolve)
qed

lemma tree_inv_get: "tree_inv self a X \<Longrightarrow> tree_get self k = Ok (contents self (recs a) k)"
  using tree_get_stored [OF tree_inv_stored, of self a X k] contents_resolved [of self "recs a" k]
  by (simp add: tree_inv_def)

text \<open>A step that leaves the session fields and the owned pages alone.\<close>

lemma contents_frame:
  assumes "values_at (tr_pager self) (tr_realm self) rs" and "tr_realm self' = tr_realm self"
    and "same_pages (tr_pager self) (tr_pager self') P" and "set (pages_of_values self rs) \<subseteq> P"
  shows "contents self' rs = contents self rs"
proof
  fix k
  show "contents self' rs k = contents self rs k"
  proof (cases "map_of rs k")
    case (Some v)
    then have kv: "(k, v) \<in> set rs" using map_of_SomeD by fast
    then obtain data where d: "value_at (tr_pager self) (tr_realm self) v data"
      using assms(1) by (auto simp: values_at_def)
    have "set (vpages (tr_pager self) (tr_realm self) v) \<subseteq> P"
      using kv assms(4) by (force simp: vps_def)
    then have "value_at (tr_pager self') (tr_realm self') v data"
      using value_at_frame(1) [OF d assms(3)] assms(2) by simp
    then show ?thesis using Some d by (simp add: contents_def value_at_resolve)
  qed (simp add: contents_def)
qed

lemma caches_ok_core: "core self' = core self \<Longrightarrow> caches_ok self' a = caches_ok self a"
  by (simp add: caches_ok_def core_def)

lemma tree_inv_frame:
  assumes "tree_inv self a X" and "core self' = core self"
    and "same_pages (tr_pager self) (tr_pager self') (set (plist a @ pages_of_values self (recs a)))"
    and "good self' (set (plist a @ pages_of_values self (recs a) @ Y))"
    and "distinct (plist a @ pages_of_values self (recs a) @ Y)"
  shows "tree_inv self' a Y" and "contents self' (recs a) = contents self (recs a)"
proof -
  let ?P = "set (plist a @ pages_of_values self (recs a))"
  note t = assms(1) [unfolded tree_inv_def]
  have r: "tr_realm self' = tr_realm self" "root_page_id self' = root_page_id self"
    using assms(2) by (simp_all add: core_def)
  have v: "values_at (tr_pager self') (tr_realm self') (recs a)"
      "pages_of_values self' (recs a) = pages_of_values self (recs a)"
    using values_at_frame [OF _ assms(3), of "tr_realm self" "recs a"] t r by auto
  have "holds self' a" using holds_agree [OF agree_core [OF assms(2,3)], of a] t by simp
  then show "tree_inv self' a Y"
    using t v r assms(4,5) caches_ok_core [OF assms(2)] by (simp add: tree_inv_def)
  show "contents self' (recs a) = contents self (recs a)"
    by (rule contents_frame [OF _ r(1) assms(3)]) (use t in auto)
qed

end
