(* ===== verification/Tree_Steps.thy ===== *)
theory Tree_Steps
  imports Tree_Inv
begin

text \<open>
  Steps of the write path on the session invariant: storing a value, working on the cached leaf,
  releasing the chain of a value that left the tree, and taking a leaf out of the caches.
\<close>

section \<open>Storing the value\<close>

interpretation session_pages: page_allocator allocate_page "\<lambda>t. alloc_inv t \<and> core t = c"
  "\<lambda>t. {p \<in> in_use t. 4 \<le> p}" for c
proof
  fix a p a' assume a: "alloc_inv a \<and> core a = c" "allocate_page a = (Ok p, a')"
  have "(4 :: page_id) \<le> p \<Longrightarrow> p \<noteq> 0" by auto
  then show "(alloc_inv a' \<and> core a' = c) \<and> p \<noteq> 0 \<and> p \<notin> {p \<in> in_use a. 4 \<le> p} \<and>
      {p \<in> in_use a'. 4 \<le> p} = insert p {p \<in> in_use a. 4 \<le> p}"
    using alloc_spec [OF _ a(2)] allocate_page_core [OF a(2)] a(1) by auto
qed

lemma leaf_value_for_spec:
  assumes "leaf_value_for self val = (Ok v, s)" and "good self U" and "length val < 2 ^ 63"
  shows "core s = core self" and "same_pages (tr_pager self) (tr_pager s) U"
    and "good s (U \<union> set (vpages (tr_pager s) (tr_realm s) v))"
    and "set (vpages (tr_pager s) (tr_realm s) v) \<inter> U = {}"
    and "distinct (vpages (tr_pager s) (tr_realm s) v)" and "value_at (tr_pager s) (tr_realm s) v val"
proof -
  note g = assms(2) [unfolded good_def]
  let ?goal = "core s = core self \<and> same_pages (tr_pager self) (tr_pager s) U \<and>
    good s (U \<union> set (vpages (tr_pager s) (tr_realm s) v)) \<and>
    set (vpages (tr_pager s) (tr_realm s) v) \<inter> U = {} \<and>
    distinct (vpages (tr_pager s) (tr_realm s) v) \<and> value_at (tr_pager s) (tr_realm s) v val"
  have ?goal
  proof (cases "length val > inline_value_threshold (tr_page_size self)")
    case False
    then show ?thesis
      using assms(1,2) g by (auto simp: leaf_value_for_def vpages_def value_at_def inline_value_threshold_def)
  next
    case True
    then obtain root pager a' where w: "write_chain (tr_pager self) (tr_realm self) val (tr_page_size self)
          allocate_page self = (Ok root, pager, a')"
        "v = OverflowRef (of_nat (length val)) root" "s = a'\<lparr>tr_pager := pager\<rparr>"
      using assms(1) by (auto simp: leaf_value_for_def split: prod.splits result.splits)
    have al: "alloc_inv self \<and> core self = core self" "cfg_page_size (tr_pager self) = tr_page_size self"
        "56 \<le> tr_page_size self" "tr_page_size self < 2 ^ 32" "U \<subseteq> {p \<in> in_use self. 4 \<le> p}"
      using g by auto
    obtain ids n d rest where c: "alloc_inv a' \<and> core a' = core self"
        "{p \<in> in_use a'. 4 \<le> p} = {p \<in> in_use self. 4 \<le> p} \<union> insert root (set ids)"
        "insert root (set ids) \<inter> {p \<in> in_use self. 4 \<le> p} = {}" "distinct (root # ids)"
        "root \<noteq> 0" "read_root_page pager (tr_realm self) root = Ok \<lparr> refcount = 1, root_next = n, root_data = d \<rparr>"
        "chain_at pager (tr_realm self) ids n rest" "d @ rest = val"
        "same_pages (tr_pager self) pager (- insert root (set ids))"
      by (rule session_pages.write_chain_spec [OF w(1) al(1-4)])
    have core: "core s = core self" "tr_realm s = tr_realm self" "tr_pager s = pager"
      using c(1) by (simp_all add: w(3) core_def)
    have len: "unat (of_nat (length val) :: u64) = length val"
      using assms(3) by (simp add: unat_of_nat take_bit_nat_eq_self)
    have "4 \<le> root" using c(2) by blast
    then have v: "value_at pager (tr_realm self) v val"
      using c(4-8) len assms(3) unfolding value_at_def w(2)
      by (auto simp: is_reserved_def FIRST_ALLOCATABLE_PAGE_ID_def simp del: distinct.simps)
    then have vp: "vpages pager (tr_realm self) v = root # ids"
      using read_chain_of_chain(2) [of pager "tr_realm self" root _ ids rest "of_nat (length val)"] c(4-8) len assms(3)
      by (auto simp: w(2) vpages_def)
    have sm: "same_pages (tr_pager self) pager U"
      using c(9) by (rule same_pages_mono) (use c(3) al(5) in blast)
    have "good s (U \<union> set (root # ids))"
      unfolding good_def
    proof (intro conjI)
      show "U \<union> set (root # ids) \<subseteq> in_use s" "\<forall>p \<in> U \<union> set (root # ids). 4 \<le> p"
        using c(2) al(5) by (auto simp: w(3) in_use_def)
      show "alloc_inv s" using c(1) by (simp add: w(3) alloc_inv_def)
    qed (use core g sm in \<open>auto simp: core_def same_pages_def\<close>)
    then show ?thesis using core sm v vp c(3,4) al(5) by auto
  qed
  then show "core s = core self" "same_pages (tr_pager self) (tr_pager s) U"
    "good s (U \<union> set (vpages (tr_pager s) (tr_realm s) v))"
    "set (vpages (tr_pager s) (tr_realm s) v) \<inter> U = {}"
    "distinct (vpages (tr_pager s) (tr_realm s) v)" "value_at (tr_pager s) (tr_realm s) v val"
    by auto
qed

section \<open>The leaf in a cache\<close>

lemma update_new: "k \<notin> fst ` set al \<Longrightarrow> AList.update k v al = al @ [(k, v)]"
  by (induction al) auto

lemma update_old: "k \<in> fst ` set al \<Longrightarrow> map fst (AList.update k v al) = map fst al"
  by (induction al) auto

lemma map_of_None_keys: "map_of al k = None \<longleftrightarrow> k \<notin> fst ` set al"
  by (simp add: map_of_eq_None_iff)

lemma aleaves_pages: "leaf_pages a \<subseteq> set (plist a)"
proof -
  have "fst ` set (lpaths a) \<subseteq> set (plist a)" using lpaths_pages by fastforce
  then show ?thesis unfolding leaf_pages_def by (metis lpaths_aleaves list.set_map)
qed

lemma plugs_leaf_pages: "p \<in> leaf_pages (plugs ctx (ALeaf p l))"
  by (simp add: leaf_pages_def aleaves_plugs)

lemma ctx_agree_holds:
  assumes "distinct (plist (plugs ctx (ALeaf p l)))" and "frames_hold self ctx p" and "agree self s (- {p})"
    and "leaf_at s p l'"
  shows "holds s (plugs ctx (ALeaf p l'))"
proof -
  have "p \<notin> set (ctx_pages ctx) \<union> set (ctx_side ctx)" using assms(1) unfolding distinct_plugs by simp
  then have "frames_hold s ctx p" using assms(2) frames_hold_agree [OF assms(3), of ctx p] by blast
  then show ?thesis using assms(4) by (simp add: holds_plugs)
qed

lemma good_fields:
  assumes "good self U" and "fst ` set (fresh_leaves s) \<subseteq> U" and "fst ` set (dirty_leaves s) \<subseteq> U"
    and "tr_pager s = tr_pager self" and "tr_page_size s = tr_page_size self" and "in_use s = in_use self"
    and "alloc_inv s = alloc_inv self"
  shows "good s U"
  using assms by (auto simp: good_def)

lemma ensure_leaf_dirty_spec:
  assumes "tree_inv self a X" and "a = plugs ctx (ALeaf p l)" and "map_of (fresh_leaves self) p = None"
  obtains s where "ensure_leaf_dirty self p (rev (ctx_pages ctx) @ [p]) = (Ok (), s)" and "tree_inv s a X"
    and "map_of (dirty_leaves s) p = Some l" and "map_of (fresh_leaves s) p = None"
    and "tr_pager s = tr_pager self" and "tr_realm s = tr_realm self"
proof -
  note t = assms(1) [unfolded tree_inv_def] and c = assms(1) [unfolded tree_inv_def caches_ok_def]
  have la: "leaf_at self p l" "frames_hold self ctx p" using t assms(2) by (simp_all add: holds_plugs)
  show ?thesis
  proof (cases "map_of (dirty_leaves self) p")
    case (Some l')
    then have "l' = l" using la(1) assms(3) by (auto simp: leaf_at_def)
    then show ?thesis
      using that [of self] assms Some by (auto simp: ensure_leaf_dirty_def tree_inv_def)
  next
    case None
    then obtain body where body: "page_bytes self p BTreeLeaf body" "decode_leaf body = Ok l"
      using la(1) assms(3) by (auto simp: leaf_at_def)
    have pd: "p \<notin> fst ` set (dirty_leaves self)" "p \<notin> fst ` set (fresh_leaves self)"
        "p \<notin> fst ` set (dirty_parent_paths self)"
      using None assms(3) c unfolding map_of_None_keys by auto
    define s where "s = self\<lparr>dirty_leaves := dirty_leaves self @ [(p, l)],
        scheduled_frees := scheduled_frees self @ [p],
        dirty_parent_paths := dirty_parent_paths self @ [(p, rev (ctx_pages ctx))]\<rparr>"
    have run: "ensure_leaf_dirty self p (rev (ctx_pages ctx) @ [p]) = (Ok (), s)"
      using None body pd
      by (simp add: ensure_leaf_dirty_def decode_leaf_from_pager_def page_bytes_def s_def update_new)
    have d: "map_of (dirty_leaves s) p = Some l" "map_of (fresh_leaves s) p = None"
      using None assms(3) by (simp_all add: s_def map_add_def)
    have ag: "agree self s (- {p})" by (auto simp: agree_def s_def map_add_def split: option.splits)
    have la': "leaf_at s p l" using body d by (auto simp: leaf_at_def page_bytes_def s_def)
    have h: "holds s a"
      unfolding assms(2)
      by (rule ctx_agree_holds [OF _ la(2) ag la']) (use t assms(2) in auto)
    have lp: "p \<in> leaf_pages a" "(p, rev (ctx_pages ctx)) \<in> set (lpaths a)"
      using lpaths_plugs [of p "[]" "ALeaf p l" ctx] by (simp_all add: assms(2) plugs_leaf_pages)
    have co: "caches_ok s a"
      using c lp pd by (auto simp: caches_ok_def s_def)
    have "good s (set (owned self a X))"
    proof (rule good_fields [where self = self])
      show "fst ` set (dirty_leaves s) \<subseteq> set (owned self a X)" "fst ` set (fresh_leaves s) \<subseteq> set (owned self a X)"
        using co aleaves_pages [of a] unfolding caches_ok_def by auto
    qed (use t in \<open>auto simp: s_def in_use_def alloc_inv_def cache_of_def\<close>)
    then have "tree_inv s a X" using t h co by (simp add: tree_inv_def s_def)
    then show ?thesis using that [OF run _ d] by (simp add: s_def)
  qed
qed

lemma plugs_leaf_shape:
  "leaf_pages (plugs ctx (ALeaf p l')) = leaf_pages (plugs ctx (ALeaf p l))"
  "set (lpaths (plugs ctx (ALeaf p l'))) = set (lpaths (plugs ctx (ALeaf p l)))"
  "mset (plist (plugs ctx (ALeaf p l'))) = mset (plist (plugs ctx (ALeaf p l)))"
  "page_of (plugs ctx (ALeaf p l')) = page_of (plugs ctx (ALeaf p l))"
  by (simp_all add: leaf_pages_def aleaves_plugs lpaths_plugs_eq mset_plist_plugs page_of_plugs)

lemma caches_ok_leaf: "caches_ok self (plugs ctx (ALeaf p l')) = caches_ok self (plugs ctx (ALeaf p l))"
  unfolding caches_ok_def plugs_leaf_shape(1) [of ctx p l' l] plugs_leaf_shape(2) [of ctx p l' l] by (rule refl)

lemma set_cached_leaf_fields [simp]:
  "tr_pager (set_cached_leaf self p fr l) = tr_pager self" "tr_realm (set_cached_leaf self p fr l) = tr_realm self"
  "tr_page_size (set_cached_leaf self p fr l) = tr_page_size self"
  "root_page_id (set_cached_leaf self p fr l) = root_page_id self"
  "in_use (set_cached_leaf self p fr l) = in_use self" "alloc_inv (set_cached_leaf self p fr l) = alloc_inv self"
  by (simp_all add: set_cached_leaf_def in_use_def alloc_inv_def cache_of_def)

text \<open>Replacing the cached leaf: the pages of its values and of those outside the tree stay the same.\<close>

lemma set_cached_leaf_spec:
  assumes "tree_inv self (plugs ctx (ALeaf p l)) X" and "fr = (map_of (fresh_leaves self) p \<noteq> None)"
    and "cached_leaf self p fr = Ok l" and "sorted_keys (records l')"
    and "\<forall>r \<in> set (records l'). inside (ctx_lo ctx) (ctx_hi ctx) (fst r)"
    and "values_at (tr_pager self) (tr_realm self) (records l')"
    and "mset (pages_of_values self (records l')) + mset Y = mset (pages_of_values self (records l)) + mset X"
  defines "s \<equiv> set_cached_leaf self p fr l'"
  shows "tree_inv s (plugs ctx (ALeaf p l')) Y" and "cached_leaf s p fr = Ok l'"
    and "fr = (map_of (fresh_leaves s) p \<noteq> None)"
proof -
  let ?a = "plugs ctx (ALeaf p l)" and ?a' = "plugs ctx (ALeaf p l')"
  note t = assms(1) [unfolded tree_inv_def]
  have cached: "p \<in> fst ` set (if fr then fresh_leaves self else dirty_leaves self)"
    using assms(2,3) map_of_None_keys [of "dirty_leaves self" p] map_of_None_keys [of "fresh_leaves self" p]
    by (auto simp: cached_leaf_def split: option.splits if_splits)
  show "cached_leaf s p fr = Ok l'"
    by (simp add: s_def cached_leaf_def set_cached_leaf_def update_conv')
  show fr: "fr = (map_of (fresh_leaves s) p \<noteq> None)"
    using assms(2) by (auto simp: s_def set_cached_leaf_def update_conv')
  have keys: "map fst (fresh_leaves s) = map fst (fresh_leaves self)" "map fst (dirty_leaves s) = map fst (dirty_leaves self)"
    using cached by (cases fr; simp add: s_def set_cached_leaf_def update_old)+
  then have ks: "fst ` set (fresh_leaves s) = fst ` set (fresh_leaves self)" "fst ` set (dirty_leaves s) = fst ` set (dirty_leaves self)"
    by (metis list.set_map)+
  have ag: "agree self s (- {p})" by (auto simp: agree_def s_def set_cached_leaf_def update_conv')
  have la: "leaf_at self p l" "frames_hold self ctx p" using t by (simp_all add: holds_plugs)
  then have la': "leaf_at s p l'"
    using fr assms(2) by (auto simp: leaf_at_def s_def set_cached_leaf_def update_conv' page_bytes_def split: option.splits)
  have h: "holds s ?a'" by (rule ctx_agree_holds [OF _ la(2) ag la', of l]) (use t in auto)
  have ms: "mset (owned self ?a' Y) = mset (owned self ?a X)"
    using assms(7) plugs_leaf_shape(3) [of ctx p l' l] by (simp add: recs_plugs)
  then have d: "distinct (owned self ?a' Y)" "set (owned self ?a' Y) = set (owned self ?a X)"
    using t mset_eq_imp_distinct_iff [OF ms] mset_eq_setD [OF ms] by blast+
  have "caches_ok s ?a'"
  proof -
    have "caches_ok s ?a" using t keys ks by (auto simp: caches_ok_def s_def set_cached_leaf_def)
    then show ?thesis using caches_ok_leaf by blast
  qed
  moreover have "good s (set (owned self ?a X))"
    by (rule good_fields [where self = self]) (use t ks in \<open>auto simp: s_def good_def\<close>)
  moreover have "ordered [] None ?a'"
    using t assms(4,5) by (simp add: ordered_plugs)
  moreover have "values_at (tr_pager self) (tr_realm self) (recs ?a')"
    using t assms(6) by (simp add: recs_plugs)
  moreover have "root_page_id s = page_of ?a'"
    using t plugs_leaf_shape(4) [of ctx p l' l] by (simp add: s_def)
  ultimately show "tree_inv s ?a' Y"
    using d h by (simp add: tree_inv_def s_def)
qed

section \<open>Releasing a value\<close>

lemma free_pages_good:
  "good self U \<Longrightarrow> set ps \<subseteq> U \<Longrightarrow> distinct ps \<Longrightarrow>
   set ps \<inter> (fst ` set (fresh_leaves self) \<union> fst ` set (dirty_leaves self)) = {} \<Longrightarrow>
   \<exists>s. free_pages self ps = (Ok (), s) \<and> good s (U - set ps) \<and> core s = core self \<and> tr_pager s = tr_pager self"
proof (induction ps arbitrary: self U)
  case (Cons p ps)
  have p: "p \<in> U" "p \<notin> fst ` set (fresh_leaves self)" "p \<notin> fst ` set (dirty_leaves self)"
    using Cons.prems(2,4) by auto
  obtain s1 where s1: "free_page self p = (Ok (), s1)" "good s1 (U - {p})" "core s1 = core self"
      "tr_pager s1 = tr_pager self"
    by (rule free_good [OF Cons.prems(1) p])
  have f: "fresh_leaves s1 = fresh_leaves self" "dirty_leaves s1 = dirty_leaves self"
    using s1(3) by (simp_all add: core_def)
  have "\<exists>s. free_pages s1 ps = (Ok (), s) \<and> good s (U - {p} - set ps) \<and> core s = core s1 \<and> tr_pager s = tr_pager s1"
    by (rule Cons.IH [OF s1(2)]) (use Cons.prems f in auto)
  moreover have "U - {p} - set ps = U - set (p # ps)" by auto
  ultimately show ?case using s1 by auto
qed simp

lemma release_spec:
  assumes "value_at s r (OverflowRef n root) data"
  shows "release s r root q = Ok (Freed (vpages s r (OverflowRef n root)), s)"
  using assms
proof (cases rule: value_at_cases)
  case (chain n' root' ids info rest)
  then show ?thesis
    using collect_chain_loop_spec [OF chain(5), of "{root}" root "[root]"]
    by (auto simp: release_def release_loop_eq_collect)
qed simp

lemma leaf_cache_owned:
  assumes "tree_inv self a X"
  shows "fst ` set (fresh_leaves self) \<union> fst ` set (dirty_leaves self) \<subseteq> set (plist a)"
  using assms aleaves_pages [of a] by (auto simp: tree_inv_def caches_ok_def)

lemma release_value_spec:
  assumes "mbind (allocate_page self) (\<lambda>q self.
      case release (tr_pager self) (tr_realm self) root q of
        Ok (rr, pager) \<Rightarrow> apply_release_result (self\<lparr>tr_pager := pager\<rparr>) root q rr
      | Err e \<Rightarrow> K q self e) = (Ok (), s)"
    and "tree_inv self a (vpages (tr_pager self) (tr_realm self) (OverflowRef n root))"
    and "value_at (tr_pager self) (tr_realm self) (OverflowRef n root) data"
  shows "tree_inv s a []" and "contents s (recs a) = contents self (recs a)" and "core s = core self"
    and "tr_pager s = tr_pager self"
proof -
  let ?vp = "vpages (tr_pager self) (tr_realm self) (OverflowRef n root)" and ?T = "plist a @ pages_of_values self (recs a)"
  note t = assms(2) [unfolded tree_inv_def]
  obtain q s1 where al: "allocate_page self = (Ok q, s1)"
    and rest: "(case release (tr_pager s1) (tr_realm s1) root q of
        Ok (rr, pager) \<Rightarrow> apply_release_result (s1\<lparr>tr_pager := pager\<rparr>) root q rr
      | Err e \<Rightarrow> K q s1 e) = (Ok (), s)"
    using assms(1) by (auto simp: mbind_eq_Ok)
  have g: "good self (set (?T @ ?vp))" using t by simp
  note a = alloc_good [OF g al]
  have r1: "tr_realm s1 = tr_realm self" using a(3) by (simp add: core_def)
  have s1: "s1\<lparr>tr_pager := tr_pager self\<rparr> = s1" using a(4) by (cases s1) simp
  have "mbind (free_pages (s1\<lparr>tr_pager := tr_pager self\<rparr>) ?vp) (\<lambda>_ self. free_page self q) = (Ok (), s)"
    using rest release_spec [OF assms(3), of q] r1 a(4) by (simp add: apply_release_result_def)
  then obtain s2 where fp: "free_pages s1 ?vp = (Ok (), s2)" and fq: "free_page s2 q = (Ok (), s)"
    unfolding s1 mbind_eq_Ok by auto
  have f1: "fst ` set (fresh_leaves s1) \<union> fst ` set (dirty_leaves s1) \<subseteq> set (plist a)"
    using leaf_cache_owned [OF assms(2)] a(3) by (simp add: core_def)
  have dj: "set ?vp \<inter> set ?T = {}" "distinct ?T" "distinct ?vp" using t by auto
  have f2: "good s2 (insert q (set (?T @ ?vp)) - set ?vp)" "core s2 = core s1" "tr_pager s2 = tr_pager s1"
  proof -
    have "set ?vp \<subseteq> insert q (set (?T @ ?vp))"
        "set ?vp \<inter> (fst ` set (fresh_leaves s1) \<union> fst ` set (dirty_leaves s1)) = {}"
      using f1 dj(1) by auto
    from free_pages_good [OF a(1) this(1) dj(3) this(2)]
    show "good s2 (insert q (set (?T @ ?vp)) - set ?vp)" "core s2 = core s1" "tr_pager s2 = tr_pager s1"
      using fp by auto
  qed
  have qn: "q \<notin> fst ` set (fresh_leaves s2)" "q \<notin> fst ` set (dirty_leaves s2)"
    using f1 f2(2) a(2) by (auto simp: core_def)
  have f3: "good s (insert q (set (?T @ ?vp)) - set ?vp - {q})" "core s = core s2" "tr_pager s = tr_pager s2"
    using free_step [OF fq f2(1) _ qn] a(2) by auto
  show core: "core s = core self" "tr_pager s = tr_pager self" using f3 f2 a by simp_all
  have "insert q (set (?T @ ?vp)) - set ?vp - {q} = set ?T" using a(2) dj by auto
  then have "good s (set (plist a @ pages_of_values self (recs a) @ []))" using f3(1) by simp
  from tree_inv_frame [OF assms(2) core(1) _ this] core(2) dj(2)
  show "tree_inv s a []" "contents s (recs a) = contents self (recs a)" by simp_all
qed

section \<open>Splitting a leaf\<close>

lemma swap_remove_mset: "i < length xs \<Longrightarrow> mset (swap_remove i xs) = mset xs - {#xs ! i#}"
proof (cases xs rule: rev_cases)
  case (snoc ys y)
  assume "i < length xs"
  then show ?thesis using snoc by (auto simp: swap_remove_def nth_append mset_update less_Suc_eq)
qed simp

lemma unschedule_mset: "mset (unschedule p ps) = mset ps - {#p#}"
proof (cases "p \<in> set ps")
  case True
  let ?i = "length (takeWhile (\<lambda>q. q \<noteq> p) ps)"
  have "?i < length ps" using True by (induction ps) auto
  moreover have "ps ! ?i = p" using nth_length_takeWhile [of "\<lambda>q. q \<noteq> p" ps] calculation by simp
  ultimately show ?thesis using True swap_remove_mset [of ?i ps] by (simp add: unschedule_def)
qed (simp add: unschedule_def diff_single_trivial)

definition drop_leaf :: "tree \<Rightarrow> page_id \<Rightarrow> bool \<Rightarrow> tree" where
  "drop_leaf self p fr =
     (if fr then self\<lparr>fresh_leaves := AList.delete p (fresh_leaves self)\<rparr>
      else self\<lparr>scheduled_frees := unschedule p (scheduled_frees self),
                dirty_parent_paths := AList.delete p (dirty_parent_paths self),
                dirty_leaves := AList.delete p (dirty_leaves self)\<rparr>)"

lemma delete_keys: "map fst (AList.delete p al) = filter (\<lambda>q. q \<noteq> p) (map fst al)"
  by (induction al) auto

lemma delete_key_set: "fst ` set (AList.delete p al) = fst ` set al - {p}"
  using arg_cong [OF delete_keys [of p al], of set] by auto

lemma mset_filter_distinct: "distinct xs \<Longrightarrow> p \<in> set xs \<Longrightarrow> mset (filter (\<lambda>q. q \<noteq> p) xs) = mset xs - {#p#}"
proof (induction xs)
  case (Cons x xs)
  show ?case
  proof (cases "x = p")
    case True
    then have "filter (\<lambda>q. q \<noteq> p) xs = xs" using Cons.prems(1) by (auto simp: filter_id_conv)
    then show ?thesis using True by simp
  next
    case False
    then show ?thesis using Cons by (simp add: diff_add_mset_swap)
  qed
qed simp

lemma drop_leaf_fields [simp]:
  "tr_pager (drop_leaf self p fr) = tr_pager self" "tr_realm (drop_leaf self p fr) = tr_realm self"
  "tr_page_size (drop_leaf self p fr) = tr_page_size self" "in_use (drop_leaf self p fr) = in_use self"
  "alloc_inv (drop_leaf self p fr) = alloc_inv self"
  by (simp_all add: drop_leaf_def in_use_def alloc_inv_def cache_of_def)

lemma drop_leaf_caches:
  assumes "caches_ok self a" and "fr = (map_of (fresh_leaves self) p \<noteq> None)" and "cached_leaf self p fr = Ok l"
  defines "s \<equiv> drop_leaf self p fr"
  shows "fst ` set (fresh_leaves s) = fst ` set (fresh_leaves self) - {p}"
    and "fst ` set (dirty_leaves s) = fst ` set (dirty_leaves self) - {p}"
    and "distinct (map fst (fresh_leaves s))" and "distinct (map fst (dirty_leaves s))"
    and "set (dirty_parent_paths s) \<subseteq> set (dirty_parent_paths self)"
    and "fst ` set (dirty_parent_paths s) = fst ` set (dirty_leaves s)"
    and "mset (scheduled_frees s) = mset (map fst (dirty_leaves s))"
    and "agree self s (- {p})"
proof -
  note c = assms(1) [unfolded caches_ok_def]
  have p: "if fr then p \<in> fst ` set (fresh_leaves self) \<and> p \<notin> fst ` set (dirty_leaves self)
      else p \<in> fst ` set (dirty_leaves self) \<and> p \<notin> fst ` set (fresh_leaves self)"
    using assms(2,3) c map_of_None_keys [of "dirty_leaves self" p] map_of_None_keys [of "fresh_leaves self" p]
    by (auto simp: cached_leaf_def split: option.splits)
  show "fst ` set (fresh_leaves s) = fst ` set (fresh_leaves self) - {p}"
    "fst ` set (dirty_leaves s) = fst ` set (dirty_leaves self) - {p}"
    using p by (cases fr; simp add: s_def drop_leaf_def delete_key_set)+
  show "distinct (map fst (fresh_leaves s))" "distinct (map fst (dirty_leaves s))"
    using c by (cases fr; simp add: s_def drop_leaf_def delete_keys)+
  show "set (dirty_parent_paths s) \<subseteq> set (dirty_parent_paths self)"
    by (auto simp: s_def drop_leaf_def AList.delete_eq)
  show "fst ` set (dirty_parent_paths s) = fst ` set (dirty_leaves s)"
    using c by (cases fr; simp add: s_def drop_leaf_def delete_key_set)
  show "mset (scheduled_frees s) = mset (map fst (dirty_leaves s))"
  proof (cases fr)
    case False
    then have "mset (filter (\<lambda>q. q \<noteq> p) (map fst (dirty_leaves self))) = mset (map fst (dirty_leaves self)) - {#p#}"
      using p c by (intro mset_filter_distinct) auto
    then show ?thesis using False c by (simp add: s_def drop_leaf_def delete_keys unschedule_mset)
  qed (use c in \<open>simp add: s_def drop_leaf_def\<close>)
  show "agree self s (- {p})"
    by (auto simp: agree_def s_def drop_leaf_def delete_conv')
qed

end
