(* ===== verification/Tree_Put.thy ===== *)
theory Tree_Put
  imports Tree_Steps
begin

text \<open>
  Insertion and deletion refine a map: every step of the write path keeps the session invariant,
  and the map it represents changes at the given key only.
\<close>

section \<open>Splitting a leaf\<close>

text \<open>Whatever point the search returns, the two sides are the leaf's records, neither of them empty.\<close>

lemma split_loop_clamped: "split_loop rs ps s = Some t \<Longrightarrow> \<exists>x. t = clamp_split (length rs) x"
proof (erule split_loop.raw_induct [where P = "\<lambda>rs ps s t. \<exists>x. t = clamp_split (length rs) x", rotated])
qed (fastforce simp: Let_def split: if_splits)

lemma split_leaf_parts:
  assumes "split_leaf l m ps = Ok (left, right, sep)"
  shows "records l = records left @ records right" and "records left \<noteq> []"
    and "records right \<noteq> []" and "sep = fst (hd (records right))"
proof -
  let ?rs = "records l"
  obtain t where t: "split_loop ?rs ps (initial_split (length ?rs) m) = Some t"
      "rbind (index (drop t ?rs) 0) (\<lambda>(sep_key, _).
         Ok (\<lparr> left_sibling = left_sibling l, right_sibling = 0, records = take t ?rs \<rparr>,
             \<lparr> left_sibling = 0, right_sibling = 0, records = drop t ?rs \<rparr>, sep_key)) = Ok (left, right, sep)"
      "?rs \<noteq> []"
    using assms by (auto simp: split_leaf_def Let_def split: if_splits option.splits)
  have "0 < t" using split_loop_clamped [OF t(1)] by (auto simp: clamp_split_def)
  moreover obtain e where "index (drop t ?rs) 0 = Ok e" "records left = take t ?rs" "records right = drop t ?rs" "sep = fst e"
    using t(2) by (auto simp: rbind_eq_Ok split: prod.splits)
  moreover from this have "drop t ?rs \<noteq> []" "e = hd (drop t ?rs)"
    by (auto simp: index_def hd_conv_nth split: if_splits)
  ultimately show "?rs = records left @ records right" "records left \<noteq> []" "records right \<noteq> []"
      "sep = fst (hd (records right))"
    using t(3) by auto
qed

lemma core_dpp_keys: "core s = core self \<Longrightarrow> map fst (dirty_parent_paths s) = map fst (dirty_parent_paths self)"
  by (simp add: core_def)

lemma cow_core:
  "cow_internal_repointing_child self p q c d = (Ok (), s) \<Longrightarrow> core s = core self"
  by (auto simp: cow_internal_repointing_child_def mbind_eq_Ok split: prod.splits result.splits
      dest!: write_body_core(1))

lemma write_internal_core: "write_internal self p n = (Ok (), s) \<Longrightarrow> core s = core self"
  by (auto simp: write_internal_def split: result.splits dest!: write_body_core(1))

lemma remap_keys [simp]:
  "map fst (dirty_parent_paths (remap_dirty_parent_paths self p q)) = map fst (dirty_parent_paths self)"
  "map fst (dirty_parent_paths (remap_dirty_parent_paths_split self p q r n)) = map fst (dirty_parent_paths self)"
  by (simp_all add: remap_dirty_parent_paths_def remap_dirty_parent_paths_split_def Let_def case_prod_beta comp_def)

lemma cow_spine_keys:
  "cow_spine self ps c d = (Ok (), s) \<Longrightarrow> map fst (dirty_parent_paths s) = map fst (dirty_parent_paths self)"
proof (induction ps arbitrary: self c d)
  case (Cons p ps)
  obtain q s1 s2 s3 where r: "allocate_page self = (Ok q, s1)" "cow_internal_repointing_child s1 p q c d = (Ok (), s2)"
      "free_page s2 p = (Ok (), s3)" "cow_spine (remap_dirty_parent_paths s3 p q) ps p q = (Ok (), s)"
    using Cons.prems by (auto simp: mbind_eq_Ok)
  have "core s3 = core self"
    using allocate_page_core [OF r(1)] cow_core [OF r(2)] free_page_core [OF r(3)] by simp
  then show ?case using Cons.IH [OF r(4)] core_dpp_keys [of s3 self] by simp
qed auto

lemma propagate_keys:
  "propagate_loop self ps c d sep r = (Ok (), s) \<Longrightarrow> map fst (dirty_parent_paths s) = map fst (dirty_parent_paths self)"
proof (induction ps arbitrary: self c d sep r)
  case Nil
  then show ?case
    using allocate_page_core write_internal_core
    by (fastforce simp: mbind_eq_Ok core_def case_prod_beta comp_def)
next
  case (Cons p ps)
  obtain n where n: "read_internal self p = Ok n"
    using Cons.prems by (auto simp: mbind_eq_Ok)
  define n' where "n' = internal_upsert (repoint_child n c d) sep r"
  obtain q s1 where al: "allocate_page self = (Ok q, s1)"
    using Cons.prems by (auto simp: mbind_eq_Ok Let_def)
  show ?case
  proof (cases "internal_fits n' (tr_page_size s1)")
    case True
    then obtain s2 s3 where r: "write_internal s1 q n' = (Ok (), s2)" "free_page s2 p = (Ok (), s3)"
        "cow_spine (remap_dirty_parent_paths s3 p q) ps p q = (Ok (), s)"
      using Cons.prems n al by (auto simp: mbind_eq_Ok Let_def n'_def)
    have "core s3 = core self"
      using allocate_page_core [OF al] write_internal_core [OF r(1)] free_page_core [OF r(2)] by simp
    then show ?thesis using cow_spine_keys [OF r(3)] core_dpp_keys [of s3 self] by simp
  next
    case False
    then obtain l rt pk r' s2 s3 s4 s5 where r: "split_internal n' = Ok (l, rt, pk)" "allocate_page s1 = (Ok r', s2)"
        "write_internal s2 q l = (Ok (), s3)" "write_internal s3 r' rt = (Ok (), s4)" "free_page s4 p = (Ok (), s5)"
        "propagate_loop (remap_dirty_parent_paths_split s5 p q r' rt) ps p q pk r' = (Ok (), s)"
      using Cons.prems n al by (auto simp: mbind_eq_Ok Let_def n'_def split: prod.splits)
    have "core s5 = core self"
      using allocate_page_core [OF al] allocate_page_core [OF r(2)] write_internal_core [OF r(3)]
        write_internal_core [OF r(4)] free_page_core [OF r(5)] by simp
    then show ?thesis using Cons.IH [OF r(6)] core_dpp_keys [of s5 self] by simp
  qed
qed

text \<open>The session once the leaf on page \<open>p\<close> is replaced by two fresh leaves on \<open>q\<close> and \<open>r\<close>.\<close>

definition two_leaves :: "tree \<Rightarrow> page_id set \<Rightarrow> page_id \<Rightarrow> tree \<Rightarrow> page_id \<Rightarrow> leaf \<Rightarrow> page_id \<Rightarrow> leaf \<Rightarrow> tree \<Rightarrow> bool" where
  "two_leaves self U p s0 q left r right s \<longleftrightarrow> q \<notin> U \<and> r \<notin> U \<and> q \<noteq> r \<and> good s ({q, r} \<union> U - {p}) \<and>
     tr_pager s = tr_pager self \<and> agree self s (U - {p}) \<and>
     map_of (fresh_leaves s) q = Some left \<and> map_of (fresh_leaves s) r = Some right \<and>
     fst ` set (fresh_leaves s) = {q, r} \<union> fst ` set (fresh_leaves s0) \<and> distinct (map fst (fresh_leaves s)) \<and>
     dirty_leaves s = dirty_leaves s0 \<and> dirty_parent_paths s = dirty_parent_paths s0 \<and>
     scheduled_frees s = scheduled_frees s0"

lemma two_leaves_spec:
  assumes "good s0 U" and "p \<in> U" and "agree self s0 (- {p})" and "tr_pager s0 = tr_pager self"
    and "p \<notin> fst ` set (fresh_leaves s0)" and "p \<notin> fst ` set (dirty_leaves s0)" and "distinct (map fst (fresh_leaves s0))"
    and "allocate_page s0 = (Ok q, s1)" and "allocate_page s1 = (Ok r, s2)"
    and "free_page (s2\<lparr>fresh_leaves := AList.update r right (AList.update q left (fresh_leaves s2))\<rparr>) p = (Ok (), s)"
  shows "two_leaves self U p s0 q left r right s"
proof -
  note a = alloc_good [OF assms(1,8)]
  note b = alloc_good [OF a(1) assms(9)]
  have f: "fresh_leaves s2 = fresh_leaves s0" "dirty_leaves s2 = dirty_leaves s0" "tr_page_size s2 = tr_page_size s0"
      "dirty_parent_paths s2 = dirty_parent_paths s0" "scheduled_frees s2 = scheduled_frees s0" "tr_realm s2 = tr_realm s0"
    using a(3) b(3) by (simp_all add: core_def)
  define s3 where "s3 = s2\<lparr>fresh_leaves := AList.update r right (AList.update q left (fresh_leaves s2))\<rparr>"
  have qr: "q \<notin> U" "r \<notin> U" "q \<noteq> r" using a(2) b(2) by auto
  have keys: "fst ` set (fresh_leaves s3) = {q, r} \<union> fst ` set (fresh_leaves s0)"
    by (auto simp: s3_def f dom_update)
  have cU: "fst ` set (fresh_leaves s0) \<subseteq> U" "fst ` set (dirty_leaves s0) \<subseteq> U" using assms(1) by (auto simp: good_def)
  have g3: "good s3 (insert r (insert q U))"
  proof (rule good_fields [OF b(1)])
    show "fst ` set (fresh_leaves s3) \<subseteq> insert r (insert q U)" using keys cU by auto
    show "fst ` set (dirty_leaves s3) \<subseteq> insert r (insert q U)" using cU by (auto simp: s3_def f)
  qed (auto simp: s3_def in_use_def alloc_inv_def cache_of_def)
  have pn: "p \<notin> fst ` set (fresh_leaves s3)" "p \<notin> fst ` set (dirty_leaves s3)" "p \<in> insert r (insert q U)"
    using keys assms(2,5,6) qr by (auto simp: s3_def f)
  note fr = free_step [OF assms(10) [folded s3_def] g3 pn(3,1,2)]
  have "fresh_leaves s = fresh_leaves s3" "dirty_leaves s = dirty_leaves s0" "dirty_parent_paths s = dirty_parent_paths s0"
      "scheduled_frees s = scheduled_frees s0" "tr_realm s = tr_realm s0" "tr_page_size s = tr_page_size s0"
      "tr_pager s = tr_pager self"
    using fr(2,3) f a(4) b(4) assms(4) by (simp_all add: core_def s3_def)
  moreover have "map_of (fresh_leaves s3) = (map_of (fresh_leaves s0))(q \<mapsto> left, r \<mapsto> right)"
    by (simp add: s3_def f update_conv')
  moreover have "distinct (map fst (fresh_leaves s3))" using assms(7) by (simp add: s3_def f distinct_update)
  ultimately show ?thesis
    using qr fr(1) keys assms(3) by (auto simp: two_leaves_def agree_def insert_commute)
qed

lemma ctx_leaves_side: "fst ` set (ctx_ll ctx) \<union> fst ` set (ctx_lr ctx) \<subseteq> set (ctx_side ctx)"
proof (induction ctx)
  case (Cons f fs)
  have "fst ` set (fll f) \<union> fst ` set (flr f) \<subseteq> set (fside f)"
    using aleaves_pages [unfolded leaf_pages_def]
    by (cases f) (fastforce simp: aleavess_def plists_def)+
  then show ?case using Cons by auto
qed simp

lemma leaf_pages_ALeaf [simp]: "leaf_pages (ALeaf p l) = {p}"
  by (simp add: leaf_pages_def)

lemma leaf_pages_plugs:
  "leaf_pages (plugs ctx t) = fst ` set (ctx_ll ctx) \<union> leaf_pages t \<union> fst ` set (ctx_lr ctx)"
  by (simp add: leaf_pages_def aleaves_plugs image_Un Un_assoc)

lemma hole_paths_other:
  assumes "(x, path) \<in> hole_paths ctx {(p, [])}" and "x \<noteq> p"
  shows "(x, path) \<in> hole_paths ctx S"
  using assms by (auto simp: hole_paths_def)

lemma split_ready:
  assumes inv: "tree_inv self (plugs ctx (ALeaf p l)) []" and fr: "fr = (map_of (fresh_leaves self) p \<noteq> None)"
    and cl: "cached_leaf self p fr = Ok l"
    and two: "two_leaves self (set (owned self (plugs ctx (ALeaf p l)) [])) p (drop_leaf self p fr) q left r right s"
    and parts: "records l = records left @ records right" "records left \<noteq> []" "records right \<noteq> []"
      "sep = fst (hd (records right))"
  shows "split_pre s ({q, r} \<union> set (owned self (plugs ctx (ALeaf p l)) []) - {p}) ctx p (ALeaf q left) sep (ALeaf r right)"
proof -
  let ?a = "plugs ctx (ALeaf p l)" and ?U = "set (owned self (plugs ctx (ALeaf p l)) [])"
  note t = inv [unfolded tree_inv_def]
  note dl = drop_leaf_caches [OF _ fr cl, of ?a]
  note w = two [unfolded two_leaves_def]
  have co: "caches_ok self ?a" using t by blast
  have pages: "distinct (ctx_pages ctx @ ctx_side ctx @ [p])" using t by (simp add: distinct_plugs)
  have inU: "set (ctx_pages ctx) \<union> set (ctx_side ctx) \<subseteq> ?U - {p}" using pages by (auto simp: set_plugs)
  have ag: "agree self s (?U - {p})" using w by blast
  have o: "sorted_keys (records l)" "\<forall>x \<in> set (records l). inside (ctx_lo ctx) (ctx_hi ctx) (fst x)" "ctx_ordered ctx"
    using t by (simp_all add: ordered_plugs)
  obtain e es where e: "records right = e # es" "sep = fst e" using parts(3,4) by (cases "records right") auto
  have sk: "sorted_keys (records left)" "sorted_keys (records right)" "\<forall>x \<in> set (records left). fst x < sep"
      "\<forall>x \<in> set (records right). sep \<le> fst x"
    using o(1) e unfolding parts(1) by (auto simp: sorted_wrt_append)
  have ins: "ctx_lo ctx < sep" "below sep (ctx_hi ctx)"
  proof -
    obtain x where x: "x \<in> set (records left)" using parts(2) by (cases "records left") auto
    then have "ctx_lo ctx \<le> fst x" "fst x < sep" using o(2) sk(3) parts(1) by (auto simp: inside_def)
    then show "ctx_lo ctx < sep" by (rule order.strict_trans1)
    show "below sep (ctx_hi ctx)" using o(2) e parts(1) by (simp add: inside_def)
  qed
  have "ordered (ctx_lo ctx) (Some sep) (ALeaf q left)" "ordered sep (ctx_hi ctx) (ALeaf r right)"
    using sk o(2) unfolding parts(1) by (auto simp: inside_def)
  moreover have "frames_hold s ctx p"
    using t frames_hold_agree [OF ag inU, of p] by (simp add: holds_plugs)
  moreover have "holds s (ALeaf q left)" "holds s (ALeaf r right)" using w by (auto simp: leaf_at_def)
  moreover have "distinct (ctx_pages ctx @ ctx_side ctx @ plist (ALeaf q left) @ plist (ALeaf r right))"
    using pages inU w by auto
  moreover have "set (ctx_pages ctx @ ctx_side ctx @ plist (ALeaf q left) @ plist (ALeaf r right)) \<subseteq> {q, r} \<union> ?U - {p}"
    using inU w plugs_leaf_pages [of p ctx l] aleaves_pages [of ?a] by auto
  moreover have "p \<notin> set (ctx_side ctx)" using pages by simp
  moreover have "set (ctx_pages ctx) \<inter> fst ` set (dirty_leaves s) = {}"
  proof -
    have "dirty_leaves s = dirty_leaves (drop_leaf self p fr)" using w by simp
    then have "fst ` set (dirty_leaves s) \<subseteq> leaf_pages ?a"
      using dl(2) [OF co] co unfolding caches_ok_def by auto
    also have "\<dots> \<subseteq> insert p (set (ctx_side ctx))"
      using ctx_leaves_side [of ctx] by (auto simp: leaf_pages_plugs)
    finally show ?thesis using pages by auto
  qed
  moreover have "set (dirty_parent_paths s) \<subseteq> hole_paths ctx (set (lpaths (ALeaf q left)) \<union> set (lpaths (ALeaf r right)))"
  proof (rule subsetI)
    fix x assume x: "x \<in> set (dirty_parent_paths s)"
    then have x0: "x \<in> set (dirty_parent_paths (drop_leaf self p fr))" using w by simp
    have "x \<in> hole_paths ctx {(p, [])}"
      using x0 dl(5) [OF co] co lpaths_plugs_eq [of ctx "ALeaf p l"] by (auto simp: caches_ok_def)
    moreover have "fst x \<noteq> p" using imageI [OF x0, of fst] dl(6,2) [OF co] by auto
    ultimately show "x \<in> hole_paths ctx (set (lpaths (ALeaf q left)) \<union> set (lpaths (ALeaf r right)))"
      using hole_paths_other by (cases x) auto
  qed
  ultimately show ?thesis using w o(3) ins unfolding split_pre_def by blast
qed

lemma split_caches:
  assumes "caches_ok self (plugs ctx (ALeaf p l))" and "fr = (map_of (fresh_leaves self) p \<noteq> None)"
    and "cached_leaf self p fr = Ok l"
    and "two_leaves self U p (drop_leaf self p fr) q left r right s"
    and "rebuilt s U' P W (ctx_ll ctx @ aleaves (ALeaf q left) @ aleaves (ALeaf r right) @ ctx_lr ctx) s' a'"
    and "propagate_loop s ps p q sep r = (Ok (), s')" and "fst ` set (dirty_leaves self) \<subseteq> U"
  shows "caches_ok s' a'"
proof -
  note c = assms(1) [unfolded caches_ok_def] and w = assms(4) [unfolded two_leaves_def] and rb = assms(5) [unfolded rebuilt_def]
  note dl = drop_leaf_caches [OF assms(1-3)]
  have e: "fresh_leaves s' = fresh_leaves s" "dirty_leaves s' = dirty_leaves (drop_leaf self p fr)"
      "scheduled_frees s' = scheduled_frees (drop_leaf self p fr)"
    using rb w by (auto simp: caches_def)
  have k: "fst ` set (dirty_parent_paths s') = fst ` set (dirty_parent_paths (drop_leaf self p fr))"
    using arg_cong [OF propagate_keys [OF assms(6)], of set] w by simp
  have lp: "leaf_pages a' = fst ` set (ctx_ll ctx) \<union> {q, r} \<union> fst ` set (ctx_lr ctx)"
    using rb by (auto simp: leaf_pages_def image_Un)
  have lp0: "leaf_pages (plugs ctx (ALeaf p l)) = fst ` set (ctx_ll ctx) \<union> {p} \<union> fst ` set (ctx_lr ctx)"
    by (simp add: leaf_pages_plugs)
  have fk: "fst ` set (fresh_leaves s') = {q, r} \<union> (fst ` set (fresh_leaves self) - {p})"
    using e(1) w dl(1) by simp
  have dk: "fst ` set (dirty_leaves s') = fst ` set (dirty_leaves self) - {p}" using e(2) dl(2) by simp
  have F: "fst ` set (fresh_leaves self) \<subseteq> leaf_pages (plugs ctx (ALeaf p l))"
      "fst ` set (dirty_leaves self) \<subseteq> leaf_pages (plugs ctx (ALeaf p l))"
      "fst ` set (fresh_leaves self) \<inter> fst ` set (dirty_leaves self) = {}" "q \<notin> U" "r \<notin> U"
    using c w by simp_all
  have "distinct (map fst (fresh_leaves s'))" "distinct (map fst (dirty_leaves s'))"
      "set (dirty_parent_paths s') \<subseteq> set (lpaths a')"
      "fst ` set (dirty_parent_paths s') = fst ` set (dirty_leaves s')"
      "mset (scheduled_frees s') = mset (map fst (dirty_leaves s'))"
    using e w dl(4,6,7) k rb by simp_all
  moreover have "fst ` set (fresh_leaves s') \<subseteq> leaf_pages a'" unfolding fk lp using F(1) [unfolded lp0] by blast
  moreover have "fst ` set (dirty_leaves s') \<subseteq> leaf_pages a'" unfolding dk lp using F(2) [unfolded lp0] by blast
  moreover have "fst ` set (fresh_leaves s') \<inter> fst ` set (dirty_leaves s') = {}"
    unfolding fk dk using F(3-5) assms(7) by blast
  ultimately show ?thesis unfolding caches_ok_def by (intro conjI)
qed

lemma split_at_path_spec:
  assumes run: "split_at_path self (rev (ctx_pages ctx) @ [p]) fr m = (Ok b, s')"
    and inv: "tree_inv self (plugs ctx (ALeaf p l)) []" and fr: "fr = (map_of (fresh_leaves self) p \<noteq> None)"
    and cl: "cached_leaf self p fr = Ok l"
  shows "\<exists>a'. tree_inv s' a' [] \<and> recs a' = recs (plugs ctx (ALeaf p l)) \<and>
    contents s' (recs a') = contents self (recs a')"
proof -
  let ?a = "plugs ctx (ALeaf p l)" and ?U = "set (owned self (plugs ctx (ALeaf p l)) [])"
  note t = inv [unfolded tree_inv_def]
  have co: "caches_ok self ?a" using t by blast
  note dl = drop_leaf_caches [OF co fr cl]
  obtain q s1 left0 right0 sep r s2 s4 where al: "allocate_page (drop_leaf self p fr) = (Ok q, s1)"
    and sp: "split_leaf l m (tr_page_size s1) = Ok (left0, right0, sep)" and al2: "allocate_page s1 = (Ok r, s2)"
    and fp: "free_page (s2\<lparr>fresh_leaves := AList.update r (right0\<lparr>left_sibling := 0, right_sibling := 0\<rparr>)
        (AList.update q (left0\<lparr>left_sibling := 0, right_sibling := 0\<rparr>) (fresh_leaves s2))\<rparr>) p = (Ok (), s4)"
    and pr: "propagate_loop s4 (ctx_pages ctx) p q sep r = (Ok (), s')"
    using run cl
    by (auto simp: split_at_path_def mbind_eq_Ok Let_def propagate_split_up_def drop_leaf_def split: prod.splits)
  define left right where "left = left0\<lparr>left_sibling := 0, right_sibling := 0\<rparr>"
    and "right = right0\<lparr>left_sibling := 0, right_sibling := 0\<rparr>"
  have parts: "records l = records left @ records right" "records left \<noteq> []" "records right \<noteq> []"
      "sep = fst (hd (records right))"
    using split_leaf_parts [OF sp] by (simp_all add: left_def right_def)
  have two: "two_leaves self ?U p (drop_leaf self p fr) q left r right s4"
  proof (rule two_leaves_spec [OF _ _ dl(8) _ _ _ dl(3) al al2 fp [folded left_def right_def]])
    show "good (drop_leaf self p fr) ?U"
    proof (rule good_fields [where self = self])
      show "good self ?U" using t by blast
      then show "fst ` set (fresh_leaves (drop_leaf self p fr)) \<subseteq> ?U" "fst ` set (dirty_leaves (drop_leaf self p fr)) \<subseteq> ?U"
        unfolding dl(1,2) good_def by blast+
    qed simp_all
    show "p \<in> ?U" using plugs_leaf_pages [of p ctx l] aleaves_pages [of ?a] by auto
  qed (simp_all add: dl(1,2))
  note w = two [unfolded two_leaves_def]
  let ?U' = "{q, r} \<union> ?U - {p}" and ?P = "set (ctx_pages ctx)" and ?V = "set (pages_of_values self (recs ?a))"
  have spre: "split_pre s4 ?U' ctx p (ALeaf q left) sep (ALeaf r right)"
    by (rule split_ready [OF inv fr cl two parts])
  obtain a' where "split_done s4 ?U' ctx (ALeaf q left) (ALeaf r right) s' a'"
    using propagate_spec [of s4 ctx p "ALeaf q left" sep "ALeaf r right" s', OF _ spre] pr by auto
  note rb = this [unfolded rebuilt_def]
  have rc: "recs a' = recs ?a"
    using rb parts(1) by (simp add: recs_aleaves aleaves_plugs)
  let ?S = "set (ctx_side ctx)"
  have pl: "?U = ?P \<union> ?S \<union> {p} \<union> ?V" by (simp add: set_plugs Un_assoc)
  have "distinct (plist ?a)" "set (plist ?a) \<inter> ?V = {}" using t by simp_all
  then have dj: "?P \<inter> ?S = {}" "p \<notin> ?P" "p \<notin> ?S" "(?P \<union> ?S \<union> {p}) \<inter> ?V = {}"
    unfolding distinct_plugs by (simp_all add: set_plugs)
  have qr: "q \<notin> ?U" "r \<notin> ?U" using w by blast+
  have V: "?V \<subseteq> ?U' - ?P" "?V \<inter> (?S \<union> {q, r}) = {}" using dj(4) qr unfolding pl by blast+
  have U': "?U' - ?P = ?V \<union> (?S \<union> {q, r})" using dj qr unfolding pl by blast
  have sm: "same_pages (tr_pager self) (tr_pager s') (?U' - ?P)" "tr_realm s' = tr_realm self"
    using rb w by (auto simp: agree_def caches_def)
  have vals: "values_at (tr_pager s') (tr_realm s') (recs ?a)" "pages_of_values s' (recs ?a) = pages_of_values self (recs ?a)"
    using values_at_frame [OF _ sm(1) V(1)] t sm(2) by auto
  have cont: "contents s' (recs ?a) = contents self (recs ?a)"
    by (rule contents_frame [OF _ sm(2,1) V(1)]) (use t in blast)
  have W: "set (plist a') \<inter> (?U' - ?P) = set (ctx_side ctx) \<union> {q, r}" using rb by auto
  have "distinct (plist a')" "distinct (pages_of_values self (recs ?a))" "set (plist a') \<inter> ?V = {}"
    using rb t V W by (blast, simp, blast)
  then have d: "distinct (owned s' a' [])" unfolding rc vals(2) by simp
  have "set (owned s' a' []) = set (plist a') \<union> ?V" unfolding rc vals(2) by simp
  also have "\<dots> = ?U' - ?P \<union> set (plist a')"
  proof -
    have "?S \<union> {q, r} \<subseteq> set (plist a')" using W by blast
    then show ?thesis unfolding U' by blast
  qed
  finally have g: "good s' (set (owned s' a' []))" using rb by (simp only:)
  have co': "caches_ok s' a'"
    by (rule split_caches [OF co fr cl two \<open>split_done s4 ?U' ctx (ALeaf q left) (ALeaf r right) s' a'\<close> pr])
      (use t in \<open>simp add: good_def\<close>)
  have "tree_inv s' a' []"
    using rb d g vals(1) rc co' by (simp add: tree_inv_def)
  then show ?thesis using rc cont by auto
qed


section \<open>One record of a leaf\<close>

lemma upsert_cases:
  assumes "sorted_keys (records l)"
  obtains (new) A B where "records l = A @ B" and "records (fst (upsert l k v)) = A @ (k, v) # B"
      and "snd (snd (upsert l k v)) = None"
  | (old) A v0 B where "records l = A @ (k, v0) # B" and "records (fst (upsert l k v)) = A @ (k, v) # B"
      and "snd (snd (upsert l k v)) = Some v0"
proof (cases "key_search (records l) k")
  case (Inl i)
  note h = key_search_hit [OF Inl]
  obtain v0 where v0: "records l ! i = (k, v0)" using h by (cases "records l ! i") auto
  have "records l = take i (records l) @ (k, v0) # drop (Suc i) (records l)"
    using h v0 id_take_nth_drop [of i "records l"] by simp
  moreover have "records (fst (upsert l k v)) = take i (records l) @ (k, v) # drop (Suc i) (records l)"
    "snd (snd (upsert l k v)) = Some v0"
    using Inl v0 h by (simp_all add: upsert_def position_def upd_conv_take_nth_drop)
  ultimately show ?thesis by (rule old)
next
  case (Inr i)
  have "records l = take i (records l) @ drop i (records l)" by simp
  moreover have "records (fst (upsert l k v)) = take i (records l) @ (k, v) # drop i (records l)"
    "snd (snd (upsert l k v)) = None"
    using Inr by (simp_all add: upsert_def position_def vec_insert_def)
  ultimately show ?thesis by (rule new)
qed

lemma remove_cases:
  obtains (absent) "remove l k = (l, None)"
  | (present) A v0 B where "records l = A @ (k, v0) # B" and "records (fst (remove l k)) = A @ B"
      and "snd (remove l k) = Some v0"
proof (cases "key_search (records l) k")
  case (Inl i)
  note h = key_search_hit [OF Inl]
  obtain v0 where v0: "records l ! i = (k, v0)" using h by (cases "records l ! i") auto
  have "records l = take i (records l) @ (k, v0) # drop (Suc i) (records l)"
    using h v0 id_take_nth_drop [of i "records l"] by simp
  moreover have "records (fst (remove l k)) = take i (records l) @ drop (Suc i) (records l)"
    "snd (remove l k) = Some v0"
    using Inl v0 by (simp_all add: remove_def position_def vec_remove_def)
  ultimately show ?thesis by (rule present)
next
  case (Inr i)
  then show ?thesis using absent by (simp add: remove_def position_def)
qed

lemma map_of_plugs_upd:
  assumes "ctx_ordered ctx" and "inside (ctx_lo ctx) (ctx_hi ctx) k"
    and "map_of (records l') = (map_of (records l))(k := x)"
  shows "map_of (recs (plugs ctx (ALeaf p l'))) = (map_of (recs (plugs ctx (ALeaf p l))))(k := x)"
proof
  fix k'
  show "map_of (recs (plugs ctx (ALeaf p l'))) k' = ((map_of (recs (plugs ctx (ALeaf p l))))(k := x)) k'"
  proof (cases "k' = k")
    case True
    then show ?thesis using map_of_plugs [OF assms(1,2), of "ALeaf p l'"] assms(3) by simp
  next
    case False
    then show ?thesis using assms(3) by (simp add: recs_plugs map_add_def)
  qed
qed

lemma contents_upd:
  assumes "map_of rs' = (map_of rs)(k := x)"
    and "case x of None \<Rightarrow> y = None | Some v \<Rightarrow> \<exists>d. resolve_leaf_value self v = Ok d \<and> y = Some d"
  shows "contents self rs' = (contents self rs)(k := y)"
  using assms by (auto simp: contents_def fun_eq_iff split: option.splits)

lemma contents_pager:
  "tr_pager s = tr_pager self \<Longrightarrow> tr_realm s = tr_realm self \<Longrightarrow> contents s rs = contents self rs"
  by (auto simp: contents_def resolve_leaf_value_def fun_eq_iff split: option.splits leaf_value.splits)

text \<open>The leaf a write works on, brought into a cache.\<close>

lemma cached_for_write:
  assumes "tree_inv self a X" and "a = plugs ctx (ALeaf p l)" and "fr = (map_of (fresh_leaves self) p \<noteq> None)"
  obtains s where "(if \<not> fr then ensure_leaf_dirty self p (rev (ctx_pages ctx) @ [p]) else (Ok (), self)) = (Ok (), s)"
    and "tree_inv s a X" and "cached_leaf s p fr = Ok l" and "fr = (map_of (fresh_leaves s) p \<noteq> None)"
    and "tr_pager s = tr_pager self" and "tr_realm s = tr_realm self"
proof (cases fr)
  case True
  then obtain l' where l': "map_of (fresh_leaves self) p = Some l'" using assms(3) by auto
  have "leaf_at self p l" using assms(1,2) by (simp add: tree_inv_def holds_plugs)
  then have "l' = l" using l' by (simp add: leaf_at_def)
  then show ?thesis using that [of self] True assms l' by (simp add: cached_leaf_def)
next
  case False
  then have none: "map_of (fresh_leaves self) p = None" using assms(3) by simp
  obtain s where s: "ensure_leaf_dirty self p (rev (ctx_pages ctx) @ [p]) = (Ok (), s)" "tree_inv s a X"
      "map_of (dirty_leaves s) p = Some l" "map_of (fresh_leaves s) p = None"
      "tr_pager s = tr_pager self" "tr_realm s = tr_realm self"
    by (rule ensure_leaf_dirty_spec [OF assms(1,2) none])
  then show ?thesis using that [of s] False by (simp add: cached_leaf_def)
qed

section \<open>Insertion\<close>

text \<open>The leaf with the record in it; the pages of a replaced value are no longer the tree's.\<close>

lemma upsert_cached_spec:
  assumes inv: "tree_inv self (plugs ctx (ALeaf p l)) (vpages (tr_pager self) (tr_realm self) v)"
    and fr: "fr = (map_of (fresh_leaves self) p \<noteq> None)" and cl: "cached_leaf self p fr = Ok l"
    and k: "inside (ctx_lo ctx) (ctx_hi ctx) k" and v: "value_at (tr_pager self) (tr_realm self) v val"
    and up: "upsert l k v = (l', new, old)"
  defines "s \<equiv> set_cached_leaf self p fr l'"
  shows "tree_inv s (plugs ctx (ALeaf p l')) (case old of None \<Rightarrow> [] | Some v0 \<Rightarrow> vpages (tr_pager self) (tr_realm self) v0)"
    and "cached_leaf s p fr = Ok l'" and "fr = (map_of (fresh_leaves s) p \<noteq> None)"
    and "contents s (recs (plugs ctx (ALeaf p l'))) = (contents self (recs (plugs ctx (ALeaf p l))))(k \<mapsto> val)"
    and "\<And>v0. old = Some v0 \<Longrightarrow> \<exists>d. value_at (tr_pager self) (tr_realm self) v0 d"
proof -
  let ?Y = "case old of None \<Rightarrow> [] | Some v0 \<Rightarrow> vpages (tr_pager self) (tr_realm self) v0"
  note t = inv [unfolded tree_inv_def]
  have o: "sorted_keys (records l)" "\<forall>x \<in> set (records l). inside (ctx_lo ctx) (ctx_hi ctx) (fst x)" "ctx_ordered ctx"
      "values_at (tr_pager self) (tr_realm self) (records l)"
    using t by (simp_all add: ordered_plugs recs_plugs)
  have l': "l' = fst (upsert l k v)" "old = snd (snd (upsert l k v))" using up by simp_all
  have q: "(\<forall>x \<in> set (records l'). inside (ctx_lo ctx) (ctx_hi ctx) (fst x)) \<and>
      values_at (tr_pager self) (tr_realm self) (records l') \<and>
      mset (pages_of_values self (records l')) + mset ?Y = mset (pages_of_values self (records l)) + mset (vpages (tr_pager self) (tr_realm self) v)"
    using o(1) unfolding l'
    by (cases rule: upsert_cases [where k = k and v = v]) (use o v k in auto)
  note st = set_cached_leaf_spec [OF inv fr cl, of l' ?Y]
  have so: "sorted_keys (records l')" using upsert_spec(1) [OF o(1), of k v] l' by simp
  show "tree_inv s (plugs ctx (ALeaf p l')) ?Y" "cached_leaf s p fr = Ok l'" "fr = (map_of (fresh_leaves s) p \<noteq> None)"
    unfolding s_def using st so q by blast+
  have m: "map_of (records l') = (map_of (records l))(k := Some v)" using upsert_spec(2) [OF o(1), of k v] l' by simp
  show "contents s (recs (plugs ctx (ALeaf p l'))) = (contents self (recs (plugs ctx (ALeaf p l))))(k \<mapsto> val)"
    using contents_upd [OF map_of_plugs_upd [OF o(3) k m], of "Some val" self p] value_at_resolve [OF v]
      contents_pager [of s self "recs (plugs ctx (ALeaf p l'))"] by (simp add: s_def)
  show "\<exists>d. value_at (tr_pager self) (tr_realm self) v0 d" if "old = Some v0" for v0
    using o(1) by (cases rule: upsert_cases [where k = k and v = v]) (use that l' o(4) in auto)
qed

lemma put_at_path_spec:
  assumes run: "put_at_path self (rev (ctx_pages ctx) @ [p]) k v = (Ok b, s')"
    and inv: "tree_inv self a (vpages (tr_pager self) (tr_realm self) v)" and a: "a = plugs ctx (ALeaf p l)"
    and k: "inside (ctx_lo ctx) (ctx_hi ctx) k" and v: "value_at (tr_pager self) (tr_realm self) v val"
  shows "\<exists>a'. tree_inv s' a' [] \<and> contents s' (recs a') = (contents self (recs a))(k \<mapsto> val)"
proof -
  define fr where "fr = (map_of (fresh_leaves self) p \<noteq> None)"
  obtain s1 where s1: "(if \<not> fr then ensure_leaf_dirty self p (rev (ctx_pages ctx) @ [p]) else (Ok (), self)) = (Ok (), s1)"
      "tree_inv s1 a (vpages (tr_pager self) (tr_realm self) v)" "cached_leaf s1 p fr = Ok l"
      "fr = (map_of (fresh_leaves s1) p \<noteq> None)" "tr_pager s1 = tr_pager self" "tr_realm s1 = tr_realm self"
    by (rule cached_for_write [OF inv a fr_def])
  obtain l' new old where up: "upsert l k v = (l', new, old)" by (cases "upsert l k v")
  define s2 where "s2 = set_cached_leaf s1 p fr l'"
  define m where "m = (records l \<noteq> [] \<and> k > fst (last (records l)) \<and> (\<forall>r \<in> set (records l). fst r \<noteq> k))"
  let ?a' = "plugs ctx (ALeaf p l')"
  note inv1 = s1(2) [unfolded a, folded s1(5,6)] and v1 = v [folded s1(5,6)]
  note u = upsert_cached_spec [OF inv1 s1(4,3) k v1 up, folded s2_def]
  obtain s3 where s3: "release_replaced s2 p fr k old = (Ok (), s3)"
      "(if fits l' (tr_page_size s1) then (Ok False, s3) else split_at_path s3 (rev (ctx_pages ctx) @ [p]) fr m) = (Ok b, s')"
  proof -
    have ne: "rev (ctx_pages ctx) @ [p] \<noteq> []" by simp
    have "mbind (release_replaced s2 p fr k old) (\<lambda>_ self.
        if fits l' (tr_page_size s1) then (Ok False, self) else split_at_path self (rev (ctx_pages ctx) @ [p]) fr m) = (Ok b, s')"
      using run unfolding put_at_path_def if_not_P [OF ne] Let_def last_snoc fr_def [symmetric] s1(1) mbind.simps
        s1(3) up prod.case s2_def m_def .
    then obtain x s where "release_replaced s2 p fr k old = (Ok x, s)" "(if fits l' (tr_page_size s1) then (Ok False, s)
        else split_at_path s (rev (ctx_pages ctx) @ [p]) fr m) = (Ok b, s')"
      unfolding mbind_eq_Ok by blast
    then show ?thesis using that [of s] by (cases x) blast
  qed
  have p2: "tr_pager s2 = tr_pager self" "tr_realm s2 = tr_realm self" by (simp_all add: s2_def s1(5,6))
  have r: "tree_inv s3 ?a' [] \<and> contents s3 (recs ?a') = contents s2 (recs ?a') \<and> core s3 = core s2"
  proof (cases "\<exists>n root. old = Some (OverflowRef n root)")
    case True
    then obtain n root where old: "old = Some (OverflowRef n root)" by blast
    obtain d where d: "value_at (tr_pager s2) (tr_realm s2) (OverflowRef n root) d"
      using u(5) [OF old] p2 s1(5,6) by auto
    have i2: "tree_inv s2 ?a' (vpages (tr_pager s2) (tr_realm s2) (OverflowRef n root))"
      using u(1) old p2 s1(5,6) by simp
    note rel = s3(1) [unfolded release_replaced_def old option.case leaf_value.case]
    show ?thesis using release_value_spec [OF rel i2 d] by blast
  next
    case False
    then have "s3 = s2" "(case old of None \<Rightarrow> [] | Some v0 \<Rightarrow> vpages (tr_pager s1) (tr_realm s1) v0) = []"
      using s3(1) by (auto simp: release_replaced_def vpages_def split: option.splits leaf_value.splits)
    then show ?thesis using u(1) by simp
  qed
  have c3: "contents s3 (recs ?a') = (contents self (recs a))(k \<mapsto> val)"
    using r u(4) contents_pager [OF s1(5,6), of "recs a"] by (simp add: a)
  show ?thesis
  proof (cases "fits l' (tr_page_size s1)")
    case True
    then show ?thesis using s3(2) r c3 by auto
  next
    case False
    have f3: "fresh_leaves s3 = fresh_leaves s2" "dirty_leaves s3 = dirty_leaves s2" using r by (simp_all add: core_def)
    have "cached_leaf s3 p fr = cached_leaf s2 p fr" using f3 by (simp add: cached_leaf_def)
    then have "cached_leaf s3 p fr = Ok l'" "fr = (map_of (fresh_leaves s3) p \<noteq> None)"
      using u(2,3) unfolding f3 by simp_all
    then show ?thesis
      using split_at_path_spec [of s3 ctx p fr m b s' l'] s3(2) False r c3 by auto
  qed
qed

section \<open>The map a session represents\<close>

text \<open>An empty tree has no root and no cached leaf.\<close>

definition empty_inv :: "tree \<Rightarrow> page_id list \<Rightarrow> bool" where
  "empty_inv self X \<longleftrightarrow> root_page_id self = 0 \<and> good self (set X) \<and> distinct X \<and> fresh_leaves self = [] \<and>
     dirty_leaves self = [] \<and> dirty_parent_paths self = [] \<and> scheduled_frees self = []"

definition represents :: "tree \<Rightarrow> (key \<Rightarrow> bytes option) \<Rightarrow> bool" where
  "represents self m \<longleftrightarrow> (empty_inv self [] \<and> m = Map.empty) \<or> (\<exists>a. tree_inv self a [] \<and> m = contents self (recs a))"

lemma represents_root:
  assumes "represents self m"
  obtains (empty) "root_page_id self = 0" "empty_inv self []" "m = Map.empty"
  | (tree) a where "root_page_id self \<noteq> 0" "tree_inv self a []" "m = contents self (recs a)"
proof -
  have "root_page_id self \<noteq> 0" if "tree_inv self a []" for a
    using tree_inv_stored [OF that] that page_of_in_plist [of a] by (auto simp: stored_def tree_inv_def simp del: page_of_in_plist)
  then show ?thesis using assms empty tree unfolding represents_def empty_inv_def by blast
qed

lemma invalidate_fields [simp]:
  "core (invalidate_append_state self) = (tr_realm self, tr_page_size self, root_page_id self, dirty_leaves self,
     fresh_leaves self, scheduled_frees self, dirty_parent_paths self, None, None)"
  "tr_pager (invalidate_append_state self) = tr_pager self" "good (invalidate_append_state self) U = good self U"
  by (simp_all add: invalidate_append_state_def core_def good_def alloc_inv_def in_use_def cache_of_def)

text \<open>The append cursor is not part of what a session represents.\<close>

lemma holds_append [simp]:
  "holds (self\<lparr>append_cached_path := x, append_last_key := y\<rparr>) a = holds self a"
  using holds_agree [of self "self\<lparr>append_cached_path := x, append_last_key := y\<rparr>" UNIV a] by (simp add: agree_def)

lemma tree_inv_append [simp]:
  "tree_inv (self\<lparr>append_cached_path := x, append_last_key := y\<rparr>) a X = tree_inv self a X"
  "empty_inv (self\<lparr>append_cached_path := x, append_last_key := y\<rparr>) X = empty_inv self X"
  "contents (self\<lparr>append_cached_path := x, append_last_key := y\<rparr>) rs = contents self rs"
  by (simp_all add: tree_inv_def empty_inv_def caches_ok_def good_def alloc_inv_def in_use_def cache_of_def
      contents_def resolve_leaf_value_def fun_eq_iff cong: option.case_cong leaf_value.case_cong)

lemma represents_append [simp]:
  "represents (self\<lparr>append_cached_path := x, append_last_key := y\<rparr>) m = represents self m"
  by (simp add: represents_def)

lemma represents_invalidate [simp]: "represents (invalidate_append_state self) m = represents self m"
  by (simp add: invalidate_append_state_def)

lemma represents_get:
  assumes "represents self m"
  shows "tree_get self k = Ok (m k)"
  using assms
proof (cases rule: represents_root)
  case empty
  then show ?thesis by (simp add: tree_get_def)
next
  case (tree a)
  then show ?thesis using tree_inv_get by simp
qed

lemma write_leaf_fits: "write_leaf self p l = (Ok (), self') \<Longrightarrow> fits l (tr_page_size self)"
  by (auto simp: write_leaf_def encode_leaf_def Let_def fits_def slice_fits_def split: result.splits if_splits)

lemma write_leaf_step:
  assumes "write_leaf self p l = (Ok (), self')" and "good self U" and "wf_records (records l)"
  shows "good self' U" and "core self' = core self" and "same_pages (tr_pager self) (tr_pager self') (- {p})"
    and "\<exists>body. page_bytes self' p BTreeLeaf body \<and> decode_leaf body = Ok l"
  using write_leaf_good [OF assms(2,3) write_leaf_fits [OF assms(1)], of p] assms(1) by (metis prod.inject)+

lemma create_root_spec:
  assumes "create_root self k v = (Ok (), s)" and "empty_inv self (vpages (tr_pager self) (tr_realm self) v)"
    and "value_at (tr_pager self) (tr_realm self) v val"
  shows "\<exists>a. tree_inv s a [] \<and> contents s (recs a) = [k \<mapsto> val]"
proof -
  let ?vp = "vpages (tr_pager self) (tr_realm self) v"
  note e = assms(2) [unfolded empty_inv_def]
  obtain q s1 s2 where al: "allocate_page self = (Ok q, s1)"
    and wr: "write_leaf s1 q (fst (upsert new_leaf k v)) = (Ok (), s2)" and s: "s = s2\<lparr>root_page_id := q\<rparr>"
    using assms(1) by (auto simp: create_root_def mbind_eq_Ok)
  define l where "l = fst (upsert new_leaf k v)"
  have l: "records l = [(k, v)]"
    by (simp add: l_def upsert_def position_def new_leaf_def key_search_def vec_insert_def binary_search_by.simps)
  have g: "good self (set ?vp)" using e by blast
  note a = alloc_good [OF g al]
  have wf: "wf_records (records l)" using assms(3) by (simp add: l wf_records_def value_at_def)
  note w = write_leaf_step [OF wr [folded l_def] a(1) wf]
  have core: "core s2 = core self" using w(2) a(3) by simp
  have f: "fresh_leaves s = []" "dirty_leaves s = []" "dirty_parent_paths s = []" "scheduled_frees s = []"
      "tr_realm s = tr_realm self" "tr_pager s = tr_pager s2"
    using core e by (simp_all add: s core_def)
  have sm: "same_pages (tr_pager self) (tr_pager s) (set ?vp)"
    using w(3) a(2,4) f(6) by (auto elim!: same_pages_mono)
  note vf = value_at_frame [OF assms(3) sm order_refl]
  have "leaf_at s q l"
    using w(4) f core by (auto simp: leaf_at_def page_bytes_def core_def)
  moreover have "good s (insert q (set ?vp))" using w(1) by (simp add: s good_paths)
  moreover have "values_at (tr_pager s) (tr_realm s) (recs (ALeaf q l))" "pages_of_values s (recs (ALeaf q l)) = ?vp"
    using vf f(5) by (auto simp: l)
  ultimately have "tree_inv s (ALeaf q l) []"
    using a(2) e f by (simp add: tree_inv_def caches_ok_def l inside_def s)
  moreover have "contents s (recs (ALeaf q l)) = [k \<mapsto> val]"
    using value_at_resolve [of s v val] vf(1) f(5) by (simp add: contents_def l fun_eq_iff)
  ultimately show ?thesis by blast
qed

lemma put_spec:
  assumes run: "put self k val = (Ok (), s')" and rep: "represents self m" and len: "length val < 2 ^ 63"
  shows "represents s' (m(k \<mapsto> val))"
proof -
  define s0 where "s0 = invalidate_append_state self"
  have rep0: "represents s0 m" using rep by (simp add: s0_def)
  obtain v s1 where lv: "leaf_value_for s0 val = (Ok v, s1)"
    and rest: "(if root_page_id s1 = 0 then mbind (create_root s1 k v) (\<lambda>_ self. (Ok (), self\<lparr>append_cached_path := None\<rparr>))
      else mbind (path_to_leaf_for_key s1 k, s1) (\<lambda>path self. mbind (put_at_path self path k v) (\<lambda>_ self. (Ok (), self)))) = (Ok (), s')"
    using run by (auto simp: put_def Let_def s0_def [symmetric] mbind_eq_Ok)
  let ?vp = "vpages (tr_pager s1) (tr_realm s1) v"
  show ?thesis
    using rep0
  proof (cases rule: represents_root)
    case empty
    have g: "good s0 {}" using empty(2) by (simp add: empty_inv_def)
    note lf = leaf_value_for_spec [OF lv g len]
    have e1: "empty_inv s1 ?vp" using empty(2) lf by (simp add: empty_inv_def core_def)
    obtain s2 where s2: "create_root s1 k v = (Ok (), s2)" "s' = s2\<lparr>append_cached_path := None\<rparr>"
      using rest e1 by (auto simp: empty_inv_def mbind_eq_Ok)
    obtain a where "tree_inv s2 a []" "contents s2 (recs a) = [k \<mapsto> val]"
      using create_root_spec [OF s2(1) e1 lf(6)] by blast
    then have "represents s2 [k \<mapsto> val]" by (auto simp: represents_def)
    then show ?thesis using represents_append [where self = s2 and x = None and y = "append_last_key s2"] s2(2) empty(3) by simp
  next
    case (tree a)
    have g: "good s0 (set (owned s0 a []))" using tree(2) by (simp add: tree_inv_def)
    note lf = leaf_value_for_spec [OF lv g len]
    note fr = tree_inv_frame [OF tree(2) lf(1), of ?vp]
    have inv1: "tree_inv s1 a ?vp" and c1: "contents s1 (recs a) = contents s0 (recs a)"
      using fr lf(2-5) tree(2) by (auto simp: tree_inv_def Un_assoc)
    have st: "stored s1 a" "ordered [] None a" "root_page_id s1 = page_of a"
      using tree_inv_stored [OF inv1] inv1 by (auto simp: tree_inv_def)
    obtain ctx p l where d: "a = plugs ctx (ALeaf p l)" "inside (ctx_lo ctx) (ctx_hi ctx) k"
        "path_to_leaf_for_key s1 k = Ok (rev (ctx_pages ctx) @ [p])"
      using path_to_leaf_for_key_spec [OF st] by metis
    have nz: "root_page_id s1 \<noteq> 0" using tree(1) lf(1) by (simp add: core_def)
    obtain b where b: "put_at_path s1 (rev (ctx_pages ctx) @ [p]) k v = (Ok b, s')"
      using rest nz d(3) by (auto simp: mbind_eq_Ok)
    obtain a' where "tree_inv s' a' []" "contents s' (recs a') = (contents s1 (recs a))(k \<mapsto> val)"
      using put_at_path_spec [OF b inv1 d(1,2) lf(6)] by blast
    then show ?thesis using c1 tree(3) by (auto simp: represents_def)
  qed
qed

section \<open>Deletion\<close>

text \<open>The leaf without the record; the pages of the removed value are no longer the tree's.\<close>

lemma remove_cached_spec:
  assumes inv: "tree_inv self (plugs ctx (ALeaf p l)) []"
    and fr: "fr = (map_of (fresh_leaves self) p \<noteq> None)" and cl: "cached_leaf self p fr = Ok l"
    and k: "inside (ctx_lo ctx) (ctx_hi ctx) k" and rm: "remove l k = (l', removed)"
  defines "s \<equiv> set_cached_leaf self p fr l'"
  shows "tree_inv s (plugs ctx (ALeaf p l')) (case removed of None \<Rightarrow> [] | Some v0 \<Rightarrow> vpages (tr_pager self) (tr_realm self) v0)"
    and "contents s (recs (plugs ctx (ALeaf p l'))) = (contents self (recs (plugs ctx (ALeaf p l))))(k := None)"
    and "\<And>v0. removed = Some v0 \<Longrightarrow> \<exists>d. value_at (tr_pager self) (tr_realm self) v0 d"
    and "removed = map_of (recs (plugs ctx (ALeaf p l))) k"
proof -
  let ?Y = "case removed of None \<Rightarrow> [] | Some v0 \<Rightarrow> vpages (tr_pager self) (tr_realm self) v0"
  note t = inv [unfolded tree_inv_def]
  have o: "sorted_keys (records l)" "\<forall>x \<in> set (records l). inside (ctx_lo ctx) (ctx_hi ctx) (fst x)" "ctx_ordered ctx"
      "values_at (tr_pager self) (tr_realm self) (records l)"
    using t by (simp_all add: ordered_plugs recs_plugs)
  have l': "l' = fst (remove l k)" "removed = snd (remove l k)" using rm by simp_all
  have q: "(\<forall>x \<in> set (records l'). inside (ctx_lo ctx) (ctx_hi ctx) (fst x)) \<and>
      values_at (tr_pager self) (tr_realm self) (records l') \<and>
      mset (pages_of_values self (records l')) + mset ?Y = mset (pages_of_values self (records l)) + mset []"
    unfolding l' by (cases rule: remove_cases [of l k]) (use o in auto)
  note st = set_cached_leaf_spec [OF inv fr cl, of l' ?Y]
  have so: "sorted_keys (records l')" using remove_spec(1) [OF o(1), of k] l' by simp
  show "tree_inv s (plugs ctx (ALeaf p l')) ?Y" unfolding s_def using st so q by blast
  have m: "map_of (records l') = (map_of (records l))(k := None)" using remove_spec(2) [OF o(1), of k] l' by simp
  show "contents s (recs (plugs ctx (ALeaf p l'))) = (contents self (recs (plugs ctx (ALeaf p l))))(k := None)"
    using contents_upd [OF map_of_plugs_upd [OF o(3) k m], of None self p]
      contents_pager [of s self "recs (plugs ctx (ALeaf p l'))"] by (simp add: s_def)
  show "\<exists>d. value_at (tr_pager self) (tr_realm self) v0 d" if "removed = Some v0" for v0
    by (cases rule: remove_cases [of l k]) (use that l' o(4) in auto)
  show "removed = map_of (recs (plugs ctx (ALeaf p l))) k"
    using remove_spec(3) [OF o(1), of k] map_of_plugs [OF o(3) k, of "ALeaf p l"] l' by simp
qed

lemma contents_None: "values_at (tr_pager self) (tr_realm self) rs \<Longrightarrow> contents self rs k = None \<longleftrightarrow> map_of rs k = None"
  using contents_resolved [of self rs k] by (auto simp: contents_def resolved_def split: option.splits result.splits)

lemma delete_at_path_spec:
  assumes run: "delete_at_path self (rev (ctx_pages ctx) @ [p]) k = (Ok b, s')"
    and inv: "tree_inv self a []" and a: "a = plugs ctx (ALeaf p l)" and k: "inside (ctx_lo ctx) (ctx_hi ctx) k"
  shows "(\<exists>a'. tree_inv s' a' [] \<and> contents s' (recs a') = (contents self (recs a))(k := None)) \<and>
    b = (contents self (recs a) k \<noteq> None)"
proof -
  define fr where "fr = (map_of (fresh_leaves self) p \<noteq> None)"
  obtain s1 where s1: "(if \<not> fr then ensure_leaf_dirty self p (rev (ctx_pages ctx) @ [p]) else (Ok (), self)) = (Ok (), s1)"
      "tree_inv s1 a []" "cached_leaf s1 p fr = Ok l"
      "fr = (map_of (fresh_leaves s1) p \<noteq> None)" "tr_pager s1 = tr_pager self" "tr_realm s1 = tr_realm self"
    by (rule cached_for_write [OF inv a fr_def])
  obtain l' removed where rm: "remove l k = (l', removed)" by (cases "remove l k")
  define s2 where "s2 = set_cached_leaf s1 p fr l'"
  let ?a' = "plugs ctx (ALeaf p l')"
  note u = remove_cached_spec [OF s1(2) [unfolded a] s1(4,3) k rm, folded s2_def]
  have ne: "rev (ctx_pages ctx) @ [p] \<noteq> []" by simp
  have run': "(case removed of None \<Rightarrow> (Ok False, s2)
      | Some old \<Rightarrow> mbind (release_removed s2 p fr k old) (\<lambda>_ self. (Ok True, self))) = (Ok b, s')"
    using run unfolding delete_at_path_def if_not_P [OF ne] Let_def last_snoc fr_def [symmetric] s1(1) mbind.simps
      s1(3) rm prod.case s2_def .
  have p2: "tr_pager s2 = tr_pager s1" "tr_realm s2 = tr_realm s1" by (simp_all add: s2_def)
  have c2: "contents s2 (recs ?a') = (contents self (recs a))(k := None)"
    using u(2) contents_pager [OF s1(5,6), of "recs a"] by (simp add: a)
  have vals: "values_at (tr_pager self) (tr_realm self) (recs a)" using inv by (simp add: tree_inv_def)
  have bd: "b = (contents self (recs a) k \<noteq> None)"
    using run' u(4) contents_None [OF vals, of k] unfolding a by (auto simp: mbind_eq_Ok split: option.splits)
  have "\<exists>a'. tree_inv s' a' [] \<and> contents s' (recs a') = contents s2 (recs ?a')"
  proof (cases "\<exists>n root. removed = Some (OverflowRef n root)")
    case True
    then obtain n root where old: "removed = Some (OverflowRef n root)" by blast
    obtain d where d: "value_at (tr_pager s2) (tr_realm s2) (OverflowRef n root) d"
      using u(3) [OF old] p2 by auto
    have i2: "tree_inv s2 ?a' (vpages (tr_pager s2) (tr_realm s2) (OverflowRef n root))"
      using u(1) old p2 by simp
    have "release_removed s2 p fr k (OverflowRef n root) = (Ok (), s')"
      using run' old by (auto simp: mbind_eq_Ok)
    note rel = this [unfolded release_removed_def leaf_value.case]
    show ?thesis using release_value_spec [OF rel i2 d] by blast
  next
    case False
    then have "s' = s2" "(case removed of None \<Rightarrow> [] | Some v0 \<Rightarrow> vpages (tr_pager s1) (tr_realm s1) v0) = []"
      using run' by (auto simp: release_removed_def vpages_def split: option.splits leaf_value.splits)
    then show ?thesis using u(1) by auto
  qed
  then show ?thesis using c2 bd by auto
qed

lemma tree_delete_spec:
  assumes run: "tree_delete self k = (Ok b, s')" and rep: "represents self m"
  shows "represents s' (m(k := None))" and "b = (m k \<noteq> None)"
proof -
  define s0 where "s0 = invalidate_append_state self"
  have rep0: "represents s0 m" using rep by (simp add: s0_def)
  have run: "(if root_page_id s0 = 0 then (Ok False, s0)
      else mbind (path_to_leaf_for_key s0 k, s0) (\<lambda>path self. delete_at_path self path k)) = (Ok b, s')"
    using run unfolding tree_delete_def Let_def s0_def .
  have "represents s' (m(k := None)) \<and> b = (m k \<noteq> None)"
    using rep0
  proof (cases rule: represents_root)
    case empty
    then show ?thesis using run rep0 by auto
  next
    case (tree a)
    have st: "stored s0 a" "ordered [] None a" "root_page_id s0 = page_of a"
      using tree_inv_stored [OF tree(2)] tree(2) by (auto simp: tree_inv_def)
    obtain ctx p l where d: "a = plugs ctx (ALeaf p l)" "inside (ctx_lo ctx) (ctx_hi ctx) k"
        "path_to_leaf_for_key s0 k = Ok (rev (ctx_pages ctx) @ [p])"
      using path_to_leaf_for_key_spec [OF st] by metis
    have "delete_at_path s0 (rev (ctx_pages ctx) @ [p]) k = (Ok b, s')" using run tree(1) d(3) by simp
    from delete_at_path_spec [OF this tree(2) d(1,2)] show ?thesis
      using tree(3) by (auto simp: represents_def)
  qed
  then show "represents s' (m(k := None))" "b = (m k \<noteq> None)" by auto
qed

end
