(* ===== verification/Tree_Leaves.thy ===== *)
theory Tree_Leaves
  imports Tree_Put
begin

text \<open>
  Walking the leaves of a stored tree. The neighbour of a leaf is found through its ancestors: the
  nearest one with a child further to the right (or left), and then the leftmost (or rightmost) leaf
  below that child. A scan therefore visits the leaves of the tree in key order, each once.
\<close>

section \<open>The outermost leaf of a subtree\<close>

lemma ctx_ll_append [simp]: "ctx_ll (xs @ ys) = ctx_ll ys @ ctx_ll xs"
  by (induction xs) simp_all

lemma ctx_lr_append [simp]: "ctx_lr (xs @ ys) = ctx_lr xs @ ctx_lr ys"
  by (induction xs) simp_all

lemma leftmost_of_node: "internal_layout body n \<Longrightarrow> leftmost_of body = Ok (leftmost_child n)"
  by (simp add: leftmost_of_def internal_layout_decode)

lemma rightmost_of_node: "internal_layout body n \<Longrightarrow> rightmost_of body = Ok (rightmost_child n)"
  by (simp add: rightmost_of_def internal_layout_decode)

text \<open>
  \<open>edge\<close> chooses a child of every node and the frame around it; a descent that follows the same
  choice ends at the leaf the choice leads to.
\<close>

definition edge_choice :: "(bytes \<Rightarrow> page_id result) \<Rightarrow> (frame \<Rightarrow> bool) \<Rightarrow> bool" where
  "edge_choice follow ok \<longleftrightarrow> (\<forall>p t ts. \<exists>f t'. plug f t' = ANode p t ts \<and> ok f \<and>
     (\<forall>body. internal_layout body (node_of t ts) \<longrightarrow> follow body = Ok (page_of t')))"

lemma leftmost_choice: "edge_choice leftmost_of (\<lambda>f. fll f = [])"
  unfolding edge_choice_def
proof (intro allI)
  fix p t ts
  show "\<exists>f t'. plug f t' = ANode p t ts \<and> fll f = [] \<and>
      (\<forall>body. internal_layout body (node_of t ts) \<longrightarrow> leftmost_of body = Ok (page_of t'))"
    by (intro exI [of _ "FLeft p ts"] exI [of _ t]) (auto simp: leftmost_of_node node_of_def)
qed

lemma rightmost_choice: "edge_choice rightmost_of (\<lambda>f. flr f = [])"
  unfolding edge_choice_def
proof (intro allI)
  fix p t ts
  show "\<exists>f t'. plug f t' = ANode p t ts \<and> flr f = [] \<and>
      (\<forall>body. internal_layout body (node_of t ts) \<longrightarrow> rightmost_of body = Ok (page_of t'))"
  proof (cases ts rule: rev_cases)
    case Nil
    then show ?thesis
      by (intro exI [of _ "FLeft p []"] exI [of _ t]) (auto simp: rightmost_of_node rightmost_child_def node_of_def)
  next
    case (snoc xs e)
    then show ?thesis
      by (cases e, intro exI [of _ "FEntry p t xs (fst e) []"] exI [of _ "snd e"])
        (auto simp: rightmost_of_node rightmost_child_def node_of_def)
  qed
qed

lemma plug_size: "size t < size (plug f t)"
  by (cases f) (auto simp: size_list_estimation)

lemma descend_edge:
  assumes "edge_choice follow ok" and "holds self t" and "distinct (plist t)" and "0 \<notin> set (plist t)"
    and "seen_inv seen" and "seen_set seen \<inter> set (plist t) = {}"
  shows "\<exists>ctx p l. t = plugs ctx (ALeaf p l) \<and> (\<forall>f \<in> set ctx. ok f) \<and>
    descend follow self (page_of t) path seen = Ok (path @ rev (ctx_pages ctx) @ [p])"
  using assms(2-)
proof (induction "size t" arbitrary: t seen path rule: less_induct)
  case less
  have "page_of t \<notin> seen_set seen" "page_of t \<noteq> 0"
    using less.prems page_of_in_plist [of t] by (metis disjoint_iff, metis)
  then obtain seen' where seen': "seen_insert seen (page_of t) = Ok seen'" "seen_inv seen'"
      "seen_set seen' = insert (page_of t) (seen_set seen)"
    using seen_step [OF less.prems(4) refl] by metis
  show ?case
  proof (cases t)
    case (ALeaf p l)
    then show ?thesis
      using descend_leaf [of self p l seen seen' follow path] less.prems(1) seen'(1)
      by (intro exI [of _ "[]"] exI [of _ p] exI [of _ l]) simp
  next
    case (ANode p t0 ts)
    obtain f t' where f: "plug f t' = t" "ok f"
        "\<And>body. internal_layout body (node_of t0 ts) \<Longrightarrow> follow body = Ok (page_of t')"
      using assms(1) ANode unfolding edge_choice_def by metis
    have fp: "fpage f = page_of t" using f(1) by (metis page_of_plug)
    have ms: "mset (plist t) = add_mset (page_of t) (mset (fside f) + mset (plist t'))"
      using mset_plist_plug [of f t'] f(1) fp by simp
    have "distinct (page_of t # fside f @ plist t')"
      using mset_eq_imp_distinct_iff [of "plist t" "page_of t # fside f @ plist t'"] ms less.prems(2) by simp
    then have d: "distinct (plist t')" "page_of t \<notin> set (plist t')" by auto
    have sub: "set (plist t') \<subseteq> set (plist t)" using arg_cong [OF ms, of set_mset] by auto
    have h: "holds self t'" using less.prems(1) f(1) holds_plug [of self f t'] by simp
    have "\<exists>ctx p l. t' = plugs ctx (ALeaf p l) \<and> (\<forall>f \<in> set ctx. ok f) \<and>
        descend follow self (page_of t') (path @ [page_of t]) seen' =
          Ok ((path @ [page_of t]) @ rev (ctx_pages ctx) @ [p])"
      by (rule less.hyps) (use h d sub less.prems(3,5) seen'(2,3) plug_size [of t' f] f(1) in auto)
    then obtain ctx q l where c: "t' = plugs ctx (ALeaf q l)" "\<forall>f \<in> set ctx. ok f"
        "descend follow self (page_of t') (path @ [page_of t]) seen' =
          Ok ((path @ [page_of t]) @ rev (ctx_pages ctx) @ [q])" by blast
    have "descend follow self (page_of t) path seen = descend follow self (page_of t') (path @ [page_of t]) seen'"
      by (rule descend_node [of _ _ "node_of t0 ts"]) (use less.prems(1) ANode seen'(1) f(3) in auto)
    then show ?thesis
      using c f(1,2) fp by (intro exI [of _ "ctx @ [f]"] exI [of _ q] exI [of _ l]) (auto simp: plugs_append)
  qed
qed

lemma ctx_ll_none: "\<forall>f \<in> set ctx. fll f = [] \<Longrightarrow> ctx_ll ctx = []"
  by (induction ctx) auto

lemma ctx_lr_none: "\<forall>f \<in> set ctx. flr f = [] \<Longrightarrow> ctx_lr ctx = []"
  by (induction ctx) auto

section \<open>The neighbour of a leaf\<close>

lemma aleaves_ne [simp]: "aleaves a \<noteq> []"
  by (induction a rule: atree_induct) auto

text \<open>The frame around the next (or previous) child of the same node.\<close>

fun next_frame :: "frame \<Rightarrow> atree \<Rightarrow> (frame \<times> atree) option" where
  "next_frame (FLeft p []) t = None"
| "next_frame (FLeft p ((k, t') # ts)) t = Some (FEntry p t [] k ts, t')"
| "next_frame (FEntry p t0 xs k []) t = None"
| "next_frame (FEntry p t0 xs k ((k', t') # ys)) t = Some (FEntry p t0 (xs @ [(k, t)]) k' ys, t')"

fun prev_frame :: "frame \<Rightarrow> atree \<Rightarrow> (frame \<times> atree) option" where
  "prev_frame (FLeft p ts) t = None"
| "prev_frame (FEntry p t0 xs k ys) t =
     (if xs = [] then Some (FLeft p ((k, t) # ys), t0)
      else Some (FEntry p t0 (butlast xs) (fst (last xs)) ((k, t) # ys), snd (last xs)))"

abbreviation child_entries :: "(key \<times> atree) list \<Rightarrow> internal_entry list" where
  "child_entries ts \<equiv> map (\<lambda>(k, t). (k, page_of t)) ts"

lemma page_ne: "c \<notin> set (plist t) \<Longrightarrow> page_of t \<noteq> c"
  using page_of_in_plist by metis

lemma next_entry_child_skip:
  "c \<notin> set (plists xs) \<Longrightarrow>
     next_entry_child (child_entries xs @ (k, c) # ys) c = (case ys of [] \<Rightarrow> None | (k', c') # _ \<Rightarrow> Some c')"
  by (induction xs) (auto dest: page_ne split: list.splits)

lemma prev_entry_child_skip:
  "c \<notin> set (plists xs) \<Longrightarrow>
     prev_entry_child b (child_entries xs @ (k, c) # ys) c = Some (last (b # map (\<lambda>(k, t). page_of t) xs))"
  by (induction xs arbitrary: b) (auto dest: page_ne)

lemma next_frame_Some:
  assumes "next_frame f t = Some (f', t')" and "page_of t \<notin> set (fside f)"
  shows "plug f' t' = plug f t" and "fpage f' = fpage f" and "fll f' = fll f @ aleaves t"
    and "right_sibling_child (fnode f (page_of t)) (page_of t) = Some (page_of t')"
    and "set (plist t') \<subseteq> set (fside f)" and "t' \<in> set (fsubs f)"
  using assms
  by (induction f t rule: next_frame.induct)
    (auto simp: right_sibling_child_def next_entry_child_skip dest: page_ne)

lemma next_frame_None:
  assumes "next_frame f t = None" and "page_of t \<notin> set (fside f)"
  shows "flr f = []" and "right_sibling_child (fnode f (page_of t)) (page_of t) = None"
  using assms
  by (induction f t rule: next_frame.induct)
    (auto simp: right_sibling_child_def next_entry_child_skip dest: page_ne)

lemma prev_frame_Some:
  assumes "prev_frame f t = Some (f', t')" and "page_of t \<notin> set (fside f)"
  shows "plug f' t' = plug f t" and "fpage f' = fpage f" and "flr f' = aleaves t @ flr f"
    and "left_sibling_child (fnode f (page_of t)) (page_of t) = Some (page_of t')"
    and "set (plist t') \<subseteq> set (fside f)" and "t' \<in> set (fsubs f)"
proof -
  obtain p t0 xs k ys where f: "f = FEntry p t0 xs k ys" using assms(1) by (cases f) auto
  have "plug f' t' = plug f t \<and> fpage f' = fpage f \<and> flr f' = aleaves t @ flr f \<and>
      left_sibling_child (fnode f (page_of t)) (page_of t) = Some (page_of t') \<and>
      set (plist t') \<subseteq> set (fside f) \<and> t' \<in> set (fsubs f)"
    using assms f prev_entry_child_skip [of "page_of t" xs "page_of t0" k "child_entries ys"]
    by (cases xs rule: rev_cases) (auto simp: left_sibling_child_def dest: page_ne)
  then show "plug f' t' = plug f t" "fpage f' = fpage f" "flr f' = aleaves t @ flr f"
    "left_sibling_child (fnode f (page_of t)) (page_of t) = Some (page_of t')"
    "set (plist t') \<subseteq> set (fside f)" "t' \<in> set (fsubs f)" by auto
qed

lemma prev_frame_None:
  assumes "prev_frame f t = None"
  shows "fll f = []" and "left_sibling_child (fnode f (page_of t)) (page_of t) = None"
  using assms by (cases f; auto simp: left_sibling_child_def split: if_splits)+

lemma read_path_node_at: "node_at self p n \<Longrightarrow> read_path_node self p = Ok n"
  by (erule node_at_guard) (simp add: read_path_node_def internal_layout_decode)

lemma frame_facts:
  assumes "stored self (plugs (f # fs) t)"
  shows "read_path_node self (fpage f) = Ok (fnode f (page_of t))" and "page_of t \<notin> set (fside f)"
    and "\<And>t'. t' \<in> set (fsubs f) \<Longrightarrow> holds self t' \<and> distinct (plist t') \<and> 0 \<notin> set (plist t')"
    and "set (ctx_pages (f # fs)) \<inter> set (fside f) = {}"
proof -
  have h: "frames_hold self (f # fs) (page_of t)"
    using assms unfolding stored_def holds_plugs by blast
  then show "read_path_node self (fpage f) = Ok (fnode f (page_of t))" by (simp add: read_path_node_at)
  have d: "distinct (ctx_pages (f # fs) @ ctx_side (f # fs) @ plist t)"
    using assms unfolding stored_def distinct_plugs by blast
  then show "set (ctx_pages (f # fs)) \<inter> set (fside f) = {}" by auto
  have nz: "0 \<notin> set (fside f)" using assms unfolding stored_def set_plugs by auto
  show "page_of t \<notin> set (fside f)" using d page_of_in_plist [of t] by (auto simp del: page_of_in_plist)
  fix t' assume t': "t' \<in> set (fsubs f)"
  have "distinct (fside f)" using d by auto
  then have "distinct (plist t') \<and> set (plist t') \<subseteq> set (fside f)"
    using t' by (cases f) (auto simp: plists_def distinct_concat_iff)
  then show "holds self t' \<and> distinct (plist t') \<and> 0 \<notin> set (plist t')" using h t' nz by auto
qed

text \<open>
  The loops over the ancestors. \<open>path\<close> starts with the pages of the frames, and the detector may hold
  any page outside the subtrees beside them.
\<close>

lemma next_leaf_loop_spec:
  assumes "stored self (plugs ctx t)" and "take (length ctx) path = rev (ctx_pages ctx)" and "length ctx \<le> length path"
    and "seen_inv seen" and "seen_set seen \<inter> set (ctx_side ctx) = {}"
  shows "(ctx_lr ctx = [] \<and> next_leaf_loop self path seen (rev [0..<length ctx]) (page_of t) = Ok None) \<or>
    (\<exists>ctx' p l. plugs ctx t = plugs ctx' (ALeaf p l) \<and> ctx_ll ctx' = ctx_ll ctx @ aleaves t \<and>
       next_leaf_loop self path seen (rev [0..<length ctx]) (page_of t) = Ok (Some (rev (ctx_pages ctx') @ [p])))"
  using assms
proof (induction ctx arbitrary: t)
  case (Cons f fs)
  have pre: "take (length fs) path = rev (ctx_pages fs)" "path ! length fs = fpage f"
      "take (Suc (length fs)) path = rev (ctx_pages fs) @ [fpage f]"
    using Cons.prems(2,3) by (auto simp: take_Suc_conv_app_nth)
  note ff = frame_facts [OF Cons.prems(1)]
  have upt: "rev [0..<length (f # fs)] = length fs # rev [0..<length fs]" by simp
  show ?case
  proof (cases "next_frame f t")
    case None
    note n = next_frame_None [OF None ff(2)]
    have "next_leaf_loop self path seen (rev [0..<length (f # fs)]) (page_of t) =
        next_leaf_loop self path seen (rev [0..<length fs]) (page_of (plug f t))"
      unfolding upt using pre(2) ff(1) n(2) by simp
    then show ?thesis
      using Cons.IH [of "plug f t"] Cons.prems pre(1) n(1) by (simp add: aleaves_plug Int_Un_distrib)
  next
    case (Some ft)
    then obtain f' t' where f': "next_frame f t = Some (f', t')" by (cases ft) simp
    note n = next_frame_Some [OF f' ff(2)]
    note h = ff(3) [OF n(6)]
    have "seen_set seen \<inter> set (plist t') = {}" using Cons.prems(5) n(5) by auto
    then obtain ctx' p l where c: "t' = plugs ctx' (ALeaf p l)" "\<forall>f \<in> set ctx'. fll f = []"
        "descend leftmost_of self (page_of t') (take (Suc (length fs)) path) seen =
          Ok (take (Suc (length fs)) path @ rev (ctx_pages ctx') @ [p])"
      using descend_edge [OF leftmost_choice, of self t' seen "take (Suc (length fs)) path"] h Cons.prems(4) by blast
    have "next_leaf_loop self path seen (rev [0..<length (f # fs)]) (page_of t) =
        Ok (Some (rev (ctx_pages (ctx' @ f' # fs)) @ [p]))"
      unfolding upt using pre(2,3) ff(1) n(2,4) c(3) by simp
    moreover have "plugs (f # fs) t = plugs (ctx' @ f' # fs) (ALeaf p l)" using c(1) n(1) by (simp add: plugs_append)
    moreover have "ctx_ll (ctx' @ f' # fs) = ctx_ll (f # fs) @ aleaves t" using ctx_ll_none [OF c(2)] n(3) by simp
    ultimately show ?thesis by blast
  qed
qed simp

lemma prev_leaf_loop_spec:
  assumes "stored self (plugs ctx t)" and "take (length ctx) path = rev (ctx_pages ctx)" and "length ctx \<le> length path"
    and "seen_inv seen" and "seen_set seen \<inter> set (ctx_side ctx) = {}"
  shows "(ctx_ll ctx = [] \<and> prev_leaf_loop self path seen (rev [0..<length ctx]) (page_of t) = Ok None) \<or>
    (\<exists>ctx' p l. plugs ctx t = plugs ctx' (ALeaf p l) \<and> ctx_lr ctx' = aleaves t @ ctx_lr ctx \<and>
       prev_leaf_loop self path seen (rev [0..<length ctx]) (page_of t) = Ok (Some (rev (ctx_pages ctx') @ [p])))"
  using assms
proof (induction ctx arbitrary: t)
  case (Cons f fs)
  have pre: "take (length fs) path = rev (ctx_pages fs)" "path ! length fs = fpage f"
      "take (Suc (length fs)) path = rev (ctx_pages fs) @ [fpage f]"
    using Cons.prems(2,3) by (auto simp: take_Suc_conv_app_nth)
  note ff = frame_facts [OF Cons.prems(1)]
  have upt: "rev [0..<length (f # fs)] = length fs # rev [0..<length fs]" by simp
  show ?case
  proof (cases "prev_frame f t")
    case None
    note n = prev_frame_None [OF None]
    have "prev_leaf_loop self path seen (rev [0..<length (f # fs)]) (page_of t) =
        prev_leaf_loop self path seen (rev [0..<length fs]) (page_of (plug f t))"
      unfolding upt using pre(2) ff(1) n(2) by simp
    then show ?thesis
      using Cons.IH [of "plug f t"] Cons.prems pre(1) n(1) by (simp add: aleaves_plug Int_Un_distrib)
  next
    case (Some ft)
    then obtain f' t' where f': "prev_frame f t = Some (f', t')" by (cases ft) simp
    note n = prev_frame_Some [OF f' ff(2)]
    note h = ff(3) [OF n(6)]
    have "seen_set seen \<inter> set (plist t') = {}" using Cons.prems(5) n(5) by auto
    then obtain ctx' p l where c: "t' = plugs ctx' (ALeaf p l)" "\<forall>f \<in> set ctx'. flr f = []"
        "descend rightmost_of self (page_of t') (take (Suc (length fs)) path) seen =
          Ok (take (Suc (length fs)) path @ rev (ctx_pages ctx') @ [p])"
      using descend_edge [OF rightmost_choice, of self t' seen "take (Suc (length fs)) path"] h Cons.prems(4) by blast
    have "prev_leaf_loop self path seen (rev [0..<length (f # fs)]) (page_of t) =
        Ok (Some (rev (ctx_pages (ctx' @ f' # fs)) @ [p]))"
      unfolding upt using pre(2,3) ff(1) n(2,4) c(3) by simp
    moreover have "plugs (f # fs) t = plugs (ctx' @ f' # fs) (ALeaf p l)" using c(1) n(1) by (simp add: plugs_append)
    moreover have "ctx_lr (ctx' @ f' # fs) = aleaves t @ ctx_lr (f # fs)" using ctx_lr_none [OF c(2)] n(3) by simp
    ultimately show ?thesis by blast
  qed
qed simp

end
