(* ===== verification/Tree_Session.thy ===== *)
theory Tree_Session
  imports Tree_Put
begin

text \<open>
  Write sessions as sequences of operations: every answer is the one of a map, and the session goes
  on representing that map. Operations also return: a deletion whenever the allocator has a page
  left, an insertion when the changed leaf still fits.
\<close>

section \<open>Operations that return\<close>

lemma alloc_ok:
  assumes "alloc_inv self" and "next_page_id self \<noteq> - 1"
  shows "\<exists>p s. allocate_page self = (Ok p, s)"
proof -
  have ge: "\<not> p < 4" if "p \<in> set (freed_reusable self @ cache_of self)" for p
    using assms(1) that by (auto simp: alloc_inv_def leD)
  have bump: "\<exists>p s. bump_page self = (Ok p, s)"
    using assms by (auto simp: bump_page_def alloc_inv_def leD Let_def)
  show ?thesis
  proof (cases "freed_reusable self = []")
    case False
    then show ?thesis using ge [of "last (freed_reusable self)"] by (simp add: allocate_page_def Let_def)
  next
    case True
    show ?thesis
    proof (cases "cache_of self = []")
      case False
      then show ?thesis
        using True ge [of "last (cache_of self)"] by (auto simp: allocate_page_def cache_of_def Let_def split: option.splits)
    next
      case c: True
      then show ?thesis using True bump by (auto simp: allocate_page_def cache_of_def split: option.splits)
    qed
  qed
qed

lemma next_page_fields [simp]:
  "next_page_id (set_cached_leaf self p fr l) = next_page_id self"
  "next_page_id (invalidate_append_state self) = next_page_id self"
  "root_page_id (invalidate_append_state self) = root_page_id self"
  by (simp_all add: set_cached_leaf_def invalidate_append_state_def)

lemma ensure_next: "ensure_leaf_dirty self p path = (r, s) \<Longrightarrow> next_page_id s = next_page_id self"
  by (cases "decode_leaf_from_pager self p") (auto simp: ensure_leaf_dirty_def split: if_splits)

lemma release_value_ok:
  assumes "tree_inv self a (vpages (tr_pager self) (tr_realm self) (OverflowRef n root))"
    and "value_at (tr_pager self) (tr_realm self) (OverflowRef n root) data" and "next_page_id self \<noteq> - 1"
  shows "\<exists>s. mbind (allocate_page self) (\<lambda>q self.
      case release (tr_pager self) (tr_realm self) root q of
        Ok (rr, pager) \<Rightarrow> apply_release_result (self\<lparr>tr_pager := pager\<rparr>) root q rr
      | Err e \<Rightarrow> K q self e) = (Ok (), s)"
proof -
  let ?vp = "vpages (tr_pager self) (tr_realm self) (OverflowRef n root)"
  note t = assms(1) [unfolded tree_inv_def]
  have g: "good self (set (owned self a ?vp))" using t by simp
  then obtain q s1 where al: "allocate_page self = (Ok q, s1)"
    using alloc_ok [of self] assms(3) by (auto simp: good_def)
  note a = alloc_good [OF g al]
  have r1: "tr_realm s1 = tr_realm self" using a(3) by (simp add: core_def)
  have s1: "s1\<lparr>tr_pager := tr_pager self\<rparr> = s1" using a(4) by (cases s1) simp
  have f1: "fst ` set (fresh_leaves s1) \<union> fst ` set (dirty_leaves s1) \<subseteq> set (plist a)"
    using leaf_cache_owned [OF assms(1)] a(3) by (simp add: core_def)
  have dj: "set ?vp \<subseteq> insert q (set (owned self a ?vp))" "distinct ?vp"
      "set ?vp \<inter> (fst ` set (fresh_leaves s1) \<union> fst ` set (dirty_leaves s1)) = {}"
    using t f1 by auto
  obtain s2 where fp: "free_pages s1 ?vp = (Ok (), s2)" "good s2 (insert q (set (owned self a ?vp)) - set ?vp)"
      "core s2 = core s1"
    using free_pages_good [OF a(1) dj] by blast
  have qn: "q \<notin> fst ` set (fresh_leaves s2)" "q \<notin> fst ` set (dirty_leaves s2)"
      "q \<in> insert q (set (owned self a ?vp)) - set ?vp"
    using f1 fp(3) a(2) by (auto simp: core_def)
  obtain s where fq: "free_page s2 q = (Ok (), s)" by (rule free_good [OF fp(2) qn(3,1,2)])
  have "(case release (tr_pager s1) (tr_realm s1) root q of
        Ok (rr, pager) \<Rightarrow> apply_release_result (s1\<lparr>tr_pager := pager\<rparr>) root q rr
      | Err e \<Rightarrow> K q s1 e) = (Ok (), s)"
    unfolding r1 a(4) release_spec [OF assms(2)] using fp(1) fq s1 by (simp add: apply_release_result_def)
  then show ?thesis using al by simp
qed

lemma represents_leaf:
  assumes "represents self m" and "root_page_id self \<noteq> 0"
  obtains a ctx p l where "tree_inv self a []" and "m = contents self (recs a)" and "a = plugs ctx (ALeaf p l)"
    and "inside (ctx_lo ctx) (ctx_hi ctx) k" and "path_to_leaf_for_key self k = Ok (rev (ctx_pages ctx) @ [p])"
    and "read_leaf self p = Ok l"
  using assms(1)
proof (cases rule: represents_root)
  case (tree a)
  have st: "stored self a" "ordered [] None a" "root_page_id self = page_of a"
    using tree_inv_stored [OF tree(2)] tree(2) by (auto simp: tree_inv_def)
  obtain ctx p l where d: "a = plugs ctx (ALeaf p l)" "inside (ctx_lo ctx) (ctx_hi ctx) k"
      "path_to_leaf_for_key self k = Ok (rev (ctx_pages ctx) @ [p])"
    using path_to_leaf_for_key_spec [OF st] by metis
  have "leaf_at self p l" using tree(2) d(1) by (simp add: tree_inv_def holds_plugs)
  then have "read_leaf self p = Ok l"
    by (auto simp: leaf_at_def read_leaf_def page_bytes_def split: option.splits)
  then show ?thesis using that tree d by blast
qed (use assms(2) in simp)

lemma tree_delete_ok:
  assumes "represents self m" and "next_page_id self \<noteq> - 1"
  shows "\<exists>b s. tree_delete self k = (Ok b, s)"
proof -
  define s0 where "s0 = invalidate_append_state self"
  have rep0: "represents s0 m" and n0: "next_page_id s0 \<noteq> - 1" using assms by (simp_all add: s0_def)
  show ?thesis
  proof (cases "root_page_id s0 = 0")
    case True
    then show ?thesis by (auto simp: tree_delete_def s0_def)
  next
    case False
    obtain a ctx p l where d: "tree_inv s0 a []" "a = plugs ctx (ALeaf p l)" "inside (ctx_lo ctx) (ctx_hi ctx) k"
        "path_to_leaf_for_key s0 k = Ok (rev (ctx_pages ctx) @ [p])"
      using represents_leaf [OF rep0 False, of k] by metis
    define fr where "fr = (map_of (fresh_leaves s0) p \<noteq> None)"
    obtain s1 where s1: "(if \<not> fr then ensure_leaf_dirty s0 p (rev (ctx_pages ctx) @ [p]) else (Ok (), s0)) = (Ok (), s1)"
        "tree_inv s1 a []" "cached_leaf s1 p fr = Ok l" "fr = (map_of (fresh_leaves s1) p \<noteq> None)"
      by (rule cached_for_write [OF d(1,2) fr_def])
    have n1: "next_page_id s1 \<noteq> - 1" using s1(1) n0 ensure_next [of s0] by (auto split: if_splits)
    obtain l' removed where rm: "remove l k = (l', removed)" by (cases "remove l k")
    define s2 where "s2 = set_cached_leaf s1 p fr l'"
    note u = remove_cached_spec [OF s1(2) [unfolded d(2)] s1(4,3) d(3) rm, folded s2_def]
    have f2: "tr_pager s2 = tr_pager s1" "tr_realm s2 = tr_realm s1" "next_page_id s2 \<noteq> - 1"
      using n1 by (simp_all add: s2_def)
    have ne: "rev (ctx_pages ctx) @ [p] \<noteq> []" by simp
    have run: "tree_delete self k = (case removed of None \<Rightarrow> (Ok False, s2)
        | Some old \<Rightarrow> mbind (release_removed s2 p fr k old) (\<lambda>_ self. (Ok True, self)))"
      unfolding tree_delete_def s0_def [symmetric] Let_def if_not_P [OF False] d(4) mbind.simps
        delete_at_path_def if_not_P [OF ne] last_snoc fr_def [symmetric] s1(1) s1(3) rm prod.case s2_def ..
    show ?thesis
    proof (cases "\<exists>n root. removed = Some (OverflowRef n root)")
      case True
      then obtain n root where old: "removed = Some (OverflowRef n root)" by blast
      obtain dt where dt: "value_at (tr_pager s2) (tr_realm s2) (OverflowRef n root) dt"
        using u(3) [OF old] f2 by auto
      have i2: "tree_inv s2 (plugs ctx (ALeaf p l')) (vpages (tr_pager s2) (tr_realm s2) (OverflowRef n root))"
        using u(1) old f2 by simp
      have "\<exists>s3. release_removed s2 p fr k (OverflowRef n root) = (Ok (), s3)"
        unfolding release_removed_def leaf_value.case by (rule release_value_ok [OF i2 dt f2(3)])
      then show ?thesis using run old by auto
    next
      case False
      then show ?thesis using run by (auto simp: release_removed_def split: option.splits leaf_value.splits)
    qed
  qed
qed


lemma put_empty_ok:
  assumes "represents self m" and "root_page_id self = 0" and "validate_insert_record_fits self k val = Ok ()"
    and "length val \<le> inline_value_threshold (tr_page_size self)" and "next_page_id self \<noteq> - 1"
  shows "\<exists>s. put self k val = (Ok (), s)"
proof -
  define s0 where "s0 = invalidate_append_state self"
  have rep0: "represents s0 m" and n0: "next_page_id s0 \<noteq> - 1" "root_page_id s0 = 0" "tr_page_size s0 = tr_page_size self"
      "validate_insert_record_fits s0 k val = Ok ()"
    using assms by (simp_all add: s0_def invalidate_append_state_def validate_insert_record_fits_def)
  have e: "empty_inv s0 []" using rep0 by (cases rule: represents_root) (use n0 in auto)
  then have g: "good s0 {}" by (simp add: empty_inv_def)
  obtain q s1 where al: "allocate_page s0 = (Ok q, s1)" using alloc_ok [of s0] n0(1) g by (auto simp: good_def)
  note a = alloc_good [OF g al]
  define l where "l = fst (upsert new_leaf k (Inline val))"
  have l: "records l = [(k, Inline val)]"
    by (simp add: l_def upsert_def position_def new_leaf_def key_search_def vec_insert_def binary_search_by.simps)
  have ps: "tr_page_size s1 = tr_page_size self" "tr_page_size self \<le> 65536"
    using a(3) n0(3) g by (simp_all add: core_def good_def)
  have iv: "\<not> length val > inline_value_threshold (tr_page_size s0)" using assms(4) n0(3) by simp
  have "single_record_fits_encoded (length k) (encoded_size (Inline val)) (tr_page_size self)"
    using assms(3,4) by (auto simp: validate_insert_record_fits_def stored_leaf_value_encoded_size_def rbind_eq_Ok
        checked_add_def split: if_splits)
  then have "slice_fits [(k, Inline val)] (tr_page_size self)" unfolding single_record_fits_iff [OF ps(2)] .
  then have "fits l (tr_page_size s1)" using ps(1) l by (simp add: fits_def)
  moreover have "wf_records (records l)" using assms(4) ps(2) by (simp add: l wf_records_def inline_value_threshold_def)
  ultimately obtain s2 where "write_leaf s1 q l = (Ok (), s2)" using write_leaf_good [OF a(1)] by metis
  then have "create_root s0 k (Inline val) = (Ok (), s2\<lparr>root_page_id := q\<rparr>)"
    using al by (simp add: create_root_def l_def)
  then show ?thesis
    using n0 iv unfolding put_def s0_def [symmetric] Let_def leaf_value_for_def by simp
qed

text \<open>An insertion into a leaf that still fits changes the cached leaf and returns.\<close>

lemma descend_invalidate:
  "descend follow (invalidate_append_state self) p path seen = descend follow self p path seen"
proof (induction follow self p path seen rule: descend.induct)
  case (1 follow self p path seen)
  have f: "fresh_leaves (invalidate_append_state self) = fresh_leaves self"
      "read_node_guard (invalidate_append_state self) p = read_node_guard self p"
    by (simp_all add: invalidate_append_state_def read_node_guard_def)
  show ?case
    by (subst (1 2) descend.simps) (auto simp: f Let_def 1 intro!: rbind_cong)
qed

lemma put_fits_ok:
  assumes "represents self m" and "root_page_id self \<noteq> 0" and "validate_insert_record_fits self k val = Ok ()"
    and "length val \<le> inline_value_threshold (tr_page_size self)" and "next_page_id self \<noteq> - 1"
    and "path_to_leaf_for_key self k = Ok path" and "read_leaf self (last path) = Ok l"
    and "fits (fst (upsert l k (Inline val))) (tr_page_size self)"
  shows "\<exists>s. put self k val = (Ok (), s)"
proof -
  define s0 where "s0 = invalidate_append_state self"
  have rep0: "represents s0 m" and n0: "next_page_id s0 \<noteq> - 1" "root_page_id s0 \<noteq> 0" "tr_page_size s0 = tr_page_size self"
      "validate_insert_record_fits s0 k val = Ok ()"
    using assms by (simp_all add: s0_def invalidate_append_state_def validate_insert_record_fits_def)
  have path: "path_to_leaf_for_key s0 k = path_to_leaf_for_key self k"
    by (simp add: s0_def path_to_leaf_for_key_def descend_invalidate)
  obtain a ctx p l' where d: "tree_inv s0 a []" "a = plugs ctx (ALeaf p l')" "inside (ctx_lo ctx) (ctx_hi ctx) k"
      "path_to_leaf_for_key s0 k = Ok (rev (ctx_pages ctx) @ [p])" "read_leaf s0 p = Ok l'"
    using represents_leaf [OF rep0 n0(2), of k] by metis
  have "last path = p" using d(4) path assms(6) by auto
  then have l': "l' = l" using d(5) assms(7) by (simp add: s0_def read_leaf_def invalidate_append_state_def cong: option.case_cong)
  define fr where "fr = (map_of (fresh_leaves s0) p \<noteq> None)"
  obtain s1 where s1: "(if \<not> fr then ensure_leaf_dirty s0 p (rev (ctx_pages ctx) @ [p]) else (Ok (), s0)) = (Ok (), s1)"
      "tree_inv s1 a []" "cached_leaf s1 p fr = Ok l" "fr = (map_of (fresh_leaves s1) p \<noteq> None)"
    by (rule cached_for_write [OF d(1,2) fr_def, unfolded l'])
  have n1: "next_page_id s1 \<noteq> - 1" "tr_page_size s1 = tr_page_size self"
    using s1(1) n0 ensure_next [of s0] by (auto simp: ensure_leaf_dirty_def mbind_eq_Ok split: if_splits)
  have v: "value_at (tr_pager s1) (tr_realm s1) (Inline val) val" "vpages (tr_pager s1) (tr_realm s1) (Inline val) = []"
    using assms(4) s1(2) n1(2) by (auto simp: value_at_def vpages_def inline_value_threshold_def tree_inv_def good_def)
  obtain l2 new old where up: "upsert l k (Inline val) = (l2, new, old)" by (cases "upsert l k (Inline val)")
  define s2 where "s2 = set_cached_leaf s1 p fr l2"
  have inv1: "tree_inv s1 (plugs ctx (ALeaf p l)) (vpages (tr_pager s1) (tr_realm s1) (Inline val))"
    using s1(2) d(2) v(2) l' by simp
  note u = upsert_cached_spec [OF inv1 s1(4,3) d(3) v(1) up, folded s2_def]
  have f2: "tr_pager s2 = tr_pager s1" "tr_realm s2 = tr_realm s1" "next_page_id s2 \<noteq> - 1"
    using n1 by (simp_all add: s2_def)
  have "\<exists>s. release_replaced s2 p fr k old = (Ok (), s)"
  proof (cases "\<exists>n root. old = Some (OverflowRef n root)")
    case True
    then obtain n root where old: "old = Some (OverflowRef n root)" by blast
    obtain dt where dt: "value_at (tr_pager s2) (tr_realm s2) (OverflowRef n root) dt"
      using u(5) [OF old] f2 by auto
    have i2: "tree_inv s2 (plugs ctx (ALeaf p l2)) (vpages (tr_pager s2) (tr_realm s2) (OverflowRef n root))"
      using u(1) old f2 by simp
    show ?thesis unfolding release_replaced_def old option.case leaf_value.case
      by (rule release_value_ok [OF i2 dt f2(3)])
  qed (auto simp: release_replaced_def split: option.splits leaf_value.splits)
  then obtain s3 where s3: "release_replaced s2 p fr k old = (Ok (), s3)" ..
  have ne: "rev (ctx_pages ctx) @ [p] \<noteq> []" by simp
  have fit: "fits l2 (tr_page_size s1)" using assms(8) up n1(2) by simp
  have "put_at_path s0 (rev (ctx_pages ctx) @ [p]) k (Inline val) = (Ok False, s3)"
    unfolding put_at_path_def if_not_P [OF ne] Let_def last_snoc fr_def [symmetric] s1(1) mbind.simps
      s1(3) up prod.case s2_def [symmetric] s3 if_P [OF fit] ..
  moreover have "\<not> length val > inline_value_threshold (tr_page_size s0)" using assms(4) n0(3) by simp
  ultimately show ?thesis
    using n0 d(4) unfolding put_def s0_def [symmetric] Let_def leaf_value_for_def by simp
qed

section \<open>Sequences of operations\<close>

datatype session_op = Get key | Put key bytes | Delete key

datatype session_answer = Found "bytes option" | Stored | Removed bool

fun run_op :: "tree \<Rightarrow> session_op \<Rightarrow> session_answer result \<times> tree" where
  "run_op self (Get k) = (rmap Found (tree_get self k), self)"
| "run_op self (Put k val) = mbind (put self k val) (\<lambda>_ self. (Ok Stored, self))"
| "run_op self (Delete k) = mbind (tree_delete self k) (\<lambda>b self. (Ok (Removed b), self))"

fun run_ops :: "tree \<Rightarrow> session_op list \<Rightarrow> session_answer list result \<times> tree" where
  "run_ops self [] = (Ok [], self)"
| "run_ops self (x # xs) =
     mbind (run_op self x) (\<lambda>y self. mbind (run_ops self xs) (\<lambda>ys self. (Ok (y # ys), self)))"

text \<open>The same operations on a map.\<close>

fun map_op :: "(key \<Rightarrow> bytes option) \<Rightarrow> session_op \<Rightarrow> session_answer \<times> (key \<Rightarrow> bytes option)" where
  "map_op m (Get k) = (Found (m k), m)"
| "map_op m (Put k val) = (Stored, m(k \<mapsto> val))"
| "map_op m (Delete k) = (Removed (m k \<noteq> None), m(k := None))"

fun map_ops :: "(key \<Rightarrow> bytes option) \<Rightarrow> session_op list \<Rightarrow> session_answer list \<times> (key \<Rightarrow> bytes option)" where
  "map_ops m [] = ([], m)"
| "map_ops m (x # xs) = (let (y, m) = map_op m x; (ys, m) = map_ops m xs in (y # ys, m))"

text \<open>Rust bounds the length of a slice by \<open>isize::MAX\<close>.\<close>

fun op_ok :: "session_op \<Rightarrow> bool" where
  "op_ok (Put k val) = (length val < 2 ^ 63)"
| "op_ok x = True"

lemma run_op_refines:
  assumes "run_op self x = (Ok y, s)" and "represents self m" and "op_ok x"
  shows "y = fst (map_op m x)" and "represents s (snd (map_op m x))"
proof -
  have "y = fst (map_op m x) \<and> represents s (snd (map_op m x))"
  proof (cases x)
    case (Get k)
    then show ?thesis using assms represents_get [OF assms(2), of k] by simp
  next
    case (Put k val)
    then show ?thesis using assms put_spec [OF _ assms(2), of k val s] by (auto simp: mbind_eq_Ok)
  next
    case (Delete k)
    then show ?thesis using assms tree_delete_spec [OF _ assms(2), of k _ s] by (auto simp: mbind_eq_Ok)
  qed
  then show "y = fst (map_op m x)" "represents s (snd (map_op m x))" by auto
qed

lemma run_ops_refines:
  "run_ops self xs = (Ok ys, s) \<Longrightarrow> represents self m \<Longrightarrow> list_all op_ok xs \<Longrightarrow>
     ys = fst (map_ops m xs) \<and> represents s (snd (map_ops m xs))"
proof (induction xs arbitrary: self m ys)
  case (Cons x xs)
  obtain y s1 ys' where r: "run_op self x = (Ok y, s1)" "run_ops s1 xs = (Ok ys', s)" "ys = y # ys'"
    using Cons.prems(1) by (auto simp: mbind_eq_Ok)
  have x: "y = fst (map_op m x)" "represents s1 (snd (map_op m x))"
    using run_op_refines [OF r(1) Cons.prems(2)] Cons.prems(3) by auto
  show ?case using Cons.IH [OF r(2) x(2)] Cons.prems(3) r(3) x(1) by (simp add: Let_def case_prod_beta)
qed simp


section \<open>From an empty tree\<close>

lemma open_tree_represents:
  assumes "cfg_page_size pager = page_size" and "56 \<le> page_size" and "page_size \<le> 65536"
  shows "represents (open_tree pager realm 0 next page_size) Map.empty"
  using assms
  by (simp add: represents_def empty_inv_def open_tree_def new_tree_def good_def alloc_inv_def cache_of_def)

text \<open>
  C1. A write session refines a map. Start from an empty tree on a pager with a valid page size, and
  run any sequence of lookups, insertions and deletions that all succeed: every answer is the answer
  of a map from keys to values, and afterwards every lookup returns what the map holds. This covers
  node splits up to a new root, values spilled to overflow chains, the release of replaced chains
  and the reuse of freed pages.
\<close>
theorem session_refines_map:
  assumes "cfg_page_size pager = page_size" and "56 \<le> page_size" and "page_size \<le> 65536"
    and "list_all op_ok xs" and "run_ops (open_tree pager realm 0 next page_size) xs = (Ok ys, s)"
  shows "ys = fst (map_ops Map.empty xs) \<and> (\<forall>k. tree_get s k = Ok (snd (map_ops Map.empty xs) k))"
  using run_ops_refines [OF assms(5) open_tree_represents [OF assms(1-3)] assms(4)] represents_get by blast

definition demo_store :: pager where
  "demo_store = \<lparr> cfg_page_size = 4096, cfg_buffer_pool_pages = 8, pool = Map.empty, dirty_pages = [],
     cold_read = (\<lambda>_ _ _. Err ChecksumFailure) \<rparr>"

definition demo_tree :: tree where
  "demo_tree = open_tree demo_store [] 0 4 4096"

lemma demo_represents: "represents demo_tree Map.empty"
  unfolding demo_tree_def by (rule open_tree_represents) (simp_all add: demo_store_def)

lemma demo_validates: "validate_insert_record_fits demo_tree [1] [2] = Ok ()"
  by (simp add: validate_insert_record_fits_def stored_leaf_value_encoded_size_def demo_tree_def open_tree_def
      new_tree_def inline_value_threshold_def checked_add_def single_record_fits_encoded_def separator_fits_def
      separator_entry_size_def SEPARATOR_RECORD_OVERHEAD_def SLOT_DIRECTORY_ENTRY_SIZE_def HEADER_LEN_def
      body_capacity_def ENVELOPE_OVERHEAD_def)

lemma demo_put: "\<exists>s. put demo_tree [1] [2] = (Ok (), s) \<and> represents s [[1] \<mapsto> [2]]"
proof -
  obtain s where "put demo_tree [1] [2] = (Ok (), s)"
    using put_empty_ok [OF demo_represents _ demo_validates]
    by (auto simp: demo_tree_def open_tree_def new_tree_def inline_value_threshold_def)
  then show ?thesis using put_spec [OF _ demo_represents, of "[1]" "[2]" s] by auto
qed

theorem session_refines_map_witness:
  "\<exists>s. run_ops (open_tree demo_store [] 0 4 4096) [Put [1] [2], Get [1], Get [3]] =
       (Ok [Stored, Found (Some [2]), Found None], s) \<and> tree_get s [1] = Ok (Some [2])"
proof -
  let ?xs = "[Put [1] [2], Get [1], Get [3]]"
  obtain s where s: "put demo_tree [1] [2] = (Ok (), s)" "represents s [[1] \<mapsto> [2]]"
    using demo_put by blast
  have "\<exists>ys. run_ops (open_tree demo_store [] 0 4 4096) ?xs = (Ok ys, s)"
    using s represents_get [OF s(2)] by (simp add: demo_tree_def)
  then obtain ys where r: "run_ops (open_tree demo_store [] 0 4 4096) ?xs = (Ok ys, s)" ..
  have "ys = fst (map_ops Map.empty ?xs) \<and> (\<forall>k. tree_get s k = Ok (snd (map_ops Map.empty ?xs) k))"
    by (rule session_refines_map [OF _ _ _ _ r]) (simp_all add: demo_store_def)
  then show ?thesis using r by (intro exI [of _ s]) simp
qed

definition demo_record_tree :: tree where
  "demo_record_tree = demo_tree\<lparr>root_page_id := 4, next_page_id := 5,
     fresh_leaves := [(4, new_leaf\<lparr>records := [([1], Inline [2])]\<rparr>)]\<rparr>"

lemma demo_record_represents: "represents demo_record_tree [[1] \<mapsto> [2]]"
proof -
  let ?l = "new_leaf\<lparr>records := [([1], Inline [2])]\<rparr>"
  have "tree_inv demo_record_tree (ALeaf 4 ?l) []"
    by (simp add: tree_inv_def demo_record_tree_def demo_tree_def open_tree_def new_tree_def new_leaf_def leaf_at_def
        good_def alloc_inv_def in_use_def cache_of_def caches_ok_def demo_store_def inside_def vps_def vpages_def
        values_at_def value_at_def)
  moreover have "contents demo_record_tree (recs (ALeaf 4 ?l)) = [[1] \<mapsto> [2]]"
    by (simp add: contents_def fun_eq_iff resolve_leaf_value_def)
  ultimately show ?thesis unfolding represents_def by metis
qed

text \<open>
  C2. A deletion returns, on every session and for every key, as long as page ids are not exhausted:
  it answers whether the key was present and removes it and nothing else, whether its value was
  inline or on an overflow chain.
\<close>
theorem delete_returns:
  assumes "represents self m" and "next_page_id self \<noteq> - 1"
  shows "\<exists>s. tree_delete self k = (Ok (m k \<noteq> None), s) \<and> represents s (m(k := None))"
proof -
  obtain b s where r: "tree_delete self k = (Ok b, s)" using tree_delete_ok [OF assms] by blast
  show ?thesis using r tree_delete_spec [OF r assms(1)] by auto
qed

theorem delete_returns_witness:
  "(\<exists>s. tree_delete demo_record_tree [1] = (Ok True, s) \<and> represents s Map.empty) \<and>
   (\<exists>s. tree_delete demo_record_tree [9] = (Ok False, s) \<and> represents s [[1] \<mapsto> [2]])"
proof -
  have n: "next_page_id demo_record_tree \<noteq> - 1" by (simp add: demo_record_tree_def)
  have "[[1 :: u8] \<mapsto> [2 :: u8]]([1] := None) = Map.empty" "[[1 :: u8] \<mapsto> [2 :: u8]]([9] := None) = [[1] \<mapsto> [2]]" by auto
  then show ?thesis
    using delete_returns [OF demo_record_represents n, of "[1]"] delete_returns [OF demo_record_represents n, of "[9]"]
    by simp
qed

text \<open>
  C3. An insertion of an inline value returns whenever the record passes the preflight and the leaf
  it belongs to still fits with it, and the session then represents the updated map; what the
  session represented before decides neither.
\<close>
theorem put_in_place_returns:
  assumes "represents self m" and "root_page_id self \<noteq> 0" and "validate_insert_record_fits self k val = Ok ()"
    and "length val \<le> inline_value_threshold (tr_page_size self)" and "next_page_id self \<noteq> - 1"
    and "path_to_leaf_for_key self k = Ok path" and "read_leaf self (last path) = Ok l"
    and "fits (fst (upsert l k (Inline val))) (tr_page_size self)"
  shows "\<exists>s. put self k val = (Ok (), s) \<and> represents s (m(k \<mapsto> val))"
proof -
  have "tr_page_size self \<le> 65536"
    using assms(1) by (cases rule: represents_root) (auto simp: empty_inv_def tree_inv_def good_def)
  then have "length val < 2 ^ 63" using assms(4) by (simp add: inline_value_threshold_def)
  then show ?thesis using put_fits_ok [OF assms] put_spec [OF _ assms(1)] by blast
qed

definition demo_leaf_tree :: tree where
  "demo_leaf_tree = demo_tree\<lparr>root_page_id := 4, next_page_id := 5, fresh_leaves := [(4, new_leaf)]\<rparr>"

lemma demo_leaf_represents: "represents demo_leaf_tree Map.empty"
proof -
  have "tree_inv demo_leaf_tree (ALeaf 4 new_leaf) []"
    by (simp add: tree_inv_def demo_leaf_tree_def demo_tree_def open_tree_def new_tree_def new_leaf_def leaf_at_def
        good_def alloc_inv_def in_use_def cache_of_def caches_ok_def demo_store_def)
  moreover have "contents demo_leaf_tree (recs (ALeaf 4 new_leaf)) = Map.empty"
    by (simp add: contents_def new_leaf_def fun_eq_iff)
  ultimately show ?thesis unfolding represents_def by metis
qed

lemma demo_leaf_path: "path_to_leaf_for_key demo_leaf_tree k = Ok [4]"
  unfolding path_to_leaf_for_key_def
  by (subst descend.simps) (simp add: demo_leaf_tree_def seen_insert_def seen_insert_inner_def seen_new_def INLINE_SEEN_PAGE_IDS_def)

theorem put_in_place_returns_witness:
  "\<exists>s. put demo_leaf_tree [1] [2] = (Ok (), s) \<and> represents s [[1] \<mapsto> [2]]"
proof (rule put_in_place_returns [OF demo_leaf_represents _ _ _ _ demo_leaf_path])
  show "read_leaf demo_leaf_tree (last [4]) = Ok new_leaf" by (simp add: read_leaf_def demo_leaf_tree_def)
  show "fits (fst (upsert new_leaf [1] (Inline [2]))) (tr_page_size demo_leaf_tree)"
    by (simp add: fits_def upsert_def position_def new_leaf_def key_search_def vec_insert_def binary_search_by.simps
        slice_fits_def body_capacity_def ENVELOPE_OVERHEAD_def HEADER_LEN_def demo_leaf_tree_def demo_tree_def
        open_tree_def new_tree_def)
  show "validate_insert_record_fits demo_leaf_tree [1] [2] = Ok ()"
    using demo_validates by (simp add: validate_insert_record_fits_def demo_leaf_tree_def)
qed (simp_all add: demo_leaf_tree_def demo_tree_def open_tree_def new_tree_def inline_value_threshold_def)

end
