(* ===== verification/Tree_Walk.thy ===== *)
theory Tree_Walk
  imports Tree_Leaves Tree_Session
begin

text \<open>
  A scan as a walk over leaves: from the leaf of a path it visits the records of each leaf in turn and
  asks for the next path until the visit stops or no leaf is left. The walk is described once for an
  order of the leaves (locale \<open>leaf_walk\<close>) and read off for both directions of the source.
\<close>

section \<open>Counting leaves\<close>

lemma aleaves_count: "count (mset (map fst (aleaves a))) q \<le> count (mset (plist a)) q"
proof (induction a rule: atree_induct)
  case (ANode p t ts)
  have "count (mset (map fst (aleavess ts))) q \<le> count (mset (plists ts)) q"
    by (rule children_induct [where P = "\<lambda>t. count (mset (map fst (aleaves t))) q \<le> count (mset (plist t)) q"])
      (use ANode.IH(2) in auto)
  then show ?case using ANode.IH(1) by auto
qed simp

lemma aleaves_distinct: "distinct (plist a) \<Longrightarrow> distinct (map fst (aleaves a))"
proof -
  assume d: "distinct (plist a)"
  have "count (mset (map fst (aleaves a))) q \<le> 1" for q
    using aleaves_count [of a q] d unfolding distinct_count_atmost_1 by (metis le_trans zero_le_one order_refl)
  moreover have "q \<in> set (map fst (aleaves a)) \<Longrightarrow> 1 \<le> count (mset (map fst (aleaves a))) q" for q
    by (metis count_greater_eq_one_iff set_mset_mset)
  moreover have "q \<notin> set (map fst (aleaves a)) \<Longrightarrow> count (mset (map fst (aleaves a))) q = 0" for q
    by (metis count_eq_zero_iff set_mset_mset)
  ultimately show ?thesis unfolding distinct_count_atmost_1 by (metis le_antisym)
qed

lemma fold_seen:
  assumes "seen_inv seen" and "distinct path" and "0 \<notin> set path" and "seen_set seen \<inter> set path = {}"
  shows "\<exists>seen'. fold_result (\<lambda>p seen. seen_insert seen p) path seen = Ok seen' \<and> seen_inv seen' \<and>
    seen_set seen' = seen_set seen \<union> set path"
  using assms
proof (induction path arbitrary: seen)
  case (Cons p path)
  have "p \<noteq> 0" "p \<notin> seen_set seen" using Cons.prems(3,4) by auto
  then obtain seen1 where s: "seen_insert seen p = Ok seen1" "seen_inv seen1" "seen_set seen1 = insert p (seen_set seen)"
    using seen_step [OF Cons.prems(1) refl] by metis
  then show ?case using Cons.IH [OF s(2)] Cons.prems by auto
qed simp

text \<open>A path from the root to a leaf has no page twice, so the detector of one step accepts it.\<close>

lemma leaf_path_seen:
  assumes "stored self (plugs ctx (ALeaf p l))"
  obtains seen where "seen_from_existing s (rev (ctx_pages ctx) @ [p]) = Ok seen" and "seen_inv seen"
    and "seen_set seen \<inter> set (ctx_side ctx) = {}"
proof -
  have d: "distinct (ctx_pages ctx @ ctx_side ctx @ [p])" "0 \<notin> set (ctx_pages ctx @ [p])"
    using assms unfolding stored_def distinct_plugs set_plugs by auto
  then obtain seen where "seen_from_existing s (rev (ctx_pages ctx) @ [p]) = Ok seen" "seen_inv seen"
      "seen_set seen = set (rev (ctx_pages ctx) @ [p])"
    using fold_seen [of "seen_new s" "rev (ctx_pages ctx) @ [p]"] by (auto simp: seen_from_existing_def)
  then show ?thesis using that d by auto
qed

lemma next_leaf_after_spec:
  assumes "stored self (plugs ctx (ALeaf p l))"
  shows "(ctx_lr ctx = [] \<and> next_leaf_after self (rev (ctx_pages ctx) @ [p]) = Ok None) \<or>
    (\<exists>ctx' q l'. plugs ctx (ALeaf p l) = plugs ctx' (ALeaf q l') \<and> ctx_lr ctx = (q, l') # ctx_lr ctx' \<and>
       next_leaf_after self (rev (ctx_pages ctx) @ [p]) = Ok (Some (rev (ctx_pages ctx') @ [q])))"
proof (cases "ctx = []")
  case False
  obtain seen where s: "seen_from_existing ''btree_descent'' (rev (ctx_pages ctx) @ [p]) = Ok seen" "seen_inv seen"
      "seen_set seen \<inter> set (ctx_side ctx) = {}" by (rule leaf_path_seen [OF assms])
  have run: "next_leaf_after self (rev (ctx_pages ctx) @ [p]) =
      next_leaf_loop self (rev (ctx_pages ctx) @ [p]) seen (rev [0..<length ctx]) (page_of (ALeaf p l))"
    using False s(1) by (simp add: next_leaf_after_def)
  have right: "ctx_lr ctx = (q, l') # ctx_lr ctx'"
    if "plugs ctx (ALeaf p l) = plugs ctx' (ALeaf q l')" "ctx_ll ctx' = ctx_ll ctx @ aleaves (ALeaf p l)" for ctx' q l'
    using arg_cong [OF that(1), of aleaves] that(2) by (simp add: aleaves_plugs)
  show ?thesis
    using next_leaf_loop_spec [OF assms, of "rev (ctx_pages ctx) @ [p]" seen] s(2,3) right unfolding run by auto
qed (simp add: next_leaf_after_def)

lemma prev_leaf_before_spec:
  assumes "stored self (plugs ctx (ALeaf p l))"
  shows "(rev (ctx_ll ctx) = [] \<and> prev_leaf_before self (rev (ctx_pages ctx) @ [p]) = Ok None) \<or>
    (\<exists>ctx' q l'. plugs ctx (ALeaf p l) = plugs ctx' (ALeaf q l') \<and> rev (ctx_ll ctx) = (q, l') # rev (ctx_ll ctx') \<and>
       prev_leaf_before self (rev (ctx_pages ctx) @ [p]) = Ok (Some (rev (ctx_pages ctx') @ [q])))"
proof (cases "ctx = []")
  case False
  obtain seen where s: "seen_from_existing ''btree_descent'' (rev (ctx_pages ctx) @ [p]) = Ok seen" "seen_inv seen"
      "seen_set seen \<inter> set (ctx_side ctx) = {}" by (rule leaf_path_seen [OF assms])
  have run: "prev_leaf_before self (rev (ctx_pages ctx) @ [p]) =
      prev_leaf_loop self (rev (ctx_pages ctx) @ [p]) seen (rev [0..<length ctx]) (page_of (ALeaf p l))"
    using False s(1) by (simp add: prev_leaf_before_def)
  have left: "rev (ctx_ll ctx) = (q, l') # rev (ctx_ll ctx')"
    if "plugs ctx (ALeaf p l) = plugs ctx' (ALeaf q l')" "ctx_lr ctx' = aleaves (ALeaf p l) @ ctx_lr ctx" for ctx' q l'
    using arg_cong [OF that(1), of aleaves] that(2) by (simp add: aleaves_plugs)
  show ?thesis
    using prev_leaf_loop_spec [OF assms, of "rev (ctx_pages ctx) @ [p]" seen] s(2,3) left unfolding run by auto
qed (simp add: prev_leaf_before_def)

section \<open>Scans over the leaves\<close>

fun run_leaves :: "(leaf \<Rightarrow> 's \<Rightarrow> (bool \<times> 's) result) \<Rightarrow> leaf list \<Rightarrow> 's \<Rightarrow> 's result" where
  "run_leaves visit [] st = Ok st"
| "run_leaves visit (l # ls) st =
     rbind (visit l st) (\<lambda>(finished, st). if finished then Ok st else run_leaves visit ls st)"

text \<open>A direction to walk in: a step to the neighbour of a leaf, and the leaves that lie ahead of it.\<close>

locale leaf_walk =
  fixes step :: "tree \<Rightarrow> page_id list \<Rightarrow> page_id list option result"
    and ahead :: "frame list \<Rightarrow> (page_id \<times> leaf) list"
  assumes step_spec: "stored self (plugs ctx (ALeaf p l)) \<Longrightarrow>
      (ahead ctx = [] \<and> step self (rev (ctx_pages ctx) @ [p]) = Ok None) \<or>
      (\<exists>ctx' q l'. plugs ctx (ALeaf p l) = plugs ctx' (ALeaf q l') \<and> ahead ctx = (q, l') # ahead ctx' \<and>
         step self (rev (ctx_pages ctx) @ [p]) = Ok (Some (rev (ctx_pages ctx') @ [q])))"
    and ahead_distinct: "distinct (map fst (aleaves (plugs ctx (ALeaf p l)))) \<Longrightarrow> p \<notin> fst ` set (ahead ctx)"
begin

lemma scan_leaves:
  assumes "stored self (plugs ctx (ALeaf p l))" and "seen_inv seen"
    and "seen_set seen \<inter> insert p (fst ` set (ahead ctx)) = {}"
  shows "scan_loop step visit self (rev (ctx_pages ctx) @ [p]) seen st =
    run_leaves visit (l # map snd (ahead ctx)) st"
  using assms
proof (induction "length (ahead ctx)" arbitrary: ctx p l seen st)
  case (0 ctx p l seen st)
  have p: "p \<noteq> 0" "read_leaf self p = Ok l"
    using 0(2) by (auto simp: stored_def set_plugs holds_plugs leaf_at_read)
  have "p \<notin> seen_set seen" using 0(4) by auto
  then obtain seen' where "seen_insert seen p = Ok seen'" using seen_step [OF 0(3) refl] p(1) by metis
  then show ?case
    using step_spec [OF 0(2)] 0(1) p(2) by (subst scan_loop.simps) (auto intro!: arg_cong2 [where f = rbind])
next
  case (Suc n ctx p l seen st)
  have p: "p \<noteq> 0" "read_leaf self p = Ok l"
    using Suc.prems(1) by (auto simp: stored_def set_plugs holds_plugs leaf_at_read)
  have "p \<notin> seen_set seen" using Suc.prems(3) by auto
  then obtain seen' where s': "seen_insert seen p = Ok seen'" "seen_inv seen'" "seen_set seen' = insert p (seen_set seen)"
    using seen_step [OF Suc.prems(2) refl] p(1) by metis
  obtain ctx' q l' where n: "plugs ctx (ALeaf p l) = plugs ctx' (ALeaf q l')" "ahead ctx = (q, l') # ahead ctx'"
      "step self (rev (ctx_pages ctx) @ [p]) = Ok (Some (rev (ctx_pages ctx') @ [q]))"
    using step_spec [OF Suc.prems(1)] Suc.hyps(2) by auto
  have "p \<notin> fst ` set (ahead ctx)"
    using Suc.prems(1) by (intro ahead_distinct [of ctx p l] aleaves_distinct) (simp add: stored_def)
  then have "scan_loop step visit self (rev (ctx_pages ctx') @ [q]) seen' st' =
      run_leaves visit (l' # map snd (ahead ctx')) st'" for st'
    by (intro Suc.hyps(1)) (use Suc.hyps(2) Suc.prems n s' in auto)
  then show ?case
    using s'(1) p(2) n(2,3) by (subst scan_loop.simps) (auto intro!: arg_cong2 [where f = rbind])
qed

end

interpretation forward: leaf_walk next_leaf_after ctx_lr
  by unfold_locales (erule next_leaf_after_spec, auto simp: aleaves_plugs)

interpretation backward: leaf_walk prev_leaf_before "\<lambda>ctx. rev (ctx_ll ctx)"
  by unfold_locales (erule prev_leaf_before_spec, auto simp: aleaves_plugs)

end
