(* ===== verification/Tree_Visits.thy ===== *)
theory Tree_Visits
  imports Tree_Walk
begin

text \<open>
  What the scans do with the records they meet. Each visit of the source continues over the records
  of the next leaf where it stopped in the last one (locale \<open>record_visit\<close>), so a scan is the visit
  of all records from its first leaf on; and each visit collects the stated part of them.
\<close>

section \<open>Visiting records\<close>

text \<open>
  What a scan does with the records of one leaf can be done with the records of all leaves at
  once, when the visit of a list continues where the visit of its first part stopped.
\<close>

locale record_visit =
  fixes visit :: "leaf_record list \<Rightarrow> 's \<Rightarrow> (bool \<times> 's) result"
  assumes visit_nil: "rmap snd (visit [] st) = Ok st"
    and visit_append: "rmap snd (visit (xs @ ys) st) =
      rbind (visit xs st) (\<lambda>(finished, st). if finished then Ok st else rmap snd (visit ys st))"
begin

lemma run_records: "run_leaves (\<lambda>l. visit (g l)) ls st = rmap snd (visit (concat (map g ls)) st)"
proof (induction ls arbitrary: st)
  case (Cons l ls)
  then show ?case by (auto simp: visit_append intro!: rbind_cong [OF refl])
qed (simp add: visit_nil)

end

declare rmap_if [simp]

lemmas visit_simps = rmap_rbind rbind_assoc rbind_if

interpretation range_visit: record_visit "visit_range self start stop"
proof unfold_locales
  show "rmap snd (visit_range self start stop (xs @ ys) st) =
      rbind (visit_range self start stop xs st)
        (\<lambda>(finished, st). if finished then Ok st else rmap snd (visit_range self start stop ys st))" for xs ys st
    by (induction self start stop xs st rule: visit_range.induct) (auto simp: visit_simps intro!: rbind_cong [OF refl])
qed simp

interpretation all_visit: record_visit "visit_all self"
proof unfold_locales
  show "rmap snd (visit_all self (xs @ ys) st) =
      rbind (visit_all self xs st) (\<lambda>(finished, st). if finished then Ok st else rmap snd (visit_all self ys st))"
    for xs ys st
    by (induction self xs st rule: visit_all.induct) (auto simp: visit_simps intro!: rbind_cong [OF refl])
qed simp

lemma visit_batch_full: "length out = limit \<Longrightarrow> rmap snd (visit_batch self start limit rs out) = Ok out"
  by (induction rs) auto

interpretation batch_visit: record_visit "visit_batch self start limit"
proof unfold_locales
  show "rmap snd (visit_batch self start limit (xs @ ys) st) =
      rbind (visit_batch self start limit xs st)
        (\<lambda>(finished, st). if finished then Ok st else rmap snd (visit_batch self start limit ys st))" for xs ys st
    by (induction self start limit xs st rule: visit_batch.induct)
      (auto simp: visit_simps visit_batch_full intro!: rbind_cong [OF refl])
qed simp

interpretation prefix_visit: record_visit "visit_prefix self pre"
proof unfold_locales
  show "rmap snd (visit_prefix self pre (xs @ ys) st) =
      rbind (visit_prefix self pre xs st)
        (\<lambda>(finished, st). if finished then Ok st else rmap snd (visit_prefix self pre ys st))" for xs ys st
    by (induction self pre xs st rule: visit_prefix.induct) (auto simp: visit_simps intro!: rbind_cong [OF refl])
qed simp

interpretation rev_visit: record_visit "visit_rev self bef limit"
proof unfold_locales
  show "rmap snd (visit_rev self bef limit (xs @ ys) st) =
      rbind (visit_rev self bef limit xs st)
        (\<lambda>(finished, st). if finished then Ok st else rmap snd (visit_rev self bef limit ys st))" for xs ys st
    by (induction self bef limit xs st rule: visit_rev.induct)
      (auto simp: visit_simps Let_def split: option.splits intro!: rbind_cong [OF refl])
qed simp

interpretation bounded_visit: record_visit "visit_bounded self pre start max_records max_bytes"
proof unfold_locales
  show "rmap snd (visit_bounded self pre start max_records max_bytes (xs @ ys) st) =
      rbind (visit_bounded self pre start max_records max_bytes xs st)
        (\<lambda>(finished, st). if finished then Ok st
           else rmap snd (visit_bounded self pre start max_records max_bytes ys st))" for xs ys st
    by (induction self pre start max_records max_bytes xs st rule: visit_bounded.induct)
      (auto simp: visit_simps Let_def split: option.splits prod.splits intro!: rbind_cong [OF refl])
qed simp

section \<open>What the visits collect\<close>

definition pair_of :: "tree \<Rightarrow> leaf_record \<Rightarrow> pair" where
  "pair_of self r = (fst r, case resolve_leaf_value self (snd r) of Ok d \<Rightarrow> d | Err e \<Rightarrow> [])"

definition readable :: "tree \<Rightarrow> leaf_record list \<Rightarrow> bool" where
  "readable self rs \<longleftrightarrow> (\<forall>r \<in> set rs. resolve_leaf_value self (snd r) = Ok (snd (pair_of self r)))"

lemma readable_simps [simp]:
  "readable self []"
  "readable self ((k, v) # rs) \<longleftrightarrow> resolve_leaf_value self v = Ok (snd (pair_of self (k, v))) \<and> readable self rs"
  "readable self (xs @ ys) \<longleftrightarrow> readable self xs \<and> readable self ys"
  "readable self (rev xs) \<longleftrightarrow> readable self xs"
  by (auto simp: readable_def)

lemma values_at_readable: "values_at (tr_pager self) (tr_realm self) rs \<Longrightarrow> readable self rs"
  by (fastforce simp: values_at_def readable_def pair_of_def dest: value_at_resolve)

lemma pair_of_fst [simp]: "fst (pair_of self r) = fst r"
  by (simp add: pair_of_def)

lemma pair_of_Pair: "pair_of self (k, v) = (k, snd (pair_of self (k, v)))"
  by (simp add: pair_of_def)

lemma visit_range_spec:
  "readable self rs \<Longrightarrow> sorted_keys rs \<Longrightarrow> rmap snd (visit_range self start stop rs out) =
     Ok (out @ map (pair_of self) (filter (\<lambda>r. start \<le> fst r \<and> fst r < stop) rs))"
proof (induction self start stop rs out rule: visit_range.induct)
  case (2 self start stop k v rs out)
  have "filter (\<lambda>r. start \<le> fst r \<and> fst r < stop) rs = []" if "stop \<le> k"
    using 2(4) that by (fastforce simp: filter_empty_conv)
  then show ?case using 2 pair_of_Pair [of self k v] by (auto simp: visit_simps)
qed simp

lemma visit_all_spec:
  "readable self rs \<Longrightarrow> rmap snd (visit_all self rs out) = Ok (out @ map (pair_of self) rs)"
proof (induction self rs out rule: visit_all.induct)
  case (2 self k v rs out)
  then show ?case using pair_of_Pair [of self k v] by (auto simp: visit_simps)
qed simp

lemma visit_batch_spec:
  "readable self rs \<Longrightarrow> length out \<le> limit \<Longrightarrow> rmap snd (visit_batch self start limit rs out) =
     Ok (out @ take (limit - length out) (map (pair_of self) (filter (\<lambda>r. start \<le> fst r) rs)))"
proof (induction self start limit rs out rule: visit_batch.induct)
  case (2 self start limit k v rs out)
  then show ?case using pair_of_Pair [of self k v]
    by (auto simp: visit_simps take_Cons' Suc_diff_Suc)
qed simp

lemma visit_rev_spec:
  "readable self rs \<Longrightarrow> length out < limit \<Longrightarrow> rmap snd (visit_rev self bef limit rs out) =
     Ok (out @ take (limit - length out)
       (map (pair_of self) (filter (\<lambda>r. case bef of None \<Rightarrow> True | Some b \<Rightarrow> fst r < b) rs)))"
proof (induction self bef limit rs out rule: visit_rev.induct)
  case (2 self bef limit k v rs out)
  obtain d where "pair_of self (k, v) = (k, d)" using pair_of_Pair by blast
  then show ?case using 2 by (cases bef) (auto simp: visit_simps take_Cons' Let_def)
qed simp

lemma prefix_le: "prefix pre (k :: key) \<Longrightarrow> pre \<le> k"
proof (induction pre arbitrary: k)
  case (Cons x pre)
  then show ?case by (cases k) auto
qed simp

lemma prefix_gap: "pre \<le> k \<Longrightarrow> \<not> prefix pre k \<Longrightarrow> k < k' \<Longrightarrow> \<not> prefix pre (k' :: key)"
proof (induction pre arbitrary: k k')
  case (Cons x pre)
  obtain y ys where k: "k = y # ys" using Cons.prems(1) by (cases k) auto
  show ?case
  proof (cases k')
    case (Cons z zs)
    then show ?thesis using Cons.IH [of ys zs] Cons.prems k by auto
  qed simp
qed simp

lemma visit_prefix_spec:
  "readable self rs \<Longrightarrow> sorted_keys rs \<Longrightarrow> rmap snd (visit_prefix self pre rs out) =
     Ok (out @ map (pair_of self) (filter (\<lambda>r. prefix pre (fst r)) rs))"
proof (induction self pre rs out rule: visit_prefix.induct)
  case (2 self pre k v rs out)
  have "filter (\<lambda>r. prefix pre (fst r)) rs = []" if "\<not> k < pre" "\<not> prefix pre k"
    using 2(4) that prefix_gap [of pre k] by (fastforce simp: filter_empty_conv)
  moreover have "\<not> prefix pre k" if "k < pre" using that prefix_le [of pre k] by auto
  ultimately show ?case using 2 pair_of_Pair [of self k v] by (auto simp: visit_simps)
qed simp

text \<open>A bounded batch: the longest run of candidates within both limits.\<close>

definition pair_bytes :: "pair list \<Rightarrow> nat" where
  "pair_bytes xs = sum_list (map (\<lambda>(k, v). length k + length v) xs)"

lemma pair_bytes_simps [simp]: "pair_bytes [] = 0" "pair_bytes ((k, v) # xs) = length k + length v + pair_bytes xs"
  by (simp_all add: pair_bytes_def)

definition sized :: "tree \<Rightarrow> leaf_record list \<Rightarrow> bool" where
  "sized self rs \<longleftrightarrow> (\<forall>r \<in> set rs. stored_value_len (snd r) = length (snd (pair_of self r)))"

lemma sized_Cons [simp]:
  "sized self ((k, v) # rs) \<longleftrightarrow> stored_value_len v = length (snd (pair_of self (k, v))) \<and> sized self rs"
  by (simp add: sized_def)

lemma values_at_sized: "values_at (tr_pager self) (tr_realm self) rs \<Longrightarrow> sized self rs"
  unfolding sized_def
proof
  fix r assume "values_at (tr_pager self) (tr_realm self) rs" "r \<in> set rs"
  then obtain data where d: "value_at (tr_pager self) (tr_realm self) (snd r) data" by (force simp: values_at_def)
  then have "stored_value_len (snd r) = length data" by (cases "snd r") (auto simp: value_at_def)
  then show "stored_value_len (snd r) = length (snd (pair_of self r))"
    using value_at_resolve [OF d] by (simp add: pair_of_def)
qed

definition longest_within :: "nat \<Rightarrow> nat \<Rightarrow> nat \<Rightarrow> nat \<Rightarrow> pair list \<Rightarrow> pair list \<Rightarrow> scan_limit option \<Rightarrow> bool" where
  "longest_within taken used max_records max_bytes cand xs lim \<longleftrightarrow>
     (\<exists>rest. cand = xs @ rest \<and> taken + length xs \<le> max_records \<and> used + pair_bytes xs \<le> max_bytes \<and>
        (case lim of
           None \<Rightarrow> rest = []
         | Some LimitRecords \<Rightarrow> rest \<noteq> [] \<and> taken + length xs = max_records
         | Some LimitBytes \<Rightarrow> rest \<noteq> [] \<and> max_bytes < used + pair_bytes (xs @ [hd rest])))"

lemma longest_within_Cons:
  "longest_within (Suc taken) (used + (length k + length v)) max_records max_bytes cand xs lim \<Longrightarrow>
     longest_within taken used max_records max_bytes ((k, v) # cand) ((k, v) # xs) lim"
  unfolding longest_within_def by (force split: option.splits scan_limit.splits)

lemma visit_bounded_spec:
  assumes "readable self rs" and "sized self rs" and "sorted_keys rs" and "pre \<le> start"
    and "length es \<le> max_records" and "used \<le> max_bytes" and "max_bytes < 2 ^ 64"
  shows "\<exists>xs lim u. rmap snd (visit_bounded self pre start max_records max_bytes rs
        (\<lparr>batch_entries = es, batch_limit = None\<rparr>, used)) =
      Ok (\<lparr>batch_entries = es @ xs, batch_limit = lim\<rparr>, u) \<and>
    longest_within (length es) used max_records max_bytes
      (map (pair_of self) (filter (\<lambda>r. start \<le> fst r \<and> prefix pre (fst r)) rs)) xs lim"
    (is "\<exists>xs lim u. ?run rs es used = Ok (?b es xs lim, u) \<and> ?good rs es used xs lim")
  using assms
proof (induction rs arbitrary: es used)
  case (Cons r rs)
  obtain k v where r: "r = (k, v)" by (cases r)
  obtain d where d: "pair_of self (k, v) = (k, d)" using pair_of_Pair by blast
  have v: "resolve_leaf_value self v = Ok d" "stored_value_len v = length d" using Cons.prems(1,2) d r by auto
  note IH = Cons.IH [OF _ _ _ Cons.prems(4)]
  consider (skip) "k < start" | (past) "start \<le> k" "\<not> prefix pre k"
    | (full) "start \<le> k" "prefix pre k" "length es = max_records"
    | (bytes) "start \<le> k" "prefix pre k" "length es < max_records" "max_bytes < used + (length k + length d)"
    | (more) "start \<le> k" "prefix pre k" "length es < max_records" "used + (length k + length d) \<le> max_bytes"
    using Cons.prems(5) by fastforce
  then show ?case
  proof cases
    case skip
    then show ?thesis using IH [of es used] Cons.prems r by auto
  next
    case past
    have "filter (\<lambda>r. start \<le> fst r \<and> prefix pre (fst r)) rs = []"
      using Cons.prems(3,4) past prefix_gap [of pre k] r by (fastforce simp: filter_empty_conv)
    then show ?thesis using past r Cons.prems by (auto simp: longest_within_def)
  next
    case full
    then show ?thesis using r Cons.prems by (auto simp: longest_within_def)
  next
    case bytes
    then have "?run (r # rs) es used = Ok (?b es [] (Some LimitBytes), used)"
      using r v by (auto simp: checked_add_def split: option.splits)
    moreover have "?good (r # rs) es used [] (Some LimitBytes)"
      using bytes r d Cons.prems by (simp add: longest_within_def)
    ultimately show ?thesis by blast
  next
    case more
    have "?run (r # rs) es used = ?run rs (es @ [(k, d)]) (used + (length k + length d))"
      using more r v Cons.prems(7) by (auto simp: checked_add_def)
    then show ?thesis
      using IH [of "es @ [(k, d)]" "used + (length k + length d)"] more r d Cons.prems
      by (auto intro!: longest_within_Cons)
  qed
qed (auto simp: longest_within_def)

end
