(* ===== verification/Tree_Listing.thy ===== *)
theory Tree_Listing
  imports Tree_Visits
begin

text \<open>
  Scans against the map a session represents: every scan returns the stated part of the listing of
  the map in key order, whatever the shape of the tree and wherever the records are stored.
\<close>

section \<open>Scans of a session\<close>

lemma concat_records: "concat (map records (map snd ls)) = lrecs ls"
  by (induction ls) auto

lemma concat_rev_records: "concat (map (\<lambda>l. rev (records l)) (map snd (rev ls))) = rev (lrecs ls)"
  by (induction ls) (auto simp: case_prod_beta)

lemma scan_guard_inv [simp]: "seen_inv scan_guard" "seen_set scan_guard = {}"
  by (simp_all add: scan_guard_def)

lemma ctx_lrecs: "ctx_left ctx = lrecs (ctx_ll ctx)" "ctx_right ctx = lrecs (ctx_lr ctx)"
proof -
  have "recss ts = lrecs (aleavess ts)" for ts
  proof (induction ts)
    case (Cons e ts)
    then show ?case by (cases e) (simp add: recs_aleaves)
  qed simp
  then have "fleft f = lrecs (fll f) \<and> fright f = lrecs (flr f)" for f
    by (cases f) (simp_all add: recs_aleaves)
  then show "ctx_left ctx = lrecs (ctx_ll ctx)" "ctx_right ctx = lrecs (ctx_lr ctx)" by (induction ctx) auto
qed

lemma forward_from:
  assumes "tree_inv self a []" and "record_visit visit"
  shows "\<exists>left rs. recs a = left @ rs \<and> (\<forall>r \<in> set left. fst r < k) \<and>
    (\<forall>st. rbind (path_to_leaf_for_key self k) (\<lambda>path.
       scan_loop next_leaf_after (\<lambda>l. visit (records l)) self path scan_guard st) = rmap snd (visit rs st))"
proof -
  have st: "stored self a" "ordered [] None a" "root_page_id self = page_of a"
    using tree_inv_stored [OF assms(1)] assms(1) by (auto simp: tree_inv_def)
  obtain ctx p l where a: "a = plugs ctx (ALeaf p l)" "inside (ctx_lo ctx) (ctx_hi ctx) k"
      "path_to_leaf_for_key self k = Ok (rev (ctx_pages ctx) @ [p])"
    using path_to_leaf_for_key_spec [OF st] by metis
  have "ctx_ordered ctx" using st(2) a(1) by (simp add: ordered_plugs)
  then have "\<forall>r \<in> set (ctx_left ctx). fst r < k"
    using ctx_left_below a(2) by (fastforce simp: inside_def)
  moreover have "recs a = ctx_left ctx @ lrecs ((p, l) # ctx_lr ctx)"
    using recs_plugs [of ctx "ALeaf p l"] a(1) ctx_lrecs(2) [of ctx] by simp
  moreover have "scan_loop next_leaf_after (\<lambda>l. visit (records l)) self (rev (ctx_pages ctx) @ [p]) scan_guard s =
      rmap snd (visit (lrecs ((p, l) # ctx_lr ctx)) s)" for s
    using forward.scan_leaves [of self ctx p l scan_guard "\<lambda>l. visit (records l)" s] st(1) a(1)
      record_visit.run_records [OF assms(2), of records "map snd ((p, l) # ctx_lr ctx)" s] concat_records by simp
  ultimately show ?thesis using a(3) by fastforce
qed

abbreviation before_key :: "key option \<Rightarrow> key \<Rightarrow> bool" where
  "before_key bef k \<equiv> (case bef of None \<Rightarrow> True | Some b \<Rightarrow> k < b)"

lemma backward_from:
  assumes "tree_inv self a []" and "record_visit visit"
  shows "\<exists>left right. recs a = left @ right \<and> (\<forall>r \<in> set right. \<not> before_key bef (fst r)) \<and>
    (\<forall>st. rbind (case bef of Some b \<Rightarrow> path_to_leaf_for_key self b | None \<Rightarrow> path_to_rightmost_leaf self) (\<lambda>path.
       scan_loop prev_leaf_before (\<lambda>l. visit (rev (records l))) self path scan_guard st) = rmap snd (visit (rev left) st))"
proof -
  have st: "stored self a" "ordered [] None a" "root_page_id self = page_of a"
    using tree_inv_stored [OF assms(1)] assms(1) by (auto simp: tree_inv_def)
  have "\<exists>ctx p l. a = plugs ctx (ALeaf p l) \<and> (\<forall>r \<in> set (ctx_right ctx). \<not> before_key bef (fst r)) \<and>
    (case bef of Some b \<Rightarrow> path_to_leaf_for_key self b | None \<Rightarrow> path_to_rightmost_leaf self) =
      Ok (rev (ctx_pages ctx) @ [p])"
  proof (cases bef)
    case None
    obtain ctx p l where c: "a = plugs ctx (ALeaf p l)" "\<forall>f \<in> set ctx. flr f = []"
        "path_to_rightmost_leaf self = Ok (rev (ctx_pages ctx) @ [p])"
      using descend_edge [OF rightmost_choice, of self a "seen_new ''btree_descent''" "[]"] st
      by (auto simp: path_to_rightmost_leaf_def stored_def)
    then show ?thesis using None ctx_lrecs(2) [of ctx] ctx_lr_none [of ctx] by auto
  next
    case (Some b)
    obtain ctx p l where c: "a = plugs ctx (ALeaf p l)" "inside (ctx_lo ctx) (ctx_hi ctx) b"
        "path_to_leaf_for_key self b = Ok (rev (ctx_pages ctx) @ [p])"
      using path_to_leaf_for_key_spec [OF st] by metis
    have "ctx_ordered ctx" using st(2) c(1) by (simp add: ordered_plugs)
    then have "\<forall>r \<in> set (ctx_right ctx). \<not> fst r < b"
      using ctx_right_above c(2) below_trans by (fastforce simp: inside_def)
    then show ?thesis using Some c by auto
  qed
  then obtain ctx p l where c: "a = plugs ctx (ALeaf p l)" "\<forall>r \<in> set (ctx_right ctx). \<not> before_key bef (fst r)"
      "(case bef of Some b \<Rightarrow> path_to_leaf_for_key self b | None \<Rightarrow> path_to_rightmost_leaf self) =
        Ok (rev (ctx_pages ctx) @ [p])" by blast
  have "scan_loop prev_leaf_before (\<lambda>l. visit (rev (records l))) self (rev (ctx_pages ctx) @ [p]) scan_guard s =
      rmap snd (visit (rev (ctx_left ctx @ records l)) s)" for s
    using backward.scan_leaves [of self ctx p l scan_guard "\<lambda>l. visit (rev (records l))" s] st(1) c(1)
      record_visit.run_records [OF assms(2), of "\<lambda>l. rev (records l)" "map snd ((p, l) # rev (ctx_ll ctx))" s]
      concat_rev_records [of "ctx_ll ctx"] ctx_lrecs(1) [of ctx] by simp
  then show ?thesis
    using c recs_plugs [of ctx "ALeaf p l"]
    by (intro exI [of _ "ctx_left ctx @ records l"] exI [of _ "ctx_right ctx"]) simp
qed

lemma filter_left: "\<forall>r \<in> set left. \<not> P r \<Longrightarrow> filter P (left @ rs) = filter P rs"
  by simp

text \<open>The pairs a session holds, in key order.\<close>

definition listing :: "tree \<Rightarrow> atree \<Rightarrow> pair list" where
  "listing self a = map (pair_of self) (recs a)"

lemma filter_listing: "filter (\<lambda>(k, v). P k) (listing self a) = map (pair_of self) (filter (\<lambda>r. P (fst r)) (recs a))"
  by (simp add: listing_def filter_map comp_def case_prod_beta)

lemma tree_inv_recs:
  assumes "tree_inv self a []"
  shows "readable self (recs a)" and "sized self (recs a)" and "sorted_keys (recs a)"
  using assms values_at_readable values_at_sized ordered_recs [of "[]" None a] by (auto simp: tree_inv_def)

lemma listing_map:
  assumes "tree_inv self a []"
  shows "sorted_keys (listing self a)" and "map_of (listing self a) = contents self (recs a)"
proof -
  show "sorted_keys (listing self a)" using tree_inv_recs(3) [OF assms] by (simp add: listing_def comp_def)
  have "map_of (map (pair_of self) rs) k = contents self rs k" if "readable self rs" for rs k
    using that by (induction rs) (auto simp: contents_def pair_of_def readable_def split: result.splits)
  then show "map_of (listing self a) = contents self (recs a)"
    using tree_inv_recs(1) [OF assms] by (auto simp: listing_def)
qed

lemma collect_range_listing:
  assumes "tree_inv self a []" and "root_page_id self \<noteq> 0"
  shows "collect_range self start stop = Ok (filter (\<lambda>(k, v). start \<le> k \<and> k < stop) (listing self a))"
proof -
  obtain left rs where s: "recs a = left @ rs" "\<forall>r \<in> set left. fst r < start"
      "\<forall>st. rbind (path_to_leaf_for_key self start) (\<lambda>path. scan_loop next_leaf_after
         (\<lambda>l. visit_range self start stop (records l)) self path scan_guard st) = rmap snd (visit_range self start stop rs st)"
    using forward_from [OF assms(1) range_visit.record_visit_axioms [of self start stop], of start] by (elim exE conjE) (rule that)
  have "collect_range self start stop = Ok (map (pair_of self) (filter (\<lambda>r. start \<le> fst r \<and> fst r < stop) rs))"
    using assms(2) s(3) visit_range_spec [of self rs start stop "[]"] tree_inv_recs [OF assms(1)] s(1)
    by (simp add: collect_range_def sorted_wrt_append)
  moreover have "filter (\<lambda>r. start \<le> fst r \<and> fst r < stop) (recs a) = filter (\<lambda>r. start \<le> fst r \<and> fst r < stop) rs"
    unfolding s(1) by (rule filter_left) (use s(2) in auto)
  ultimately show ?thesis by (simp add: filter_listing [of "\<lambda>k. start \<le> k \<and> k < stop"])
qed

lemma collect_all_listing:
  assumes "tree_inv self a []" and "root_page_id self \<noteq> 0"
  shows "collect_all self = Ok (listing self a)"
proof -
  obtain left rs where s: "recs a = left @ rs" "\<forall>r \<in> set left. fst r < []"
      "\<forall>st. rbind (path_to_leaf_for_key self []) (\<lambda>path. scan_loop next_leaf_after
         (\<lambda>l. visit_all self (records l)) self path scan_guard st) = rmap snd (visit_all self rs st)"
    using forward_from [OF assms(1) all_visit.record_visit_axioms [of self], of "[]"] by (elim exE conjE) (rule that)
  have "left = []" using s(2) by (cases left) auto
  then show ?thesis
    using assms(2) s visit_all_spec [of self rs "[]"] tree_inv_recs(1) [OF assms(1)]
    by (simp add: collect_all_def listing_def)
qed

lemma collect_batch_listing:
  assumes "tree_inv self a []" and "root_page_id self \<noteq> 0"
  shows "collect_batch_from self start n = Ok (take n (filter (\<lambda>(k, v). start \<le> k) (listing self a)))"
proof -
  obtain left rs where s: "recs a = left @ rs" "\<forall>r \<in> set left. fst r < start"
      "\<forall>st. rbind (path_to_leaf_for_key self start) (\<lambda>path. scan_loop next_leaf_after
         (\<lambda>l. visit_batch self start n (records l)) self path scan_guard st) = rmap snd (visit_batch self start n rs st)"
    using forward_from [OF assms(1) batch_visit.record_visit_axioms [of self start n], of start] by (elim exE conjE) (rule that)
  have "collect_batch_from self start n = Ok (take n (map (pair_of self) (filter (\<lambda>r. start \<le> fst r) rs)))"
    using assms(2) s(3) visit_batch_spec [of self rs "[]" n start] tree_inv_recs(1) [OF assms(1)] s(1)
    by (simp add: collect_batch_from_def)
  moreover have "filter (\<lambda>r. start \<le> fst r) (recs a) = filter (\<lambda>r. start \<le> fst r) rs"
    unfolding s(1) by (rule filter_left) (use s(2) in auto)
  ultimately show ?thesis by (simp add: filter_listing [of "\<lambda>k. start \<le> k"])
qed

lemma scan_prefix_listing:
  assumes "tree_inv self a []" and "root_page_id self \<noteq> 0"
  shows "scan_prefix self pre = Ok (filter (\<lambda>(k, v). prefix pre k) (listing self a))"
proof -
  obtain left rs where s: "recs a = left @ rs" "\<forall>r \<in> set left. fst r < pre"
      "\<forall>st. rbind (path_to_leaf_for_key self pre) (\<lambda>path. scan_loop next_leaf_after
         (\<lambda>l. visit_prefix self pre (records l)) self path scan_guard st) = rmap snd (visit_prefix self pre rs st)"
    using forward_from [OF assms(1) prefix_visit.record_visit_axioms [of self pre], of pre] by (elim exE conjE) (rule that)
  have "scan_prefix self pre = Ok (map (pair_of self) (filter (\<lambda>r. prefix pre (fst r)) rs))"
    using assms(2) s(3) visit_prefix_spec [of self rs pre "[]"] tree_inv_recs [OF assms(1)] s(1)
    by (simp add: scan_prefix_def sorted_wrt_append)
  moreover have "filter (\<lambda>r. prefix pre (fst r)) (recs a) = filter (\<lambda>r. prefix pre (fst r)) rs"
    unfolding s(1) by (rule filter_left) (use s(2) prefix_le in fastforce)
  ultimately show ?thesis by (simp add: filter_listing [of "prefix pre"])
qed

lemma collect_rev_listing:
  assumes "tree_inv self a []" and "root_page_id self \<noteq> 0"
  shows "collect_rev_batch_before self bef n =
    Ok (take n (rev (filter (\<lambda>(k, v). before_key bef k) (listing self a))))"
proof (cases "n = 0")
  case False
  obtain left right where s: "recs a = left @ right" "\<forall>r \<in> set right. \<not> before_key bef (fst r)"
      "\<forall>st. rbind (case bef of Some b \<Rightarrow> path_to_leaf_for_key self b | None \<Rightarrow> path_to_rightmost_leaf self) (\<lambda>path.
         scan_loop prev_leaf_before (\<lambda>l. visit_rev self bef n (rev (records l))) self path scan_guard st) =
         rmap snd (visit_rev self bef n (rev left) st)"
    using backward_from [OF assms(1) rev_visit.record_visit_axioms [of self bef n], of bef] by (elim exE conjE) (rule that)
  have "collect_rev_batch_before self bef n =
      Ok (take n (map (pair_of self) (filter (\<lambda>r. before_key bef (fst r)) (rev left))))"
    using False assms(2) s(3) visit_rev_spec [of self "rev left" "[]" n bef] tree_inv_recs(1) [OF assms(1)] s(1)
    by (simp add: collect_rev_batch_before_def)
  moreover have "filter (\<lambda>r. before_key bef (fst r)) (recs a) = filter (\<lambda>r. before_key bef (fst r)) left"
    using s(1,2) by simp
  ultimately show ?thesis by (simp add: filter_listing [of "before_key bef"] rev_map rev_filter)
qed (use assms(2) in \<open>simp add: collect_rev_batch_before_def\<close>)

lemma takeWhile_sorted:
  assumes "sorted_keys xs" and "\<forall>r \<in> set xs. pre \<le> fst r"
  shows "takeWhile (\<lambda>(k, v). prefix pre k) xs = filter (\<lambda>(k, v). prefix pre (k :: key)) xs"
  using assms
proof (induction xs)
  case (Cons r xs)
  have "filter (\<lambda>(k, v). prefix pre k) xs = []" if "\<not> prefix pre (fst r)"
    using Cons.prems that prefix_gap [of pre "fst r"] by (fastforce simp: filter_empty_conv)
  then show ?case using Cons by (cases r) auto
qed simp

lemma takeWhile_take: "takeWhile P (take n xs) = take n (takeWhile P xs)"
proof (induction xs arbitrary: n)
  case (Cons x xs)
  then show ?case by (cases n) auto
qed simp

lemma collect_prefix_listing:
  assumes "tree_inv self a []" and "root_page_id self \<noteq> 0" and "pre \<le> start"
  shows "collect_prefix_batch_from self pre start n =
    Ok (take n (filter (\<lambda>(k, v). start \<le> k \<and> prefix pre k) (listing self a)))"
proof -
  let ?L = "filter (\<lambda>(k, v). start \<le> k) (listing self a)"
  have "sorted_keys ?L"
    using listing_map(1) [OF assms(1)] sorted_wrt_filter [of "\<lambda>x y. fst x < fst y" "listing self a"]
    by (simp add: sorted_wrt_map)
  then have "takeWhile (\<lambda>(k, v). prefix pre k) ?L = filter (\<lambda>(k, v). prefix pre k) ?L"
    using assms(3) by (intro takeWhile_sorted) auto
  moreover have "filter (\<lambda>(k, v). prefix pre k) ?L = filter (\<lambda>(k, v). start \<le> k \<and> prefix pre k) (listing self a)"
    unfolding filter_filter by (rule filter_cong) auto
  ultimately show ?thesis
    by (simp add: collect_prefix_batch_from_def collect_batch_listing [OF assms(1,2)] takeWhile_take)
qed

lemma collect_bounded_listing:
  assumes "tree_inv self a []" and "root_page_id self \<noteq> 0" and "max_bytes < 2 ^ 64"
  shows "\<exists>xs lim. collect_prefix_batch_bounded self pre start max_records max_bytes =
      Ok \<lparr>batch_entries = xs, batch_limit = lim\<rparr> \<and>
    longest_within 0 0 max_records max_bytes (filter (\<lambda>(k, v). start \<le> k \<and> prefix pre k) (listing self a)) xs lim"
proof -
  let ?s = "max start pre"
  obtain left rs where s: "recs a = left @ rs" "\<forall>r \<in> set left. fst r < ?s"
      "\<forall>st. rbind (path_to_leaf_for_key self ?s) (\<lambda>path. scan_loop next_leaf_after
         (\<lambda>l. visit_bounded self pre ?s max_records max_bytes (records l)) self path scan_guard st) =
         rmap snd (visit_bounded self pre ?s max_records max_bytes rs st)"
    using forward_from [OF assms(1) bounded_visit.record_visit_axioms [of self pre ?s max_records max_bytes], of ?s]
    by (elim exE conjE) (rule that)
  have rs: "readable self rs" "sized self rs" "sorted_keys rs"
    using tree_inv_recs [OF assms(1)] s(1) by (auto simp: sorted_wrt_append sized_def)
  have pre: "pre \<le> ?s" "length ([] :: pair list) \<le> max_records" "0 \<le> max_bytes" by simp_all
  obtain xs lim u where v: "rmap snd (visit_bounded self pre ?s max_records max_bytes rs
        (\<lparr>batch_entries = [], batch_limit = None\<rparr>, 0)) = Ok (\<lparr>batch_entries = [] @ xs, batch_limit = lim\<rparr>, u)"
      "longest_within (length ([] :: pair list)) 0 max_records max_bytes
        (map (pair_of self) (filter (\<lambda>r. ?s \<le> fst r \<and> prefix pre (fst r)) rs)) xs lim"
    using visit_bounded_spec [OF rs pre assms(3)] by (elim exE conjE) (rule that)
  have iff: "?s \<le> fst r \<and> prefix pre (fst r) \<longleftrightarrow> start \<le> fst r \<and> prefix pre (fst r)" for r :: leaf_record
    using prefix_le [of pre "fst r"] by (auto simp: max_def)
  have "filter (\<lambda>r. start \<le> fst r \<and> prefix pre (fst r)) (recs a) =
      filter (\<lambda>r. start \<le> fst r \<and> prefix pre (fst r)) rs"
    unfolding s(1) iff [symmetric] by (rule filter_left) (use s(2) in \<open>auto simp: not_le [symmetric]\<close>)
  then have "longest_within 0 0 max_records max_bytes
      (filter (\<lambda>(k, v). start \<le> k \<and> prefix pre k) (listing self a)) xs lim"
    using v(2) unfolding iff filter_listing [of "\<lambda>k. start \<le> k \<and> prefix pre k"] by simp
  moreover have "collect_prefix_batch_bounded self pre start max_records max_bytes =
      rmap fst (rbind (path_to_leaf_for_key self ?s) (\<lambda>path. scan_loop next_leaf_after
         (\<lambda>l. visit_bounded self pre ?s max_records max_bytes (records l)) self path scan_guard
         (\<lparr>batch_entries = [], batch_limit = None\<rparr>, 0)))"
    unfolding collect_prefix_batch_bounded_def Let_def if_not_P [OF assms(2)] rmap_rbind ..
  moreover have "\<dots> = Ok \<lparr>batch_entries = xs, batch_limit = lim\<rparr>"
    unfolding s(3) [rule_format] v(1) by simp
  ultimately show ?thesis by auto
qed

section \<open>Resuming\<close>

text \<open>No key lies between a key and the same key with a zero byte appended.\<close>

lemma successor_key: "k @ [0] \<le> k' \<longleftrightarrow> k < (k' :: key)"
proof (induction k arbitrary: k')
  case Nil
  show ?case by (cases k') (auto simp: word_gt_0)
next
  case (Cons x k)
  then show ?case by (cases k') auto
qed

lemma filter_after_last:
  assumes "sorted_keys xs" and "take n xs \<noteq> []"
  shows "filter (\<lambda>(k, v). fst (last (take n xs)) < (k :: key)) xs = drop n xs"
proof -
  let ?l = "fst (last (take n xs))"
  have sd: "fst x < fst y" if "x \<in> set (take n xs)" "y \<in> set (drop n xs)" for x y
  proof -
    have "sorted_keys (take n xs @ drop n xs)" using assms(1) by simp
    then show ?thesis using that unfolding map_append sorted_wrt_append by auto
  qed
  have "fst r \<le> ?l" if r: "r \<in> set (take n xs)" for r
  proof -
    have "sorted_keys (take n xs)" using assms(1) by (simp add: take_map [symmetric] sorted_wrt_take)
    moreover obtain ys y where "take n xs = ys @ [y]" using assms(2) by (cases "take n xs" rule: rev_cases) auto
    ultimately show ?thesis using r by (auto simp: sorted_wrt_append)
  qed
  then have "filter (\<lambda>(k, v). ?l < k) (take n xs) = []" unfolding filter_empty_conv by fastforce
  moreover have "filter (\<lambda>(k, v). ?l < k) (drop n xs) = drop n xs"
    using sd [OF last_in_set [OF assms(2)]] by (intro filter_True) auto
  moreover have "filter (\<lambda>(k, v). ?l < k) xs = filter (\<lambda>(k, v). ?l < k) (take n xs) @ filter (\<lambda>(k, v). ?l < k) (drop n xs)"
    unfolding filter_append [symmetric] append_take_drop_id ..
  ultimately show ?thesis by simp
qed

lemma batch_resumes:
  fixes all :: "pair list"
  assumes "sorted_keys all" and L: "L = filter (\<lambda>(k, v). start \<le> k) all" and ne: "take n L \<noteq> []"
  shows "filter (\<lambda>(k, v). fst (last (take n L)) @ [0] \<le> k) all = drop n L"
proof -
  let ?l = "fst (last (take n L))"
  have "last (take n L) \<in> set L" using last_in_set [OF ne] by (rule in_set_takeD)
  then have ge: "start \<le> ?l" by (auto simp: L)
  have "sorted_keys L" using assms(1) by (simp add: L sorted_wrt_map sorted_wrt_filter)
  then have "drop n L = filter (\<lambda>(k, v). ?l < k) L" by (rule filter_after_last [symmetric, OF _ ne])
  also have "\<dots> = filter (\<lambda>(k, v). ?l @ [0] \<le> k) all"
    unfolding successor_key using ge by (auto simp: L case_prod_beta intro!: filter_cong)
  finally show ?thesis by simp
qed

lemma rev_batch_resumes:
  fixes all :: "pair list"
  assumes "sorted_keys all" and L: "L = filter (\<lambda>(k, v). before_key bef k) all" and ne: "take n (rev L) \<noteq> []"
  shows "rev (filter (\<lambda>(k, v). k < fst (last (take n (rev L)))) all) = drop n (rev L)"
proof -
  define m where "m = length L - n"
  let ?l = "fst (last (take n (rev L)))"
  have tk: "take n (rev L) = rev (drop m L)" "drop n (rev L) = rev (take m L)"
    by (simp_all add: take_rev drop_rev m_def)
  have m: "m < length L" using ne by (cases L) (auto simp: m_def)
  have l: "?l = fst (L ! m)" unfolding tk using m by (simp add: last_rev hd_drop_conv_nth)
  have "sorted_keys L" using assms(1) by (simp add: L sorted_wrt_map sorted_wrt_filter)
  then have lt: "fst (L ! i) < fst (L ! j)" if "i < j" "j < length L" for i j
    using sorted_wrt_nth_less [of "(<)" "map fst L" i j] that by simp
  have "fst r < ?l" if "r \<in> set (take m L)" for r
    unfolding l using lt [OF _ m] that by (auto simp: in_set_conv_nth)
  then have "filter (\<lambda>(k, v). k < ?l) (take m L) = take m L" by (intro filter_True) auto
  moreover have "\<not> fst r < ?l" if r: "r \<in> set (drop m L)" for r
  proof -
    obtain j where "j < length (drop m L)" "r = drop m L ! j" using r by (metis in_set_conv_nth)
    then have j: "m + j < length L" "r = L ! (m + j)" by simp_all
    then show ?thesis unfolding l using lt [of m "m + j"] by (cases "j = 0") auto
  qed
  then have "filter (\<lambda>(k, v). k < ?l) (drop m L) = []" by (auto simp: filter_empty_conv)
  ultimately have "filter (\<lambda>(k, v). k < ?l) L = take m L"
    by (metis append_Nil2 append_take_drop_id filter_append)
  moreover have "filter (\<lambda>(k, v). k < ?l) L = filter (\<lambda>(k, v). k < ?l) all"
  proof -
    have "before_key bef (fst r)" if "r \<in> set L" for r using that by (auto simp: L split: option.splits)
    from this [OF nth_mem [OF m]] have "before_key bef ?l" unfolding l .
    then show ?thesis by (auto simp: L case_prod_beta intro!: filter_cong split: option.splits)
  qed
  ultimately show ?thesis using tk(2) by simp
qed

section \<open>Properties of the scans\<close>

text \<open>
  C16. Scans list the map. A session that represents a map \<open>m\<close> has one listing of \<open>m\<close> in strictly
  ascending key order, and every scan returns its part of that listing: all of it, a half-open
  range, the same range backwards, the keys with a prefix, at most \<open>n\<close> pairs from a key on (with or
  without a prefix), and at most \<open>n\<close> pairs below a key in descending order. No pair is left out,
  repeated or out of order, however the records are spread over leaves, empty leaves included.
\<close>
theorem scans_list_map:
  assumes "represents self m"
  shows "\<exists>all. sorted_keys all \<and> map_of all = m \<and> collect_all self = Ok all \<and>
    collect_range self start stop = Ok (filter (\<lambda>(k, v). start \<le> k \<and> k < stop) all) \<and>
    scan_rev self start stop = Ok (rev (filter (\<lambda>(k, v). start \<le> k \<and> k < stop) all)) \<and>
    scan_prefix self pre = Ok (filter (\<lambda>(k, v). prefix pre k) all) \<and>
    collect_batch_from self start n = Ok (take n (filter (\<lambda>(k, v). start \<le> k) all)) \<and>
    (pre \<le> start \<longrightarrow> collect_prefix_batch_from self pre start n =
       Ok (take n (filter (\<lambda>(k, v). start \<le> k \<and> prefix pre k) all))) \<and>
    collect_rev_batch_before self bef n = Ok (take n (rev (filter (\<lambda>(k, v). before_key bef k) all)))"
  using assms
proof (cases rule: represents_root)
  case empty
  then show ?thesis
    by (intro exI [of _ "[]"]) (simp add: collect_all_def collect_range_def scan_rev_def scan_prefix_def
        collect_batch_from_def collect_prefix_batch_from_def collect_rev_batch_before_def)
next
  case (tree a)
  then show ?thesis
    using listing_map [OF tree(2)] collect_range_listing [OF tree(2,1)] collect_prefix_listing [OF tree(2,1), of pre start n]
    by (intro exI [of _ "listing self a"])
      (simp add: collect_all_listing scan_rev_def scan_prefix_listing collect_batch_listing collect_rev_listing)
qed

text \<open>
  C24. Paging is complete. Resuming a forward scan at the last key returned with a zero byte appended,
  or a reverse scan below the last key returned, continues exactly where the batch ended: batch and
  continuation together are the batch of the joint size. A bounded prefix scan returns the longest
  run of matching pairs within both its limits, and reports a limit exactly when it stopped short
  because of it.
\<close>
theorem paged_scans_complete:
  assumes "represents self m" and "xs \<noteq> []"
  shows "(collect_batch_from self start n = Ok xs \<longrightarrow> collect_batch_from self start (n + j) =
      rmap (\<lambda>ys. xs @ ys) (collect_batch_from self (fst (last xs) @ [0]) j)) \<and>
    (collect_rev_batch_before self bef n = Ok xs \<longrightarrow> collect_rev_batch_before self bef (n + j) =
      rmap (\<lambda>ys. xs @ ys) (collect_rev_batch_before self (Some (fst (last xs))) j)) \<and>
    (max_bytes < 2 ^ 64 \<longrightarrow> (\<exists>all ys lim. collect_all self = Ok all \<and>
       collect_prefix_batch_bounded self pre start max_records max_bytes = Ok \<lparr>batch_entries = ys, batch_limit = lim\<rparr> \<and>
       longest_within 0 0 max_records max_bytes (filter (\<lambda>(k, v). start \<le> k \<and> prefix pre k) all) ys lim))"
  using assms(1)
proof (cases rule: represents_root)
  case empty
  then show ?thesis
    using assms(2) by (simp add: collect_batch_from_def collect_rev_batch_before_def collect_all_def
        collect_prefix_batch_bounded_def longest_within_def)
next
  case (tree a)
  let ?F = "filter (\<lambda>(k, v). start \<le> k) (listing self a)" and ?B = "filter (\<lambda>(k, v). before_key bef k) (listing self a)"
  note s = listing_map(1) [OF tree(2)]
  note scans = collect_batch_listing [OF tree(2,1)] collect_rev_listing [OF tree(2,1)] collect_all_listing [OF tree(2,1)]
  have "take (n + j) ?F = xs @ take j (filter (\<lambda>(k, v). fst (last xs) @ [0] \<le> k) (listing self a))" if "xs = take n ?F"
    using batch_resumes [OF s refl, of n start] assms(2) that by (simp add: take_add)
  moreover have "take (n + j) (rev ?B) = xs @ take j (rev (filter (\<lambda>(k, v). k < fst (last xs)) (listing self a)))"
    if "xs = take n (rev ?B)"
    using rev_batch_resumes [OF s refl, of n bef] assms(2) that by (simp add: take_add)
  ultimately show ?thesis
    using collect_bounded_listing [OF tree(2,1), of max_bytes pre start max_records] by (auto simp: scans)
qed

section \<open>An emptied first leaf\<close>

text \<open>A session with a root on page 4 and two cached leaves; the first holds the records \<open>rs\<close>.\<close>

definition demo_right :: leaf where
  "demo_right = \<lparr> left_sibling = 0, right_sibling = 0, records = [([2], Inline [7])] \<rparr>"

definition demo_pair_tree :: "bytes \<Rightarrow> leaf_record list \<Rightarrow> tree" where
  "demo_pair_tree b rs = demo_tree\<lparr>
     tr_pager := demo_store\<lparr>pool := [4 \<mapsto> \<lparr> pg_body = b, kind_byte = as_byte BTreeInternal, realm_id_bytes = Some [] \<rparr>]\<rparr>,
     root_page_id := 4, next_page_id := 7,
     fresh_leaves := [(5, \<lparr> left_sibling = 0, right_sibling = 0, records = rs \<rparr>), (6, demo_right)]\<rparr>"

definition demo_pair :: "leaf_record list \<Rightarrow> atree" where
  "demo_pair rs = ANode 4 (ALeaf 5 \<lparr> left_sibling = 0, right_sibling = 0, records = rs \<rparr>) [([2], ALeaf 6 demo_right)]"

lemma demo_root:
  obtains b where "internal_layout b \<lparr> leftmost_child = 5, entries = [([2], 6)] \<rparr>" and "length b = 4056"
proof -
  have "internal_fits \<lparr> leftmost_child = 5, entries = [([2], 6)] \<rparr> 4096"
    by (simp add: internal_fits_def body_capacity_def ENVELOPE_OVERHEAD_def HEADER_LEN_def)
  then show ?thesis
    using encode_internal_layout [of _ 4096 "replicate 4056 0"] that
    by (force simp: body_capacity_def ENVELOPE_OVERHEAD_def)
qed

lemma demo_pair_inv:
  assumes "internal_layout b \<lparr> leftmost_child = 5, entries = [([2], 6)] \<rparr>" and "length b = 4056"
    and "rs = [] \<or> rs = [([1], Inline [5])]"
  shows "tree_inv (demo_pair_tree b rs) (demo_pair rs) []"
proof -
  have "node_at (demo_pair_tree b rs) 4 \<lparr> leftmost_child = 5, entries = [([2], 6)] \<rparr>"
    using assms(1,2) unfolding node_at_def page_bytes_def
    by (intro conjI exI [of _ b]) (simp_all add: demo_pair_tree_def demo_tree_def demo_store_def open_tree_def new_tree_def
        read_main_page_def read_main_node_def read_page_def check_resident_page_def resolve_cached_def
        page_kind_from_byte_def body_capacity_def ENVELOPE_OVERHEAD_def)
  then show ?thesis
    using assms(3)
    by (auto simp: tree_inv_def demo_pair_def node_of_def leaf_at_def demo_pair_tree_def demo_tree_def demo_store_def
        open_tree_def new_tree_def good_def alloc_inv_def in_use_def cache_of_def caches_ok_def leaf_pages_def
        inside_def demo_right_def vps_def vpages_def values_at_def value_at_def)
qed

lemma demo_pair_contents:
  "contents (demo_pair_tree b [([1], Inline [5])]) (recs (demo_pair [([1], Inline [5])])) = [[1] \<mapsto> [5], [2] \<mapsto> [7]]"
  "contents (demo_pair_tree b []) (recs (demo_pair [])) = [[2] \<mapsto> [7]]"
  by (auto simp: fun_eq_iff contents_def demo_pair_def demo_right_def resolve_leaf_value_def)

lemma demo_pair_represents:
  assumes "internal_layout b \<lparr> leftmost_child = 5, entries = [([2], 6)] \<rparr>" and "length b = 4056"
  shows "represents (demo_pair_tree b [([1], Inline [5])]) [[1] \<mapsto> [5], [2] \<mapsto> [7]]"
    and "represents (demo_pair_tree b []) [[2] \<mapsto> [7]]"
  using demo_pair_inv [OF assms, of "[([1], Inline [5])]"] demo_pair_inv [OF assms, of "[]"] demo_pair_contents [of b]
  unfolding represents_def by metis+

text \<open>The smallest key is looked for in the first leaf only.\<close>

lemma ctx_lo_Nil: "ctx_ordered ctx \<Longrightarrow> ctx_lo ctx = [] \<Longrightarrow> ctx_ll ctx = []"
proof (induction ctx)
  case (Cons f fs)
  then show ?case by (cases f) auto
qed simp

lemma first_key_first_leaf:
  assumes "tree_inv self a []" and "root_page_id self \<noteq> 0"
  shows "first_key self = Ok (case records (snd (hd (aleaves a))) of [] \<Rightarrow> None | (k, v) # _ \<Rightarrow> Some k)"
proof -
  have st: "stored self a" "ordered [] None a" "root_page_id self = page_of a"
    using tree_inv_stored [OF assms(1)] assms(1) by (auto simp: tree_inv_def)
  obtain ctx p l where c: "a = plugs ctx (ALeaf p l)" "inside (ctx_lo ctx) (ctx_hi ctx) []"
      "path_to_leaf_for_key self [] = Ok (rev (ctx_pages ctx) @ [p])"
    using path_to_leaf_for_key_spec [OF st] by metis
  have "ctx_ordered ctx" "ctx_lo ctx = []" "leaf_at self p l"
    using st(1,2) c(1,2) by (auto simp: ordered_plugs inside_def stored_def holds_plugs)
  then have "hd (aleaves a) = (p, l)" "read_leaf self p = Ok l"
    using ctx_lo_Nil by (auto simp: c(1) aleaves_plugs leaf_at_read)
  then show ?thesis using assms(2) c(3) by (simp add: first_key_def)
qed

lemma demo_pair_path:
  assumes "internal_layout b \<lparr> leftmost_child = 5, entries = [([2], 6)] \<rparr>" and "length b = 4056"
    and "rs = [] \<or> rs = [([1], Inline [5])]"
  shows "path_to_leaf_for_key (demo_pair_tree b rs) [1] = Ok [4, 5]"
proof -
  let ?s = "demo_pair_tree b rs" and ?n = "\<lparr> leftmost_child = 5, entries = [([2], 6)] \<rparr>"
  note t = demo_pair_inv [OF assms]
  have st: "stored ?s (demo_pair rs)" by (rule tree_inv_stored [OF t])
  obtain seen where s: "seen_insert (seen_new ''btree_descent'') 4 = Ok seen" "seen_inv seen" "seen_set seen = {4}"
    using seen_step [of "seen_new ''btree_descent''" "{}" 4] by auto
  obtain seen' where s': "seen_insert seen 5 = Ok seen'" using seen_step [OF s(2,3), of 5] by auto
  have "root_page_id ?s = 4" by (simp add: demo_pair_tree_def)
  moreover have "descend (child_for_key [1]) ?s 4 [] (seen_new ''btree_descent'') =
      descend (child_for_key [1]) ?s 5 ([] @ [4]) seen"
    by (rule descend_node [of _ _ ?n]) (use st s(1) in \<open>auto simp: stored_def demo_pair_def node_of_def child_for_key_node\<close>)
  moreover have "descend (child_for_key [1]) ?s 5 [4] seen = Ok ([4] @ [5])"
    by (rule descend_leaf [OF _ s']) (use st in \<open>auto simp: stored_def demo_pair_def\<close>)
  ultimately show ?thesis by (simp add: path_to_leaf_for_key_def)
qed

lemma demo_remove:
  "remove \<lparr> left_sibling = 0, right_sibling = 0, records = [([1], Inline [5])] \<rparr> [1] =
     (\<lparr> left_sibling = 0, right_sibling = 0, records = [] \<rparr>, Some (Inline [5]))"
  by (simp add: remove_def position_def key_search_def binary_search_by.simps cmp_def vec_remove_def)

text \<open>
  C40. A tree that is not empty can report that it has no smallest key. Deleting the only record of the
  first leaf leaves the leaf in place, empty; \<open>first_key\<close> then returns nothing, although the session
  still represents a map with a key, and \<open>get\<close> finds it.
\<close>
theorem first_key_misses_keys:
  "\<exists>self s. represents self [[1] \<mapsto> [5], [2] \<mapsto> [7]] \<and> first_key self = Ok (Some [1]) \<and>
     tree_delete self [1] = (Ok True, s) \<and> represents s [[2] \<mapsto> [7]] \<and> tree_get s [2] = Ok (Some [7]) \<and>
     first_key s = Ok None"
proof -
  obtain b where b: "internal_layout b \<lparr> leftmost_child = 5, entries = [([2], 6)] \<rparr>" "length b = 4056" by (rule demo_root)
  let ?self = "demo_pair_tree b [([1], Inline [5])]" and ?s = "demo_pair_tree b []"
  have root: "root_page_id (demo_pair_tree b rs) \<noteq> 0" for rs by (simp add: demo_pair_tree_def)
  have inv: "invalidate_append_state ?self = ?self"
    by (simp add: invalidate_append_state_def demo_pair_tree_def demo_tree_def open_tree_def new_tree_def)
  have "tree_delete ?self [1] = delete_at_path ?self [4, 5] [1]"
    using demo_pair_path [OF b, of "[([1], Inline [5])]"] root by (simp add: tree_delete_def inv)
  also have "\<dots> = (Ok True, ?s)"
    by (simp add: delete_at_path_def demo_pair_tree_def cached_leaf_def demo_remove set_cached_leaf_def release_removed_def)
  finally have "tree_delete ?self [1] = (Ok True, ?s)" .
  moreover have "first_key ?self = Ok (Some [1])" "first_key ?s = Ok None"
    using first_key_first_leaf [OF demo_pair_inv [OF b] root] by (simp_all add: demo_pair_def)
  ultimately show ?thesis
    using demo_pair_represents [OF b] represents_get [OF demo_pair_represents(2) [OF b], of "[2]"] by auto
qed

theorem scans_list_map_witness:
  "\<exists>self. collect_all self = Ok [([1], [5]), ([2], [7])] \<and> collect_range self [2] [9] = Ok [([2], [7])] \<and>
     collect_rev_batch_before self None 1 = Ok [([2], [7])]"
proof -
  obtain b where b: "internal_layout b \<lparr> leftmost_child = 5, entries = [([2], 6)] \<rparr>" "length b = 4056" by (rule demo_root)
  let ?self = "demo_pair_tree b [([1], Inline [5])]"
  obtain all where all: "sorted_keys all" "map_of all = [[1] \<mapsto> [5], [2] \<mapsto> [7]]" "collect_all ?self = Ok all"
      "collect_range ?self [2] [9] = Ok (filter (\<lambda>(k, v). [2] \<le> k \<and> k < [9]) all)"
      "collect_rev_batch_before ?self None 1 = Ok (take 1 (rev (filter (\<lambda>(k, v). True) all)))"
    using scans_list_map [OF demo_pair_represents(1) [OF b], of "[2]" "[9]" "[]" 1 None] by auto
  have "all = [([1], [5]), ([2], [7])]"
    using all(3) collect_all_listing [OF demo_pair_inv [OF b, of "[([1], Inline [5])]"]]
    by (simp add: listing_def demo_pair_def demo_right_def pair_of_def resolve_leaf_value_def demo_pair_tree_def)
  then show ?thesis using all by (intro exI [of _ ?self]) simp
qed

theorem paged_scans_complete_witness:
  "\<exists>self. collect_batch_from self [] 1 = Ok [([1], [5])] \<and> collect_batch_from self ([1] @ [0]) 1 = Ok [([2], [7])] \<and>
     collect_batch_from self [] 2 = Ok [([1], [5]), ([2], [7])]"
proof -
  obtain b where b: "internal_layout b \<lparr> leftmost_child = 5, entries = [([2], 6)] \<rparr>" "length b = 4056" by (rule demo_root)
  let ?self = "demo_pair_tree b [([1], Inline [5])]"
  have inv: "tree_inv ?self (demo_pair [([1], Inline [5])]) []" "root_page_id ?self \<noteq> 0"
    using demo_pair_inv [OF b] by (simp_all add: demo_pair_tree_def)
  have l: "listing ?self (demo_pair [([1], Inline [5])]) = [([1], [5]), ([2], [7])]"
    by (simp add: listing_def demo_pair_def demo_right_def pair_of_def resolve_leaf_value_def)
  have "collect_batch_from ?self [] 1 = Ok [([1], [5])]" "collect_batch_from ?self ([1] @ [0]) 1 = Ok [([2], [7])]"
    unfolding collect_batch_listing [OF inv] l by simp_all
  moreover have "collect_batch_from ?self [] (1 + 1) =
      rmap (\<lambda>ys. [([1], [5])] @ ys) (collect_batch_from ?self (fst (last [([1], [5] :: bytes)]) @ [0]) 1)"
    using paged_scans_complete [OF demo_pair_represents(1) [OF b], of "[([1], [5])]" "[]" 1 1] calculation by blast
  ultimately show ?thesis by (intro exI [of _ ?self]) (simp add: numeral_2_eq_2)
qed

end
