(* ===== verification/Crypto.thy ===== *)
theory Crypto
  imports Page_Kind "HOL-Library.AList"
begin

text \<open>
  The key hierarchy and the cipher dispatch (\<open>src/src/crypto/{aad,cipher,kdf,key_manager}.rs\<close>).

  The primitives come from other crates (\<open>hmac\<close>, \<open>hkdf\<close>, \<open>aes_gcm\<close>, \<open>chacha20poly1305\<close>); they
  are a parameter of the model, a record of functions.  \<open>crypto_laws\<close> names what the code relies
  on: output lengths, that decryption inverts encryption, and that decryption accepts only what
  encryption of its result would have produced (the tag is recomputed and compared).
\<close>

unbundle bit_operations_syntax

section \<open>Primitives\<close>

record crypto_prims =
  hmac_sha256 :: "bytes \<Rightarrow> bytes \<Rightarrow> bytes option"
  hkdf_expand :: "bytes option \<Rightarrow> bytes \<Rightarrow> bytes \<Rightarrow> bytes option"
  aes_gcm_seal :: "bytes \<Rightarrow> bytes \<Rightarrow> bytes \<Rightarrow> bytes \<Rightarrow> (bytes \<times> bytes) option"
  aes_gcm_open :: "bytes \<Rightarrow> bytes \<Rightarrow> bytes \<Rightarrow> bytes \<Rightarrow> bytes \<Rightarrow> bytes option"
  chacha_seal :: "bytes \<Rightarrow> bytes \<Rightarrow> bytes \<Rightarrow> bytes \<Rightarrow> (bytes \<times> bytes) option"
  chacha_open :: "bytes \<Rightarrow> bytes \<Rightarrow> bytes \<Rightarrow> bytes \<Rightarrow> bytes \<Rightarrow> bytes option"

text \<open>
  An AEAD of these crates seals any body up to its length limit (far above a page), keeps the
  length, returns a 16-byte tag, and opens exactly what it sealed.
\<close>

definition aead_laws ::
  "(bytes \<Rightarrow> bytes \<Rightarrow> bytes \<Rightarrow> bytes \<Rightarrow> (bytes \<times> bytes) option) \<Rightarrow>
   (bytes \<Rightarrow> bytes \<Rightarrow> bytes \<Rightarrow> bytes \<Rightarrow> bytes \<Rightarrow> bytes option) \<Rightarrow> bool" where
  "aead_laws seal unseal \<longleftrightarrow>
     (\<forall>k n a b. length b \<le> 2 ^ 32 \<longrightarrow> seal k n a b \<noteq> None) \<and>
     (\<forall>k n a b c t. seal k n a b = Some (c, t) \<longrightarrow>
        length c = length b \<and> length t = 16 \<and> unseal k n a c t = Some b) \<and>
     (\<forall>k n a c t b. unseal k n a c t = Some b \<longrightarrow> seal k n a b = Some (c, t))"

definition crypto_laws :: "crypto_prims \<Rightarrow> bool" where
  "crypto_laws P \<longleftrightarrow>
     (\<forall>k m. \<exists>t. hmac_sha256 P k m = Some t \<and> length t = 32) \<and>
     (\<forall>salt k info. \<exists>t. hkdf_expand P salt k info = Some t \<and> length t = 32) \<and>
     aead_laws (aes_gcm_seal P) (aes_gcm_open P) \<and> aead_laws (chacha_seal P) (chacha_open P)"

section \<open>Associated data\<close>

definition PAGE_KIND_SEGMENT_FOOTER :: u8 where
  "PAGE_KIND_SEGMENT_FOOTER = 0x20"

definition MAIN_DB_SEGMENT_ID :: bytes where
  "MAIN_DB_SEGMENT_ID = replicate 16 0"

record aad_fields =
  aad_cipher_id :: u8
  aad_page_kind :: u8
  aad_mk_epoch :: u64
  aad_page_id :: u64
  aad_realm_id :: bytes
  aad_segment_id :: bytes

definition aad_from_fields :: "aad_fields \<Rightarrow> bytes" where
  "aad_from_fields f =
     [aad_cipher_id f, aad_page_kind f] @ u64_to_le_bytes (aad_mk_epoch f) @
     u64_to_le_bytes (aad_page_id f) @ aad_realm_id f @ aad_segment_id f"

lemma aad_length:
  "length (aad_realm_id f) = 16 \<Longrightarrow> length (aad_segment_id f) = 16 \<Longrightarrow>
     length (aad_from_fields f) = 50"
  by (simp add: aad_from_fields_def)

text \<open>Two pages have the same associated data only if every field agrees.\<close>

lemma aad_inject:
  assumes "length (aad_realm_id f) = length (aad_realm_id g)"
  shows "aad_from_fields f = aad_from_fields g \<longleftrightarrow> f = g"
  using assms by (cases f, cases g) (auto simp: aad_from_fields_def le64.enc_inject)

lemma aad_nth_kind [simp]: "aad_from_fields f ! Suc 0 = aad_page_kind f"
  by (simp add: aad_from_fields_def)

section \<open>Ciphers\<close>

datatype cipher_id = PlaintextMacId | Aes256GcmId | ChaCha20Poly1305Id

fun cipher_id_as_byte :: "cipher_id \<Rightarrow> u8" where
  "cipher_id_as_byte PlaintextMacId = 0"
| "cipher_id_as_byte Aes256GcmId = 1"
| "cipher_id_as_byte ChaCha20Poly1305Id = 2"

definition cipher_id_from_byte :: "u8 \<Rightarrow> cipher_id result" where
  "cipher_id_from_byte b =
     (if b = 0 then Ok PlaintextMacId
      else if b = 1 then Ok Aes256GcmId
      else if b = 2 then Ok ChaCha20Poly1305Id
      else Err Unsupported)"

lemma cipher_id_from_as_byte [simp]: "cipher_id_from_byte (cipher_id_as_byte c) = Ok c"
  by (cases c) (simp_all add: cipher_id_from_byte_def)

lemma cipher_id_from_byte_Ok: "cipher_id_from_byte b = Ok c \<longleftrightarrow> b = cipher_id_as_byte c"
  by (cases c) (auto simp: cipher_id_from_byte_def)

lemma cipher_id_as_byte_inject [simp]: "cipher_id_as_byte c = cipher_id_as_byte d \<longleftrightarrow> c = d"
  by (cases c; cases d) simp_all

text \<open>A keyed cipher holds the 32 bytes of its key: the integrity key or the data key.\<close>

datatype cipher = CPlaintextMac bytes | CAes256Gcm bytes | CChaCha20Poly1305 bytes

fun cipher_id_of :: "cipher \<Rightarrow> cipher_id" where
  "cipher_id_of (CPlaintextMac _) = PlaintextMacId"
| "cipher_id_of (CAes256Gcm _) = Aes256GcmId"
| "cipher_id_of (CChaCha20Poly1305 _) = ChaCha20Poly1305Id"

text \<open>The tag comparison accumulates the exclusive or of all byte pairs.\<close>

definition constant_time_eq :: "bytes \<Rightarrow> bytes \<Rightarrow> bool" where
  "constant_time_eq a b \<longleftrightarrow>
     length a = length b \<and> fold (\<lambda>(x, y) acc. acc OR (x XOR y)) (zip a b) 0 = 0"

lemma fold_or_xor_zero:
  "fold (\<lambda>(x, y) acc. acc OR (x XOR y)) xys (c :: u8) = 0 \<longleftrightarrow>
     c = 0 \<and> (\<forall>(x, y) \<in> set xys. x = y)"
proof (induction xys arbitrary: c)
  case (Cons p xys)
  have "c OR (x XOR y) = 0 \<longleftrightarrow> c = 0 \<and> x = y" for x y :: u8
    by (metis or_eq_0_iff xor_self_eq xor.assoc xor.left_neutral xor.comm_neutral)
  then show ?case using Cons by (cases p) auto
qed simp

lemma constant_time_eq_iff [simp]: "constant_time_eq a b \<longleftrightarrow> a = b"
proof
  assume "constant_time_eq a b"
  then have "length a = length b" and e: "\<forall>(x, y) \<in> set (zip a b). x = y"
    by (simp_all add: constant_time_eq_def fold_or_xor_zero)
  then show "a = b"
    by (induction a b rule: list_induct2) auto
next
  assume "a = b"
  then show "constant_time_eq a b"
    by (auto simp: constant_time_eq_def fold_or_xor_zero zip_same_conv_map)
qed

definition hmac_tag :: "crypto_prims \<Rightarrow> bytes \<Rightarrow> bytes \<Rightarrow> bytes result" where
  "hmac_tag P key msg = rmap (take 16) (of_option (Io ''hmac key length'') (hmac_sha256 P key msg))"

text \<open>\<open>encrypt\<close> returns the body as it is left in the buffer, and the tag.\<close>

fun encrypt :: "crypto_prims \<Rightarrow> cipher \<Rightarrow> bytes \<Rightarrow> bytes \<Rightarrow> bytes \<Rightarrow> (bytes \<times> bytes) result" where
  "encrypt P (CPlaintextMac ik) nonce aad body = rmap (Pair body) (hmac_tag P ik (aad @ body))"
| "encrypt P (CAes256Gcm k) nonce aad body = of_option ChecksumFailure (aes_gcm_seal P k nonce aad body)"
| "encrypt P (CChaCha20Poly1305 k) nonce aad body =
     of_option ChecksumFailure (chacha_seal P k nonce aad body)"

text \<open>\<open>decrypt\<close> returns the body as it is left in the buffer; after an error it is unspecified.\<close>

fun decrypt :: "crypto_prims \<Rightarrow> cipher \<Rightarrow> bytes \<Rightarrow> bytes \<Rightarrow> bytes \<Rightarrow> bytes \<Rightarrow> bytes result" where
  "decrypt P (CPlaintextMac ik) nonce aad body tag =
     rbind (hmac_tag P ik (aad @ body))
       (\<lambda>full. if \<not> constant_time_eq full tag then Err ChecksumFailure else Ok body)"
| "decrypt P (CAes256Gcm k) nonce aad body tag =
     of_option ChecksumFailure (aes_gcm_open P k nonce aad body tag)"
| "decrypt P (CChaCha20Poly1305 k) nonce aad body tag =
     of_option ChecksumFailure (chacha_open P k nonce aad body tag)"

lemma hmac_tag_Ok: "crypto_laws P \<Longrightarrow> \<exists>t. hmac_tag P k m = Ok t \<and> length t = 16"
proof -
  assume "crypto_laws P"
  then obtain t where "hmac_sha256 P k m = Some t" "length t = 32"
    unfolding crypto_laws_def by blast
  then show ?thesis by (simp add: hmac_tag_def)
qed

lemma aead_iff: "aead_laws s u \<Longrightarrow> u k n a c t = Some b \<longleftrightarrow> s k n a b = Some (c, t)"
  unfolding aead_laws_def by metis

lemma aead_total:
  assumes "aead_laws s u" "length b \<le> 2 ^ 32"
  shows "\<exists>c t. s k n a b = Some (c, t)"
proof -
  have "s k n a b \<noteq> None" using assms unfolding aead_laws_def by blast
  then show ?thesis by auto
qed

lemma aead_lengths:
  "aead_laws s u \<Longrightarrow> s k n a b = Some (c, t) \<Longrightarrow> length c = length b \<and> length t = 16"
  unfolding aead_laws_def by blast

lemma crypto_laws_aead:
  assumes "crypto_laws P"
  shows "aead_laws (aes_gcm_seal P) (aes_gcm_open P)" "aead_laws (chacha_seal P) (chacha_open P)"
  using assms unfolding crypto_laws_def by simp_all

text \<open>Every cipher accepts exactly what it would have sealed for the body it returns.\<close>

lemma decrypt_iff_encrypt:
  assumes "crypto_laws P"
  shows "decrypt P c nonce aad ct tag = Ok body \<longleftrightarrow> encrypt P c nonce aad body = Ok (ct, tag)"
  using aead_iff [OF crypto_laws_aead(1) [OF assms]] aead_iff [OF crypto_laws_aead(2) [OF assms]]
  by (cases c) (auto simp: rbind_eq_Ok rmap_eq_Ok)

lemma encrypt_lengths:
  assumes "crypto_laws P" "encrypt P c nonce aad body = Ok (ct, tag)"
  shows "length ct = length body \<and> length tag = 16"
proof (cases c)
  case (CPlaintextMac ik)
  then show ?thesis
    using assms(2) hmac_tag_Ok [OF assms(1), of ik "aad @ body"] by auto
next
  case (CAes256Gcm k)
  then have "aes_gcm_seal P k nonce aad body = Some (ct, tag)" using assms(2) by simp
  then show ?thesis by (rule aead_lengths [OF crypto_laws_aead(1) [OF assms(1)]])
next
  case (CChaCha20Poly1305 k)
  then have "chacha_seal P k nonce aad body = Some (ct, tag)" using assms(2) by simp
  then show ?thesis by (rule aead_lengths [OF crypto_laws_aead(2) [OF assms(1)]])
qed

lemma encrypt_total:
  assumes "crypto_laws P" "length body \<le> 2 ^ 32"
  shows "\<exists>ct tag. encrypt P c nonce aad body = Ok (ct, tag)"
proof (cases c)
  case (CPlaintextMac ik)
  then show ?thesis using hmac_tag_Ok [OF assms(1), of ik "aad @ body"] by auto
next
  case (CAes256Gcm k)
  then show ?thesis using aead_total [OF crypto_laws_aead(1) [OF assms(1)] assms(2)] by simp
next
  case (CChaCha20Poly1305 k)
  then show ?thesis using aead_total [OF crypto_laws_aead(2) [OF assms(1)] assms(2)] by simp
qed

text \<open>A body that does not authenticate is a checksum failure, never another error.\<close>

lemma decrypt_Err:
  assumes "crypto_laws P" "decrypt P c nonce aad ct tag = Err e"
  shows "e = ChecksumFailure"
proof (cases c)
  case (CPlaintextMac ik)
  then show ?thesis
    using assms hmac_tag_Ok [OF assms(1), of ik "aad @ ct"] by (auto split: if_splits)
qed (use assms(2) in \<open>auto simp: of_option_def split: option.splits\<close>)

section \<open>An instance of the laws\<close>

text \<open>A toy provider shows that the laws can hold; it is used only to evaluate the model on concrete inputs.\<close>

definition demo_prims :: crypto_prims where
  "demo_prims =
     \<lparr>hmac_sha256 = (\<lambda>k m. Some (take 32 (rev m @ k @ replicate 32 0))),
      hkdf_expand = (\<lambda>salt k info. Some (take 32 (rev info @ k @ replicate 32 0))),
      aes_gcm_seal = (\<lambda>k n a b. Some (b, take 16 (n @ a @ replicate 16 0))),
      aes_gcm_open = (\<lambda>k n a c t. if t = take 16 (n @ a @ replicate 16 0) then Some c else None),
      chacha_seal = (\<lambda>k n a b. Some (rev b, take 16 (n @ a @ replicate 16 0))),
      chacha_open = (\<lambda>k n a c t. if t = take 16 (n @ a @ replicate 16 0) then Some (rev c) else None)\<rparr>"

lemma demo_prims_laws: "crypto_laws demo_prims"
  by (auto simp: crypto_laws_def aead_laws_def demo_prims_def min_def)

end
