(* ===== verification/Nonce.thy ===== *)
theory Nonce
  imports Prelude
begin

text \<open>
  The nonces of the page encryption: the 96-bit value, the generator of \<open>main.db\<close> with its
  durable anchor, and the generator of a segment (\<open>src/src/crypto/nonce.rs\<close>).

  A page sealed twice under one key and one nonce gives its key stream away, so no nonce may
  come twice, a crash and a reopen in between included.  The generator keeps this with an
  anchor in the durable header: it issues counters only up to a budget above the anchor, and a
  reopen skips the largest budget any run may have had.  The step relation \<open>nonce_step\<close> has the
  moves of a writer and its header: issue, persist the pending anchor, acknowledge it, crash
  and reopen with any budget.
\<close>

section \<open>The nonce\<close>

definition COUNTER_MAX :: u64 where
  "COUNTER_MAX = 2 ^ 48 - 1"

definition DEFAULT_ANCHOR_BUDGET :: u64 where
  "DEFAULT_ANCHOR_BUDGET = 1024"

definition MAX_ANCHOR_BUDGET :: u64 where
  "MAX_ANCHOR_BUDGET = 2 ^ 20"

text \<open>A prefix is the \<open>[u8; 6]\<close> and a nonce the \<open>[u8; 12]\<close> of the source.\<close>

definition from_parts :: "bytes \<Rightarrow> u64 \<Rightarrow> bytes" where
  "from_parts file_id6 counter = file_id6 @ take 6 (u64_to_le_bytes counter)"

lemma unat_COUNTER_MAX [simp]: "unat COUNTER_MAX = 281474976710655"
  by (simp add: COUNTER_MAX_def)

lemma unat_MAX_ANCHOR_BUDGET [simp]: "unat MAX_ANCHOR_BUDGET = 1048576"
  by (simp add: MAX_ANCHOR_BUDGET_def)

lemma from_parts_length [simp]: "length p = 6 \<Longrightarrow> length (from_parts p c) = 12"
  by (simp add: from_parts_def)

section \<open>The generator of the main database\<close>

record main_db_nonce_gen =
  g_prefix :: bytes
  g_next :: u64
  g_durable_anchor :: u64
  g_budget :: u64

definition main_nonce_new :: "bytes \<Rightarrow> u64 \<Rightarrow> main_db_nonce_gen" where
  "main_nonce_new file_id budget =
     \<lparr>g_prefix = take 6 file_id, g_next = 1, g_durable_anchor = 0,
      g_budget = min budget MAX_ANCHOR_BUDGET\<rparr>"

definition main_nonce_recover :: "bytes \<Rightarrow> u64 \<Rightarrow> u64 \<Rightarrow> main_db_nonce_gen" where
  "main_nonce_recover file_id recovered_anchor budget =
     \<lparr>g_prefix = take 6 file_id,
      g_next = saturating_add_u64 (saturating_add_u64 recovered_anchor MAX_ANCHOR_BUDGET) 1,
      g_durable_anchor = recovered_anchor,
      g_budget = min budget MAX_ANCHOR_BUDGET\<rparr>"

definition use_prefix :: "bytes \<Rightarrow> main_db_nonce_gen \<Rightarrow> main_db_nonce_gen" where
  "use_prefix prefix g = g\<lparr>g_prefix := prefix\<rparr>"

definition next_nonce :: "main_db_nonce_gen \<Rightarrow> bytes result \<times> main_db_nonce_gen" where
  "next_nonce g =
     (if g_next g > COUNTER_MAX then (Err NonceCounterExhausted, g)
      else if g_next g > saturating_add_u64 (g_durable_anchor g) (g_budget g) then (Err Aborted, g)
      else (Ok (from_parts (g_prefix g) (g_next g)), g\<lparr>g_next := g_next g + 1\<rparr>))"

definition pending_anchor :: "main_db_nonce_gen \<Rightarrow> u64" where
  "pending_anchor g = saturating_sub_u64 (g_next g) 1"

definition window_remaining :: "main_db_nonce_gen \<Rightarrow> u64" where
  "window_remaining g =
     saturating_sub_u64 (saturating_add_u64 (g_durable_anchor g) (g_budget g)) (pending_anchor g)"

definition commit_anchor :: "u64 \<Rightarrow> main_db_nonce_gen \<Rightarrow> unit result \<times> main_db_nonce_gen" where
  "commit_anchor persisted g =
     (if persisted < g_durable_anchor g \<or> persisted > pending_anchor g then (Err Aborted, g)
      else (Ok (), g\<lparr>g_durable_anchor := persisted\<rparr>))"

section \<open>The generator of a segment\<close>

record segment_nonce_gen =
  sg_file_id6 :: bytes
  sg_next :: u64

definition segment_nonce_new :: "bytes \<Rightarrow> segment_nonce_gen" where
  "segment_nonce_new segment_id = \<lparr>sg_file_id6 = take 6 segment_id, sg_next = 1\<rparr>"

definition segment_next_nonce :: "segment_nonce_gen \<Rightarrow> bytes result \<times> segment_nonce_gen" where
  "segment_next_nonce g =
     (if sg_next g > COUNTER_MAX then (Err NonceCounterExhausted, g)
      else (Ok (from_parts (sg_file_id6 g) (sg_next g)), g\<lparr>sg_next := sg_next g + 1\<rparr>))"

definition segment_final_counter :: "segment_nonce_gen \<Rightarrow> u64" where
  "segment_final_counter g = saturating_sub_u64 (sg_next g) 1"

section \<open>The writer and its header\<close>

text \<open>
  \<open>w_header\<close> is the anchor of the durable header and \<open>w_issued\<close> the nonces handed out since the
  file was created, newest first.  A header write stores an anchor that was pending at some
  moment, never below the stored one; a reopen builds the generator from the stored anchor.
\<close>

record nonce_world =
  w_gen :: main_db_nonce_gen
  w_header :: u64
  w_issued :: "bytes list"

inductive nonce_step :: "bytes \<Rightarrow> nonce_world \<Rightarrow> nonce_world \<Rightarrow> bool" for file_id where
  issue: "next_nonce (w_gen w) = (Ok n, g) \<Longrightarrow>
    nonce_step file_id w (w\<lparr>w_gen := g, w_issued := n # w_issued w\<rparr>)"
| persist: "w_header w \<le> a \<Longrightarrow> a \<le> pending_anchor (w_gen w) \<Longrightarrow>
    nonce_step file_id w (w\<lparr>w_header := a\<rparr>)"
| acknowledge: "a \<le> w_header w \<Longrightarrow> commit_anchor a (w_gen w) = (Ok (), g) \<Longrightarrow>
    nonce_step file_id w (w\<lparr>w_gen := g\<rparr>)"
| reopen: "nonce_step file_id w (w\<lparr>w_gen := main_nonce_recover file_id (w_header w) budget\<rparr>)"

inductive nonce_run :: "bytes \<Rightarrow> nonce_world \<Rightarrow> bool" for file_id where
  start: "nonce_run file_id
    \<lparr>w_gen = main_nonce_new file_id budget, w_header = 0, w_issued = []\<rparr>"
| step: "nonce_run file_id w \<Longrightarrow> nonce_step file_id w w' \<Longrightarrow> nonce_run file_id w'"

inductive_cases nonce_stepE: "nonce_step file_id w w'"

section \<open>Counters and nonces\<close>

lemma from_parts_inject:
  assumes len: "length p = length q" and c: "c \<le> COUNTER_MAX" and d: "d \<le> COUNTER_MAX"
  shows "from_parts p c = from_parts q d \<longleftrightarrow> p = q \<and> c = d"
proof
  assume eq: "from_parts p c = from_parts q d"
  have low: "unat x < 256 ^ 6" if "x \<le> COUNTER_MAX" for x :: u64
    using that by (simp add: word_le_nat_alt)
  have t: "take 6 (u64_to_le_bytes x) = to_le 6 (unat x)" for x :: u64
    by (simp add: u64_to_le_bytes_def take_to_le)
  have "p = q" "to_le 6 (unat c) = to_le 6 (unat d)"
    using eq len by (auto simp: from_parts_def t)
  moreover have "from_le (to_le 6 (unat x)) = unat x" if "x \<le> COUNTER_MAX" for x :: u64
    unfolding from_le_to_le using low [OF that] by (rule mod_less)
  ultimately show "p = q \<and> c = d"
    using c d by (metis word_unat_eq_iff)
qed simp

lemma unat_pending_anchor [simp]: "unat (pending_anchor g) = unat (g_next g) - 1"
  by (simp add: pending_anchor_def unat_saturating_sub_u64)

lemma unat_window_remaining:
  "unat (window_remaining g) =
     min (unat (g_durable_anchor g) + unat (g_budget g)) (2 ^ 64 - 1) - (unat (g_next g) - 1)"
  by (simp add: window_remaining_def unat_saturating_sub_u64 unat_saturating_add_u64)

lemma unat_Suc_counter: "x \<le> COUNTER_MAX \<Longrightarrow> unat (x + 1) = unat x + 1"
  by (simp add: word_le_nat_alt unat_add_u64_no_wrap)

lemma next_nonce_OkD:
  assumes "next_nonce g = (Ok n, g')"
  shows "n = from_parts (g_prefix g) (g_next g)" "g_next g \<le> COUNTER_MAX"
    "unat (g_next g) \<le> unat (g_durable_anchor g) + unat (g_budget g)"
    "g' = g\<lparr>g_next := g_next g + 1\<rparr>"
  using assms unat_saturating_add_u64 [of "g_durable_anchor g" "g_budget g"]
  by (auto simp: next_nonce_def word_le_nat_alt word_less_nat_alt split: if_splits)

lemma next_nonce_cases:
  assumes "0 < g_next g"
  shows "next_nonce g =
    (if g_next g > COUNTER_MAX then (Err NonceCounterExhausted, g)
     else if window_remaining g = 0 then (Err Aborted, g)
     else (Ok (from_parts (g_prefix g) (g_next g)), g\<lparr>g_next := g_next g + 1\<rparr>))"
proof -
  have "window_remaining g = 0 \<longleftrightarrow>
      g_next g > saturating_add_u64 (g_durable_anchor g) (g_budget g)" if "g_next g \<le> COUNTER_MAX"
    using assms that unat_window_remaining [of g]
    by (auto simp: unat_eq_zero [symmetric] word_less_nat_alt word_le_nat_alt
        unat_saturating_add_u64)
  then show ?thesis by (simp add: next_nonce_def not_le)
qed

section \<open>No nonce is issued twice\<close>

text \<open>
  The invariant of a run: the issued nonces are distinct, each carries a counter below the
  next one and within the largest budget of the anchor the header holds, and the generator
  trusts no anchor above the header's.
\<close>

definition nonce_inv :: "bytes \<Rightarrow> nonce_world \<Rightarrow> bool" where
  "nonce_inv file_id w \<longleftrightarrow>
     distinct (w_issued w) \<and> g_prefix (w_gen w) = take 6 file_id \<and>
     g_durable_anchor (w_gen w) \<le> w_header w \<and> g_budget (w_gen w) \<le> MAX_ANCHOR_BUDGET \<and>
     (\<forall>n\<in>set (w_issued w). \<exists>c. n = from_parts (take 6 file_id) c \<and> c \<le> COUNTER_MAX \<and>
        c < g_next (w_gen w) \<and> unat c \<le> unat (w_header w) + unat MAX_ANCHOR_BUDGET)"

lemma nonce_inv_issue:
  assumes inv: "nonce_inv file_id w" and ok: "next_nonce (w_gen w) = (Ok n, g)"
  shows "nonce_inv file_id (w\<lparr>w_gen := g, w_issued := n # w_issued w\<rparr>)"
proof -
  note d = next_nonce_OkD [OF ok]
  have "unat (g_next (w_gen w)) \<le> unat (w_header w) + unat MAX_ANCHOR_BUDGET"
    using d(3) inv by (auto simp: nonce_inv_def word_le_nat_alt)
  moreover have "n \<notin> set (w_issued w)"
    using inv d(1,2) by (fastforce simp: nonce_inv_def from_parts_inject)
  moreover have "c < g_next (w_gen w) + 1" if "c \<le> g_next (w_gen w)" for c
    using that unat_Suc_counter [OF d(2)] by (simp add: word_less_nat_alt word_le_nat_alt)
  ultimately show ?thesis
    using inv d(1,2) unfolding d(4) nonce_inv_def
    by (fastforce dest: order.strict_implies_order)
qed

lemma nonce_inv_reopen:
  assumes inv: "nonce_inv file_id w"
  shows "nonce_inv file_id (w\<lparr>w_gen := main_nonce_recover file_id (w_header w) budget\<rparr>)"
proof -
  have "c < g_next (main_nonce_recover file_id (w_header w) budget)"
    if "c \<le> COUNTER_MAX" "unat c \<le> unat (w_header w) + unat MAX_ANCHOR_BUDGET" for c
    using that
    by (simp add: main_nonce_recover_def word_less_nat_alt word_le_nat_alt unat_saturating_add_u64)
  with inv show ?thesis
    by (fastforce simp: nonce_inv_def main_nonce_recover_def)
qed

lemma nonce_inv_step: "nonce_step file_id w w' \<Longrightarrow> nonce_inv file_id w \<Longrightarrow> nonce_inv file_id w'"
proof (induction rule: nonce_step.induct)
  case (persist w a)
  then show ?case
    by (fastforce simp: nonce_inv_def word_le_nat_alt)
next
  case (acknowledge a w g)
  then show ?case
    by (auto simp: nonce_inv_def commit_anchor_def split: if_splits)
qed (simp_all add: nonce_inv_issue nonce_inv_reopen)

lemma nonce_inv_run: "nonce_run file_id w \<Longrightarrow> nonce_inv file_id w"
  by (induction rule: nonce_run.induct) (auto simp: nonce_inv_step, simp add: nonce_inv_def main_nonce_new_def)

text \<open>
  C17.  Over a whole life of a database file -- issuing nonces, writing the pending anchor into
  the header, acknowledging it, and crashing and reopening at any point with any budget -- no
  nonce is handed out twice.
\<close>

theorem nonces_unique: "nonce_run file_id w \<Longrightarrow> distinct (w_issued w)"
  by (drule nonce_inv_run) (simp add: nonce_inv_def)

definition demo_file_id :: bytes where
  "demo_file_id = [1, 2, 3, 4, 5, 6, 7, 8, 9, 10, 11, 12, 13, 14, 15, 16]"

definition demo_world :: nonce_world where
  "demo_world =
     \<lparr>w_gen = (main_nonce_recover demo_file_id 1 4)\<lparr>g_next := 1048579, g_durable_anchor := 1048577\<rparr>,
      w_header = 1048577,
      w_issued = [from_parts (take 6 demo_file_id) 1048578, from_parts (take 6 demo_file_id) 2,
        from_parts (take 6 demo_file_id) 1]\<rparr>"

lemma demo_world_run: "nonce_run demo_file_id demo_world"
proof -
  let ?p = "take 6 demo_file_id"
  let ?g = "main_nonce_new demo_file_id 4"
  let ?r = "main_nonce_recover demo_file_id 1 4"
  note simps = next_nonce_def main_nonce_new_def main_nonce_recover_def saturating_add_u64_def
    saturating_sub_u64_def pending_anchor_def commit_anchor_def COUNTER_MAX_def
    MAX_ANCHOR_BUDGET_def
  have w0: "nonce_run demo_file_id \<lparr>w_gen = ?g, w_header = 0, w_issued = []\<rparr>"
    by (rule nonce_run.start)
  have w1: "nonce_run demo_file_id
      \<lparr>w_gen = ?g\<lparr>g_next := 2\<rparr>, w_header = 0, w_issued = [from_parts ?p 1]\<rparr>"
    using nonce_run.step [OF w0 nonce_step.issue [of _ "from_parts ?p 1" "?g\<lparr>g_next := 2\<rparr>"]]
    by (simp add: simps)
  have w2: "nonce_run demo_file_id
      \<lparr>w_gen = ?g\<lparr>g_next := 2\<rparr>, w_header = 1, w_issued = [from_parts ?p 1]\<rparr>"
    using nonce_run.step [OF w1 nonce_step.persist [of _ 1]] by (simp add: simps)
  have w3: "nonce_run demo_file_id \<lparr>w_gen = ?g\<lparr>g_next := 3\<rparr>, w_header = 1,
      w_issued = [from_parts ?p 2, from_parts ?p 1]\<rparr>"
    using nonce_run.step [OF w2 nonce_step.issue [of _ "from_parts ?p 2" "?g\<lparr>g_next := 3\<rparr>"]]
    by (simp add: simps)
  have w4: "nonce_run demo_file_id \<lparr>w_gen = ?r, w_header = 1,
      w_issued = [from_parts ?p 2, from_parts ?p 1]\<rparr>"
    using nonce_run.step [OF w3 nonce_step.reopen [of _ _ 4]] by simp
  have w5: "nonce_run demo_file_id \<lparr>w_gen = ?r, w_header = 1048577,
      w_issued = [from_parts ?p 2, from_parts ?p 1]\<rparr>"
    using nonce_run.step [OF w4 nonce_step.persist [of _ 1048577]] by (simp add: simps)
  have w6: "nonce_run demo_file_id
      \<lparr>w_gen = ?r\<lparr>g_durable_anchor := 1048577\<rparr>, w_header = 1048577,
      w_issued = [from_parts ?p 2, from_parts ?p 1]\<rparr>"
    using nonce_run.step [OF w5 nonce_step.acknowledge [of 1048577 _ "?r\<lparr>g_durable_anchor := 1048577\<rparr>"]]
    by (simp add: simps)
  show ?thesis
    using nonce_run.step [OF w6 nonce_step.issue
        [of _ "from_parts ?p 1048578" "?r\<lparr>g_next := 1048579, g_durable_anchor := 1048577\<rparr>"]]
    by (simp add: simps demo_world_def)
qed

theorem nonces_unique_witness: "distinct (w_issued demo_world)"
  using nonces_unique [OF demo_world_run] .

section \<open>The issuing window\<close>

text \<open>\<open>issue_many n\<close> is a flush that asks for \<open>n\<close> nonces and stops at the first error.\<close>

fun issue_many :: "nat \<Rightarrow> main_db_nonce_gen \<Rightarrow> bytes list result \<times> main_db_nonce_gen" where
  "issue_many 0 g = (Ok [], g)"
| "issue_many (Suc n) g =
     mbind (next_nonce g) (\<lambda>x. \<lambda>g. mbind (issue_many n g) (\<lambda>xs. \<lambda>g. (Ok (x # xs), g)))"

lemma window_step:
  assumes "0 < g_next g" "g_next g \<le> COUNTER_MAX" "window_remaining g \<noteq> 0"
  shows "0 < g_next (g\<lparr>g_next := g_next g + 1\<rparr>)"
    "unat (window_remaining g) = Suc (unat (window_remaining (g\<lparr>g_next := g_next g + 1\<rparr>)))"
proof -
  note s = unat_Suc_counter [OF assms(2)]
  show "0 < g_next (g\<lparr>g_next := g_next g + 1\<rparr>)"
    using s by (simp add: word_less_nat_alt)
  show "unat (window_remaining g) = Suc (unat (window_remaining (g\<lparr>g_next := g_next g + 1\<rparr>)))"
    using assms s
    by (auto simp: unat_window_remaining unat_eq_zero [symmetric] word_less_nat_alt)
qed

text \<open>
  A caller that sizes its work by \<open>window_remaining\<close> is right to: while the 48-bit counter
  is not used up, a run of \<open>n\<close> requests is served in full exactly when \<open>n\<close> is at most the
  reported window, hands out the counters \<open>next\<close>, \<open>next + 1\<close>, ... in order, and a longer run
  is refused with \<open>Aborted\<close> once exactly the window is used up.
\<close>

theorem window_exact:
  assumes "0 < g_next g" "unat (g_next g) + n \<le> unat COUNTER_MAX + 1"
  shows "issue_many n g =
    (let k = unat (window_remaining g) in
     if n \<le> k
     then (Ok (map (\<lambda>i. from_parts (g_prefix g) (g_next g + of_nat i)) [0..<n]),
           g\<lparr>g_next := g_next g + of_nat n\<rparr>)
     else (Err Aborted, g\<lparr>g_next := g_next g + of_nat k\<rparr>))"
  using assms
proof (induction n arbitrary: g)
  case (Suc n)
  have max: "g_next g \<le> COUNTER_MAX" using Suc.prems by (simp add: word_le_nat_alt)
  show ?case
  proof (cases "window_remaining g = 0")
    case True
    then show ?thesis
      using Suc.prems(1) max by (simp add: next_nonce_cases not_less)
  next
    case False
    let ?h = "g\<lparr>g_next := g_next g + 1\<rparr>"
    note w = window_step [OF Suc.prems(1) max False]
    have IH: "issue_many n ?h =
      (let k = unat (window_remaining ?h) in
       if n \<le> k
       then (Ok (map (\<lambda>i. from_parts (g_prefix ?h) (g_next ?h + of_nat i)) [0..<n]),
             ?h\<lparr>g_next := g_next ?h + of_nat n\<rparr>)
       else (Err Aborted, ?h\<lparr>g_next := g_next ?h + of_nat k\<rparr>))"
      using Suc.prems w(1) unat_Suc_counter [OF max] by (intro Suc.IH) simp_all
    have "map (\<lambda>i. from_parts (g_prefix g) (g_next g + of_nat i)) [0..<Suc n] =
      from_parts (g_prefix g) (g_next g) #
      map (\<lambda>i. from_parts (g_prefix g) (g_next g + 1 + of_nat i)) [0..<n]"
      by (simp add: upt_rec [of 0 "Suc n"] map_Suc_upt [symmetric] add.assoc o_def del: upt_Suc)
    then show ?thesis
      using IH Suc.prems(1) max False w(2)
      by (simp add: next_nonce_cases not_less Let_def add.assoc add.commute [of 1] del: upt_Suc)
  qed
qed simp

theorem window_exact_witness:
  "fst (issue_many 5 (main_nonce_new demo_file_id 4)) = Err Aborted \<and>
   fst (issue_many 2 (main_nonce_new demo_file_id 4)) =
     Ok [[1, 2, 3, 4, 5, 6, 1, 0, 0, 0, 0, 0], [1, 2, 3, 4, 5, 6, 2, 0, 0, 0, 0, 0]]"
proof -
  have w: "window_remaining (main_nonce_new demo_file_id 4) = 4"
    by (simp add: word_unat_eq_iff unat_window_remaining main_nonce_new_def min_def
        word_le_nat_alt)
  have n: "g_next (main_nonce_new demo_file_id 4) = 1"
    by (simp add: main_nonce_new_def)
  have b: "map (\<lambda>i. from_parts (g_prefix (main_nonce_new demo_file_id 4))
      (g_next (main_nonce_new demo_file_id 4) + of_nat i)) [0..<2] =
     [[1, 2, 3, 4, 5, 6, 1, 0, 0, 0, 0, 0], [1, 2, 3, 4, 5, 6, 2, 0, 0, 0, 0, 0]]"
    by (simp add: main_nonce_new_def demo_file_id_def from_parts_def u64_to_le_bytes_def
        take_to_le to_le_numeral upt_rec [of 0 2] upt_rec [of "Suc 0" 2])
  show ?thesis
    using window_exact [of "main_nonce_new demo_file_id 4" 5]
      window_exact [of "main_nonce_new demo_file_id 4" 2]
    unfolding b by (simp add: w n)
qed

text \<open>The anchor the generator trusts is at most the header's, which lies below the next counter.\<close>

lemma header_below_next_step:
  assumes "nonce_step file_id w w'" and "w_header w < g_next (w_gen w)"
  shows "w_header w' < g_next (w_gen w')"
  using assms
proof (induction rule: nonce_step.induct)
  case (issue w n g)
  then show ?case
    using next_nonce_OkD [OF issue(1)] unat_Suc_counter [of "g_next (w_gen w)"] by (simp add: word_less_nat_alt)
next
  case (persist w a)
  then show ?case by (simp add: word_less_nat_alt word_le_nat_alt)
next
  case (acknowledge a w g)
  then show ?case by (auto simp: commit_anchor_def split: if_splits)
next
  case (reopen w budget)
  then show ?case
    using unat_lt2p [of "g_next (w_gen w)"]
    by (simp add: main_nonce_recover_def word_less_nat_alt unat_saturating_add_u64)
qed

lemma header_below_next: "nonce_run file_id w \<Longrightarrow> w_header w < g_next (w_gen w)"
proof (induction rule: nonce_run.induct)
  case (step w w')
  then show ?case using header_below_next_step by blast
qed (simp add: main_nonce_new_def)

text \<open>
  C18.  A nonce is issued only inside the window above the durable anchor.  In every state a database
  file reaches, a counter the generator hands out is greater than the anchor of the durable header,
  and so than the one the generator trusts, and exceeds the latter by at most the budget; it fits
  48 bits, and the nonce is twelve bytes long with the prefix in front.  A refusal leaves the
  generator as it was and is \<open>Aborted\<close> or \<open>NonceCounterExhausted\<close> for the reason it names.
\<close>

theorem next_nonce_bounds:
  assumes "nonce_run file_id w" and "length file_id = 16"
  shows "case next_nonce (w_gen w) of
      (Ok n, g') \<Rightarrow> length n = 12 \<and> take 6 n = take 6 file_id \<and>
        (\<exists>c. n = from_parts (take 6 file_id) c \<and> c = pending_anchor g' \<and> unat c < 2 ^ 48 \<and>
           g_durable_anchor (w_gen w) \<le> w_header w \<and> w_header w < c \<and>
           unat c \<le> unat (g_durable_anchor (w_gen w)) + unat (g_budget (w_gen w))) \<and>
        unat (g_next g') = unat (g_next (w_gen w)) + 1 \<and> g_durable_anchor g' = g_durable_anchor (w_gen w)
    | (Err e, g') \<Rightarrow> g' = w_gen w \<and> (e = NonceCounterExhausted \<and> unat (g_next g') \<ge> 2 ^ 48 \<or>
        e = Aborted \<and> unat (g_next g') > unat (g_durable_anchor g') + unat (g_budget g'))"
proof (cases "next_nonce (w_gen w)")
  case (Pair r g')
  let ?g = "w_gen w"
  have inv: "g_prefix ?g = take 6 file_id" "g_durable_anchor ?g \<le> w_header w" "w_header w < g_next ?g"
    using nonce_inv_run [OF assms(1)] header_below_next [OF assms(1)] by (simp_all add: nonce_inv_def)
  show ?thesis
  proof (cases r)
    case (Ok n)
    note d = next_nonce_OkD [OF Pair [unfolded Ok]]
    have "pending_anchor g' = g_next ?g"
      using unat_Suc_counter [OF d(2)] by (simp add: d(4) word_unat_eq_iff)
    then show ?thesis
      using assms(2) inv d unat_Suc_counter [OF d(2)] by (simp add: Pair Ok word_le_nat_alt) (simp add: from_parts_def)
  next
    case (Err e)
    then show ?thesis
      using Pair unat_saturating_add_u64 [of "g_durable_anchor ?g" "g_budget ?g"]
        unat_lt2p [of "g_next ?g"]
      by (auto simp: next_nonce_def word_less_nat_alt split: if_splits)
  qed
qed

text \<open>After the run of \<open>demo_world\<close> the next counter is 1048579, inside the window above 1048577.\<close>

theorem next_nonce_bounds_witness:
  "\<exists>n g' c. next_nonce (w_gen demo_world) = (Ok n, g') \<and> length n = 12 \<and> n = from_parts (take 6 demo_file_id) c \<and>
     1048577 < c \<and> unat c \<le> 1048581"
proof -
  have w: "w_header demo_world = 1048577" "g_durable_anchor (w_gen demo_world) = 1048577" "g_budget (w_gen demo_world) = 4"
    by (simp_all add: demo_world_def main_nonce_recover_def min_def MAX_ANCHOR_BUDGET_def)
  obtain n g' where n: "next_nonce (w_gen demo_world) = (Ok n, g')"
    using w by (simp add: next_nonce_def demo_world_def main_nonce_recover_def word_less_nat_alt unat_saturating_add_u64)
  have "length demo_file_id = 16" by (simp add: demo_file_id_def)
  then show ?thesis using next_nonce_bounds [OF demo_world_run] n w by auto
qed

section \<open>Segments\<close>

fun segment_issue :: "nat \<Rightarrow> segment_nonce_gen \<Rightarrow> bytes list result \<times> segment_nonce_gen" where
  "segment_issue 0 g = (Ok [], g)"
| "segment_issue (Suc n) g =
     mbind (segment_next_nonce g) (\<lambda>x. \<lambda>g. mbind (segment_issue n g) (\<lambda>xs. \<lambda>g. (Ok (x # xs), g)))"

lemma segment_issue_eq:
  assumes "unat (sg_next g) + n \<le> unat COUNTER_MAX + 1"
  shows "segment_issue n g =
    (Ok (map (\<lambda>i. from_parts (sg_file_id6 g) (sg_next g + of_nat i)) [0..<n]),
     g\<lparr>sg_next := sg_next g + of_nat n\<rparr>)"
  using assms
proof (induction n arbitrary: g)
  case (Suc n)
  have max: "sg_next g \<le> COUNTER_MAX" using Suc.prems by (simp add: word_le_nat_alt)
  let ?h = "g\<lparr>sg_next := sg_next g + 1\<rparr>"
  have IH: "segment_issue n ?h =
    (Ok (map (\<lambda>i. from_parts (sg_file_id6 ?h) (sg_next ?h + of_nat i)) [0..<n]),
     ?h\<lparr>sg_next := sg_next ?h + of_nat n\<rparr>)"
    using Suc.prems unat_Suc_counter [OF max] by (intro Suc.IH) simp_all
  have "map (\<lambda>i. from_parts (sg_file_id6 g) (sg_next g + of_nat i)) [0..<Suc n] =
    from_parts (sg_file_id6 g) (sg_next g) #
    map (\<lambda>i. from_parts (sg_file_id6 g) (sg_next g + 1 + of_nat i)) [0..<n]"
    by (simp add: upt_rec [of 0 "Suc n"] map_Suc_upt [symmetric] add.assoc o_def del: upt_Suc)
  then show ?case
    using IH max by (simp add: segment_next_nonce_def not_less add.assoc add.commute [of 1] del: upt_Suc)
qed simp

end
