(* ===== verification/Data_Page.thy ===== *)
theory Data_Page
  imports Node Crypto Nonce
begin

text \<open>
  The encrypted page envelope (\<open>src/src/pager/format/data_page.rs\<close>): 24 header bytes, the body and
  a 16-byte tag.  Sealing encrypts the body in place and fills in the header; opening checks the
  header against what the caller expects and decrypts in place.
\<close>

definition ENV_HEADER_LEN :: nat where
  "ENV_HEADER_LEN = 24"

definition ENV_TAG_LEN :: nat where
  "ENV_TAG_LEN = 16"

lemmas env_consts = ENV_HEADER_LEN_def ENV_TAG_LEN_def ENVELOPE_OVERHEAD_def

definition page_body :: "bytes \<Rightarrow> bytes result" where
  "page_body page = slice page ENV_HEADER_LEN (length page - ENV_TAG_LEN)"

definition seal_data_page ::
  "crypto_prims \<Rightarrow> bytes \<Rightarrow> page_kind \<Rightarrow> u16 \<Rightarrow> u64 \<Rightarrow> bytes \<Rightarrow> bytes \<Rightarrow> cipher \<Rightarrow> bytes result" where
  "seal_data_page P page_buf kind flags mk_epoch nonce aad c =
     (if length page_buf < ENVELOPE_OVERHEAD + 1 then Err PayloadTooLarge
      else
        let body_end = length page_buf - ENV_TAG_LEN
        in rbind (slice page_buf ENV_HEADER_LEN body_end) (\<lambda>plain.
           rbind (encrypt P c nonce aad plain) (\<lambda>(ct, tag).
           rbind (write_at page_buf ENV_HEADER_LEN ct) (\<lambda>b.
           rbind (write_at b body_end tag) (\<lambda>b.
           rbind (write_at b 0 [cipher_id_as_byte (cipher_id_of c)]) (\<lambda>b.
           rbind (write_at b 1 [as_byte kind]) (\<lambda>b.
           rbind (write_at b 2 (u16_to_le_bytes flags)) (\<lambda>b.
           rbind (write_at b 4 (u64_to_le_bytes mk_epoch)) (\<lambda>b.
           write_at b 12 nonce)))))))))"

definition extract_page_header_ids :: "bytes \<Rightarrow> (cipher_id \<times> u64) result" where
  "extract_page_header_ids page_buf =
     (if length page_buf < ENVELOPE_OVERHEAD + 1 then Err PayloadTooLarge
      else
        rbind (rbind (index page_buf 0) cipher_id_from_byte) (\<lambda>cid.
        rbind (slice page_buf 4 12) (\<lambda>mk_buf.
        Ok (cid, u64_from_le_bytes mk_buf))))"

definition extract_page_kind :: "bytes \<Rightarrow> page_kind result" where
  "extract_page_kind page_buf =
     (if length page_buf \<le> 1 then Err PayloadTooLarge
      else rbind (index page_buf 1) page_kind_from_byte)"

record seal_stamp =
  st_identity :: bytes
  st_counter :: u64
  st_mk_epoch :: u64
  st_cipher_id :: cipher_id

definition read_seal_stamp :: "bytes \<Rightarrow> seal_stamp result" where
  "read_seal_stamp page_buf =
     rbind (extract_page_header_ids page_buf) (\<lambda>(cid, mk_epoch).
     rbind (slice page_buf 12 18) (\<lambda>identity.
     rbind (slice page_buf 18 24) (\<lambda>ctr.
     Ok \<lparr>st_identity = identity, st_counter = u64_from_le_bytes (ctr @ [0, 0]),
         st_mk_epoch = mk_epoch, st_cipher_id = cid\<rparr>)))"

text \<open>The page comes back with its body decrypted; after an error it is unspecified and discarded.\<close>

definition open_data_page ::
  "crypto_prims \<Rightarrow> bytes \<Rightarrow> bytes \<Rightarrow> cipher \<Rightarrow> (page_kind \<times> bytes) result" where
  "open_data_page P page_buf expected_aad c =
     (if length page_buf < ENVELOPE_OVERHEAD + 1 then Err PayloadTooLarge
      else
        rbind (rbind (index page_buf 0) cipher_id_from_byte) (\<lambda>cid.
        rbind (index page_buf 1) (\<lambda>kind_byte.
        rbind (page_kind_from_byte kind_byte) (\<lambda>kind.
        rbind (slice page_buf 12 24) (\<lambda>nonce_buf.
        rbind (slice nonce_buf 0 6) (\<lambda>file_id6.
        rbind (slice nonce_buf 6 12) (\<lambda>ctr.
        let nonce = from_parts file_id6 (u64_from_le_bytes (ctr @ [0, 0]))
        in if cipher_id_of c \<noteq> cid then Err ChecksumFailure
           else
             rbind (index expected_aad 1) (\<lambda>aad_kind.
             if kind_byte \<noteq> aad_kind then Err ChecksumFailure
             else
               let body_end = length page_buf - ENV_TAG_LEN
               in rbind (slice page_buf body_end (body_end + ENV_TAG_LEN)) (\<lambda>tag.
                  rbind (slice page_buf ENV_HEADER_LEN body_end) (\<lambda>ct.
                  rbind (decrypt P c nonce expected_aad ct tag) (\<lambda>plain.
                  rbind (write_at page_buf ENV_HEADER_LEN plain) (\<lambda>b. Ok (kind, b)))))))))))))"

section \<open>Layout\<close>

text \<open>The on-wire form: every page of more than 40 bytes is a header, a body and a tag.\<close>

definition wire_header :: "u8 \<Rightarrow> u8 \<Rightarrow> u16 \<Rightarrow> u64 \<Rightarrow> bytes \<Rightarrow> bytes" where
  "wire_header cid kind flags mk_epoch nonce =
     [cid, kind] @ u16_to_le_bytes flags @ u64_to_le_bytes mk_epoch @ nonce"

lemma wire_header_length [simp]: "length nonce = 12 \<Longrightarrow> length (wire_header c k f e nonce) = 24"
  by (simp add: wire_header_def)

lemma take_take_drop: "take a xs @ take b (drop a xs) @ drop (a + b) xs = xs"
  by (metis append_take_drop_id drop_drop add.commute)

lemma page_split:
  assumes "ENVELOPE_OVERHEAD < length page"
  obtains h b t where "page = h @ b @ t" "length h = 24" "length t = 16" "b \<noteq> []"
proof
  let ?n = "length page - 40"
  show "page = take 24 page @ take ?n (drop 24 page) @ drop (24 + ?n) page"
    by (rule take_take_drop [symmetric])
  show "length (take 24 page) = 24" "length (drop (24 + ?n) page) = 16"
    "take ?n (drop 24 page) \<noteq> []"
    using assms by (simp_all add: env_consts)
qed

lemma header_split:
  assumes "length (h :: bytes) = 24"
  obtains c k f e n where "h = wire_header c k f e n" "length n = 12"
proof -
  obtain c k r where h: "h = c # k # r" "length r = 22"
    using assms by (cases h; cases "tl h") auto
  show thesis
  proof (rule that)
    show "h = wire_header c k (u16_from_le_bytes (take 2 r)) (u64_from_le_bytes (take 8 (drop 2 r))) (drop (2 + 8) r)"
      using h take_take_drop [of 2 r 8] by (simp add: wire_header_def le16.enc_dec le64.enc_dec)
    show "length (drop (2 + 8) r) = 12" using h by simp
  qed
qed

lemma nonce_rebuilt:
  "length n = 12 \<Longrightarrow> from_parts (take 6 n) (u64_from_le_bytes (drop 6 n @ [0, 0])) = n"
  by (simp add: from_parts_def le64.enc_dec)

lemma slice_middle: "length h = a \<Longrightarrow> b = a + length xs \<Longrightarrow> slice (h @ xs @ t) a b = Ok xs"
  by (simp add: slice_def)

lemma slice_end: "length h = a \<Longrightarrow> b = a + length t \<Longrightarrow> slice (h @ t) a b = Ok t"
  by (simp add: slice_def)

lemma write_middle: "length h = a \<Longrightarrow> length ys = length xs \<Longrightarrow> write_at (h @ xs @ t) a ys = Ok (h @ ys @ t)"
  by (simp add: write_at_def)

lemma write_end: "length h = a \<Longrightarrow> length ys = length xs \<Longrightarrow> write_at (h @ xs) a ys = Ok (h @ ys)"
  by (simp add: write_at_def)

lemma write_front: "length ys = length xs \<Longrightarrow> write_at (xs @ t) 0 ys = Ok (ys @ t)"
  by (simp add: write_at_def)

lemma write_header_fields:
  assumes "length h = 24" "length nonce = 12"
  shows "rbind (write_at (h @ r) 0 [c]) (\<lambda>b.
     rbind (write_at b 1 [k]) (\<lambda>b.
     rbind (write_at b 2 (u16_to_le_bytes f)) (\<lambda>b.
     rbind (write_at b 4 (u64_to_le_bytes e)) (\<lambda>b.
     write_at b 12 nonce)))) = Ok (wire_header c k f e nonce @ r)"
  using assms
  by (simp add: write_at_append_bind write_at_append write_front wire_header_def)

lemma seal_wire:
  assumes "length h = 24" "length t = 16" "b \<noteq> []" "length nonce = 12"
    and enc: "encrypt P c nonce aad b = Ok (ct, tag)" "length ct = length b" "length tag = 16"
  shows "seal_data_page P (h @ b @ t) kind flags e nonce aad c =
    Ok (wire_header (cipher_id_as_byte (cipher_id_of c)) (as_byte kind) flags e nonce @ ct @ tag)"
proof -
  have "write_at (h @ ct @ t) (24 + length b) tag = Ok (h @ ct @ tag)"
    using write_end [of "h @ ct" "24 + length b" tag t] assms by simp
  moreover have "\<not> length (h @ b @ t) < 41" "length (h @ b @ t) - 16 = 24 + length b"
    using assms(1-3) by (cases b; simp)+
  ultimately show ?thesis
    using assms write_header_fields [of h nonce "ct @ tag"]
    by (simp add: seal_data_page_def env_consts Let_def slice_middle write_middle)
qed

lemma wire_header_nth [simp]:
  "(wire_header c k f e n @ r) ! 0 = c" "(wire_header c k f e n @ r) ! 1 = k"
  by (simp_all add: wire_header_def)

lemma wire_header_slices:
  assumes "length n = 12"
  shows "slice (wire_header c k f e n @ r) 4 12 = Ok (u64_to_le_bytes e)"
    "slice (wire_header c k f e n @ r) 12 24 = Ok n"
    "slice (wire_header c k f e n @ r) 12 18 = Ok (take 6 n)"
    "slice (wire_header c k f e n @ r) 18 24 = Ok (drop 6 n)"
proof -
  have split: "wire_header c k f e n @ r =
      ([c, k] @ u16_to_le_bytes f) @ u64_to_le_bytes e @ take 6 n @ drop 6 n @ r"
    by (simp add: wire_header_def)
  show "slice (wire_header c k f e n @ r) 4 12 = Ok (u64_to_le_bytes e)"
    unfolding split by (rule slice_middle) simp_all
  have split: "wire_header c k f e n @ r =
      ([c, k] @ u16_to_le_bytes f @ u64_to_le_bytes e) @ take 6 n @ drop 6 n @ r"
    by (simp add: wire_header_def)
  show "slice (wire_header c k f e n @ r) 12 18 = Ok (take 6 n)"
    unfolding split by (rule slice_middle) (use assms in simp_all)
  have split: "wire_header c k f e n @ r =
      ([c, k] @ u16_to_le_bytes f @ u64_to_le_bytes e @ take 6 n) @ drop 6 n @ r"
    by (simp add: wire_header_def)
  show "slice (wire_header c k f e n @ r) 18 24 = Ok (drop 6 n)"
    unfolding split by (rule slice_middle) (use assms in simp_all)
  have split: "wire_header c k f e n @ r =
      ([c, k] @ u16_to_le_bytes f @ u64_to_le_bytes e) @ n @ r"
    by (simp add: wire_header_def)
  show "slice (wire_header c k f e n @ r) 12 24 = Ok n"
    unfolding split by (rule slice_middle) (use assms in simp_all)
qed

lemma open_wire:
  assumes "length n = 12" "length t = 16" "b \<noteq> []" "1 < length aad"
  shows "open_data_page P (wire_header cb kb f e n @ b @ t) aad c =
    rbind (cipher_id_from_byte cb) (\<lambda>cid.
    rbind (page_kind_from_byte kb) (\<lambda>kind.
    if cipher_id_of c \<noteq> cid then Err ChecksumFailure
    else if kb \<noteq> aad ! 1 then Err ChecksumFailure
    else rbind (decrypt P c n aad b t) (\<lambda>plain.
      rbind (write_at (wire_header cb kb f e n @ b @ t) 24 plain) (\<lambda>p. Ok (kind, p)))))"
proof -
  let ?p = "wire_header cb kb f e n @ b @ t"
  have len: "\<not> length ?p < 41" "length ?p - 16 = 24 + length b" "0 < length ?p" "1 < length ?p"
    using assms by (cases b; simp)+
  have i: "index ?p 0 = Ok cb" "index ?p 1 = Ok kb" "index aad 1 = Ok (aad ! 1)"
    using len assms(4) by (simp_all add: index_def del: One_nat_def)
  have n: "slice n 0 6 = Ok (take 6 n)" "slice n 6 12 = Ok (drop 6 n)"
    using assms(1) by (simp_all add: slice_def)
  have tb: "slice ?p 24 (24 + length b) = Ok b" "slice ?p (24 + length b) (24 + length b + 16) = Ok t"
    using assms slice_end [of "wire_header cb kb f e n @ b" "24 + length b" _ t]
    by (simp_all add: slice_middle)
  show ?thesis
    unfolding open_data_page_def env_consts using len i n tb wire_header_slices [OF assms(1)]
    by (simp add: nonce_rebuilt [OF assms(1)] Let_def del: One_nat_def cong: if_cong)
qed

lemma low_counter_bytes:
  assumes "counter \<le> COUNTER_MAX"
  shows "take 6 (u64_to_le_bytes counter) @ [0, 0] = u64_to_le_bytes counter"
proof -
  have c: "unat counter < 281474976710656" using assms by (simp add: word_le_nat_alt)
  have "unat counter div 256 div 256 div 256 div 256 div 256 div 256 = 0"
    using c by (simp flip: div_mult2_eq)
  then show ?thesis
    by (simp add: u64_to_le_bytes_def take_to_le to_le_numeral)
qed

section \<open>What opening accepts\<close>

lemma seal_Ok_wire:
  assumes laws: "crypto_laws P" and n: "length nonce = 12"
    and ok: "seal_data_page P plain kind flags e nonce aad c = Ok page"
  obtains h b t ct tag where "plain = h @ b @ t" "length h = 24" "length t = 16" "b \<noteq> []"
    "encrypt P c nonce aad b = Ok (ct, tag)" "length ct = length b" "length tag = 16"
    "page = wire_header (cipher_id_as_byte (cipher_id_of c)) (as_byte kind) flags e nonce @ ct @ tag"
proof -
  have "ENVELOPE_OVERHEAD < length plain"
    using ok by (auto simp: seal_data_page_def split: if_splits)
  then obtain h b t where s: "plain = h @ b @ t" "length h = 24" "length t = 16" "b \<noteq> []"
    by (rule page_split)
  obtain ct tag where enc: "encrypt P c nonce aad b = Ok (ct, tag)"
    using ok s by (auto simp: seal_data_page_def env_consts Let_def slice_middle rbind_eq_Ok split: if_splits)
  note l = encrypt_lengths [OF laws enc]
  show thesis
    using that [OF s enc] l ok seal_wire [OF s(2-4) n enc] s(1) by simp
qed

lemma open_Ok_wire:
  assumes laws: "crypto_laws P" and aad: "length aad = 50"
    and ok: "open_data_page P page aad c = Ok (kind, plain)"
  obtains flags e nonce b ct tag where "length nonce = 12" "b \<noteq> []" "length b = length ct" "length tag = 16"
    "page = wire_header (cipher_id_as_byte (cipher_id_of c)) (as_byte kind) flags e nonce @ ct @ tag"
    "plain = wire_header (cipher_id_as_byte (cipher_id_of c)) (as_byte kind) flags e nonce @ b @ tag"
    "as_byte kind = aad ! 1" "encrypt P c nonce aad b = Ok (ct, tag)"
proof -
  have "ENVELOPE_OVERHEAD < length page"
    using ok by (auto simp: open_data_page_def split: if_splits)
  then obtain h ct tag where p: "page = h @ ct @ tag" "length h = 24" "length tag = 16" "ct \<noteq> []"
    by (rule page_split)
  obtain cb kb f e n where h: "h = wire_header cb kb f e n" "length n = 12"
    using p(2) by (rule header_split)
  obtain b where k: "page_kind_from_byte kb = Ok kind" "kb = aad ! 1"
    and c: "cb = cipher_id_as_byte (cipher_id_of c)"
    and d: "decrypt P c n aad ct tag = Ok b" and w: "write_at page 24 b = Ok plain"
    using ok p h aad open_wire [of n tag ct aad P cb kb f e c]
    by (auto simp: rbind_eq_Ok cipher_id_from_byte_Ok split: if_splits)
  have enc: "encrypt P c n aad b = Ok (ct, tag)" using d decrypt_iff_encrypt [OF laws] by simp
  have len: "length ct = length b" using encrypt_lengths [OF laws enc] by simp
  have "plain = h @ b @ tag" using w p len by (simp add: write_middle)
  moreover have "b \<noteq> []" using len p(4) by auto
  ultimately show thesis
    using that [of n b ct tag f e] h p k c enc len page_kind_as_from_byte [OF k(1)] by simp
qed

lemma opens_iff_seals:
  assumes laws: "crypto_laws P" and aad: "length aad = 50"
  shows "open_data_page P page aad c = Ok (kind, plain) \<longleftrightarrow>
    as_byte kind = aad ! 1 \<and> take 24 plain = take 24 page \<and>
    drop (length page - 16) plain = drop (length page - 16) page \<and>
    (\<exists>flags e nonce. length nonce = 12 \<and>
       seal_data_page P plain kind flags e nonce aad c = Ok page)"
    (is "?opened \<longleftrightarrow> ?sealed")
proof
  assume ?opened
  then obtain flags e nonce b ct tag where w: "length nonce = 12" "b \<noteq> []" "length b = length ct"
    "length tag = 16"
    "page = wire_header (cipher_id_as_byte (cipher_id_of c)) (as_byte kind) flags e nonce @ ct @ tag"
    "plain = wire_header (cipher_id_as_byte (cipher_id_of c)) (as_byte kind) flags e nonce @ b @ tag"
    "as_byte kind = aad ! 1" "encrypt P c nonce aad b = Ok (ct, tag)"
    by (rule open_Ok_wire [OF laws aad])
  have "seal_data_page P plain kind flags e nonce aad c = Ok page"
    unfolding w(5,6) using w by (intro seal_wire) simp_all
  then show ?sealed using w by auto
next
  assume r: ?sealed
  then obtain flags e nonce where n: "length nonce = 12"
    and "seal_data_page P plain kind flags e nonce aad c = Ok page" by blast
  then obtain h b t ct tag where s: "plain = h @ b @ t" "length h = 24" "length t = 16" "b \<noteq> []"
    "encrypt P c nonce aad b = Ok (ct, tag)" "length ct = length b" "length tag = 16"
    "page = wire_header (cipher_id_as_byte (cipher_id_of c)) (as_byte kind) flags e nonce @ ct @ tag"
    using seal_Ok_wire [OF laws] by metis
  let ?h = "wire_header (cipher_id_as_byte (cipher_id_of c)) (as_byte kind) flags e nonce"
  have plain: "plain = ?h @ b @ tag" using r s(1-3,6-8) n by simp
  have d: "decrypt P c nonce aad ct tag = Ok b"
    using s(5) decrypt_iff_encrypt [OF laws] by simp
  have ct: "ct \<noteq> []" using s(4,6) by auto
  have k: "aad ! 1 = as_byte kind" using r by simp
  have "open_data_page P (?h @ ct @ tag) aad c = Ok (kind, ?h @ b @ tag)"
    using d k aad n s(6) by (simp add: open_wire [OF n s(7) ct] write_middle del: One_nat_def)
  then show ?opened by (simp only: s(8) plain)
qed

text \<open>
  C21.  Opening is the inverse of sealing and accepts nothing else.  A page opens under a cipher
  and the caller's associated data exactly when sealing the opened page under the same cipher and
  associated data, with some flags, epoch and nonce, writes this very page, the kind being the
  one the associated data names; header and tag are left as they were.
\<close>

theorem open_iff_sealed:
  assumes laws: "crypto_laws P" and aad: "length aad = 50"
  shows "open_data_page P page aad c = Ok (kind, plain) \<longleftrightarrow>
    as_byte kind = aad ! 1 \<and> take 24 plain = take 24 page \<and>
    drop (length page - 16) plain = drop (length page - 16) page \<and>
    (\<exists>flags e nonce. length nonce = 12 \<and>
       seal_data_page P plain kind flags e nonce aad c = Ok page)"
  by (rule opens_iff_seals [OF laws aad])

text \<open>
  C22.  A page round trip: any buffer of 41 bytes to 4 GiB seals, under any of the three ciphers,
  and the sealed page opens under the associated data of its fields to the kind and the body it
  was sealed with; its header gives the cipher, the epoch, the kind and the nonce back without
  decryption.
\<close>

theorem seal_open_roundtrip:
  assumes laws: "crypto_laws P" and size: "40 < length page" "length page \<le> 2 ^ 32"
    and widths: "length (aad_realm_id f) = 16" "length (aad_segment_id f) = 16" "length prefix = 6"
    and kind: "aad_page_kind f = as_byte kind" and counter: "counter \<le> COUNTER_MAX"
  shows "\<exists>sealed opened.
    seal_data_page P page kind flags (aad_mk_epoch f) (from_parts prefix counter) (aad_from_fields f) c = Ok sealed \<and>
    length sealed = length page \<and>
    open_data_page P sealed (aad_from_fields f) c = Ok (kind, opened) \<and>
    page_body opened = page_body page \<and>
    extract_page_kind sealed = Ok kind \<and>
    read_seal_stamp sealed = Ok \<lparr>st_identity = prefix, st_counter = counter,
      st_mk_epoch = aad_mk_epoch f, st_cipher_id = cipher_id_of c\<rparr>"
proof -
  let ?n = "from_parts prefix counter" and ?aad = "aad_from_fields f" and ?e = "aad_mk_epoch f"
  have n: "length ?n = 12" using widths by simp
  have "ENVELOPE_OVERHEAD < length page" using size by (simp add: ENVELOPE_OVERHEAD_def)
  then obtain h b t where s: "page = h @ b @ t" "length h = 24" "length t = 16" "b \<noteq> []"
    by (rule page_split)
  obtain ct tag where enc: "encrypt P c ?n ?aad b = Ok (ct, tag)"
    using encrypt_total [OF laws, of b c ?n ?aad] size s by auto
  note l = encrypt_lengths [OF laws enc]
  let ?h = "wire_header (cipher_id_as_byte (cipher_id_of c)) (as_byte kind) flags ?e ?n"
  have sealed: "seal_data_page P page kind flags ?e ?n ?aad c = Ok (?h @ ct @ tag)"
    unfolding s(1) using s n l enc by (intro seal_wire) simp_all
  have "seal_data_page P (?h @ b @ tag) kind flags ?e ?n ?aad c = Ok (?h @ ct @ tag)"
    using s n l enc by (intro seal_wire) simp_all
  then have opened: "open_data_page P (?h @ ct @ tag) ?aad c = Ok (kind, ?h @ b @ tag)"
    using opens_iff_seals [OF laws aad_length [OF widths(1,2)]] kind n l by auto
  have body: "page_body (?h @ b @ tag) = page_body page"
    using s n l by (simp add: page_body_def env_consts slice_middle)
  have len: "\<not> length (?h @ ct @ tag) < 41" using n l s(4) by (cases b) auto
  have prefix: "take 6 ?n = prefix" "drop 6 ?n = take 6 (u64_to_le_bytes counter)"
    using widths by (simp_all add: from_parts_def)
  have "take 6 (u64_to_le_bytes counter) @ [0, 0] = u64_to_le_bytes counter"
    using counter by (rule low_counter_bytes)
  then have stamp: "read_seal_stamp (?h @ ct @ tag) = Ok \<lparr>st_identity = prefix, st_counter = counter,
      st_mk_epoch = ?e, st_cipher_id = cipher_id_of c\<rparr>"
    using len wire_header_slices [OF n, of _ "as_byte kind" flags ?e "ct @ tag"] prefix l
    by (auto simp add: read_seal_stamp_def extract_page_header_ids_def env_consts index_def)
  have "extract_page_kind (?h @ ct @ tag) = Ok kind"
    using n by (simp add: extract_page_kind_def index_def del: One_nat_def)
  then show ?thesis using sealed opened body stamp n l s by auto
qed

text \<open>A small page and its fields, for the concrete instances.\<close>

definition demo_page :: bytes where
  "demo_page = replicate 24 0 @ [7, 8, 9] @ replicate 16 0"

definition demo_aad :: aad_fields where
  "demo_aad = \<lparr>aad_cipher_id = 2, aad_page_kind = as_byte BTreeLeaf, aad_mk_epoch = 5,
     aad_page_id = 4, aad_realm_id = replicate 16 1, aad_segment_id = MAIN_DB_SEGMENT_ID\<rparr>"

lemma demo_page_length: "length demo_page = 43"
  by (simp add: demo_page_def)

lemma demo_aad_widths: "length (aad_realm_id demo_aad) = 16" "length (aad_segment_id demo_aad) = 16"
  by (simp_all add: demo_aad_def MAIN_DB_SEGMENT_ID_def)

theorem seal_open_roundtrip_witness:
  "\<exists>sealed opened.
    seal_data_page demo_prims demo_page BTreeLeaf 0 5 (from_parts [1, 2, 3, 4, 5, 6] 77)
      (aad_from_fields demo_aad) (CChaCha20Poly1305 [1]) = Ok sealed \<and>
    open_data_page demo_prims sealed (aad_from_fields demo_aad) (CChaCha20Poly1305 [1]) = Ok (BTreeLeaf, opened) \<and>
    page_body opened = Ok [7, 8, 9]"
proof -
  have "page_body demo_page = Ok [7, 8, 9]"
    by (simp add: demo_page_def page_body_def env_consts slice_def)
  moreover have "(77 :: u64) \<le> COUNTER_MAX" by (simp add: word_le_nat_alt)
  moreover have "aad_page_kind demo_aad = as_byte BTreeLeaf" "aad_mk_epoch demo_aad = 5"
    by (simp_all add: demo_aad_def)
  ultimately show ?thesis
    using seal_open_roundtrip [OF demo_prims_laws, of demo_page demo_aad "[1, 2, 3, 4, 5, 6]"
        BTreeLeaf 77 0 "CChaCha20Poly1305 [1]"] demo_page_length demo_aad_widths
    by auto
qed

theorem open_iff_sealed_witness:
  "\<exists>page plain. open_data_page demo_prims page (aad_from_fields demo_aad) (CAes256Gcm [1]) = Ok (BTreeLeaf, plain)"
proof -
  have aad: "length (aad_from_fields demo_aad) = 50"
    by (rule aad_length [OF demo_aad_widths])
  let ?n = "from_parts [1, 2, 3, 4, 5, 6] 77"
  let ?h = "wire_header 1 (as_byte BTreeLeaf) 0 5 ?n"
  obtain ct tag where enc: "encrypt demo_prims (CAes256Gcm [1]) ?n (aad_from_fields demo_aad) [7] = Ok (ct, tag)"
    using encrypt_total [OF demo_prims_laws, of "[7]" "CAes256Gcm [1]" ?n "aad_from_fields demo_aad"]
    by auto
  note l = encrypt_lengths [OF demo_prims_laws enc]
  have "seal_data_page demo_prims (?h @ [7] @ tag) BTreeLeaf 0 5 ?n (aad_from_fields demo_aad) (CAes256Gcm [1]) =
      Ok (?h @ ct @ tag)"
    using seal_wire [of ?h tag "[7]" ?n demo_prims "CAes256Gcm [1]" "aad_from_fields demo_aad" ct tag BTreeLeaf 0 5]
      enc l by simp
  moreover have "as_byte BTreeLeaf = aad_from_fields demo_aad ! Suc 0"
    by (simp add: demo_aad_def del: as_byte.simps)
  ultimately have "open_data_page demo_prims (?h @ ct @ tag) (aad_from_fields demo_aad) (CAes256Gcm [1]) =
      Ok (BTreeLeaf, ?h @ [7] @ tag)"
    using open_iff_sealed [OF demo_prims_laws aad, of "?h @ ct @ tag" "CAes256Gcm [1]" BTreeLeaf "?h @ [7] @ tag"] l
    by (auto simp del: as_byte.simps)
  then show ?thesis by blast
qed

section \<open>The flags are not authenticated\<close>

lemma page_body_append:
  "length h = 24 \<Longrightarrow> 16 \<le> length xs \<Longrightarrow> page_body (h @ xs) = slice xs 0 (length xs - 16)"
  by (simp add: page_body_def slice_def env_consts)

lemma rbind_rmap: "rbind r (\<lambda>x. Ok (f (g x))) = rmap f (rmap g r)"
  by (cases r) simp_all

text \<open>
  The flags word of the envelope is not covered by the associated data and not checked:
  two pages that differ only in it open alike.  Of the other header bytes the cipher id, the kind
  and the nonce are inputs of the check; the stored epoch is read only through the identifiers of the
  header, and reaches the check through the associated data of the caller.
\<close>

theorem flags_not_authenticated:
  assumes "length nonce = 12" "length tag = 16" "ct \<noteq> []" "1 < length aad"
  shows "rmap (\<lambda>(k, p). (k, page_body p))
      (open_data_page P (wire_header cb kb flags e nonce @ ct @ tag) aad c) =
    rmap (\<lambda>(k, p). (k, page_body p))
      (open_data_page P (wire_header cb kb flags' e nonce @ ct @ tag) aad c)"
proof -
  have arith: "p + (n - p) - (p - n) = n" for p n :: nat by arith
  have body: "rmap page_body (write_at (wire_header cb kb f e nonce @ ct @ tag) 24 plain) =
      (if length plain \<le> length ct + length tag
       then Ok (slice (plain @ drop (length plain) (ct @ tag)) 0 (length ct + length tag - 16))
       else Err (Panic ''slice out of range''))" for f plain
    using assms(1,2) arith by (simp add: write_at_def page_body_append)
  have "rmap (\<lambda>(k, p). (k, page_body p))
      (open_data_page P (wire_header cb kb f e nonce @ ct @ tag) aad c) =
    rbind (cipher_id_from_byte cb) (\<lambda>cid.
    rbind (page_kind_from_byte kb) (\<lambda>kind.
    if cipher_id_of c \<noteq> cid then Err ChecksumFailure
    else if kb \<noteq> aad ! 1 then Err ChecksumFailure
    else rbind (decrypt P c nonce aad ct tag) (\<lambda>plain.
      rmap (Pair kind) (rmap page_body (write_at (wire_header cb kb f e nonce @ ct @ tag) 24 plain)))))" for f
    unfolding open_wire [OF assms]
    by (simp add: rmap_rbind rmap_if rbind_rmap cong: if_cong)
  then show ?thesis by (simp only: body)
qed

theorem flags_not_authenticated_witness:
  "rmap (\<lambda>(k, p). (k, page_body p))
      (open_data_page demo_prims (wire_header 1 2 0 5 (replicate 12 3) @ [7] @ replicate 16 3) (replicate 50 2) (CAes256Gcm [1])) =
   rmap (\<lambda>(k, p). (k, page_body p))
      (open_data_page demo_prims (wire_header 1 2 1 5 (replicate 12 3) @ [7] @ replicate 16 3) (replicate 50 2) (CAes256Gcm [1]))"
  by (rule flags_not_authenticated) simp_all

end
