(* ===== verification/Byte_Cursor.thy ===== *)
theory Byte_Cursor
  imports Prelude
begin

text \<open>
  Reading a record field by field.  The decoders of the source keep a running offset into a
  buffer and read each field there; here the cursor is the rest of the buffer.  A read past the
  end panics, as the slice of the source would.  Each reader accepts exactly the encodings its
  writer produces, so a decoder built from them is invertible by rewriting.
\<close>

definition rd_bytes :: "nat \<Rightarrow> bytes \<Rightarrow> (bytes \<times> bytes) result" where
  "rd_bytes n bs =
     (if n \<le> length bs then Ok (take n bs, drop n bs) else Err (Panic ''slice out of range''))"

definition rd_u8 :: "bytes \<Rightarrow> (u8 \<times> bytes) result" where
  "rd_u8 bs = (case bs of [] \<Rightarrow> Err (Panic ''index out of bounds'') | b # r \<Rightarrow> Ok (b, r))"

definition rd_u16 :: "bytes \<Rightarrow> (u16 \<times> bytes) result" where
  "rd_u16 bs = rmap (\<lambda>(b, r). (u16_from_le_bytes b, r)) (rd_bytes 2 bs)"

definition rd_u32 :: "bytes \<Rightarrow> (u32 \<times> bytes) result" where
  "rd_u32 bs = rmap (\<lambda>(b, r). (u32_from_le_bytes b, r)) (rd_bytes 4 bs)"

definition rd_u64 :: "bytes \<Rightarrow> (u64 \<times> bytes) result" where
  "rd_u64 bs = rmap (\<lambda>(b, r). (u64_from_le_bytes b, r)) (rd_bytes 8 bs)"

named_theorems cursor_simps \<open>what a cursor read accepts\<close>

lemma rd_bytes_Ok [cursor_simps]: "rd_bytes n bs = Ok (x, r) \<longleftrightarrow> bs = x @ r \<and> length x = n"
  by (auto simp: rd_bytes_def)

lemma rd_u8_Ok [cursor_simps]: "rd_u8 bs = Ok (x, r) \<longleftrightarrow> bs = x # r"
  by (auto simp: rd_u8_def split: list.splits)

lemma rd_u16_Ok [cursor_simps]: "rd_u16 bs = Ok (x, r) \<longleftrightarrow> bs = u16_to_le_bytes x @ r"
  by (auto simp: rd_u16_def rmap_eq_Ok rd_bytes_Ok le16.enc_dec)

lemma rd_u32_Ok [cursor_simps]: "rd_u32 bs = Ok (x, r) \<longleftrightarrow> bs = u32_to_le_bytes x @ r"
  by (auto simp: rd_u32_def rmap_eq_Ok rd_bytes_Ok le32.enc_dec)

lemma rd_u64_Ok [cursor_simps]: "rd_u64 bs = Ok (x, r) \<longleftrightarrow> bs = u64_to_le_bytes x @ r"
  by (auto simp: rd_u64_def rmap_eq_Ok rd_bytes_Ok le64.enc_dec)

lemma rd_bind_Ok [cursor_simps]:
  "rbind (rd_bytes n bs) (\<lambda>(x, r). F x r) = Ok y \<longleftrightarrow> (\<exists>x r. bs = x @ r \<and> length x = n \<and> F x r = Ok y)"
  "rbind (rd_u8 bs) (\<lambda>(x, r). G x r) = Ok y \<longleftrightarrow> (\<exists>x r. bs = x # r \<and> G x r = Ok y)"
  "rbind (rd_u16 bs) (\<lambda>(x, r). H x r) = Ok y \<longleftrightarrow> (\<exists>x r. bs = u16_to_le_bytes x @ r \<and> H x r = Ok y)"
  "rbind (rd_u32 bs) (\<lambda>(x, r). I x r) = Ok y \<longleftrightarrow> (\<exists>x r. bs = u32_to_le_bytes x @ r \<and> I x r = Ok y)"
  "rbind (rd_u64 bs) (\<lambda>(x, r). J x r) = Ok y \<longleftrightarrow> (\<exists>x r. bs = u64_to_le_bytes x @ r \<and> J x r = Ok y)"
  by (auto simp: rbind_eq_Ok rd_bytes_Ok rd_u8_Ok rd_u16_Ok rd_u32_Ok rd_u64_Ok)

lemma if_Err_Ok [cursor_simps]: "(if b then Err e else x) = Ok y \<longleftrightarrow> \<not> b \<and> x = Ok y"
  by simp

lemma rd_bytes_append [simp]: "length x = n \<Longrightarrow> rd_bytes n (x @ r) = Ok (x, r)"
  by (simp add: rd_bytes_Ok)

lemma rd_u8_Cons [simp]: "rd_u8 (b # r) = Ok (b, r)"
  by (simp add: rd_u8_def)

lemma rd_word_append [simp]:
  "rd_u16 (u16_to_le_bytes a @ r) = Ok (a, r)"
  "rd_u32 (u32_to_le_bytes b @ r) = Ok (b, r)"
  "rd_u64 (u64_to_le_bytes c @ r) = Ok (c, r)"
  by (simp_all add: rd_u16_Ok rd_u32_Ok rd_u64_Ok)

text \<open>A read never fails other than by running out of bytes.\<close>

lemma rd_total:
  "n \<le> length bs \<Longrightarrow> \<exists>x r. rd_bytes n bs = Ok (x, r) \<and> length r = length bs - n"
  "1 \<le> length bs \<Longrightarrow> \<exists>x r. rd_u8 bs = Ok (x, r) \<and> length r = length bs - 1"
  "2 \<le> length bs \<Longrightarrow> \<exists>x r. rd_u16 bs = Ok (x, r) \<and> length r = length bs - 2"
  "4 \<le> length bs \<Longrightarrow> \<exists>x r. rd_u32 bs = Ok (x, r) \<and> length r = length bs - 4"
  "8 \<le> length bs \<Longrightarrow> \<exists>x r. rd_u64 bs = Ok (x, r) \<and> length r = length bs - 8"
  by (auto simp: rd_bytes_def rd_u8_def rd_u16_def rd_u32_def rd_u64_def split: list.splits)

text \<open>
  The errors a decoder may return: a read never fails when enough bytes are left, so a proof
  walks through the decoder counting bytes.
\<close>

definition fails_only :: "(error \<Rightarrow> bool) \<Rightarrow> 'a result \<Rightarrow> bool" where
  "fails_only E r \<longleftrightarrow> (case r of Ok _ \<Rightarrow> True | Err e \<Rightarrow> E e)"

lemma fails_only_simps [simp]: "fails_only E (Ok x)" "fails_only E (Err e) = E e"
  by (simp_all add: fails_only_def)

lemma fails_only_if: "(b \<Longrightarrow> fails_only E x) \<Longrightarrow> (\<not> b \<Longrightarrow> fails_only E y) \<Longrightarrow> fails_only E (if b then x else y)"
  by simp

lemma fails_only_rbind:
  "fails_only E r \<Longrightarrow> (\<And>x. r = Ok x \<Longrightarrow> fails_only E (f x)) \<Longrightarrow> fails_only E (rbind r f)"
  by (cases r) simp_all

lemma fails_only_mono: "fails_only E r \<Longrightarrow> (\<And>e. E e \<Longrightarrow> F e) \<Longrightarrow> fails_only F r"
  by (cases r) simp_all

lemma fails_only_rd:
  "n \<le> length bs \<Longrightarrow> (\<And>x r. length bs = n + length r \<Longrightarrow> fails_only E (F x r)) \<Longrightarrow>
     fails_only E (rbind (rd_bytes n bs) (\<lambda>(x, r). F x r))"
  "1 \<le> length bs \<Longrightarrow> (\<And>x r. length bs = 1 + length r \<Longrightarrow> fails_only E (G x r)) \<Longrightarrow>
     fails_only E (rbind (rd_u8 bs) (\<lambda>(x, r). G x r))"
  "2 \<le> length bs \<Longrightarrow> (\<And>x r. length bs = 2 + length r \<Longrightarrow> fails_only E (H x r)) \<Longrightarrow>
     fails_only E (rbind (rd_u16 bs) (\<lambda>(x, r). H x r))"
  "4 \<le> length bs \<Longrightarrow> (\<And>x r. length bs = 4 + length r \<Longrightarrow> fails_only E (I x r)) \<Longrightarrow>
     fails_only E (rbind (rd_u32 bs) (\<lambda>(x, r). I x r))"
  "8 \<le> length bs \<Longrightarrow> (\<And>x r. length bs = 8 + length r \<Longrightarrow> fails_only E (J x r)) \<Longrightarrow>
     fails_only E (rbind (rd_u64 bs) (\<lambda>(x, r). J x r))"
proof -
  show "n \<le> length bs \<Longrightarrow> (\<And>x r. length bs = n + length r \<Longrightarrow> fails_only E (F x r)) \<Longrightarrow>
     fails_only E (rbind (rd_bytes n bs) (\<lambda>(x, r). F x r))"
    using rd_total(1) [of n bs] by auto
qed (use rd_total(2-5) [of bs] in auto)

end
