(* ===== verification/Struct_Header.thy ===== *)
theory Struct_Header
  imports Byte_Cursor Crypto
begin

text \<open>
  The structural headers (\<open>src/src/pager/format/structural_header.rs\<close>): the two A/B header pages
  of \<open>main.db\<close> and page 0 of a segment, cleartext with a MAC under the header key in the last 16
  bytes.  The encoders fill a zeroed page from the front; the model writes that as the
  concatenation of the fields, the zero tail and the MAC.
\<close>

definition MAGIC_MAIN :: bytes where
  "MAGIC_MAIN = [0x50, 0x41, 0x47, 0x45, 0x44, 0x42, 0, 0]"

definition MAGIC_SEGMENT :: bytes where
  "MAGIC_SEGMENT = [0x50, 0x41, 0x47, 0x45, 0x53, 0x45, 0x47, 0]"

definition MAIN_FIELDS_END :: nat where "MAIN_FIELDS_END = 201"
definition SEGMENT_FIELDS_END :: nat where "SEGMENT_FIELDS_END = 76"
definition MAC_LEN :: nat where "MAC_LEN = 16"
definition MAIN_FORMAT_VERSION :: u16 where "MAIN_FORMAT_VERSION = 1"
definition SEGMENT_FORMAT_VERSION :: u16 where "SEGMENT_FORMAT_VERSION = 1"
definition KNOWN_MAIN_HEADER_FLAGS :: u32 where "KNOWN_MAIN_HEADER_FLAGS = 0"

lemmas header_consts = MAIN_FIELDS_END_def SEGMENT_FIELDS_END_def MAC_LEN_def

record main_db_header =
  h_format_version :: u16
  h_cipher_id :: u8
  h_page_size_log2 :: u8
  h_flags :: u32
  h_file_id :: bytes
  h_kek_salt :: bytes
  h_mk_epoch :: u64
  h_seq :: u64
  h_active_root_page_id :: u64
  h_active_root_txn_id :: u64
  h_counter_anchor :: u64
  h_commit_id :: u64
  h_free_list_root :: bytes
  h_catalog_root :: bytes
  h_apply_journal_root_page_id :: u64
  h_apply_journal_root_version :: u64
  h_commit_history_root_page_id :: u64
  h_commit_history_root_version :: u64
  h_restore_mode :: u8
  h_next_page_id :: u64
  h_commit_retain_policy_tag :: u8
  h_commit_retain_policy_value :: u64
  h_realm_id :: bytes

record segment_header =
  s_format_version :: u16
  s_cipher_id :: u8
  s_segment_kind :: u8
  s_segment_id :: bytes
  s_parent_file_id :: bytes
  s_realm_id :: bytes
  s_mk_epoch :: u64
  s_page_size_log2 :: u8
  s_flags :: u8

text \<open>The \<open>[u8; 16]\<close> fields of the two structs.\<close>

definition main_widths :: "main_db_header \<Rightarrow> bool" where
  "main_widths f \<longleftrightarrow> length (h_file_id f) = 16 \<and> length (h_kek_salt f) = 16 \<and>
     length (h_free_list_root f) = 16 \<and> length (h_catalog_root f) = 16 \<and> length (h_realm_id f) = 16"

definition segment_widths :: "segment_header \<Rightarrow> bool" where
  "segment_widths f \<longleftrightarrow> length (s_segment_id f) = 16 \<and> length (s_parent_file_id f) = 16 \<and>
     length (s_realm_id f) = 16"

definition validate_page_size_log2 :: "u8 \<Rightarrow> nat result" where
  "validate_page_size_log2 log2 =
     (if 12 \<le> log2 \<and> log2 \<le> 16 then Ok (2 ^ unat log2) else Err Unsupported)"

definition mac_hk :: "crypto_prims \<Rightarrow> bytes \<Rightarrow> bytes \<Rightarrow> bytes result" where
  "mac_hk P hk bs = rmap (take MAC_LEN) (of_option (Io ''hk key length'') (hmac_sha256 P hk bs))"

section \<open>The main header\<close>

definition main_field_bytes :: "main_db_header \<Rightarrow> bytes" where
  "main_field_bytes f =
     MAGIC_MAIN @ u16_to_le_bytes (h_format_version f) @ [h_cipher_id f] @ [h_page_size_log2 f] @
     u32_to_le_bytes (h_flags f) @ h_file_id f @ h_kek_salt f @ u64_to_le_bytes (h_mk_epoch f) @
     u64_to_le_bytes (h_seq f) @ u64_to_le_bytes (h_active_root_page_id f) @
     u64_to_le_bytes (h_active_root_txn_id f) @ u64_to_le_bytes (h_counter_anchor f) @
     u64_to_le_bytes (h_commit_id f) @ h_free_list_root f @ h_catalog_root f @
     u64_to_le_bytes (h_apply_journal_root_page_id f) @
     u64_to_le_bytes (h_apply_journal_root_version f) @
     u64_to_le_bytes (h_commit_history_root_page_id f) @
     u64_to_le_bytes (h_commit_history_root_version f) @ [h_restore_mode f] @ replicate 7 0 @
     u64_to_le_bytes (h_next_page_id f) @ [h_commit_retain_policy_tag f] @
     u64_to_le_bytes (h_commit_retain_policy_value f) @ h_realm_id f"

definition seal_header_page :: "crypto_prims \<Rightarrow> bytes \<Rightarrow> bytes \<Rightarrow> nat \<Rightarrow> bytes result" where
  "seal_header_page P field_bytes hk page_size =
     (let buf = field_bytes @ replicate (page_size - MAC_LEN - length field_bytes) 0
      in rbind (mac_hk P hk buf) (\<lambda>mac. Ok (buf @ mac)))"

definition encode_main_db_header :: "crypto_prims \<Rightarrow> main_db_header \<Rightarrow> bytes \<Rightarrow> nat \<Rightarrow> bytes result" where
  "encode_main_db_header P f hk page_size =
     rbind (validate_page_size_log2 (h_page_size_log2 f)) (\<lambda>size.
     if size \<noteq> page_size then Err Unsupported
     else if page_size < MAIN_FIELDS_END + MAC_LEN then Err Unsupported
     else seal_header_page P (main_field_bytes f) hk page_size)"

definition authenticate_main_db_header :: "crypto_prims \<Rightarrow> bytes \<Rightarrow> bytes \<Rightarrow> nat \<Rightarrow> unit result" where
  "authenticate_main_db_header P bs hk page_size =
     (if length bs \<noteq> page_size \<or> page_size < MAIN_FIELDS_END + MAC_LEN then Err Unsupported
      else if take 8 bs \<noteq> MAGIC_MAIN
      then Err (Corruption (StructuralHeaderInvalid ''main.db'' ''magic''))
      else
        rbind (slice bs 161 168) (\<lambda>reserved.
        if \<not> list_all (\<lambda>b. b = 0) reserved
        then Err (Corruption (StructuralHeaderInvalid ''main.db'' ''reserved_bytes''))
        else
          rbind (slice bs MAIN_FIELDS_END (page_size - MAC_LEN)) (\<lambda>tail.
          if \<not> list_all (\<lambda>b. b = 0) tail
          then Err (Corruption (StructuralHeaderInvalid ''main.db'' ''unused_tail''))
          else
            rbind (mac_hk P hk (take (page_size - MAC_LEN) bs)) (\<lambda>expected.
            if \<not> constant_time_eq expected (drop (page_size - MAC_LEN) bs)
            then Err (Corruption (StructuralHeaderInvalid ''main.db'' ''hk_mac''))
            else
              rbind (slice bs 8 10) (\<lambda>v.
              if u16_from_le_bytes v \<noteq> MAIN_FORMAT_VERSION
              then Err (FormatVersionUnsupported (u16_from_le_bytes v) MAIN_FORMAT_VERSION)
              else Ok ())))))"

text \<open>The field decode after authentication.\<close>

definition main_fields_of :: "bytes \<Rightarrow> main_db_header result" where
  "main_fields_of bs =
     rbind (rd_bytes 8 bs) (\<lambda>(_, rest).
     rbind (rd_u16 rest) (\<lambda>(format_version, rest).
     rbind (rd_u8 rest) (\<lambda>(cipher_id, rest).
     rbind (rd_u8 rest) (\<lambda>(page_size_log2, rest).
     rbind (rd_u32 rest) (\<lambda>(flags, rest).
     if flags AND NOT KNOWN_MAIN_HEADER_FLAGS \<noteq> 0
     then Err (HeaderCapabilityUnsupported (flags AND NOT KNOWN_MAIN_HEADER_FLAGS))
     else
     rbind (rd_bytes 16 rest) (\<lambda>(file_id, rest).
     rbind (rd_bytes 16 rest) (\<lambda>(kek_salt, rest).
     rbind (rd_u64 rest) (\<lambda>(mk_epoch, rest).
     rbind (rd_u64 rest) (\<lambda>(seq, rest).
     rbind (rd_u64 rest) (\<lambda>(active_root_page_id, rest).
     rbind (rd_u64 rest) (\<lambda>(active_root_txn_id, rest).
     rbind (rd_u64 rest) (\<lambda>(counter_anchor, rest).
     rbind (rd_u64 rest) (\<lambda>(commit_id, rest).
     rbind (rd_bytes 16 rest) (\<lambda>(free_list_root, rest).
     rbind (rd_bytes 16 rest) (\<lambda>(catalog_root, rest).
     rbind (rd_u64 rest) (\<lambda>(apply_journal_root_page_id, rest).
     rbind (rd_u64 rest) (\<lambda>(apply_journal_root_version, rest).
     rbind (rd_u64 rest) (\<lambda>(commit_history_root_page_id, rest).
     rbind (rd_u64 rest) (\<lambda>(commit_history_root_version, rest).
     rbind (rd_u8 rest) (\<lambda>(restore_mode, rest).
     rbind (rd_bytes 7 rest) (\<lambda>(_, rest).
     rbind (rd_u64 rest) (\<lambda>(next_page_id, rest).
     rbind (rd_u8 rest) (\<lambda>(commit_retain_policy_tag, rest).
     rbind (rd_u64 rest) (\<lambda>(commit_retain_policy_value, rest).
     rbind (rd_bytes 16 rest) (\<lambda>(realm_id, _).
     Ok \<lparr>h_format_version = format_version, h_cipher_id = cipher_id,
         h_page_size_log2 = page_size_log2, h_flags = flags, h_file_id = file_id,
         h_kek_salt = kek_salt, h_mk_epoch = mk_epoch, h_seq = seq,
         h_active_root_page_id = active_root_page_id, h_active_root_txn_id = active_root_txn_id,
         h_counter_anchor = counter_anchor, h_commit_id = commit_id,
         h_free_list_root = free_list_root, h_catalog_root = catalog_root,
         h_apply_journal_root_page_id = apply_journal_root_page_id,
         h_apply_journal_root_version = apply_journal_root_version,
         h_commit_history_root_page_id = commit_history_root_page_id,
         h_commit_history_root_version = commit_history_root_version,
         h_restore_mode = restore_mode, h_next_page_id = next_page_id,
         h_commit_retain_policy_tag = commit_retain_policy_tag,
         h_commit_retain_policy_value = commit_retain_policy_value, h_realm_id = realm_id\<rparr>)))))))))))))))))))))))))"

definition decode_main_db_header :: "crypto_prims \<Rightarrow> bytes \<Rightarrow> bytes \<Rightarrow> nat \<Rightarrow> main_db_header result" where
  "decode_main_db_header P bs hk page_size =
     rbind (authenticate_main_db_header P bs hk page_size) (\<lambda>_. main_fields_of bs)"

section \<open>The segment header\<close>

definition segment_field_bytes :: "segment_header \<Rightarrow> bytes" where
  "segment_field_bytes f =
     MAGIC_SEGMENT @ u16_to_le_bytes (s_format_version f) @ [s_cipher_id f] @ [s_segment_kind f] @
     s_segment_id f @ s_parent_file_id f @ s_realm_id f @ u64_to_le_bytes (s_mk_epoch f) @
     [s_page_size_log2 f] @ [s_flags f]"

definition encode_segment_header :: "crypto_prims \<Rightarrow> segment_header \<Rightarrow> bytes \<Rightarrow> nat \<Rightarrow> bytes result" where
  "encode_segment_header P f hk page_size =
     rbind (validate_page_size_log2 (s_page_size_log2 f)) (\<lambda>size.
     if size \<noteq> page_size then Err Unsupported
     else if page_size < SEGMENT_FIELDS_END + MAC_LEN then Err Unsupported
     else seal_header_page P (segment_field_bytes f) hk page_size)"

definition decode_segment_header :: "crypto_prims \<Rightarrow> bytes \<Rightarrow> bytes \<Rightarrow> nat \<Rightarrow> segment_header result" where
  "decode_segment_header P bs hk page_size =
     (if length bs \<noteq> page_size \<or> page_size < SEGMENT_FIELDS_END + MAC_LEN then Err Unsupported
      else if take 8 bs \<noteq> MAGIC_SEGMENT
      then Err (Corruption (StructuralHeaderInvalid ''segment'' ''magic''))
      else
        rbind (slice bs 70 (page_size - MAC_LEN)) (\<lambda>tail.
        if \<not> list_all (\<lambda>b. b = 0) tail
        then Err (Corruption (StructuralHeaderInvalid ''segment'' ''unused_tail''))
        else
          rbind (mac_hk P hk (take (page_size - MAC_LEN) bs)) (\<lambda>expected.
          if \<not> constant_time_eq expected (drop (page_size - MAC_LEN) bs)
          then Err (Corruption (StructuralHeaderInvalid ''segment'' ''hk_mac''))
          else
            rbind (rd_bytes 8 bs) (\<lambda>(_, rest).
            rbind (rd_u16 rest) (\<lambda>(format_version, rest).
            if format_version \<noteq> SEGMENT_FORMAT_VERSION
            then Err (FormatVersionUnsupported format_version SEGMENT_FORMAT_VERSION)
            else
            rbind (rd_u8 rest) (\<lambda>(cipher_id, rest).
            rbind (rd_u8 rest) (\<lambda>(segment_kind, rest).
            rbind (rd_bytes 16 rest) (\<lambda>(segment_id, rest).
            rbind (rd_bytes 16 rest) (\<lambda>(parent_file_id, rest).
            rbind (rd_bytes 16 rest) (\<lambda>(realm_id_bytes, rest).
            rbind (rd_u64 rest) (\<lambda>(mk_epoch, rest).
            rbind (rd_u8 rest) (\<lambda>(page_size_log2, rest).
            rbind (rd_u8 rest) (\<lambda>(flags, _).
            Ok \<lparr>s_format_version = format_version, s_cipher_id = cipher_id,
                s_segment_kind = segment_kind, s_segment_id = segment_id,
                s_parent_file_id = parent_file_id, s_realm_id = realm_id_bytes,
                s_mk_epoch = mk_epoch, s_page_size_log2 = page_size_log2, s_flags = flags\<rparr>)))))))))))))"

section \<open>Canonical form\<close>

lemma list_all_zero: "list_all (\<lambda>b. b = 0) xs \<longleftrightarrow> xs = replicate (length xs) (0 :: u8)"
  by (induction xs) auto

lemma mac_hk_Ok: "crypto_laws P \<Longrightarrow> \<exists>t. mac_hk P hk m = Ok t \<and> length t = 16"
proof -
  assume "crypto_laws P"
  then obtain t where "hmac_sha256 P hk m = Some t" "length t = 32"
    unfolding crypto_laws_def by blast
  then show ?thesis by (simp add: mac_hk_def MAC_LEN_def)
qed

lemma MAGIC_length [simp]: "length MAGIC_MAIN = 8" "length MAGIC_SEGMENT = 8"
  by (simp_all add: MAGIC_MAIN_def MAGIC_SEGMENT_def)

lemma main_field_bytes_length: "main_widths f \<Longrightarrow> length (main_field_bytes f) = 201"
  by (simp add: main_field_bytes_def main_widths_def)

lemma segment_field_bytes_length: "segment_widths f \<Longrightarrow> length (segment_field_bytes f) = 70"
  by (simp add: segment_field_bytes_def segment_widths_def)

text \<open>The framing checks of a page whose bytes are given as fields, tail and MAC.\<close>

lemma authenticate_iff:
  assumes "crypto_laws P"
  shows "authenticate_main_db_header P bs hk page_size = Ok () \<longleftrightarrow>
    length bs = page_size \<and> 217 \<le> page_size \<and> take 8 bs = MAGIC_MAIN \<and>
    take 7 (drop 161 bs) = replicate 7 0 \<and>
    take (page_size - 217) (drop 201 bs) = replicate (page_size - 217) 0 \<and>
    mac_hk P hk (take (page_size - 16) bs) = Ok (drop (page_size - 16) bs) \<and>
    take 2 (drop 8 bs) = u16_to_le_bytes MAIN_FORMAT_VERSION"
proof (cases "length bs = page_size \<and> 217 \<le> page_size")
  case True
  then have len: "length bs = page_size" and ge: "217 \<le> page_size" by simp_all
  have sl: "slice bs 161 168 = Ok (take 7 (drop 161 bs))"
    "slice bs 201 (page_size - 16) = Ok (take (page_size - 217) (drop 201 bs))"
    "slice bs 8 10 = Ok (take 2 (drop 8 bs))"
    using len ge by (auto simp: slice_def)
  have z: "list_all (\<lambda>b. b = 0) (take 7 (drop 161 bs)) \<longleftrightarrow> take 7 (drop 161 bs) = replicate 7 0"
    "list_all (\<lambda>b. b = 0) (take (page_size - 217) (drop 201 bs)) \<longleftrightarrow>
      take (page_size - 217) (drop 201 bs) = replicate (page_size - 217) 0"
    using len ge by (auto simp: list_all_zero min_def)
  obtain t where t: "mac_hk P hk (take (page_size - 16) bs) = Ok t"
    using mac_hk_Ok [OF assms] by blast
  have v: "u16_from_le_bytes (take 2 (drop 8 bs)) = MAIN_FORMAT_VERSION \<longleftrightarrow>
      take 2 (drop 8 bs) = u16_to_le_bytes MAIN_FORMAT_VERSION"
    using True le16.enc_dec [of "take 2 (drop 8 bs)"] by force
  show ?thesis
    using True unfolding authenticate_main_db_header_def header_consts
    by (simp add: sl z t v)
qed (auto simp: authenticate_main_db_header_def header_consts)

lemma flags_known: "flags AND NOT KNOWN_MAIN_HEADER_FLAGS = flags"
  by (simp add: KNOWN_MAIN_HEADER_FLAGS_def)

lemma main_fields_of_iff:
  "main_fields_of bs = Ok f \<longleftrightarrow> h_flags f = 0 \<and> main_widths f \<and>
    (\<exists>m res rest.
     bs = m @ u16_to_le_bytes (h_format_version f) @ h_cipher_id f # h_page_size_log2 f #
     u32_to_le_bytes (h_flags f) @ h_file_id f @ h_kek_salt f @ u64_to_le_bytes (h_mk_epoch f) @
     u64_to_le_bytes (h_seq f) @ u64_to_le_bytes (h_active_root_page_id f) @
     u64_to_le_bytes (h_active_root_txn_id f) @ u64_to_le_bytes (h_counter_anchor f) @
     u64_to_le_bytes (h_commit_id f) @ h_free_list_root f @ h_catalog_root f @
     u64_to_le_bytes (h_apply_journal_root_page_id f) @
     u64_to_le_bytes (h_apply_journal_root_version f) @
     u64_to_le_bytes (h_commit_history_root_page_id f) @
     u64_to_le_bytes (h_commit_history_root_version f) @ h_restore_mode f # res @
     u64_to_le_bytes (h_next_page_id f) @ h_commit_retain_policy_tag f #
     u64_to_le_bytes (h_commit_retain_policy_value f) @ h_realm_id f @ rest \<and>
     length m = 8 \<and> length res = 7)"
    (is "_ \<longleftrightarrow> ?flags \<and> ?widths \<and> (\<exists>m res rest. ?form m res rest)")
proof
  assume ok: "main_fields_of bs = Ok f"
  then show "?flags \<and> ?widths \<and> (\<exists>m res rest. ?form m res rest)"
    unfolding main_fields_of_def cursor_simps flags_known result.inject not_not
    apply (elim exE conjE)
    apply (drule sym, hypsubst)
    apply (simp only: main_db_header.simps main_widths_def)
    apply (intro conjI exI; (assumption | rule refl)?)
    done
next
  assume "?flags \<and> ?widths \<and> (\<exists>m res rest. ?form m res rest)"
  then obtain m res rest where w: "?flags" "?widths" "?form m res rest" by blast
  show "main_fields_of bs = Ok f"
    using w by (cases f) (simp add: main_fields_of_def flags_known main_widths_def)
qed

lemma seal_header_page_iff:
  assumes "length fb + 16 \<le> page_size"
  shows "seal_header_page P fb hk page_size = Ok bs \<longleftrightarrow>
    (\<exists>mac. bs = fb @ replicate (page_size - 16 - length fb) 0 @ mac \<and>
       mac_hk P hk (fb @ replicate (page_size - 16 - length fb) 0) = Ok mac)"
  by (auto simp: seal_header_page_def Let_def rbind_eq_Ok header_consts)

lemma validate_log2_Ok:
  "validate_page_size_log2 l = Ok n \<longleftrightarrow> n = 2 ^ unat l \<and> 12 \<le> unat l \<and> unat l \<le> 16"
  by (auto simp: validate_page_size_log2_def word_le_nat_alt)

lemma validate_log2_bounds:
  assumes "validate_page_size_log2 l = Ok n"
  shows "4096 \<le> n" "n \<le> 65536"
  using assms power_increasing [of 12 "unat l" "2 :: nat"] power_increasing [of "unat l" 16 "2 :: nat"]
  by (auto simp: validate_log2_Ok)

lemma decode_iff_sealed:
  assumes laws: "crypto_laws P"
  shows "decode_main_db_header P bs hk page_size = Ok f \<longleftrightarrow>
    h_flags f = 0 \<and> h_format_version f = MAIN_FORMAT_VERSION \<and> main_widths f \<and> 217 \<le> page_size \<and>
    seal_header_page P (main_field_bytes f) hk page_size = Ok bs"
    (is "?decoded \<longleftrightarrow> ?sealed")
proof
  assume ?decoded
  then have auth: "authenticate_main_db_header P bs hk page_size = Ok ()" and "main_fields_of bs = Ok f"
    by (auto simp: decode_main_db_header_def rbind_eq_Ok)
  note a = auth [unfolded authenticate_iff [OF laws]]
  obtain m res rest where f: "h_flags f = 0" "main_widths f" and l: "length m = 8" "length res = 7"
    and bs: "bs = m @ u16_to_le_bytes (h_format_version f) @ h_cipher_id f # h_page_size_log2 f #
     u32_to_le_bytes (h_flags f) @ h_file_id f @ h_kek_salt f @ u64_to_le_bytes (h_mk_epoch f) @
     u64_to_le_bytes (h_seq f) @ u64_to_le_bytes (h_active_root_page_id f) @
     u64_to_le_bytes (h_active_root_txn_id f) @ u64_to_le_bytes (h_counter_anchor f) @
     u64_to_le_bytes (h_commit_id f) @ h_free_list_root f @ h_catalog_root f @
     u64_to_le_bytes (h_apply_journal_root_page_id f) @
     u64_to_le_bytes (h_apply_journal_root_version f) @
     u64_to_le_bytes (h_commit_history_root_page_id f) @
     u64_to_le_bytes (h_commit_history_root_version f) @ h_restore_mode f # res @
     u64_to_le_bytes (h_next_page_id f) @ h_commit_retain_policy_tag f #
     u64_to_le_bytes (h_commit_retain_policy_value f) @ h_realm_id f @ rest"
    using \<open>main_fields_of bs = Ok f\<close> unfolding main_fields_of_iff by blast
  have m: "m = MAGIC_MAIN" and res: "res = replicate 7 0" and v: "h_format_version f = MAIN_FORMAT_VERSION"
    using a l f(2) by (simp_all add: bs main_widths_def le16.enc_inject)
  have bs': "bs = main_field_bytes f @ rest"
    unfolding bs m res by (simp add: main_field_bytes_def)
  note len = main_field_bytes_length [OF f(2)]
  have rest: "take (page_size - 217) rest = replicate (page_size - 217) 0"
    "drop (page_size - 217) rest = drop (page_size - 16) bs" "take (page_size - 16) bs = main_field_bytes f @ take (page_size - 217) rest"
    using a len by (auto simp: bs')
  have "bs = main_field_bytes f @ replicate (page_size - 217) 0 @ drop (page_size - 16) bs"
    using rest bs' by (metis append_take_drop_id)
  then show ?sealed
    using a f v len rest by (auto simp: seal_header_page_iff)
next
  assume s: ?sealed
  then have len: "length (main_field_bytes f) = 201" by (simp add: main_field_bytes_length)
  obtain mac where bs: "bs = main_field_bytes f @ replicate (page_size - 217) 0 @ mac"
    and mac: "mac_hk P hk (main_field_bytes f @ replicate (page_size - 217) 0) = Ok mac"
    using s len by (auto simp: seal_header_page_iff)
  have lmac: "length mac = 16" using mac mac_hk_Ok [OF laws, of hk] by (metis result.inject(1))
  have "authenticate_main_db_header P bs hk page_size = Ok ()"
    unfolding authenticate_iff [OF laws] using s len lmac mac
    by (auto simp: bs) (simp_all add: main_field_bytes_def main_widths_def)
  moreover have "main_fields_of bs = Ok f"
    unfolding main_fields_of_iff using s
    by (intro conjI exI [of _ MAGIC_MAIN] exI [of _ "replicate 7 0"] exI [of _ "replicate (page_size - 217) 0 @ mac"])
      (simp_all add: bs main_field_bytes_def)
  ultimately show ?decoded by (simp add: decode_main_db_header_def)
qed

text \<open>A header page is refused with one of these errors; no byte string makes the decoder panic.\<close>

fun header_error :: "error \<Rightarrow> bool" where
  "header_error Unsupported = True"
| "header_error (Corruption (StructuralHeaderInvalid _ _)) = True"
| "header_error (FormatVersionUnsupported _ _) = True"
| "header_error (HeaderCapabilityUnsupported _) = True"
| "header_error _ = False"

lemma main_fields_of_errors:
  assumes "201 \<le> length bs"
  shows "fails_only header_error (main_fields_of bs)"
  unfolding main_fields_of_def using assms
  by (intro fails_only_rd fails_only_if; (linarith | simp only: fails_only_simps header_error.simps))

lemma decode_iff_encode:
  assumes laws: "crypto_laws P" and size: "validate_page_size_log2 (h_page_size_log2 f) = Ok page_size"
  shows "decode_main_db_header P bs hk page_size = Ok f \<longleftrightarrow>
    main_widths f \<and> h_flags f = 0 \<and> h_format_version f = MAIN_FORMAT_VERSION \<and>
    encode_main_db_header P f hk page_size = Ok bs"
proof -
  have "4096 \<le> page_size" using size by (rule validate_log2_bounds)
  then show ?thesis
    using decode_iff_sealed [OF laws, of bs hk page_size f] size
    by (auto simp: encode_main_db_header_def header_consts)
qed

text \<open>
  C23.  The main header is canonical.  For a header whose page-size field describes the page, the
  decoder returns its fields from a byte string exactly when that string is what the encoder
  writes for them (and the version and flags are the ones this build knows): decoding inverts
  encoding, and no other bytes decode to the same fields.
\<close>

theorem main_header_canonical:
  assumes laws: "crypto_laws P" and size: "validate_page_size_log2 (h_page_size_log2 f) = Ok page_size"
  shows "decode_main_db_header P bs hk page_size = Ok f \<longleftrightarrow>
    main_widths f \<and> h_flags f = 0 \<and> h_format_version f = MAIN_FORMAT_VERSION \<and>
    encode_main_db_header P f hk page_size = Ok bs"
  by (rule decode_iff_encode [OF laws size])

definition demo_header :: main_db_header where
  "demo_header =
     \<lparr>h_format_version = 1, h_cipher_id = 1, h_page_size_log2 = 12, h_flags = 0,
      h_file_id = replicate 16 1, h_kek_salt = replicate 16 2, h_mk_epoch = 0, h_seq = 7,
      h_active_root_page_id = 4, h_active_root_txn_id = 3, h_counter_anchor = 99, h_commit_id = 3,
      h_free_list_root = replicate 16 0, h_catalog_root = replicate 16 0,
      h_apply_journal_root_page_id = 0, h_apply_journal_root_version = 0,
      h_commit_history_root_page_id = 0, h_commit_history_root_version = 0, h_restore_mode = 0,
      h_next_page_id = 5, h_commit_retain_policy_tag = 2, h_commit_retain_policy_value = 0,
      h_realm_id = replicate 16 3\<rparr>"

lemma demo_header_facts:
  "main_widths demo_header" "h_flags demo_header = 0" "h_format_version demo_header = MAIN_FORMAT_VERSION"
  "validate_page_size_log2 (h_page_size_log2 demo_header) = Ok 4096"
  by (simp_all add: demo_header_def main_widths_def MAIN_FORMAT_VERSION_def validate_page_size_log2_def)

lemma encode_main_total:
  assumes "crypto_laws P" "validate_page_size_log2 (h_page_size_log2 f) = Ok page_size"
  shows "\<exists>bs. encode_main_db_header P f hk page_size = Ok bs"
proof -
  have "4096 \<le> page_size" using assms(2) by (rule validate_log2_bounds)
  moreover obtain t where "mac_hk P hk (main_field_bytes f @
      replicate (page_size - MAC_LEN - length (main_field_bytes f)) 0) = Ok t"
    using mac_hk_Ok [OF assms(1)] by blast
  ultimately show ?thesis
    using assms(2) by (auto simp: encode_main_db_header_def seal_header_page_def header_consts Let_def)
qed

theorem main_header_canonical_witness:
  "\<exists>bs. encode_main_db_header demo_prims demo_header [5] 4096 = Ok bs \<and>
     decode_main_db_header demo_prims bs [5] 4096 = Ok demo_header"
  using main_header_canonical [OF demo_prims_laws demo_header_facts(4), of _ "[5]"]
    encode_main_total [OF demo_prims_laws demo_header_facts(4), of "[5]"] demo_header_facts
  by auto

text \<open>
  The header decoder is total: on any byte string and page size it returns fields or one of
  four errors -- unsupported size, a named structural damage, an unsupported version, an unknown
  capability flag -- and never panics.
\<close>

theorem decode_main_errors:
  assumes laws: "crypto_laws P"
  shows "fails_only header_error (decode_main_db_header P bs hk page_size)"
proof -
  have "fails_only header_error (authenticate_main_db_header P bs hk page_size)"
  proof (cases "length bs = page_size \<and> 217 \<le> page_size")
    case True
    then have len: "length bs = page_size" and ge: "217 \<le> page_size" by simp_all
    have sl: "slice bs 161 168 = Ok (take 7 (drop 161 bs))"
      "slice bs 201 (page_size - 16) = Ok (take (page_size - 217) (drop 201 bs))"
      "slice bs 8 10 = Ok (take 2 (drop 8 bs))"
      using len ge by (auto simp: slice_def)
    obtain t where t: "mac_hk P hk (take (page_size - 16) bs) = Ok t"
      using mac_hk_Ok [OF laws] by blast
    show ?thesis
      unfolding authenticate_main_db_header_def header_consts sl t rbind.simps
      by (intro fails_only_if; simp only: fails_only_simps header_error.simps)
  qed (auto simp: authenticate_main_db_header_def header_consts)
  moreover have "201 \<le> length bs" if "authenticate_main_db_header P bs hk page_size = Ok ()"
    using that unfolding authenticate_iff [OF laws] by simp
  ultimately show ?thesis
    unfolding decode_main_db_header_def
    by (intro fails_only_rbind) (auto intro: main_fields_of_errors)
qed

theorem decode_main_errors_witness:
  "fails_only header_error (decode_main_db_header demo_prims (replicate 4096 0) [5] 4096)"
  by (rule decode_main_errors [OF demo_prims_laws])

section \<open>Segment headers\<close>

lemma decode_segment_iff_sealed:
  assumes laws: "crypto_laws P"
  shows "decode_segment_header P bs hk page_size = Ok f \<longleftrightarrow>
    s_format_version f = SEGMENT_FORMAT_VERSION \<and> segment_widths f \<and> 92 \<le> page_size \<and>
    seal_header_page P (segment_field_bytes f) hk page_size = Ok bs"
    (is "?decoded \<longleftrightarrow> ?sealed")
proof
  assume d: ?decoded
  then have len: "length bs = page_size" and ge: "92 \<le> page_size"
    by (auto simp: decode_segment_header_def header_consts split: if_splits)
  have sl: "slice bs 70 (page_size - 16) = Ok (take (page_size - 86) (drop 70 bs))"
    using len ge by (auto simp: slice_def)
  have z: "list_all (\<lambda>b. b = 0) (take (page_size - 86) (drop 70 bs)) \<longleftrightarrow>
      take (page_size - 86) (drop 70 bs) = replicate (page_size - 86) 0"
    using len ge by (auto simp: list_all_zero min_def)
  obtain t where t: "mac_hk P hk (take (page_size - 16) bs) = Ok t"
    using mac_hk_Ok [OF laws] by blast
  have "s_format_version f = SEGMENT_FORMAT_VERSION \<and> segment_widths f \<and> take 8 bs = MAGIC_SEGMENT \<and>
      take (page_size - 86) (drop 70 bs) = replicate (page_size - 86) 0 \<and> t = drop (page_size - 16) bs \<and>
      (\<exists>m rest. bs = m @ u16_to_le_bytes (s_format_version f) @ s_cipher_id f # s_segment_kind f #
         s_segment_id f @ s_parent_file_id f @ s_realm_id f @ u64_to_le_bytes (s_mk_epoch f) @
         s_page_size_log2 f # s_flags f # rest \<and> length m = 8)"
    using d unfolding decode_segment_header_def header_consts sl t rbind.simps cursor_simps z
      result.inject not_not constant_time_eq_iff
    apply (elim exE conjE)
    apply (drule sym, hypsubst)
    apply (simp only: segment_header.simps segment_widths_def)
    apply (intro conjI exI; (assumption | rule refl)?)
    done
  then obtain m rest where a: "s_format_version f = SEGMENT_FORMAT_VERSION" "segment_widths f"
      "take 8 bs = MAGIC_SEGMENT" "take (page_size - 86) (drop 70 bs) = replicate (page_size - 86) 0"
      "t = drop (page_size - 16) bs" "length m = 8"
    and bs: "bs = m @ u16_to_le_bytes (s_format_version f) @ s_cipher_id f # s_segment_kind f #
         s_segment_id f @ s_parent_file_id f @ s_realm_id f @ u64_to_le_bytes (s_mk_epoch f) @
         s_page_size_log2 f # s_flags f # rest"
    by blast
  have m: "m = MAGIC_SEGMENT" using a by (simp add: bs)
  have bs': "bs = segment_field_bytes f @ rest" unfolding bs m by (simp add: segment_field_bytes_def)
  note l = segment_field_bytes_length [OF a(2)]
  have rest: "take (page_size - 86) rest = replicate (page_size - 86) 0"
    "drop (page_size - 86) rest = drop (page_size - 16) bs"
    "take (page_size - 16) bs = segment_field_bytes f @ take (page_size - 86) rest"
    using a l ge by (auto simp: bs')
  have "bs = segment_field_bytes f @ replicate (page_size - 86) 0 @ drop (page_size - 16) bs"
    using rest bs' by (metis append_take_drop_id)
  then show ?sealed
    using a ge l rest t by (auto simp: seal_header_page_iff)
next
  assume s: ?sealed
  then have len: "length (segment_field_bytes f) = 70" by (simp add: segment_field_bytes_length)
  obtain mac where bs: "bs = segment_field_bytes f @ replicate (page_size - 86) 0 @ mac"
    and mac: "mac_hk P hk (segment_field_bytes f @ replicate (page_size - 86) 0) = Ok mac"
    using s len by (auto simp: seal_header_page_iff)
  have lmac: "length mac = 16" using mac mac_hk_Ok [OF laws, of hk] by (metis result.inject(1))
  have "length bs = page_size" "take 8 bs = MAGIC_SEGMENT"
    "slice bs 70 (page_size - 16) = Ok (replicate (page_size - 86) 0)"
    "take (page_size - 16) bs = segment_field_bytes f @ replicate (page_size - 86) 0"
    "drop (page_size - 16) bs = mac"
    using s len lmac by (auto simp: bs slice_def) (simp add: segment_field_bytes_def)
  then show ?decoded
    using s mac by (cases f)
      (simp add: decode_segment_header_def header_consts list_all_zero segment_widths_def bs,
       simp add: segment_field_bytes_def)
qed

text \<open>
  C25.  The segment header is canonical in the same sense: decoding inverts encoding, and no other
  bytes decode to the same fields.
\<close>

theorem segment_header_canonical:
  assumes laws: "crypto_laws P" and size: "validate_page_size_log2 (s_page_size_log2 f) = Ok page_size"
  shows "decode_segment_header P bs hk page_size = Ok f \<longleftrightarrow>
    segment_widths f \<and> s_format_version f = SEGMENT_FORMAT_VERSION \<and>
    encode_segment_header P f hk page_size = Ok bs"
proof -
  have "4096 \<le> page_size" using size by (rule validate_log2_bounds)
  then show ?thesis
    using decode_segment_iff_sealed [OF laws, of bs hk page_size f] size
    by (auto simp: encode_segment_header_def header_consts)
qed

definition demo_segment_header :: segment_header where
  "demo_segment_header =
     \<lparr>s_format_version = 1, s_cipher_id = 1, s_segment_kind = 2, s_segment_id = replicate 16 4,
      s_parent_file_id = replicate 16 1, s_realm_id = replicate 16 3, s_mk_epoch = 0,
      s_page_size_log2 = 13, s_flags = 0\<rparr>"

theorem segment_header_canonical_witness:
  "\<exists>bs. encode_segment_header demo_prims demo_segment_header [5] 8192 = Ok bs \<and>
     decode_segment_header demo_prims bs [5] 8192 = Ok demo_segment_header"
proof -
  have v: "validate_page_size_log2 (s_page_size_log2 demo_segment_header) = Ok 8192"
    by (simp add: demo_segment_header_def validate_page_size_log2_def)
  obtain t where "mac_hk demo_prims [5] (segment_field_bytes demo_segment_header @
      replicate (8192 - MAC_LEN - length (segment_field_bytes demo_segment_header)) 0) = Ok t"
    using mac_hk_Ok [OF demo_prims_laws] by blast
  then obtain bs where e: "encode_segment_header demo_prims demo_segment_header [5] 8192 = Ok bs"
    using v by (auto simp: encode_segment_header_def seal_header_page_def header_consts Let_def)
  have "segment_widths demo_segment_header" "s_format_version demo_segment_header = SEGMENT_FORMAT_VERSION"
    by (simp_all add: demo_segment_header_def segment_widths_def SEGMENT_FORMAT_VERSION_def)
  then show ?thesis
    using segment_header_canonical [OF demo_prims_laws v, of bs "[5]"] e by auto
qed

end
