(* ===== verification/Keys.thy ===== *)
theory Keys
  imports Crypto
begin

text \<open>
  The key derivation chain (\<open>src/src/crypto/kdf.rs\<close>), the in-memory master keys by epoch
  (\<open>src/src/txn/db/rekey/keyring.rs\<close>) and the bounded cache of keyed ciphers
  (\<open>src/src/crypto/key_manager.rs\<close>).

  A key is derived per realm, file, epoch and cipher.  The lemmas show that no two purposes
  share a derivation input, and that the cache answers as the derivation would, whatever it
  evicted.
\<close>

section \<open>Derivation\<close>

definition ascii :: "string \<Rightarrow> bytes" where
  "ascii s = map of_char s"

definition scoped_info :: "string \<Rightarrow> bytes \<Rightarrow> bytes \<Rightarrow> bytes" where
  "scoped_info prefix realm_id file_id =
     ascii prefix @ realm_id @ ascii ''/file/'' @ file_id @ ascii ''/v2''"

definition derive_mk :: "crypto_prims \<Rightarrow> bytes \<Rightarrow> bytes \<Rightarrow> u64 \<Rightarrow> bytes result" where
  "derive_mk P kek kek_salt mk_epoch =
     of_option (Io ''hkdf expand failed (mk)'')
       (hkdf_expand P (Some kek_salt) kek (ascii ''pagedb/master/v1/'' @ u64_to_le_bytes mk_epoch))"

definition expand_key :: "crypto_prims \<Rightarrow> bytes \<Rightarrow> bytes \<Rightarrow> bytes result" where
  "expand_key P ikm info = of_option (Io ''hkdf expand failed'') (hkdf_expand P None ikm info)"

definition dek_info :: "bytes \<Rightarrow> bytes \<Rightarrow> bytes" where
  "dek_info realm_id file_id = scoped_info ''pagedb/realm/'' realm_id file_id"

definition derive_dek :: "crypto_prims \<Rightarrow> bytes \<Rightarrow> bytes \<Rightarrow> bytes \<Rightarrow> bytes result" where
  "derive_dek P mk realm_id file_id = expand_key P mk (dek_info realm_id file_id)"

definition ik_info :: "bytes \<Rightarrow> bytes \<Rightarrow> bytes" where
  "ik_info realm_id file_id = scoped_info ''pagedb/integrity/'' realm_id file_id"

definition derive_ik :: "crypto_prims \<Rightarrow> bytes \<Rightarrow> bytes \<Rightarrow> bytes \<Rightarrow> bytes result" where
  "derive_ik P mk realm_id file_id = expand_key P mk (ik_info realm_id file_id)"

definition hk_info :: bytes where
  "hk_info = ascii ''pagedb/header-mac/v1''"

definition derive_hk :: "crypto_prims \<Rightarrow> bytes \<Rightarrow> bytes result" where
  "derive_hk P mk = expand_key P mk hk_info"

definition spill_info :: "bytes \<Rightarrow> bytes \<Rightarrow> u64 \<Rightarrow> bytes" where
  "spill_info file_id spill_epoch txn_seq =
     ascii ''pagedb/spill/'' @ file_id @ spill_epoch @ u64_to_le_bytes txn_seq"

definition derive_spill_key :: "crypto_prims \<Rightarrow> bytes \<Rightarrow> bytes \<Rightarrow> bytes \<Rightarrow> u64 \<Rightarrow> bytes result" where
  "derive_spill_key P mk file_id spill_epoch txn_seq =
     expand_key P mk (spill_info file_id spill_epoch txn_seq)"

definition derive_cipher ::
  "crypto_prims \<Rightarrow> cipher_id \<Rightarrow> bytes \<Rightarrow> bytes \<Rightarrow> bytes \<Rightarrow> cipher result" where
  "derive_cipher P cid mk realm file_id =
     (case cid of
        Aes256GcmId \<Rightarrow> rmap CAes256Gcm (derive_dek P mk realm file_id)
      | ChaCha20Poly1305Id \<Rightarrow> rmap CChaCha20Poly1305 (derive_dek P mk realm file_id)
      | PlaintextMacId \<Rightarrow> rmap CPlaintextMac (derive_ik P mk realm file_id))"

lemma derive_cipher_id: "derive_cipher P cid mk realm file_id = Ok c \<Longrightarrow> cipher_id_of c = cid"
  by (auto simp: derive_cipher_def rmap_eq_Ok split: cipher_id.splits)

lemma derive_cipher_total:
  assumes "crypto_laws P"
  shows "\<exists>c. derive_cipher P cid mk realm file_id = Ok c"
proof -
  have "\<exists>k. expand_key P mk info = Ok k" for info
    using assms unfolding crypto_laws_def expand_key_def by fastforce
  then show ?thesis
    by (auto simp: derive_cipher_def derive_dek_def derive_ik_def rmap_eq_Ok split: cipher_id.splits)
qed

subsection \<open>Domain separation\<close>

lemma scoped_info_inject:
  "length r = length r' \<Longrightarrow> scoped_info p r f = scoped_info p r' f' \<longleftrightarrow> r = r' \<and> f = f'"
  by (auto simp: scoped_info_def)

datatype key_purpose =
    DataKey bytes bytes | IntegrityKey bytes bytes | HeaderKey | SpillKey bytes bytes u64

fun purpose_info :: "key_purpose \<Rightarrow> bytes" where
  "purpose_info (DataKey realm file_id) = dek_info realm file_id"
| "purpose_info (IntegrityKey realm file_id) = ik_info realm file_id"
| "purpose_info HeaderKey = hk_info"
| "purpose_info (SpillKey file_id spill_epoch txn_seq) = spill_info file_id spill_epoch txn_seq"

fun purpose_ok :: "key_purpose \<Rightarrow> bool" where
  "purpose_ok (DataKey realm file_id) \<longleftrightarrow> length realm = 16 \<and> length file_id = 16"
| "purpose_ok (IntegrityKey realm file_id) \<longleftrightarrow> length realm = 16 \<and> length file_id = 16"
| "purpose_ok HeaderKey \<longleftrightarrow> True"
| "purpose_ok (SpillKey file_id spill_epoch _) \<longleftrightarrow> length file_id = 16 \<and> length spill_epoch = 16"

lemma purpose_info_length:
  "purpose_ok p \<Longrightarrow> length (purpose_info p) =
     (case p of DataKey _ _ \<Rightarrow> 54 | IntegrityKey _ _ \<Rightarrow> 58 | HeaderKey \<Rightarrow> 20 | SpillKey _ _ _ \<Rightarrow> 53)"
  by (cases p) (simp_all add: dek_info_def ik_info_def hk_info_def spill_info_def scoped_info_def ascii_def)

text \<open>
  C19.  No two purposes share the input of the key derivation: under one master key, the data
  key and the integrity key of every realm and file, the header key and the spill key of every
  file, open and transaction all come from different derivation inputs.  (The realm, file and
  epoch identities are 16 bytes wide, as their types in the code say.)
\<close>

theorem key_inputs_distinct:
  assumes "purpose_ok p" "purpose_ok q"
  shows "purpose_info p = purpose_info q \<longleftrightarrow> p = q"
proof
  assume eq: "purpose_info p = purpose_info q"
  then have "length (purpose_info p) = length (purpose_info q)" by simp
  with assms eq show "p = q"
    unfolding purpose_info_length [OF assms(1)] purpose_info_length [OF assms(2)]
    by (cases p; cases q)
      (auto simp: dek_info_def ik_info_def spill_info_def scoped_info_inject le64.enc_inject)
qed simp

theorem key_inputs_distinct_witness:
  "purpose_info (DataKey (replicate 16 1) (replicate 16 2)) \<noteq>
   purpose_info (DataKey (replicate 16 1) (replicate 16 3))"
proof -
  have "(replicate 16 2 :: bytes) \<noteq> replicate 16 3"
    by (simp add: eval_nat_numeral)
  then show ?thesis
    using key_inputs_distinct [of "DataKey (replicate 16 1) (replicate 16 2)"
        "DataKey (replicate 16 1) (replicate 16 3)"] by simp
qed

section \<open>Master keys by epoch\<close>

type_synonym keyring = "((u64 \<times> u8) \<times> bytes) list"

definition keyring_new :: "u64 \<Rightarrow> cipher_id \<Rightarrow> bytes \<Rightarrow> keyring" where
  "keyring_new epoch cid mk = [((epoch, cipher_id_as_byte cid), mk)]"

definition keyring_install :: "u64 \<Rightarrow> cipher_id \<Rightarrow> bytes \<Rightarrow> keyring \<Rightarrow> keyring" where
  "keyring_install epoch cid mk ks = AList.update (epoch, cipher_id_as_byte cid) mk ks"

definition keyring_lease :: "keyring \<Rightarrow> u64 \<Rightarrow> cipher_id \<Rightarrow> bytes result" where
  "keyring_lease ks epoch cid =
     of_option (MissingPersistedKey epoch (cipher_id_as_byte cid)) (map_of ks (epoch, cipher_id_as_byte cid))"

definition keyring_remove :: "u64 \<Rightarrow> cipher_id \<Rightarrow> keyring \<Rightarrow> keyring" where
  "keyring_remove epoch cid ks = AList.delete (epoch, cipher_id_as_byte cid) ks"

lemma lease_install:
  "keyring_lease (keyring_install e c mk ks) e' c' =
     (if e' = e \<and> c' = c then Ok mk else keyring_lease ks e' c')"
  by (simp add: keyring_lease_def keyring_install_def update_conv')

lemma lease_remove:
  "keyring_lease (keyring_remove e c ks) e' c' =
     (if e' = e \<and> c' = c then Err (MissingPersistedKey e (cipher_id_as_byte c)) else keyring_lease ks e' c')"
  by (simp add: keyring_lease_def keyring_remove_def delete_conv')

section \<open>The cipher cache\<close>

record dek_key =
  dk_realm :: bytes
  dk_file_id :: bytes
  dk_mk_epoch :: u64
  dk_cipher_id_byte :: u8

record dek_lru =
  lru_map :: "(dek_key \<times> cipher) list"
  lru_order :: "dek_key list"
  lru_capacity :: nat

definition dek_lru_with_capacity :: "nat \<Rightarrow> dek_lru" where
  "dek_lru_with_capacity capacity = \<lparr>lru_map = [], lru_order = [], lru_capacity = max capacity 1\<rparr>"

definition invalidate_epoch :: "u64 \<Rightarrow> cipher_id \<Rightarrow> dek_lru \<Rightarrow> dek_lru" where
  "invalidate_epoch mk_epoch cid l =
     (let keep = (\<lambda>key. dk_mk_epoch key \<noteq> mk_epoch \<or> dk_cipher_id_byte key \<noteq> cipher_id_as_byte cid)
      in l\<lparr>lru_map := filter (\<lambda>(key, _). keep key) (lru_map l),
           lru_order := filter keep (lru_order l)\<rparr>)"

text \<open>The front of the list is the least recently used key.\<close>

definition get_or_derive ::
  "crypto_prims \<Rightarrow> bytes \<Rightarrow> bytes \<Rightarrow> u64 \<Rightarrow> cipher_id \<Rightarrow> bytes \<Rightarrow> dek_lru \<Rightarrow> cipher result \<times> dek_lru" where
  "get_or_derive P realm file_id mk_epoch cid mk l =
     (let key = \<lparr>dk_realm = realm, dk_file_id = file_id, dk_mk_epoch = mk_epoch,
                 dk_cipher_id_byte = cipher_id_as_byte cid\<rparr>
      in if map_of (lru_map l) key \<noteq> None
         then
           let l = (if key \<in> set (lru_order l)
                    then l\<lparr>lru_order := remove1 key (lru_order l) @ [key]\<rparr> else l)
           in (of_option (Io ''dek lru contract'') (map_of (lru_map l) key), l)
         else
           (case derive_cipher P cid mk realm file_id of
              Err e \<Rightarrow> (Err e, l)
            | Ok c \<Rightarrow>
                let l = (if length (lru_map l) \<ge> lru_capacity l
                         then (case lru_order l of
                                 [] \<Rightarrow> l
                               | victim # rest \<Rightarrow>
                                   l\<lparr>lru_order := rest, lru_map := AList.delete victim (lru_map l)\<rparr>)
                         else l);
                    l = l\<lparr>lru_order := lru_order l @ [key], lru_map := AList.update key c (lru_map l)\<rparr>
                in (of_option (Io ''dek lru insert'') (map_of (lru_map l) key), l)))"

text \<open>
  The invariant: the two structures list the same keys, within the capacity, and every entry
  is what the derivation gives under the master key \<open>mks\<close> holds for its epoch and cipher.
\<close>

definition lru_inv :: "crypto_prims \<Rightarrow> (u64 \<Rightarrow> u8 \<Rightarrow> bytes option) \<Rightarrow> dek_lru \<Rightarrow> bool" where
  "lru_inv P mks l \<longleftrightarrow>
     1 \<le> lru_capacity l \<and> length (lru_map l) \<le> lru_capacity l \<and> distinct (map fst (lru_map l)) \<and>
     distinct (lru_order l) \<and> set (lru_order l) = fst ` set (lru_map l) \<and>
     (\<forall>(key, c) \<in> set (lru_map l). \<exists>cid mk. dk_cipher_id_byte key = cipher_id_as_byte cid \<and>
        mks (dk_mk_epoch key) (dk_cipher_id_byte key) = Some mk \<and>
        derive_cipher P cid mk (dk_realm key) (dk_file_id key) = Ok c)"

lemma lru_inv_new: "lru_inv P mks (dek_lru_with_capacity n)"
  by (simp add: lru_inv_def dek_lru_with_capacity_def)

text \<open>Retiring or replacing one master key is covered by invalidating its epoch.\<close>

lemma lru_inv_invalidate:
  assumes inv: "lru_inv P mks l"
    and same: "\<And>e b. e \<noteq> mk_epoch \<or> b \<noteq> cipher_id_as_byte cid \<Longrightarrow> mks' e b = mks e b"
  shows "lru_inv P mks' (invalidate_epoch mk_epoch cid l)"
proof -
  define keep where
    "keep key \<longleftrightarrow> dk_mk_epoch key \<noteq> mk_epoch \<or> dk_cipher_id_byte key \<noteq> cipher_id_as_byte cid" for key :: dek_key
  have fst_filter: "map fst (filter (\<lambda>(key, _). keep key) xs) = filter keep (map fst xs)"
    for xs :: "(dek_key \<times> cipher) list"
    by (induction xs) auto
  have keys: "fst ` set (filter (\<lambda>(key, _). keep key) (lru_map l)) = set (filter keep (lru_order l))"
    using arg_cong [OF fst_filter [of "lru_map l"], of set] inv by (auto simp: lru_inv_def)
  have len: "length (filter (\<lambda>(key, _). keep key) (lru_map l)) \<le> lru_capacity l"
    by (rule order.trans [OF length_filter_le]) (use inv in \<open>simp add: lru_inv_def\<close>)
  have dist: "distinct (map fst (filter (\<lambda>(key, _). keep key) (lru_map l)))"
    unfolding fst_filter using inv by (simp add: lru_inv_def)
  have eq: "invalidate_epoch mk_epoch cid l =
      l\<lparr>lru_map := filter (\<lambda>(key, _). keep key) (lru_map l), lru_order := filter keep (lru_order l)\<rparr>"
    by (simp add: invalidate_epoch_def keep_def [abs_def] Let_def)
  have entries: "\<exists>cid mk. dk_cipher_id_byte key = cipher_id_as_byte cid \<and>
      mks' (dk_mk_epoch key) (dk_cipher_id_byte key) = Some mk \<and>
      derive_cipher P cid mk (dk_realm key) (dk_file_id key) = Ok c"
    if "(key, c) \<in> set (lru_map l)" "keep key" for key c
  proof -
    have "mks' (dk_mk_epoch key) (dk_cipher_id_byte key) = mks (dk_mk_epoch key) (dk_cipher_id_byte key)"
      using that(2) same unfolding keep_def by blast
    then show ?thesis using inv that(1) unfolding lru_inv_def by fastforce
  qed
  show ?thesis
    using inv keys len dist entries unfolding lru_inv_def eq by auto
qed

lemma lru_inv_hit:
  assumes "lru_inv P mks l" "key \<in> set (lru_order l)"
  shows "lru_inv P mks (l\<lparr>lru_order := remove1 key (lru_order l) @ [key]\<rparr>)"
  using assms by (auto simp: lru_inv_def)

lemma lru_inv_evict:
  assumes inv: "lru_inv P mks l" and ord: "lru_order l = victim # rest"
  shows "lru_inv P mks (l\<lparr>lru_order := rest, lru_map := AList.delete victim (lru_map l)\<rparr>)"
    "length (AList.delete victim (lru_map l)) < length (lru_map l)"
proof -
  have m: "victim \<in> fst ` set (lru_map l)" using inv ord by (auto simp: lru_inv_def)
  have d: "AList.delete victim (lru_map l) = filter (\<lambda>(k, _). victim \<noteq> k) (lru_map l)"
    by (simp add: AList.delete_eq)
  have f: "fst ` set (AList.delete victim (lru_map l)) = fst ` set (lru_map l) - {victim}"
    by (force simp: d)
  show lt: "length (AList.delete victim (lru_map l)) < length (lru_map l)"
    unfolding d using m by (auto intro!: length_filter_less)
  have dist: "distinct (map fst (AList.delete victim (lru_map l)))"
    using inv by (simp add: lru_inv_def distinct_delete)
  have sub: "set (AList.delete victim (lru_map l)) \<subseteq> set (lru_map l)"
    unfolding d by auto
  have entries: "\<forall>(key, c)\<in>set (AList.delete victim (lru_map l)). \<exists>cid mk.
      dk_cipher_id_byte key = cipher_id_as_byte cid \<and>
      mks (dk_mk_epoch key) (dk_cipher_id_byte key) = Some mk \<and>
      derive_cipher P cid mk (dk_realm key) (dk_file_id key) = Ok c"
    using inv sub unfolding lru_inv_def by blast
  have "set rest = fst ` set (AList.delete victim (lru_map l))"
    unfolding f using inv ord by (auto simp: lru_inv_def)
  then show "lru_inv P mks (l\<lparr>lru_order := rest, lru_map := AList.delete victim (lru_map l)\<rparr>)"
    using inv ord lt dist entries by (simp add: lru_inv_def)
qed

lemma update_append_new: "k \<notin> fst ` set al \<Longrightarrow> AList.update k v al = al @ [(k, v)]"
  by (induction al) auto

lemma lru_inv_insert:
  assumes inv: "lru_inv P mks l" and room: "length (lru_map l) < lru_capacity l"
    and new: "key \<notin> set (lru_order l)" and key: "dk_cipher_id_byte key = cipher_id_as_byte cid"
    and mk: "mks (dk_mk_epoch key) (dk_cipher_id_byte key) = Some mk"
    and c: "derive_cipher P cid mk (dk_realm key) (dk_file_id key) = Ok c"
  shows "lru_inv P mks (l\<lparr>lru_order := lru_order l @ [key], lru_map := AList.update key c (lru_map l)\<rparr>)"
proof -
  have "key \<notin> fst ` set (lru_map l)" using inv new by (simp add: lru_inv_def)
  then have upd: "AList.update key c (lru_map l) = lru_map l @ [(key, c)]"
    by (rule update_append_new)
  have entry: "\<exists>cid mk. dk_cipher_id_byte key = cipher_id_as_byte cid \<and>
      mks (dk_mk_epoch key) (dk_cipher_id_byte key) = Some mk \<and>
      derive_cipher P cid mk (dk_realm key) (dk_file_id key) = Ok c"
    using key mk c by blast
  show ?thesis
    using inv room new entry unfolding upd by (simp add: lru_inv_def)
qed

text \<open>
  C20.  The cipher cache is transparent.  When the caller passes the master key of the epoch and
  cipher it asks for, the answer is exactly the derived cipher -- on a hit, on a miss and on a
  miss that evicts -- the internal contract errors never occur, and the cache stays within its
  capacity with its order list and its map in step.
\<close>

theorem cipher_cache_transparent:
  assumes inv: "lru_inv P mks l" and mk: "mks mk_epoch (cipher_id_as_byte cid) = Some mk"
  shows "case get_or_derive P realm file_id mk_epoch cid mk l of
    (r, l') \<Rightarrow> r = derive_cipher P cid mk realm file_id \<and> lru_inv P mks l'"
proof (cases "map_of (lru_map l) \<lparr>dk_realm = realm, dk_file_id = file_id, dk_mk_epoch = mk_epoch,
    dk_cipher_id_byte = cipher_id_as_byte cid\<rparr>")
  case (Some c)
  let ?key = "\<lparr>dk_realm = realm, dk_file_id = file_id, dk_mk_epoch = mk_epoch,
    dk_cipher_id_byte = cipher_id_as_byte cid\<rparr>"
  have m: "(?key, c) \<in> set (lru_map l)" using Some by (rule map_of_SomeD)
  then have "?key \<in> set (lru_order l)" using inv by (force simp: lru_inv_def)
  moreover have "derive_cipher P cid mk realm file_id = Ok c"
    using inv m mk unfolding lru_inv_def by fastforce
  ultimately show ?thesis
    using Some lru_inv_hit [OF inv] by (simp add: get_or_derive_def Let_def)
next
  case None
  let ?key = "\<lparr>dk_realm = realm, dk_file_id = file_id, dk_mk_epoch = mk_epoch,
    dk_cipher_id_byte = cipher_id_as_byte cid\<rparr>"
  have new: "?key \<notin> set (lru_order l)" using inv None by (simp add: lru_inv_def map_of_eq_None_iff)
  show ?thesis
  proof (cases "derive_cipher P cid mk realm file_id")
    case (Err e)
    then show ?thesis using None inv by (simp add: get_or_derive_def Let_def)
  next
    case (Ok c)
    note ins = lru_inv_insert [where key = ?key and cid = cid and mk = mk and c = c]
    show ?thesis
    proof (cases "length (lru_map l) \<ge> lru_capacity l")
      case True
      have "set (lru_order l) \<noteq> {}" using True inv by (auto simp: lru_inv_def)
      then obtain victim rest where ord: "lru_order l = victim # rest"
        by (cases "lru_order l") auto
      note ev = lru_inv_evict [OF inv ord]
      have room: "length (AList.delete victim (lru_map l)) < lru_capacity l"
        using ev(2) inv by (simp add: lru_inv_def)
      show ?thesis
        using ins [OF ev(1)] room new mk Ok None True ord
        by (simp add: get_or_derive_def Let_def update_conv')
    next
      case False
      then show ?thesis
        using ins [OF inv] new mk Ok None by (simp add: get_or_derive_def Let_def update_conv')
    qed
  qed
qed

theorem cipher_cache_transparent_witness:
  "case get_or_derive demo_prims [1] [2] 0 Aes256GcmId [9] (dek_lru_with_capacity 1) of
     (r1, l1) \<Rightarrow>
       case get_or_derive demo_prims [3] [2] 0 Aes256GcmId [9] l1 of
         (r2, l2) \<Rightarrow> r2 = derive_cipher demo_prims Aes256GcmId [9] [3] [2] \<and>
           length (lru_map l2) \<le> lru_capacity l2"
proof -
  let ?mks = "\<lambda>_ _. Some [9]"
  obtain r1 l1 where 1: "get_or_derive demo_prims [1] [2] 0 Aes256GcmId [9] (dek_lru_with_capacity 1) = (r1, l1)"
    by fastforce
  obtain r2 l2 where 2: "get_or_derive demo_prims [3] [2] 0 Aes256GcmId [9] l1 = (r2, l2)"
    by fastforce
  have "lru_inv demo_prims ?mks l1"
    using cipher_cache_transparent
      [of demo_prims ?mks "dek_lru_with_capacity 1" 0 Aes256GcmId "[9]" "[1]" "[2]"] lru_inv_new 1
    by simp
  then have "r2 = derive_cipher demo_prims Aes256GcmId [9] [3] [2] \<and> lru_inv demo_prims ?mks l2"
    using cipher_cache_transparent [of demo_prims ?mks l1 0 Aes256GcmId "[9]" "[3]" "[2]"] 2 by simp
  then show ?thesis using 1 2 by (simp add: lru_inv_def)
qed

end
