(* ===== verification/Vfs_Io.thy ===== *)
theory Vfs_Io
  imports Prelude
begin

text \<open>
  The positional transfer loops and the path rules every backend shares
  (\<open>src/src/vfs/traits.rs\<close>).

  A backend may serve a request in several calls.  The loops \<open>read_exact_at\<close> and \<open>write_all_at\<close>
  take the backend's single-call operation as a function; the locale \<open>positional_file\<close> states what
  a backend promises about one call, and the loops are proved correct for every such backend.
\<close>

section \<open>Progress\<close>

definition checked_transfer_progress ::
  "u64 \<Rightarrow> nat \<Rightarrow> nat \<Rightarrow> string \<Rightarrow> string \<Rightarrow> u64 result" where
  "checked_transfer_progress offset transferred remaining operation offset_label =
     (if transferred > remaining
      then Err (VfsContractViolated operation ''reported more bytes than the caller requested'')
      else if transferred \<ge> 2 ^ 64 then Err (ArithmeticOverflow offset_label)
      else of_option (ArithmeticOverflow offset_label) (checked_add_u64 offset (of_nat transferred)))"

definition checked_read_progress :: "u64 \<Rightarrow> nat \<Rightarrow> nat \<Rightarrow> u64 result" where
  "checked_read_progress offset n_read remaining =
     (if n_read = 0 then Err (Io ''unexpected end of file'')
      else checked_transfer_progress offset n_read remaining ''read_at'' ''positional read offset'')"

definition checked_write_progress :: "u64 \<Rightarrow> nat \<Rightarrow> nat \<Rightarrow> (nat \<times> u64) result" where
  "checked_write_progress offset written remaining =
     (if written = 0 then Err (Io ''write zero'')
      else rmap (Pair written)
        (checked_transfer_progress offset written remaining ''write_at'' ''positional write offset''))"

lemma checked_transfer_progress_Ok:
  "checked_transfer_progress offset n remaining op_name label = Ok offset' \<longleftrightarrow>
     n \<le> remaining \<and> unat offset + n < 2 ^ 64 \<and> offset' = offset + of_nat n"
  by (auto simp: checked_transfer_progress_def checked_add_u64_def)

lemma checked_read_progress_Ok:
  "checked_read_progress offset n remaining = Ok offset' \<longleftrightarrow>
     0 < n \<and> n \<le> remaining \<and> unat offset + n < 2 ^ 64 \<and> offset' = offset + of_nat n"
  by (auto simp: checked_read_progress_def checked_transfer_progress_Ok)

lemma checked_write_progress_Ok:
  "checked_write_progress offset n remaining = Ok (m, offset') \<longleftrightarrow>
     m = n \<and> 0 < n \<and> n \<le> remaining \<and> unat offset + n < 2 ^ 64 \<and> offset' = offset + of_nat n"
  by (auto simp: checked_write_progress_def rmap_eq_Ok checked_transfer_progress_Ok)

section \<open>The transfer loops\<close>

text \<open>
  One read call gets an offset and the length of the buffer; it reports a count and the bytes it
  placed at the front of the buffer.  One write call gets an offset and the bytes, and reports a
  count.
\<close>

type_synonym read_call = "u64 \<Rightarrow> nat \<Rightarrow> (nat \<times> bytes) result"
type_synonym 's write_call = "u64 \<Rightarrow> bytes \<Rightarrow> 's \<Rightarrow> nat result \<times> 's"

definition fill :: "bytes \<Rightarrow> bytes \<Rightarrow> bytes" where
  "fill buf data = take (length buf) data @ drop (length data) buf"

lemma fill_length [simp]: "length (fill buf data) = length buf"
  by (simp add: fill_def)

lemma fill_full [simp]: "length data = length buf \<Longrightarrow> fill buf data = data"
  by (simp add: fill_def)

lemma fill_split:
  "k = length data \<Longrightarrow> k \<le> length buf \<Longrightarrow>
     take k (fill buf data) @ fill (drop k (fill buf data)) rest = fill buf (data @ rest)"
  by (simp add: fill_def add.commute)

text \<open>The buffer is returned with the outcome: after an error it holds what was transferred.\<close>

function read_exact_at :: "read_call \<Rightarrow> u64 \<Rightarrow> bytes \<Rightarrow> unit result \<times> bytes" where
  "read_exact_at rd_call offset buf =
     (if buf = [] then (Ok (), buf)
      else
        case rd_call offset (length buf) of
          Err e \<Rightarrow> (Err e, buf)
        | Ok (n, data) \<Rightarrow>
            let buf = fill buf data
            in case checked_read_progress offset n (length buf) of
                 Err e \<Rightarrow> (Err e, buf)
               | Ok offset' \<Rightarrow>
                   let (r, rest) = read_exact_at rd_call offset' (drop n buf)
                   in (r, take n buf @ rest))"
  by pat_completeness auto
termination
  by (relation "measure (\<lambda>(_, _, buf). length buf)") (auto simp: checked_read_progress_Ok)

declare read_exact_at.simps [simp del]

function write_all_at :: "'s write_call \<Rightarrow> u64 \<Rightarrow> bytes \<Rightarrow> 's \<Rightarrow> unit result \<times> 's" where
  "write_all_at wr_call offset buf s =
     (if buf = [] then (Ok (), s)
      else
        case wr_call offset buf s of
          (Err e, s) \<Rightarrow> (Err e, s)
        | (Ok n, s) \<Rightarrow>
            (case checked_write_progress offset n (length buf) of
               Err e \<Rightarrow> (Err e, s)
             | Ok (consumed, offset') \<Rightarrow> write_all_at wr_call offset' (drop consumed buf) s))"
  by pat_completeness auto
termination
  by (relation "measure (\<lambda>(_, _, buf, _). length buf)") (auto simp: checked_write_progress_Ok)

declare write_all_at.simps [simp del]

text \<open>The content of a file after a write: a gap before the offset reads as zeros.\<close>

definition overlay :: "bytes \<Rightarrow> nat \<Rightarrow> bytes \<Rightarrow> bytes" where
  "overlay content off data =
     take off (content @ replicate (off - length content) 0) @ data @ drop (off + length data) content"

lemma overlay_length: "length (overlay content off data) = max (length content) (off + length data)"
  by (auto simp: overlay_def)

lemma overlay_nil: "off \<le> length content \<Longrightarrow> overlay content off [] = content"
  by (simp add: overlay_def)

text \<open>Two adjacent writes are one write.\<close>

lemma overlay_append:
  "overlay (overlay content off xs) (off + length xs) ys = overlay content off (xs @ ys)"
proof -
  have "take (off + length xs) (overlay content off xs @ replicate (off + length xs - length (overlay content off xs)) 0) =
      take off (content @ replicate (off - length content) 0) @ xs"
    by (simp add: overlay_def)
  moreover have "drop (off + length xs + length ys) (overlay content off xs) =
      drop (off + length xs + length ys) content"
  proof -
    have "min (length content) off + (off - length content) = off" by simp
    then show ?thesis by (simp add: overlay_def min.commute add.commute add.left_commute)
  qed
  ultimately show ?thesis by (simp add: overlay_def add.assoc)
qed

lemma overlay_slice_same:
  "take (length data) (drop off (overlay content off data)) = data"
  by (simp add: overlay_def)

lemma overlay_slice_other:
  assumes "a + n \<le> length content" "a + n \<le> off \<or> off + length data \<le> a"
  shows "take n (drop a (overlay content off data)) = take n (drop a content)"
  using assms(2)
proof
  assume "a + n \<le> off"
  then show ?thesis
    using assms(1) by (auto simp: overlay_def min_def drop_take intro: nth_equalityI)
next
  assume "off + length data \<le> a"
  moreover have "off \<le> length content" using calculation assms(1) by simp
  ultimately show ?thesis by (simp add: overlay_def min_def add.commute)
qed

section \<open>Backends\<close>

locale positional_file =
  fixes rd_call :: "'s \<Rightarrow> read_call" and wr_call :: "'s write_call" and content :: "'s \<Rightarrow> bytes"
    and can_write :: "'s \<Rightarrow> bool"
  assumes read_at_count: "rd_call s offset n = Ok (k, data) \<Longrightarrow> length data = k"
    and read_at_within: "rd_call s offset n = Ok (k, data) \<Longrightarrow> k \<le> n"
    and read_at_data: "rd_call s offset n = Ok (k, data) \<Longrightarrow>
      data = take k (drop (unat offset) (content s))"
    and read_at_progress: "0 < n \<Longrightarrow> unat offset < length (content s) \<Longrightarrow>
      \<exists>k data. rd_call s offset n = Ok (k, data) \<and> 0 < k"
    and read_at_eof: "length (content s) \<le> unat offset \<Longrightarrow> rd_call s offset n = Ok (0, [])"
    and write_at_prefix: "wr_call offset data s = (Ok k, s') \<Longrightarrow>
      k \<le> length data \<and> content s' = overlay (content s) (unat offset) (take k data) \<and> can_write s' = can_write s"
    and write_at_progress: "can_write s \<Longrightarrow> data \<noteq> [] \<Longrightarrow> unat offset + length data < 2 ^ 64 \<Longrightarrow>
      \<exists>k s'. wr_call offset data s = (Ok k, s') \<and> 0 < k"
begin

text \<open>A read inside the file returns its bytes, whatever the sizes of the single transfers.\<close>

lemma read_exact_at_inside:
  "unat offset + length buf \<le> length (content s) \<Longrightarrow> length (content s) < 2 ^ 64 \<Longrightarrow>
     read_exact_at (rd_call s) offset buf =
       (Ok (), take (length buf) (drop (unat offset) (content s)))"
proof (induction "length buf" arbitrary: offset buf rule: less_induct)
  case less
  show ?case
  proof (cases "buf = []")
    case True
    then show ?thesis by (simp add: read_exact_at.simps)
  next
    case False
    then obtain k data where r: "rd_call s offset (length buf) = Ok (k, data)" "0 < k"
      using read_at_progress [of "length buf" offset s] less.prems by (cases buf) auto
    note pl = read_at_count [OF r(1)] and pk = read_at_within [OF r(1)] and pd = read_at_data [OF r(1)]
    have off: "unat (offset + of_nat k) = unat offset + k"
      using pk less.prems by (simp add: unat_add_u64_no_wrap)
    have prog: "checked_read_progress offset k (length buf) = Ok (offset + of_nat k)"
      using pk r(2) less.prems by (simp add: checked_read_progress_Ok)
    have "read_exact_at (rd_call s) (offset + of_nat k) (drop k (fill buf data)) =
        (Ok (), take (length buf - k) (drop (unat offset + k) (content s)))"
      using less.hyps [of "drop k (fill buf data)" "offset + of_nat k"] pk pl r(2) less.prems off False
      by simp
    moreover have "take k (fill buf data) = take k (drop (unat offset) (content s))"
      using pl pk pd by (simp add: fill_def)
    moreover have "take k (drop (unat offset) (content s)) @
        take (length buf - k) (drop (unat offset + k) (content s)) =
        take (length buf) (drop (unat offset) (content s))"
      using pk take_add [of k "length buf - k" "drop (unat offset) (content s)"] by (simp add: add.commute)
    ultimately show ?thesis
      using r prog by (subst read_exact_at.simps) (simp add: False Let_def)
  qed
qed

text \<open>A read that runs off the end reports it and keeps the bytes there were.\<close>

lemma read_exact_at_eof:
  "length (content s) < unat offset + length buf \<Longrightarrow> length (content s) < 2 ^ 64 \<Longrightarrow>
     unat offset \<le> length (content s) \<Longrightarrow>
     read_exact_at (rd_call s) offset buf =
       (Err (Io ''unexpected end of file''), fill buf (drop (unat offset) (content s)))"
proof (induction "length buf" arbitrary: offset buf rule: less_induct)
  case less
  then have ne: "buf \<noteq> []" by auto
  show ?case
  proof (cases "unat offset = length (content s)")
    case True
    then show ?thesis
      using ne read_at_eof [of s offset "length buf"]
      by (subst read_exact_at.simps) (simp add: checked_read_progress_def fill_def Let_def)
  next
    case False
    then obtain k data where r: "rd_call s offset (length buf) = Ok (k, data)" "0 < k"
      using read_at_progress [of "length buf" offset s] less.prems ne by auto
    note pl = read_at_count [OF r(1)] and pk = read_at_within [OF r(1)] and pd = read_at_data [OF r(1)]
    have kl: "unat offset + k \<le> length (content s)"
    proof -
      have "length data = min (length (content s) - unat offset) k"
        unfolding pd by (simp add: min.commute)
      then show ?thesis using pl less.prems(3) by simp
    qed
    have off: "unat (offset + of_nat k) = unat offset + k"
      using kl less.prems by (simp add: unat_add_u64_no_wrap)
    have prog: "checked_read_progress offset k (length buf) = Ok (offset + of_nat k)"
      using pk r(2) kl less.prems by (simp add: checked_read_progress_Ok)
    have "read_exact_at (rd_call s) (offset + of_nat k) (drop k (fill buf data)) =
        (Err (Io ''unexpected end of file''), fill (drop k (fill buf data)) (drop (unat offset + k) (content s)))"
      using less.hyps [of "drop k (fill buf data)" "offset + of_nat k"] pk pl r(2) less.prems off kl ne
      by simp
    moreover have "take k (fill buf data) @ fill (drop k (fill buf data)) (drop (unat offset + k) (content s)) =
        fill buf (drop (unat offset) (content s))"
    proof -
      have "data @ drop (unat offset + k) (content s) = drop (unat offset) (content s)"
        unfolding pd by (metis append_take_drop_id drop_drop add.commute)
      then show ?thesis
        using fill_split [of k data buf "drop (unat offset + k) (content s)"] pl pk by simp
    qed
    ultimately show ?thesis
      using r prog by (subst read_exact_at.simps) (simp add: ne Let_def)
  qed
qed

text \<open>A write of a whole buffer lands in one piece, whatever the sizes of the single transfers.\<close>

lemma write_all_at_content:
  "can_write s \<Longrightarrow> buf \<noteq> [] \<or> unat offset \<le> length (content s) \<Longrightarrow> unat offset + length buf < 2 ^ 64 \<Longrightarrow>
     \<exists>s'. write_all_at wr_call offset buf s = (Ok (), s') \<and>
       content s' = overlay (content s) (unat offset) buf \<and> can_write s'"
proof (induction "length buf" arbitrary: offset buf s rule: less_induct)
  case less
  show ?case
  proof (cases "buf = []")
    case True
    then show ?thesis using less.prems by (simp add: write_all_at.simps overlay_nil)
  next
    case False
    then obtain k s1 where w: "wr_call offset buf s = (Ok k, s1)" "0 < k"
      using write_at_progress less.prems by blast
    note p = write_at_prefix [OF w(1)]
    have off: "unat (offset + of_nat k) = unat offset + k"
      using p less.prems by (simp add: unat_add_u64_no_wrap)
    have prog: "checked_write_progress offset k (length buf) = Ok (k, offset + of_nat k)"
      using p w(2) less.prems by (simp add: checked_write_progress_Ok)
    have "\<exists>s'. write_all_at wr_call (offset + of_nat k) (drop k buf) s1 = (Ok (), s') \<and>
        content s' = overlay (content s1) (unat (offset + of_nat k)) (drop k buf) \<and> can_write s'"
      using less.hyps [of "drop k buf" s1 "offset + of_nat k"] p w(2) less.prems off False
      by (simp add: overlay_length)
    moreover have "overlay (content s1) (unat offset + k) (drop k buf) = overlay (content s) (unat offset) buf"
      using p overlay_append [of "content s" "unat offset" "take k buf" "drop k buf"] by simp
    ultimately show ?thesis
      using w prog off by (subst write_all_at.simps) (simp add: False)
  qed
qed

end

end
