(* ===== verification/Vfs_Path.thy ===== *)
theory Vfs_Path
  imports Prelude
begin

text \<open>
  Logical paths (\<open>canonical_native_path\<close> of \<open>src/src/vfs/traits.rs\<close>).  A path is cut at slashes and
  backslashes; every component must be an ordinary name, so that joining it below a root can
  never leave the root.
\<close>

definition is_sep :: "char \<Rightarrow> bool" where
  "is_sep c \<longleftrightarrow> c = CHR ''/'' \<or> c = CHR 0x5C"

definition trim_seps :: "string \<Rightarrow> string" where
  "trim_seps p = rev (dropWhile is_sep (rev (dropWhile is_sep p)))"

fun split_seps :: "string \<Rightarrow> string list" where
  "split_seps [] = [[]]"
| "split_seps (c # p) =
     (if is_sep c then [] # split_seps p
      else case split_seps p of [] \<Rightarrow> [[c]] | q # qs \<Rightarrow> (c # q) # qs)"

text \<open>
  The parser of \<open>std::path\<close> reads a single component without separators as a plain name unless it
  is empty or one of the two dot components; a colon is refused on every target.
\<close>

definition is_plain_path_component :: "string \<Rightarrow> bool" where
  "is_plain_path_component part \<longleftrightarrow>
     CHR '':'' \<notin> set part \<and> part \<noteq> [] \<and> part \<noteq> ''.'' \<and> part \<noteq> ''..''"

fun join_slash :: "string list \<Rightarrow> string" where
  "join_slash [] = []"
| "join_slash [p] = p"
| "join_slash (p # q # ps) = p @ CHR ''/'' # join_slash (q # ps)"

definition canonical_native_path :: "string \<Rightarrow> string result" where
  "canonical_native_path path =
     (let trimmed = trim_seps path
      in if trimmed = [] then Ok ''/''
         else
           let parts = split_seps trimmed
           in if \<not> list_all is_plain_path_component parts then Err (Io ''VFS path escapes root'')
              else Ok (CHR ''/'' # join_slash parts))"

section \<open>Canonical paths\<close>

lemma split_seps_not_Nil [simp]: "split_seps p \<noteq> []"
  by (cases p) (auto split: list.splits)

lemma split_seps_no_sep: "q \<in> set (split_seps p) \<Longrightarrow> \<not> (\<exists>c \<in> set q. is_sep c)"
  by (induction p arbitrary: q) (fastforce split: if_splits list.splits)+

lemma split_seps_plain: "\<not> (\<exists>c \<in> set p. is_sep c) \<Longrightarrow> split_seps p = [p]"
  by (induction p) auto

lemma split_seps_append:
  "\<not> (\<exists>c \<in> set p. is_sep c) \<Longrightarrow> split_seps (p @ CHR ''/'' # r) = p # split_seps r"
  by (induction p) (auto simp: is_sep_def)

lemma split_join:
  "ps \<noteq> [] \<Longrightarrow> (\<And>p. p \<in> set ps \<Longrightarrow> \<not> (\<exists>c \<in> set p. is_sep c)) \<Longrightarrow> split_seps (join_slash ps) = ps"
proof (induction ps rule: join_slash.induct)
  case (3 p q ps)
  have "\<not> (\<exists>c \<in> set p. is_sep c)" using 3(3) [of p] by simp
  note app = split_seps_append [OF this]
  have "split_seps (join_slash (q # ps)) = q # ps" using 3(1) 3(3) by simp
  then show ?case by (simp add: app)
qed (auto simp: split_seps_plain)

lemma join_slash_Nil: "join_slash ps = [] \<Longrightarrow> (\<And>p. p \<in> set ps \<Longrightarrow> p \<noteq> []) \<Longrightarrow> ps = []"
  by (cases ps rule: join_slash.cases) auto

lemma dropWhile_hd: "xs = [] \<or> \<not> P (hd xs) \<Longrightarrow> dropWhile P xs = xs"
  by (cases xs) auto

lemma join_slash_ends:
  assumes "ps \<noteq> []" "\<And>p. p \<in> set ps \<Longrightarrow> p \<noteq> [] \<and> \<not> (\<exists>c \<in> set p. is_sep c)"
  shows "join_slash ps \<noteq> []" "\<not> is_sep (hd (join_slash ps))" "\<not> is_sep (last (join_slash ps))"
proof -
  have "join_slash ps \<noteq> [] \<and> \<not> is_sep (hd (join_slash ps)) \<and> \<not> is_sep (last (join_slash ps))"
    using assms
  proof (induction ps rule: join_slash.induct)
    case (2 p)
    then have "p \<noteq> []" "\<not> (\<exists>c \<in> set p. is_sep c)" using 2(2) [of p] by auto
    then show ?case by simp
  next
    case (3 p q ps)
    have p: "p \<noteq> []" "\<not> (\<exists>c \<in> set p. is_sep c)" using 3(3) [of p] by auto
    have "join_slash (q # ps) \<noteq> [] \<and> \<not> is_sep (last (join_slash (q # ps)))"
      using 3(1) 3(3) by (metis list.discI list.set_intros(2))
    then show ?case using p by simp
  qed simp
  then show "join_slash ps \<noteq> []" "\<not> is_sep (hd (join_slash ps))" "\<not> is_sep (last (join_slash ps))"
    by simp_all
qed

lemma trim_seps_canonical:
  assumes "p \<noteq> []" "\<not> is_sep (hd p)" "\<not> is_sep (last p)"
  shows "trim_seps (CHR ''/'' # p) = p"
proof -
  have d: "dropWhile is_sep p = p" using assms by (intro dropWhile_hd) simp
  have "dropWhile is_sep (rev p) = rev p"
    using assms by (intro dropWhile_hd) (simp add: hd_rev)
  then show ?thesis by (simp add: trim_seps_def d is_sep_def)
qed

text \<open>
  C26.  A canonical path stays below its root and is a fixed point: when a path is accepted, the
  result is the root or a slash-separated list of ordinary names -- no empty, dot, dot-dot or
  drive component survives -- and canonicalising it again changes nothing, so that one file has
  one name.
\<close>

theorem canonical_path_confined:
  assumes "canonical_native_path path = Ok p"
  shows "canonical_native_path p = Ok p \<and>
    (p = ''/'' \<or> (\<exists>parts. parts \<noteq> [] \<and> p = CHR ''/'' # join_slash parts \<and>
       split_seps (join_slash parts) = parts \<and>
       (\<forall>c \<in> set parts. is_plain_path_component c \<and> \<not> (\<exists>x \<in> set c. is_sep x))))"
proof (cases "trim_seps path = []")
  case True
  then have "p = ''/''" using assms by (simp add: canonical_native_path_def)
  then show ?thesis by (simp add: canonical_native_path_def trim_seps_def is_sep_def)
next
  case False
  let ?parts = "split_seps (trim_seps path)"
  have plain: "list_all is_plain_path_component ?parts" and p: "p = CHR ''/'' # join_slash ?parts"
    using assms False by (auto simp: canonical_native_path_def Let_def split: if_splits)
  have c: "q \<noteq> [] \<and> \<not> (\<exists>x \<in> set q. is_sep x)" if "q \<in> set ?parts" for q
    using that plain split_seps_no_sep [OF that] by (auto simp: list_all_iff is_plain_path_component_def)
  note ends = join_slash_ends [OF split_seps_not_Nil c]
  have split: "split_seps (join_slash ?parts) = ?parts"
    using c by (intro split_join) auto
  have "canonical_native_path p = Ok p"
    using ends trim_seps_canonical [OF ends] plain split
    by (simp add: canonical_native_path_def p)
  then show ?thesis
    using plain split c p by (auto simp: list_all_iff intro!: exI [of _ ?parts])
qed

theorem canonical_path_confined_witness:
  "canonical_native_path ''seg//''  = Ok ''/seg'' \<and> canonical_native_path ''/seg'' = Ok ''/seg''"
proof -
  have "canonical_native_path ''seg//'' = Ok ''/seg''" by code_simp
  then show ?thesis using canonical_path_confined by blast
qed

lemma canonical_path_rejects:
  "canonical_native_path ''a/../b'' = Err (Io ''VFS path escapes root'')"
  "canonical_native_path ''a//b'' = Err (Io ''VFS path escapes root'')"
  "canonical_native_path ''a/C:/b'' = Err (Io ''VFS path escapes root'')"
  by code_simp+

end
