(* ===== verification/Mem_Vfs.thy ===== *)
theory Mem_Vfs
  imports Vfs_Io Vfs_Path "HOL-Library.AList"
begin

text \<open>
  The RAM-backed file system (\<open>src/src/vfs/memory.rs\<close>), which the source names as the reference
  semantics of the native backends.  A path leads to an inode; a handle holds the inode, so that
  a rename or a removal does not affect it.  Advisory locks are a state per path.
\<close>

section \<open>Files\<close>

datatype open_mode = OmRead | OmReadWrite | OmCreateNew | OmCreateOrOpen

datatype lock_state = LockFree | LockExclusive | LockShared u32

datatype lock_kind = KindExclusive | KindShared

record mem_vfs =
  mv_files :: "(string \<times> nat) list"
  mv_data :: "nat \<Rightarrow> bytes"
  mv_next_inode :: nat
  mv_locks :: "string \<Rightarrow> lock_state"

record mem_file =
  mf_inode :: nat
  mf_writable :: bool

definition mem_vfs_new :: mem_vfs where
  "mem_vfs_new = \<lparr>mv_files = [], mv_data = (\<lambda>_. []), mv_next_inode = 0, mv_locks = (\<lambda>_. LockFree)\<rparr>"

definition mem_open :: "string \<Rightarrow> open_mode \<Rightarrow> mem_vfs \<Rightarrow> mem_file result \<times> mem_vfs" where
  "mem_open path mode v =
     (case canonical_native_path path of
        Err e \<Rightarrow> (Err e, v)
      | Ok path \<Rightarrow>
          (case map_of (mv_files v) path of
             Some inode \<Rightarrow>
               (case mode of
                  OmRead \<Rightarrow> (Ok \<lparr>mf_inode = inode, mf_writable = False\<rparr>, v)
                | OmReadWrite \<Rightarrow> (Ok \<lparr>mf_inode = inode, mf_writable = True\<rparr>, v)
                | OmCreateOrOpen \<Rightarrow> (Ok \<lparr>mf_inode = inode, mf_writable = True\<rparr>, v)
                | OmCreateNew \<Rightarrow> (Err (Io ''already exists''), v))
           | None \<Rightarrow>
               if mode = OmRead \<or> mode = OmReadWrite then (Err (Io ''not found''), v)
               else
                 let inode = mv_next_inode v
                 in (Ok \<lparr>mf_inode = inode, mf_writable = True\<rparr>,
                     v\<lparr>mv_files := AList.update path inode (mv_files v),
                       mv_data := (mv_data v)(inode := []), mv_next_inode := inode + 1\<rparr>)))"

definition mem_remove :: "string \<Rightarrow> mem_vfs \<Rightarrow> unit result \<times> mem_vfs" where
  "mem_remove path v =
     (case canonical_native_path path of
        Err e \<Rightarrow> (Err e, v)
      | Ok path \<Rightarrow> (Ok (), v\<lparr>mv_files := AList.delete path (mv_files v)\<rparr>))"

definition mem_rename :: "string \<Rightarrow> string \<Rightarrow> mem_vfs \<Rightarrow> unit result \<times> mem_vfs" where
  "mem_rename from_path to_path v =
     (case canonical_native_path from_path of
        Err e \<Rightarrow> (Err e, v)
      | Ok from_path \<Rightarrow>
          (case canonical_native_path to_path of
             Err e \<Rightarrow> (Err e, v)
           | Ok to_path \<Rightarrow>
               (case map_of (mv_files v) from_path of
                  None \<Rightarrow> (Err (Io ''not found''), v)
                | Some inode \<Rightarrow>
                    (Ok (), v\<lparr>mv_files := AList.update to_path inode (AList.delete from_path (mv_files v))\<rparr>))))"

definition mem_read_at :: "mem_vfs \<Rightarrow> mem_file \<Rightarrow> read_call" where
  "mem_read_at v f offset n =
     (let data = mv_data v (mf_inode f)
      in if unat offset \<ge> length data then Ok (0, [])
         else
           let k = min n (length data - unat offset)
           in Ok (k, take k (drop (unat offset) data)))"

text \<open>\<open>Vec::resize\<close> with zeros.\<close>

definition resize :: "bytes \<Rightarrow> nat \<Rightarrow> bytes" where
  "resize xs n = take n xs @ replicate (n - length xs) 0"

definition copy_into :: "nat \<Rightarrow> bytes \<Rightarrow> bytes \<Rightarrow> bytes" where
  "copy_into off buf data = take off data @ buf @ drop (off + length buf) data"

definition mem_write_at :: "mem_file \<Rightarrow> mem_vfs write_call" where
  "mem_write_at f offset buf v =
     (if \<not> mf_writable f then (Err ReadOnly, v)
      else
        case checked_add (unat offset) (length buf) of
          None \<Rightarrow> (Err (Io ''invalid input''), v)
        | Some e \<Rightarrow>
            let data = mv_data v (mf_inode f);
                data = (if e > length data then resize data e else data);
                data = copy_into (unat offset) buf data
            in (Ok (length buf), v\<lparr>mv_data := (mv_data v)(mf_inode f := data)\<rparr>))"

definition mem_write_at_vectored ::
  "mem_file \<Rightarrow> (u64 \<times> bytes) list \<Rightarrow> mem_vfs \<Rightarrow> unit result \<times> mem_vfs" where
  "mem_write_at_vectored f reqs v =
     (if \<not> mf_writable f then (Err ReadOnly, v)
      else
        case traverse (\<lambda>(offset, buf). of_option (Io ''invalid input'') (checked_add (unat offset) (length buf))) reqs of
          Err e \<Rightarrow> (Err e, v)
        | Ok ends \<Rightarrow>
            let max_end = fold max ends 0;
                data = mv_data v (mf_inode f);
                data = (if max_end > length data then resize data max_end else data);
                data = fold (\<lambda>(offset, buf) d. copy_into (unat offset) buf d) reqs data
            in (Ok (), v\<lparr>mv_data := (mv_data v)(mf_inode f := data)\<rparr>))"

definition mem_truncate :: "mem_file \<Rightarrow> u64 \<Rightarrow> mem_vfs \<Rightarrow> unit result \<times> mem_vfs" where
  "mem_truncate f len v =
     (if \<not> mf_writable f then (Err ReadOnly, v)
      else (Ok (), v\<lparr>mv_data := (mv_data v)(mf_inode f := resize (mv_data v (mf_inode f)) (unat len))\<rparr>))"

text \<open>Memory has nothing to make durable: \<open>sync\<close> only succeeds.\<close>

definition mem_sync :: "mem_file \<Rightarrow> mem_vfs \<Rightarrow> unit result \<times> mem_vfs" where
  "mem_sync f v = (Ok (), v)"

definition mem_len :: "mem_vfs \<Rightarrow> mem_file \<Rightarrow> u64 result" where
  "mem_len v f =
     (if length (mv_data v (mf_inode f)) < 2 ^ 64 then Ok (of_nat (length (mv_data v (mf_inode f))))
      else Err (Io ''invalid input''))"

section \<open>Locks\<close>

definition mem_lock_exclusive :: "string \<Rightarrow> mem_vfs \<Rightarrow> (string \<times> lock_kind) result \<times> mem_vfs" where
  "mem_lock_exclusive path v =
     (case canonical_native_path path of
        Err e \<Rightarrow> (Err e, v)
      | Ok path \<Rightarrow>
          (case mv_locks v path of
             LockFree \<Rightarrow> (Ok (path, KindExclusive), v\<lparr>mv_locks := (mv_locks v)(path := LockExclusive)\<rparr>)
           | _ \<Rightarrow> (Err AlreadyLocked, v)))"

definition mem_lock_shared :: "string \<Rightarrow> mem_vfs \<Rightarrow> (string \<times> lock_kind) result \<times> mem_vfs" where
  "mem_lock_shared path v =
     (case canonical_native_path path of
        Err e \<Rightarrow> (Err e, v)
      | Ok path \<Rightarrow>
          (case mv_locks v path of
             LockFree \<Rightarrow> (Ok (path, KindShared), v\<lparr>mv_locks := (mv_locks v)(path := LockShared 1)\<rparr>)
           | LockShared n \<Rightarrow>
               if n = - 1 then (Err (Panic ''attempt to add with overflow''), v)
               else (Ok (path, KindShared), v\<lparr>mv_locks := (mv_locks v)(path := LockShared (n + 1))\<rparr>)
           | LockExclusive \<Rightarrow> (Err AlreadyLocked, v)))"

definition mem_lock_drop :: "string \<times> lock_kind \<Rightarrow> mem_vfs \<Rightarrow> mem_vfs" where
  "mem_lock_drop h v =
     (case h of (path, kind) \<Rightarrow>
       (case (kind, mv_locks v path) of
          (KindExclusive, LockExclusive) \<Rightarrow> v\<lparr>mv_locks := (mv_locks v)(path := LockFree)\<rparr>
        | (KindShared, LockShared n) \<Rightarrow>
            if n = 1 then v\<lparr>mv_locks := (mv_locks v)(path := LockFree)\<rparr>
            else if n > 1 then v\<lparr>mv_locks := (mv_locks v)(path := LockShared (n - 1))\<rparr>
            else v
        | _ \<Rightarrow> v))"

section \<open>What a handle sees\<close>

lemma resize_length [simp]: "length (resize xs n) = n"
  by (simp add: resize_def)

lemma copy_into_length [simp]: "off + length buf \<le> length data \<Longrightarrow> length (copy_into off buf data) = length data"
  by (simp add: copy_into_def)

lemma write_overlay:
  "copy_into off buf (if off + length buf > length data then resize data (off + length buf) else data) =
     overlay data off buf"
  by (auto simp: copy_into_def overlay_def resize_def)

lemma mem_write_at_content:
  "mf_writable f \<Longrightarrow> unat offset + length buf < 2 ^ 64 \<Longrightarrow>
     mem_write_at f offset buf v =
       (Ok (length buf), v\<lparr>mv_data := (mv_data v)(mf_inode f := overlay (mv_data v (mf_inode f)) (unat offset) buf)\<rparr>)"
  using write_overlay [of "unat offset" buf "mv_data v (mf_inode f)"]
  by (simp add: mem_write_at_def checked_add_def Let_def)

interpretation mem: positional_file "\<lambda>(v, f). mem_read_at v f"
  "\<lambda>offset buf (v, f). case mem_write_at f offset buf v of (r, v') \<Rightarrow> (r, (v', f))"
  "\<lambda>(v, f). mv_data v (mf_inode f)" "\<lambda>(v, f). mf_writable f"
proof (unfold_locales, goal_cases)
  case (6 offset data s k s')
  then show ?case
    by (cases s)
      (auto simp: mem_write_at_def checked_add_def Let_def write_overlay split: if_splits option.splits)
next
  case (7 s data offset)
  then show ?case by (cases s) (auto simp: mem_write_at_content)
qed (auto simp: mem_read_at_def Let_def split: if_splits)

text \<open>Reading a range of a handle, and writing one, in terms of the file's content.\<close>

definition file_content :: "mem_vfs \<Rightarrow> mem_file \<Rightarrow> bytes" where
  "file_content v f = mv_data v (mf_inode f)"

definition mem_read_exact :: "mem_vfs \<Rightarrow> mem_file \<Rightarrow> u64 \<Rightarrow> bytes \<Rightarrow> unit result \<times> bytes" where
  "mem_read_exact v f offset buf = read_exact_at (mem_read_at v f) offset buf"

definition mem_write_all :: "mem_file \<Rightarrow> u64 \<Rightarrow> bytes \<Rightarrow> mem_vfs \<Rightarrow> unit result \<times> mem_vfs" where
  "mem_write_all f offset buf v = write_all_at (mem_write_at f) offset buf v"

lemma mem_read_inside:
  assumes "unat offset + length buf \<le> length (file_content v f)" "length (file_content v f) < 2 ^ 64"
  shows "mem_read_exact v f offset buf = (Ok (), take (length buf) (drop (unat offset) (file_content v f)))"
  using mem.read_exact_at_inside [of offset buf "(v, f)"] assms
  by (simp add: mem_read_exact_def file_content_def)

lemma mem_read_eof:
  assumes "length (file_content v f) < unat offset + length buf" "length (file_content v f) < 2 ^ 64"
    "unat offset \<le> length (file_content v f)"
  shows "mem_read_exact v f offset buf =
    (Err (Io ''unexpected end of file''), fill buf (drop (unat offset) (file_content v f)))"
  using mem.read_exact_at_eof [of "(v, f)" offset buf] assms
  by (simp add: mem_read_exact_def file_content_def)

lemma mem_write_all_eq:
  assumes "mf_writable f" "buf \<noteq> []" "unat offset + length buf < 2 ^ 64"
  shows "mem_write_all f offset buf v =
    (Ok (), v\<lparr>mv_data := (mv_data v)(mf_inode f := overlay (file_content v f) (unat offset) buf)\<rparr>)"
proof -
  have "checked_write_progress offset (length buf) (length buf) = Ok (length buf, offset + of_nat (length buf))"
    using assms by (simp add: checked_write_progress_Ok)
  then show ?thesis
    using assms unfolding mem_write_all_def
    by (subst write_all_at.simps) (simp add: mem_write_at_content file_content_def write_all_at.simps [of _ _ "[]"])
qed

text \<open>
  C27.  A write through a handle is what every handle of that file reads afterwards: the range
  written holds the buffer, every other range of the file keeps its bytes, the gap a write past
  the end leaves reads as zeros, and other files are untouched; renaming or removing paths in
  between does not change what an open handle reads.
\<close>

theorem vfs_write_read:
  assumes "mf_writable f" "buf \<noteq> []" "unat offset + length buf < 2 ^ 64"
    and "length (file_content v f) < 2 ^ 64" "mf_inode g = mf_inode f"
  shows "case mem_write_all f offset buf v of (r, v') \<Rightarrow> r = Ok () \<and>
    (\<forall>old. length old = length buf \<longrightarrow> mem_read_exact v' g offset old = (Ok (), buf)) \<and>
    (\<forall>at old. unat at + length old \<le> length (file_content v f) \<and>
       (unat at + length old \<le> unat offset \<or> unat offset + length buf \<le> unat at) \<longrightarrow>
       mem_read_exact v' g at old = mem_read_exact v f at old) \<and>
    (\<forall>i. length (file_content v f) \<le> i \<and> i < unat offset \<longrightarrow> file_content v' g ! i = 0) \<and>
    (\<forall>h. mf_inode h \<noteq> mf_inode f \<longrightarrow> file_content v' h = file_content v h) \<and>
    (\<forall>p q. file_content (snd (mem_rename p q v')) g = file_content v' g \<and>
       file_content (snd (mem_remove p v')) g = file_content v' g)"
proof -
  let ?c = "file_content v f"
  let ?v = "v\<lparr>mv_data := (mv_data v)(mf_inode f := overlay ?c (unat offset) buf)\<rparr>"
  have w: "mem_write_all f offset buf v = (Ok (), ?v)"
    using assms by (simp add: mem_write_all_eq)
  have c: "file_content ?v g = overlay ?c (unat offset) buf"
    using assms(5) by (simp add: file_content_def)
  have len: "length (overlay ?c (unat offset) buf) < 2 ^ 64"
    using assms by (simp add: overlay_length)
  have same: "mem_read_exact ?v g offset old = (Ok (), buf)" if "length old = length buf" for old
    using mem_read_inside [of offset old ?v g] that len by (simp add: c overlay_length overlay_slice_same)
  have other: "mem_read_exact ?v g at old = mem_read_exact v f at old"
    if "unat at + length old \<le> length ?c" "unat at + length old \<le> unat offset \<or> unat offset + length buf \<le> unat at"
    for at old
    using mem_read_inside [of at old ?v g] mem_read_inside [of at old v f] that len assms(4)
      overlay_slice_other [OF that]
    by (simp add: c overlay_length)
  have gap: "overlay ?c (unat offset) buf ! i = 0" if "length ?c \<le> i" "i < unat offset" for i
    using that by (auto simp: overlay_def nth_append)
  have names: "file_content (snd (mem_rename p q ?v)) g = file_content ?v g"
    "file_content (snd (mem_remove p ?v)) g = file_content ?v g" for p q
    by (auto simp: mem_rename_def mem_remove_def file_content_def split: result.splits option.splits)
  have files: "file_content ?v h = file_content v h" if "mf_inode h \<noteq> mf_inode f" for h
    using that by (simp add: file_content_def)
  show ?thesis unfolding w using same other gap files names c by simp
qed

definition demo_vfs :: mem_vfs where
  "demo_vfs = mem_vfs_new\<lparr>mv_files := [(''/main.db'', 0)], mv_data := (\<lambda>_. [])(0 := [1, 2]), mv_next_inode := 1\<rparr>"

theorem vfs_write_read_witness:
  "case mem_write_all \<lparr>mf_inode = 0, mf_writable = True\<rparr> 4 [7, 8] demo_vfs of (r, v') \<Rightarrow>
     r = Ok () \<and> mem_read_exact v' \<lparr>mf_inode = 0, mf_writable = False\<rparr> 4 [0, 0] = (Ok (), [7, 8])"
  using vfs_write_read [of "\<lparr>mf_inode = 0, mf_writable = True\<rparr>" "[7, 8]" 4 demo_vfs
      "\<lparr>mf_inode = 0, mf_writable = False\<rparr>"]
  by (simp add: file_content_def demo_vfs_def mem_vfs_new_def split: prod.splits)

section \<open>Lock safety\<close>

text \<open>Processes acquire handles and drop them; \<open>hs\<close> are the handles alive.\<close>

inductive lock_run :: "mem_vfs \<Rightarrow> (string \<times> lock_kind) list \<Rightarrow> bool" where
  start: "lock_run mem_vfs_new []"
| exclusive: "lock_run v hs \<Longrightarrow> mem_lock_exclusive path v = (Ok h, v') \<Longrightarrow> lock_run v' (h # hs)"
| shared: "lock_run v hs \<Longrightarrow> mem_lock_shared path v = (Ok h, v') \<Longrightarrow> lock_run v' (h # hs)"
| drop: "lock_run v hs \<Longrightarrow> h \<in> set hs \<Longrightarrow> lock_run (mem_lock_drop h v) (remove1 h hs)"

text \<open>The state of a path counts its live handles: \<open>e\<close> exclusive and \<open>n\<close> shared ones.\<close>

fun lock_ok :: "lock_state \<Rightarrow> nat \<Rightarrow> nat \<Rightarrow> bool" where
  "lock_ok LockFree e n \<longleftrightarrow> e = 0 \<and> n = 0"
| "lock_ok LockExclusive e n \<longleftrightarrow> e = 1 \<and> n = 0"
| "lock_ok (LockShared k) e n \<longleftrightarrow> 0 < k \<and> e = 0 \<and> n = unat k"

definition lock_inv :: "mem_vfs \<Rightarrow> (string \<times> lock_kind) list \<Rightarrow> bool" where
  "lock_inv v hs \<longleftrightarrow>
     (\<forall>p. lock_ok (mv_locks v p) (count_list hs (p, KindExclusive)) (count_list hs (p, KindShared)))"

lemma count_list_remove1: "count_list (remove1 x xs) y = (if x = y then count_list xs y - 1 else count_list xs y)"
  by (induction xs) auto

lemma lock_inv_update:
  assumes inv: "lock_inv v hs"
    and frame: "\<And>p k. p \<noteq> q \<Longrightarrow> count_list hs' (p, k) = count_list hs (p, k)"
    and new: "lock_ok st (count_list hs' (q, KindExclusive)) (count_list hs' (q, KindShared))"
  shows "lock_inv (v\<lparr>mv_locks := (mv_locks v)(q := st)\<rparr>) hs'"
  unfolding lock_inv_def
proof
  fix p
  show "lock_ok (mv_locks (v\<lparr>mv_locks := (mv_locks v)(q := st)\<rparr>) p)
      (count_list hs' (p, KindExclusive)) (count_list hs' (p, KindShared))"
    using inv frame [of p] new by (cases "p = q") (simp_all add: lock_inv_def)
qed

lemma lock_inv_at:
  "lock_inv v hs \<Longrightarrow> mv_locks v p = st \<Longrightarrow>
     lock_ok st (count_list hs (p, KindExclusive)) (count_list hs (p, KindShared))"
  unfolding lock_inv_def by blast

lemma unat_Suc_u32: "n \<noteq> - 1 \<Longrightarrow> unat (n + 1) = Suc (unat (n :: u32))"
  by (metis add.commute Suc_eq_plus1 unatSuc add_eq_0_iff add.inverse_inverse)

lemma lock_inv_run: "lock_run v hs \<Longrightarrow> lock_inv v hs"
proof (induction rule: lock_run.induct)
  case start
  then show ?case by (simp add: lock_inv_def mem_vfs_new_def)
next
  case (exclusive v hs path h v')
  note at = lock_inv_at [OF exclusive.IH]
  obtain q where h: "h = (q, KindExclusive)" "mv_locks v q = LockFree"
      "v' = v\<lparr>mv_locks := (mv_locks v)(q := LockExclusive)\<rparr>"
    using exclusive.hyps(2) by (auto simp: mem_lock_exclusive_def split: result.splits lock_state.splits)
  show ?case unfolding h(3)
    by (rule lock_inv_update [OF exclusive.IH]) (use at [OF h(2)] in \<open>auto simp: h\<close>)
next
  case (shared v hs path h v')
  note at = lock_inv_at [OF shared.IH]
  obtain q st where h: "h = (q, KindShared)" "v' = v\<lparr>mv_locks := (mv_locks v)(q := st)\<rparr>"
    and st: "mv_locks v q = LockFree \<and> st = LockShared 1 \<or>
      (\<exists>n. mv_locks v q = LockShared n \<and> n \<noteq> - 1 \<and> st = LockShared (n + 1))"
    using shared.hyps(2) by (auto simp: mem_lock_shared_def split: result.splits lock_state.splits if_splits)
  show ?case unfolding h(2)
    by (rule lock_inv_update [OF shared.IH])
      (use st at [of q] in \<open>force simp: h unat_Suc_u32 word_less_nat_alt\<close>)+
next
  case (drop v hs h)
  note at = lock_inv_at [OF drop.IH]
  obtain q k where h: "h = (q, k)" by (cases h)
  have pos: "0 < count_list hs (q, k)"
    using drop.hyps(2) h by (metis count_list_0_iff gr0I)
  have "\<exists>st. mem_lock_drop h v = v\<lparr>mv_locks := (mv_locks v)(q := st)\<rparr> \<and>
    lock_ok st (count_list (remove1 h hs) (q, KindExclusive)) (count_list (remove1 h hs) (q, KindShared))"
  proof (cases "mv_locks v q")
    case LockFree
    then show ?thesis using at [OF LockFree] pos by (cases k) auto
  next
    case LockExclusive
    then have "k = KindExclusive" using at [OF LockExclusive] pos by (cases k) auto
    then show ?thesis
      using at [OF LockExclusive] LockExclusive
      by (intro exI [of _ LockFree]) (simp add: mem_lock_drop_def h count_list_remove1)
  next
    case (LockShared n)
    then have k: "k = KindShared" using at [OF LockShared] pos by (cases k) auto
    show ?thesis
    proof (cases "n = 1")
      case True
      then show ?thesis
        using at [OF LockShared] LockShared k
        by (intro exI [of _ LockFree]) (simp add: mem_lock_drop_def h count_list_remove1)
    next
      case False
      then have "1 < n" using at [OF LockShared] by (simp add: word_less_nat_alt word_unat_eq_iff)
      then show ?thesis
        using at [OF LockShared] LockShared k False
        by (intro exI [of _ "LockShared (n - 1)"])
          (simp add: mem_lock_drop_def h count_list_remove1 word_less_nat_alt unat_sub word_le_nat_alt)
    qed
  qed
  then obtain st where st: "mem_lock_drop h v = v\<lparr>mv_locks := (mv_locks v)(q := st)\<rparr>"
    and new: "lock_ok st (count_list (remove1 h hs) (q, KindExclusive)) (count_list (remove1 h hs) (q, KindShared))"
    by blast
  show ?case unfolding st
    by (rule lock_inv_update [OF drop.IH _ new]) (simp add: h count_list_remove1)
qed

text \<open>
  C28.  Advisory locks exclude each other: over any sequence of acquisitions and drops, a path with
  a live exclusive handle has no second live handle of either kind, and while a handle of the
  other kind is alive, an exclusive acquisition of the path is refused with \<open>AlreadyLocked\<close> and
  changes nothing.
\<close>

theorem locks_exclude:
  assumes "lock_run v hs" "canonical_native_path path = Ok p"
  shows "((p, KindExclusive) \<in> set hs \<longrightarrow>
      count_list hs (p, KindExclusive) = 1 \<and> (p, KindShared) \<notin> set hs \<and>
      mem_lock_shared path v = (Err AlreadyLocked, v)) \<and>
    ((p, KindExclusive) \<in> set hs \<or> (p, KindShared) \<in> set hs \<longrightarrow>
      mem_lock_exclusive path v = (Err AlreadyLocked, v)) \<and>
    ((p, KindExclusive) \<notin> set hs \<and> (p, KindShared) \<notin> set hs \<longrightarrow>
      fst (mem_lock_exclusive path v) = Ok (p, KindExclusive))"
  using lock_inv_at [OF lock_inv_run [OF assms(1)], of p] assms(2)
  by (cases "mv_locks v p") (auto simp: mem_lock_exclusive_def mem_lock_shared_def word_less_nat_alt simp flip: count_list_0_iff)

theorem locks_exclude_witness:
  "case mem_lock_exclusive ''.writer.lock'' mem_vfs_new of (r, v) \<Rightarrow>
     r = Ok (''/.writer.lock'', KindExclusive) \<and>
     mem_lock_exclusive ''/.writer.lock'' v = (Err AlreadyLocked, v)"
proof -
  have c: "canonical_native_path ''.writer.lock'' = Ok ''/.writer.lock''"
    "canonical_native_path ''/.writer.lock'' = Ok ''/.writer.lock''" by code_simp+
  let ?v = "mem_vfs_new\<lparr>mv_locks := (\<lambda>_. LockFree)(''/.writer.lock'' := LockExclusive)\<rparr>"
  have l: "mem_lock_exclusive ''.writer.lock'' mem_vfs_new = (Ok (''/.writer.lock'', KindExclusive), ?v)"
    using c by (simp add: mem_lock_exclusive_def mem_vfs_new_def)
  then have "lock_run ?v [(''/.writer.lock'', KindExclusive)]"
    by (rule lock_run.exclusive [OF lock_run.start])
  from locks_exclude [OF this c(2)] show ?thesis using l by simp
qed

end
