(* ===== verification/AB_Header.thy ===== *)
theory AB_Header
  imports Struct_Header Keys Mem_Vfs Nonce
begin

text \<open>
  The A/B header protocol of \<open>main.db\<close> (\<open>src/src/pager/header.rs\<close>, \<open>src/src/pager/anchor.rs\<close>) and the
  selection of a header at open (\<open>src/src/txn/db/open/{header_probe,existing}.rs\<close>), over the
  reference file system.

  Two header pages double-buffer the durable state.  A commit writes the inactive slot; an open
  takes the valid slot with the greater sequence number.  The theorems show that a commit is
  atomic under a torn write, and that an anchor refresh changes nothing an open would see but
  the anchor.
\<close>

section \<open>Slots\<close>

datatype active_slot = SlotA | SlotB

fun slot_page_id :: "active_slot \<Rightarrow> u64" where
  "slot_page_id SlotA = 0"
| "slot_page_id SlotB = 1"

fun other_slot :: "active_slot \<Rightarrow> active_slot" where
  "other_slot SlotA = SlotB"
| "other_slot SlotB = SlotA"

text \<open>
  The creation ends with a sync of the directory entry, which the reference file system has no
  state for; the model stops at the sync of the file.
\<close>

definition bootstrap_header ::
  "crypto_prims \<Rightarrow> string \<Rightarrow> bytes \<Rightarrow> main_db_header \<Rightarrow> nat \<Rightarrow> mem_vfs \<Rightarrow> unit result \<times> mem_vfs" where
  "bootstrap_header P path hk initial page_size v =
     (case encode_main_db_header P initial hk page_size of
        Err e \<Rightarrow> (Err e, v)
      | Ok bs \<Rightarrow>
          mbind (mem_open path OmCreateNew v) (\<lambda>f v.
          mbind (mem_write_all f 0 bs v) (\<lambda>_ v.
          mbind (mem_write_all f (of_nat page_size) (replicate page_size 0) v) (\<lambda>_ v.
          mem_sync f v))))"

text \<open>An incomplete slot counts as an unverifiable one: the bytes read so far stay in the buffer.\<close>

definition read_header_slot :: "mem_vfs \<Rightarrow> mem_file \<Rightarrow> u64 \<Rightarrow> bytes \<Rightarrow> unit result \<times> bytes" where
  "read_header_slot v f offset buf =
     (case mem_read_exact v f offset buf of
        (Err (Io e), buf) \<Rightarrow> (if e = ''unexpected end of file'' then Ok () else Err (Io e), buf)
      | other \<Rightarrow> other)"

definition authenticate_slot ::
  "crypto_prims \<Rightarrow> bytes \<Rightarrow> bytes \<Rightarrow> nat \<Rightarrow> main_db_header option result" where
  "authenticate_slot P slot hk page_size =
     (case decode_main_db_header P slot hk page_size of
        Ok hdr \<Rightarrow> Ok (Some hdr)
      | Err (HeaderCapabilityUnsupported u) \<Rightarrow> Err (HeaderCapabilityUnsupported u)
      | Err _ \<Rightarrow> Ok None)"

definition authenticate_slot_with_kek ::
  "crypto_prims \<Rightarrow> bytes \<Rightarrow> bytes \<Rightarrow> nat \<Rightarrow> (main_db_header \<times> bytes) option result" where
  "authenticate_slot_with_kek P slot kek page_size =
     (if length slot < 56 then Ok None
      else
        rbind (slice slot 32 48) (\<lambda>salt.
        rbind (slice slot 48 56) (\<lambda>epoch.
        case derive_mk P kek salt (u64_from_le_bytes epoch) of
          Err _ \<Rightarrow> Ok None
        | Ok mk \<Rightarrow>
            (case derive_hk P mk of
               Err _ \<Rightarrow> Ok None
             | Ok hk \<Rightarrow> rmap (map_option (\<lambda>hdr. (hdr, hk))) (authenticate_slot P slot hk page_size)))))"

text \<open>Whether any byte may have reached the file when a header write failed.\<close>

datatype header_write = Written active_slot | NotStarted error | OutcomeUnknown error

definition commit_header ::
  "crypto_prims \<Rightarrow> string \<Rightarrow> bytes \<Rightarrow> main_db_header \<Rightarrow> active_slot \<Rightarrow> nat \<Rightarrow> mem_vfs \<Rightarrow> header_write \<times> mem_vfs" where
  "commit_header P path hk hdr previous page_size v =
     (let next_slot = other_slot previous
      in case encode_main_db_header P hdr hk page_size of
           Err e \<Rightarrow> (NotStarted e, v)
         | Ok bs \<Rightarrow>
             if 2 ^ 64 \<le> page_size then (NotStarted (Io ''offset arithmetic overflow''), v)
             else
               let offset = slot_page_id next_slot * of_nat page_size
               in case mem_open path OmReadWrite v of
                    (Err e, v) \<Rightarrow> (NotStarted e, v)
                  | (Ok f, v) \<Rightarrow>
                      (case mem_write_all f offset bs v of
                         (Err e, v) \<Rightarrow> (OutcomeUnknown e, v)
                       | (Ok _, v) \<Rightarrow>
                           (case mem_sync f v of
                              (Err e, v) \<Rightarrow> (OutcomeUnknown e, v)
                            | (Ok _, v) \<Rightarrow> (Written next_slot, v))))"

section \<open>Refreshing the nonce anchor\<close>

record header_cursor =
  hc_slot :: active_slot
  hc_seq :: u64

definition next_seq :: "header_cursor \<Rightarrow> u64 result" where
  "next_seq c = of_option (ArithmeticOverflow ''header sequence'') (checked_add_u64 (hc_seq c) 1)"

fun write_outcome :: "header_write \<Rightarrow> active_slot result" where
  "write_outcome (Written s) = Ok s"
| "write_outcome (NotStarted e) = Err e"
| "write_outcome (OutcomeUnknown e) = Err e"

definition refresh_anchor ::
  "crypto_prims \<Rightarrow> string \<Rightarrow> bytes \<Rightarrow> header_cursor \<Rightarrow> u64 \<Rightarrow> nat \<Rightarrow> mem_vfs \<Rightarrow> header_cursor result \<times> mem_vfs" where
  "refresh_anchor P path hk cursor anchor page_size v =
     (if 2 ^ 64 \<le> page_size then (Err (ArithmeticOverflow ''header page size''), v)
      else
        let offset = slot_page_id (hc_slot cursor) * of_nat page_size
        in mbind (mem_open path OmRead v) (\<lambda>f v.
           case read_header_slot v f offset (replicate page_size 0) of
             (Err e, _) \<Rightarrow> (Err e, v)
           | (Ok _, buf) \<Rightarrow>
               (case decode_main_db_header P buf hk page_size of
                  Err e \<Rightarrow> (Err e, v)
                | Ok hdr \<Rightarrow>
                    if anchor < h_counter_anchor hdr
                    then (Err (Corruption (StructuralHeaderInvalid ''main.db'' ''counter_anchor'')), v)
                    else
                      (case next_seq cursor of
                         Err e \<Rightarrow> (Err e, v)
                       | Ok seq \<Rightarrow>
                           let hdr = hdr\<lparr>h_counter_anchor := anchor, h_seq := seq\<rparr>
                           in case commit_header P path hk hdr (hc_slot cursor) page_size v of
                                (w, v) \<Rightarrow>
                                  (rmap (\<lambda>slot. \<lparr>hc_slot = slot, hc_seq = seq\<rparr>) (write_outcome w), v)))))"

text \<open>
  \<open>Pager::refresh_main_anchor\<close>: the generator learns of the new anchor only after the header is
  durable.  The live header is the pair of the header key and the cursor.
\<close>

definition refresh_main_anchor ::
  "crypto_prims \<Rightarrow> string \<Rightarrow> nat \<Rightarrow> (bytes \<times> header_cursor) option \<Rightarrow> main_db_nonce_gen \<Rightarrow> mem_vfs \<Rightarrow>
   unit result \<times> (bytes \<times> header_cursor) option \<times> main_db_nonce_gen \<times> mem_vfs" where
  "refresh_main_anchor P path page_size live gen v =
     (case live of
        None \<Rightarrow> (Err Aborted, live, gen, v)
      | Some (hk, cursor) \<Rightarrow>
          let anchor = pending_anchor gen
          in case refresh_anchor P path hk cursor anchor page_size v of
               (Err e, v) \<Rightarrow> (Err e, live, gen, v)
             | (Ok next_cursor, v) \<Rightarrow>
                 (case commit_anchor anchor gen of
                    (Err e, gen) \<Rightarrow> (Err e, live, gen, v)
                  | (Ok _, gen) \<Rightarrow> (Ok (), Some (hk, next_cursor), gen, v)))"

section \<open>Selecting a header at open\<close>

definition declared_page_size :: "bytes \<Rightarrow> nat option" where
  "declared_page_size slot =
     (if length slot < 12 \<or> take 8 slot \<noteq> MAGIC_MAIN then None
      else if 12 \<le> slot ! 11 \<and> slot ! 11 \<le> 16 then Some (2 ^ unat (slot ! 11)) else None)"

definition or_else :: "'a option \<Rightarrow> 'a option \<Rightarrow> 'a option" where
  "or_else a b = (case a of Some x \<Rightarrow> Some x | None \<Rightarrow> b)"

definition check_page_size :: "bytes \<Rightarrow> bytes \<Rightarrow> nat \<Rightarrow> unit result" where
  "check_page_size slot_a slot_b supplied =
     (case or_else (declared_page_size slot_a) (declared_page_size slot_b) of
        None \<Rightarrow> Ok ()
      | Some stored \<Rightarrow> if stored = supplied then Ok () else Err (PageSizeMismatch stored supplied))"

definition declared_format_version :: "bytes \<Rightarrow> u16 option" where
  "declared_format_version slot =
     (if length slot < 10 \<or> take 8 slot \<noteq> MAGIC_MAIN then None
      else Some (u16_from_le_bytes [slot ! 8, slot ! 9]))"

definition check_format_version :: "bytes \<Rightarrow> bytes \<Rightarrow> unit result" where
  "check_format_version slot_a slot_b =
     (case or_else (declared_format_version slot_a) (declared_format_version slot_b) of
        None \<Rightarrow> Ok ()
      | Some stored \<Rightarrow>
          if stored = MAIN_FORMAT_VERSION then Ok ()
          else Err (FormatVersionUnsupported stored MAIN_FORMAT_VERSION))"

definition unverifiable_header_cause :: "bytes \<Rightarrow> bytes \<Rightarrow> nat \<Rightarrow> error" where
  "unverifiable_header_cause slot_a slot_b page_size =
     (let framed = (\<lambda>slot :: bytes.
            length slot = page_size \<and> take 8 slot = MAGIC_MAIN \<and>
            list_all (\<lambda>b. b = 0) (take 7 (drop 161 slot)) \<and>
            list_all (\<lambda>b. b = 0) (take (page_size - MAC_LEN - MAIN_FIELDS_END) (drop MAIN_FIELDS_END slot)))
      in if page_size > MAIN_FIELDS_END + MAC_LEN \<and> (framed slot_a \<or> framed slot_b) then KeyMismatch
         else Corruption HeaderUnverifiable)"

text \<open>Try the caller's key, then the counterpart; a capability refusal ends the search.\<close>

fun try_keys ::
  "crypto_prims \<Rightarrow> bytes \<Rightarrow> nat \<Rightarrow> (bytes option \<times> bool) list \<Rightarrow> (main_db_header \<times> bool) option \<times> error option" where
  "try_keys P buf page_size [] = (None, None)"
| "try_keys P buf page_size ((None, primary) # ks) = try_keys P buf page_size ks"
| "try_keys P buf page_size ((Some candidate, primary) # ks) =
     (case authenticate_slot_with_kek P buf candidate page_size of
        Ok (Some (hdr, _)) \<Rightarrow> (Some (hdr, primary), None)
      | Ok None \<Rightarrow> try_keys P buf page_size ks
      | Err e \<Rightarrow> (None, Some e))"

definition try_decode ::
  "crypto_prims \<Rightarrow> bytes \<Rightarrow> bytes option \<Rightarrow> nat \<Rightarrow> bytes \<Rightarrow> (main_db_header \<times> bool) option \<times> error option" where
  "try_decode P kek counterpart_kek page_size buf =
     try_keys P buf page_size [(Some kek, True), (counterpart_kek, False)]"

definition select_header ::
  "crypto_prims \<Rightarrow> bytes \<Rightarrow> bytes option \<Rightarrow> nat \<Rightarrow> bytes \<Rightarrow> bytes \<Rightarrow>
   (main_db_header \<times> active_slot \<times> bool) result" where
  "select_header P kek counterpart_kek page_size buf_a buf_b =
     rbind (check_page_size buf_a buf_b page_size) (\<lambda>_.
     rbind (check_format_version buf_a buf_b) (\<lambda>_.
     case (try_decode P kek counterpart_kek page_size buf_a, try_decode P kek counterpart_kek page_size buf_b) of
       ((a, a_capability), (b, b_capability)) \<Rightarrow>
         (case or_else a_capability b_capability of
            Some e \<Rightarrow> Err e
          | None \<Rightarrow>
              (case (a, b) of
                 (Some (a, pa), Some (b, pb)) \<Rightarrow>
                   if h_seq a \<ge> h_seq b then Ok (a, SlotA, pa) else Ok (b, SlotB, pb)
               | (Some (a, pa), None) \<Rightarrow> Ok (a, SlotA, pa)
               | (None, Some (b, pb)) \<Rightarrow> Ok (b, SlotB, pb)
               | (None, None) \<Rightarrow> Err (unverifiable_header_cause buf_a buf_b page_size)))))"

definition open_existing_header ::
  "crypto_prims \<Rightarrow> string \<Rightarrow> bytes \<Rightarrow> bytes option \<Rightarrow> nat \<Rightarrow> bytes \<Rightarrow> open_mode \<Rightarrow> mem_vfs \<Rightarrow>
   (main_db_header \<times> active_slot \<times> bool) result \<times> mem_vfs" where
  "open_existing_header P path kek counterpart_kek page_size realm file_mode v =
     mbind (mem_open path file_mode v) (\<lambda>f v.
     case read_header_slot v f 0 (replicate page_size 0) of
       (Err e, _) \<Rightarrow> (Err e, v)
     | (Ok _, buf_a) \<Rightarrow>
         if 2 ^ 64 \<le> page_size then (Err (Io ''page_size > u64''), v)
         else
           (case read_header_slot v f (of_nat page_size) (replicate page_size 0) of
              (Err e, _) \<Rightarrow> (Err e, v)
            | (Ok _, buf_b) \<Rightarrow>
                (case select_header P kek counterpart_kek page_size buf_a buf_b of
                   Err e \<Rightarrow> (Err e, v)
                 | Ok (hdr, slot, primary) \<Rightarrow>
                     if h_realm_id hdr \<noteq> realm then (Err (RealmMismatch (h_realm_id hdr) realm), v)
                     else (Ok (hdr, slot, primary), v))))"

section \<open>A slot that holds a header\<close>

definition header_key :: "crypto_prims \<Rightarrow> bytes \<Rightarrow> main_db_header \<Rightarrow> bytes result" where
  "header_key P kek h = rbind (derive_mk P kek (h_kek_salt h) (h_mk_epoch h)) (derive_hk P)"

definition header_ok :: "main_db_header \<Rightarrow> nat \<Rightarrow> bool" where
  "header_ok h page_size \<longleftrightarrow> main_widths h \<and> h_flags h = 0 \<and> h_format_version h = MAIN_FORMAT_VERSION \<and>
     validate_page_size_log2 (h_page_size_log2 h) = Ok page_size"

definition slot_holds :: "crypto_prims \<Rightarrow> bytes \<Rightarrow> nat \<Rightarrow> bytes \<Rightarrow> main_db_header \<Rightarrow> bool" where
  "slot_holds P kek page_size slot h \<longleftrightarrow> header_ok h page_size \<and>
     (\<exists>hk. header_key P kek h = Ok hk \<and> encode_main_db_header P h hk page_size = Ok slot)"

lemma hkdf_total: "crypto_laws P \<Longrightarrow> \<exists>t. hkdf_expand P salt k info = Some t"
  unfolding crypto_laws_def by blast

lemma header_key_total:
  assumes "crypto_laws P"
  shows "\<exists>hk. header_key P kek h = Ok hk"
proof -
  obtain mk where "derive_mk P kek (h_kek_salt h) (h_mk_epoch h) = Ok mk"
    using hkdf_total [OF assms] unfolding derive_mk_def of_option_eq_Ok by blast
  moreover obtain hk where "derive_hk P mk = Ok hk"
    using hkdf_total [OF assms] unfolding derive_hk_def expand_key_def of_option_eq_Ok by blast
  ultimately show ?thesis by (simp add: header_key_def)
qed

lemma encode_layout:
  assumes "encode_main_db_header P h hk page_size = Ok slot" "main_widths h"
  obtains rest where "slot = main_field_bytes h @ rest" "217 \<le> page_size"
  using assms
  by (auto simp: encode_main_db_header_def seal_header_page_def rbind_eq_Ok Let_def header_consts split: if_splits)

lemma encode_length:
  assumes "crypto_laws P" "encode_main_db_header P h hk page_size = Ok slot" "main_widths h"
  shows "length slot = page_size"
proof -
  let ?fb = "main_field_bytes h"
  have e: "seal_header_page P ?fb hk page_size = Ok slot" and ge: "217 \<le> page_size"
    using assms(2) by (auto simp: encode_main_db_header_def rbind_eq_Ok header_consts split: if_splits)
  have l: "length ?fb = 201" by (rule main_field_bytes_length [OF assms(3)])
  obtain mac where m: "slot = ?fb @ replicate (page_size - 217) 0 @ mac"
      "mac_hk P hk (?fb @ replicate (page_size - 217) 0) = Ok mac"
    using e l ge by (auto simp: seal_header_page_iff)
  have "length mac = 16"
    using m(2) mac_hk_Ok [OF assms(1), of hk "?fb @ replicate (page_size - 217) 0"] by auto
  then show ?thesis using m(1) l ge by simp
qed

lemma slot_holds_decode:
  assumes laws: "crypto_laws P" and holds: "slot_holds P kek page_size slot h"
  shows "authenticate_slot_with_kek P slot kek page_size = rmap (\<lambda>hk. Some (h, hk)) (header_key P kek h)"
    and "try_decode P kek counterpart page_size slot = (Some (h, True), None)"
    and "declared_page_size slot = Some page_size" and "declared_format_version slot = Some MAIN_FORMAT_VERSION"
    and "length slot = page_size"
proof -
  obtain hk where ok: "header_ok h page_size" and hk: "header_key P kek h = Ok hk"
    and e: "encode_main_db_header P h hk page_size = Ok slot"
    using holds unfolding slot_holds_def by blast
  have w: "main_widths h" and v: "validate_page_size_log2 (h_page_size_log2 h) = Ok page_size"
    using ok by (simp_all add: header_ok_def)
  obtain rest where s: "slot = main_field_bytes h @ rest" and ge: "217 \<le> page_size"
    using encode_layout [OF e w] .
  show len: "length slot = page_size" by (rule encode_length [OF laws e w])
  have salt: "slice slot 32 48 = Ok (h_kek_salt h)" "slice slot 48 56 = Ok (u64_to_le_bytes (h_mk_epoch h))"
    using w by (simp_all add: s slice_def main_field_bytes_def main_widths_def)
  have d: "decode_main_db_header P slot hk page_size = Ok h"
    using decode_iff_encode [OF laws v] e ok by (simp add: header_ok_def)
  show a: "authenticate_slot_with_kek P slot kek page_size = rmap (\<lambda>hk. Some (h, hk)) (header_key P kek h)"
    using hk salt d len ge
    by (auto simp: authenticate_slot_with_kek_def header_key_def authenticate_slot_def rbind_eq_Ok)
  show "try_decode P kek counterpart page_size slot = (Some (h, True), None)"
    by (simp add: try_decode_def a hk)
  have "take 8 slot = MAGIC_MAIN" "slot ! 11 = h_page_size_log2 h" "length slot \<ge> 12"
    "[slot ! 8, slot ! 9] = u16_to_le_bytes (h_format_version h)"
  proof -
    show "take 8 slot = MAGIC_MAIN" "slot ! 11 = h_page_size_log2 h" "length slot \<ge> 12"
      using len ge by (simp_all add: s main_field_bytes_def nth_append MAGIC_MAIN_def)
    have "u16_to_le_bytes (h_format_version h) = take 2 (drop 8 slot)"
      by (simp add: s main_field_bytes_def)
    also have "take 2 (drop 8 slot) = [slot ! 8, slot ! 9]"
      using len ge by (intro nth_equalityI) (auto simp: less_Suc_eq numeral_2_eq_2)
    finally show "[slot ! 8, slot ! 9] = u16_to_le_bytes (h_format_version h)" by simp
  qed
  then show "declared_page_size slot = Some page_size" "declared_format_version slot = Some MAIN_FORMAT_VERSION"
    using v ok
    by (auto simp: declared_page_size_def declared_format_version_def validate_page_size_log2_def header_ok_def
        split: if_splits)
qed

section \<open>The header file\<close>

definition file_at :: "mem_vfs \<Rightarrow> string \<Rightarrow> nat option" where
  "file_at v path = (case canonical_native_path path of Ok p \<Rightarrow> map_of (mv_files v) p | Err _ \<Rightarrow> None)"

definition header_slot_offset :: "nat \<Rightarrow> active_slot \<Rightarrow> nat" where
  "header_slot_offset page_size s = unat (slot_page_id s) * page_size"

definition slot_range :: "bytes \<Rightarrow> nat \<Rightarrow> active_slot \<Rightarrow> bytes" where
  "slot_range c page_size s = take page_size (drop (header_slot_offset page_size s) c)"

definition put_slot :: "nat \<Rightarrow> nat \<Rightarrow> active_slot \<Rightarrow> bytes \<Rightarrow> mem_vfs \<Rightarrow> mem_vfs" where
  "put_slot i page_size s bs v =
     v\<lparr>mv_data := (mv_data v)(i := overlay (mv_data v i) (header_slot_offset page_size s) bs)\<rparr>"

text \<open>A \<open>main.db\<close> with room for both slots.\<close>

definition header_file :: "mem_vfs \<Rightarrow> string \<Rightarrow> nat \<Rightarrow> nat \<Rightarrow> bool" where
  "header_file v path i page_size \<longleftrightarrow> file_at v path = Some i \<and> 2 * page_size \<le> length (mv_data v i) \<and>
     length (mv_data v i) < 2 ^ 64"

lemma mem_open_existing:
  "file_at v path = Some i \<Longrightarrow> mode \<noteq> OmCreateNew \<Longrightarrow>
     mem_open path mode v = (Ok \<lparr>mf_inode = i, mf_writable = (mode \<noteq> OmRead)\<rparr>, v)"
  by (cases mode) (auto simp: file_at_def mem_open_def split: result.splits)

lemma file_at_data [simp]: "file_at (v\<lparr>mv_data := d\<rparr>) path = file_at v path"
  by (cases "canonical_native_path path") (simp_all add: file_at_def)

lemma header_slot_offset_word:
  assumes "2 * page_size < 2 ^ 64"
  shows "unat (slot_page_id s * of_nat page_size) = header_slot_offset page_size s"
  using assms by (cases s) (simp_all add: header_slot_offset_def)

lemma header_slot_offset_bound: "header_slot_offset page_size s + page_size \<le> 2 * page_size"
  by (cases s) (simp_all add: header_slot_offset_def)

lemma read_slot:
  assumes "header_file v path i page_size"
  shows "read_header_slot v \<lparr>mf_inode = i, mf_writable = w\<rparr> (slot_page_id s * of_nat page_size) (replicate page_size 0) =
    (Ok (), slot_range (mv_data v i) page_size s)"
proof -
  have o: "unat (slot_page_id s * of_nat page_size) = header_slot_offset page_size s"
    using assms by (intro header_slot_offset_word) (simp add: header_file_def)
  show ?thesis
    using mem_read_inside [of "slot_page_id s * of_nat page_size" "replicate page_size 0" v "\<lparr>mf_inode = i, mf_writable = w\<rparr>"]
      assms header_slot_offset_bound [of page_size s]
    by (simp add: o read_header_slot_def header_file_def file_content_def slot_range_def)
qed

lemma slot_range_length: "header_file v path i page_size \<Longrightarrow> length (slot_range (mv_data v i) page_size s) = page_size"
  using header_slot_offset_bound [of page_size s] by (auto simp: header_file_def slot_range_def min_def)

lemma put_slot_file:
  assumes "header_file v path i page_size" "length bs = page_size"
  shows "header_file (put_slot i page_size s bs v) path i page_size"
    "slot_range (mv_data (put_slot i page_size s bs v) i) page_size s = bs"
    "slot_range (mv_data (put_slot i page_size s bs v) i) page_size (other_slot s) =
       slot_range (mv_data v i) page_size (other_slot s)"
proof -
  note b = header_slot_offset_bound [of page_size s] header_slot_offset_bound [of page_size "other_slot s"]
  show "header_file (put_slot i page_size s bs v) path i page_size"
    using assms b by (simp add: header_file_def put_slot_def overlay_length)
  show "slot_range (mv_data (put_slot i page_size s bs v) i) page_size s = bs"
    using assms(2) overlay_slice_same [of bs] by (simp add: put_slot_def slot_range_def)
  show "slot_range (mv_data (put_slot i page_size s bs v) i) page_size (other_slot s) =
       slot_range (mv_data v i) page_size (other_slot s)"
  proof -
    have "header_slot_offset page_size (other_slot s) + page_size \<le> header_slot_offset page_size s \<or>
        header_slot_offset page_size s + length bs \<le> header_slot_offset page_size (other_slot s)"
      using assms(2) by (cases s) (simp_all add: header_slot_offset_def)
    moreover have "header_slot_offset page_size (other_slot s) + page_size \<le> length (mv_data v i)"
      using assms(1) b by (simp add: header_file_def)
    ultimately show ?thesis
      using overlay_slice_other by (simp add: put_slot_def slot_range_def)
  qed
qed

lemma open_existing_header_eq:
  assumes "header_file v path i page_size" "mode \<noteq> OmCreateNew"
  shows "open_existing_header P path kek counterpart page_size realm mode v =
    (rbind (select_header P kek counterpart page_size (slot_range (mv_data v i) page_size SlotA)
        (slot_range (mv_data v i) page_size SlotB))
      (\<lambda>(h, slot, primary). if h_realm_id h \<noteq> realm then Err (RealmMismatch (h_realm_id h) realm)
        else Ok (h, slot, primary)), v)"
  using assms mem_open_existing [of v path i mode] read_slot [OF assms(1), of _ SlotA] read_slot [OF assms(1), of _ SlotB]
  by (auto simp: open_existing_header_def header_file_def
      split: result.splits prod.splits)

lemma commit_header_eq:
  assumes "header_file v path i page_size" "encode_main_db_header P h hk page_size = Ok bs"
    and "length bs = page_size" "0 < page_size"
  shows "commit_header P path hk h s page_size v = (Written (other_slot s), put_slot i page_size (other_slot s) bs v)"
proof -
  have o: "unat (slot_page_id (other_slot s) * of_nat page_size) = header_slot_offset page_size (other_slot s)"
    using assms(1) by (intro header_slot_offset_word) (simp add: header_file_def)
  have "bs \<noteq> []" using assms(3,4) by auto
  then have w: "mem_write_all \<lparr>mf_inode = i, mf_writable = True\<rparr> (slot_page_id (other_slot s) * of_nat page_size) bs v =
      (Ok (), put_slot i page_size (other_slot s) bs v)"
    using assms(1,3) header_slot_offset_bound [of page_size "other_slot s"]
    by (subst mem_write_all_eq) (auto simp: o header_file_def file_content_def put_slot_def)
  have "file_at v path = Some i" "page_size < 2 ^ 64" using assms(1) by (simp_all add: header_file_def)
  then show ?thesis
    using assms(2) mem_open_existing [of v path i OmReadWrite] w
    by (simp add: commit_header_def Let_def mem_sync_def)
qed

section \<open>A commit is atomic\<close>

text \<open>
  A torn write leaves each byte of the slot old or new.
\<close>

definition torn_write :: "bytes \<Rightarrow> bytes \<Rightarrow> bytes \<Rightarrow> bool" where
  "torn_write old new torn \<longleftrightarrow> length torn = length new \<and> length old = length new \<and>
     (\<forall>i < length new. torn ! i = old ! i \<or> torn ! i = new ! i)"

lemma torn_prefix:
  assumes "torn_write old new torn" "take n old = take n new"
  shows "take n torn = take n new"
proof (rule nth_equalityI)
  show "length (take n torn) = length (take n new)" using assms(1) by (simp add: torn_write_def)
  fix i assume i: "i < length (take n torn)"
  then have "old ! i = new ! i"
    using assms by (metis length_take min_less_iff_conj nth_take torn_write_def)
  then show "take n torn ! i = take n new ! i"
    using i assms(1) by (auto simp: torn_write_def)
qed

lemma declared_prefix:
  assumes "take 12 a = take 12 b" "12 \<le> length a" "12 \<le> length b"
  shows "declared_page_size a = declared_page_size b" "declared_format_version a = declared_format_version b"
proof -
  have n: "a ! i = b ! i" if "i < 12" for i using assms(1) that by (metis nth_take)
  have "take 8 a = take 8 b" using arg_cong [OF assms(1), of "take 8"] by simp
  then show "declared_page_size a = declared_page_size b" "declared_format_version a = declared_format_version b"
    using n assms(2,3) by (simp_all add: declared_page_size_def declared_format_version_def)
qed

text \<open>The inactive slot as an open sees it: nothing, or an older header.\<close>

definition superseded :: "crypto_prims \<Rightarrow> bytes \<Rightarrow> bytes option \<Rightarrow> nat \<Rightarrow> bytes \<Rightarrow> main_db_header \<Rightarrow> bool" where
  "superseded P kek counterpart page_size slot h \<longleftrightarrow>
     snd (try_decode P kek counterpart page_size slot) = None \<and>
     (\<forall>h' primary. fst (try_decode P kek counterpart page_size slot) = Some (h', primary) \<longrightarrow> h_seq h' < h_seq h)"

lemma select_active:
  assumes laws: "crypto_laws P" and act: "slot_holds P kek page_size act_slot h"
    and sup: "superseded P kek counterpart page_size inact h"
    and framing: "s = SlotB \<Longrightarrow> declared_page_size inact = Some page_size \<and>
      declared_format_version inact = Some MAIN_FORMAT_VERSION"
  shows "select_header P kek counterpart page_size (if s = SlotA then act_slot else inact)
      (if s = SlotA then inact else act_slot) = Ok (h, s, True)"
proof -
  note d = slot_holds_decode [OF laws act]
  obtain r where t: "try_decode P kek counterpart page_size inact = (r, None)"
    and r: "\<And>h' p. r = Some (h', p) \<Longrightarrow> h_seq h' < h_seq h"
    using sup by (cases "try_decode P kek counterpart page_size inact") (auto simp: superseded_def)
  show ?thesis
  proof (cases s)
    case SlotA
    then show ?thesis
      using d t r by (cases r)
        (auto simp: select_header_def check_page_size_def check_format_version_def or_else_def less_imp_le)
  next
    case SlotB
    then show ?thesis
      using d t r framing by (cases r)
        (fastforce simp: select_header_def check_page_size_def check_format_version_def or_else_def)+
  qed
qed

text \<open>
  The key an open derives for a slot from the salt and epoch bytes found in it, and the assumption
  on HMAC a torn slot calls for: its last 16 bytes are not the truncated HMAC-SHA-256 of the bytes
  before them under that key.  Nobody computed a tag for a mixture of two headers, so a mixture that
  carries its tag would be a forgery.
\<close>

definition slot_key :: "crypto_prims \<Rightarrow> bytes \<Rightarrow> bytes \<Rightarrow> bytes result" where
  "slot_key P kek slot =
     rbind (derive_mk P kek (take 16 (drop 32 slot)) (u64_from_le_bytes (take 8 (drop 48 slot)))) (derive_hk P)"

definition untagged :: "crypto_prims \<Rightarrow> bytes \<Rightarrow> nat \<Rightarrow> bytes \<Rightarrow> bool" where
  "untagged P kek page_size slot \<longleftrightarrow>
     (\<forall>hk t. slot_key P kek slot = Ok hk \<longrightarrow> hmac_sha256 P hk (take (page_size - 16) slot) = Some t \<longrightarrow>
        take 16 t \<noteq> drop (page_size - 16) slot)"

lemma authenticate_no_capability:
  assumes "crypto_laws P"
  shows "authenticate_main_db_header P bs hk page_size \<noteq> Err (HeaderCapabilityUnsupported u)"
proof -
  obtain t where "mac_hk P hk (take (page_size - MAC_LEN) bs) = Ok t" using mac_hk_Ok [OF assms] by blast
  then show ?thesis by (auto simp: authenticate_main_db_header_def slice_def)
qed

lemma untagged_refused:
  assumes "crypto_laws P" "untagged P kek page_size slot" "length slot = page_size" "217 \<le> page_size"
  shows "authenticate_slot_with_kek P slot kek page_size = Ok None"
proof -
  have sl: "slice slot 32 48 = Ok (take 16 (drop 32 slot))" "slice slot 48 56 = Ok (take 8 (drop 48 slot))"
    using assms(3,4) by (simp_all add: slice_def)
  have refused: "authenticate_slot P slot hk page_size = Ok None" if "slot_key P kek slot = Ok hk" for hk
  proof -
    obtain t where t: "hmac_sha256 P hk (take (page_size - 16) slot) = Some t"
      using assms(1) unfolding crypto_laws_def by blast
    have "mac_hk P hk (take (page_size - 16) slot) \<noteq> Ok (drop (page_size - 16) slot)"
      using assms(2) that t by (auto simp: untagged_def mac_hk_def MAC_LEN_def)
    then have "authenticate_main_db_header P slot hk page_size \<noteq> Ok ()"
      using authenticate_iff [OF assms(1)] by blast
    then show ?thesis
      using authenticate_no_capability [OF assms(1), of slot hk page_size]
      by (cases "authenticate_main_db_header P slot hk page_size")
        (auto simp: authenticate_slot_def decode_main_db_header_def split: error.splits)
  qed
  show ?thesis
    using sl refused assms(3,4)
    by (auto simp: authenticate_slot_with_kek_def slot_key_def split: result.splits)
qed

lemma untagged_try_decode:
  assumes "crypto_laws P" "length slot = page_size" "217 \<le> page_size"
    and "untagged P kek page_size slot" "\<And>k. counterpart = Some k \<Longrightarrow> untagged P k page_size slot"
  shows "try_decode P kek counterpart page_size slot = (None, None)"
  using untagged_refused [OF assms(1,4,2,3)] untagged_refused [OF assms(1) assms(5) assms(2,3)]
  by (cases counterpart) (simp_all add: try_decode_def)

text \<open>
  C29.  A header commit is atomic.  Let slot \<open>s\<close> of the file hold the current header \<open>f\<close> and the other
  slot nothing newer.  \<open>commit_header\<close> writes the encoding of \<open>g\<close>, with a greater sequence number,
  into the other slot and touches nothing else.  If the machine stops in the middle, each byte of
  that slot is old or new.  The next open returns \<open>g\<close> when the whole slot was written and \<open>f\<close>
  otherwise, never an error and never anything else: a mixture is refused by the MAC check, on the
  assumption that it is not a forgery under the keys the open tries.  When the slot written is slot A,
  it is assumed to carry the magic, version, cipher and page size of \<open>g\<close> in its first 12 bytes already.
\<close>

theorem commit_atomic:
  assumes laws: "crypto_laws P" and hfile: "header_file v path i page_size"
    and cur: "slot_holds P kek page_size (slot_range (mv_data v i) page_size s) f"
    and old: "old = slot_range (mv_data v i) page_size (other_slot s)"
    and sup: "superseded P kek counterpart page_size old f"
    and new: "header_ok g page_size" "header_key P kek g = Ok hk" "encode_main_db_header P g hk page_size = Ok bs"
    and seq: "h_seq f < h_seq g" and realm: "h_realm_id f = realm" "h_realm_id g = realm"
    and torn: "torn_write old bs torn"
    and unforged: "\<And>k. torn \<noteq> old \<Longrightarrow> torn \<noteq> bs \<Longrightarrow> k = kek \<or> counterpart = Some k \<Longrightarrow> untagged P k page_size torn"
    and slot_a: "s = SlotB \<Longrightarrow> take 12 old = take 12 bs"
  shows "commit_header P path hk g s page_size v = (Written (other_slot s), put_slot i page_size (other_slot s) bs v) \<and>
    open_existing_header P path kek counterpart page_size realm OmReadWrite
      (put_slot i page_size (other_slot s) torn v) =
    (Ok (if torn = bs then (g, other_slot s, True) else (f, s, True)),
     put_slot i page_size (other_slot s) torn v)"
proof -
  let ?v = "put_slot i page_size (other_slot s) torn v" and ?act = "slot_range (mv_data v i) page_size s"
  have new_holds: "slot_holds P kek page_size bs g" using new unfolding slot_holds_def by blast
  note dn = slot_holds_decode [OF laws new_holds]
  note df = slot_holds_decode [OF laws cur]
  have ps: "4096 \<le> page_size" using new(1) validate_log2_bounds by (auto simp: header_ok_def)
  have lt: "length torn = page_size" using torn dn(5) by (simp add: torn_write_def)
  note f' = put_slot_file [OF hfile lt, of "other_slot s"]
  have s2: "other_slot (other_slot s) = s" by (cases s) simp_all
  have opened: "open_existing_header P path kek counterpart page_size realm OmReadWrite ?v = (Ok (h, t, True), ?v)"
    if "select_header P kek counterpart page_size (if s = SlotA then ?act else torn) (if s = SlotA then torn else ?act) =
        Ok (h, t, True)" "h_realm_id h = realm" for h t
    using open_existing_header_eq [OF f'(1), of OmReadWrite P kek counterpart realm] f'(2,3) that s2
    by (cases s) simp_all
  have "open_existing_header P path kek counterpart page_size realm OmReadWrite ?v =
      (Ok (if torn = bs then (g, other_slot s, True) else (f, s, True)), ?v)"
  proof (cases "torn = bs")
    case True
    have "superseded P kek counterpart page_size ?act g" using df(2) seq by (simp add: superseded_def)
    then have "select_header P kek counterpart page_size (if other_slot s = SlotA then bs else ?act)
        (if other_slot s = SlotA then ?act else bs) = Ok (g, other_slot s, True)"
      using df(3,4) by (intro select_active [OF laws new_holds]) simp_all
    then show ?thesis using opened [of g "other_slot s"] realm True by (cases s) simp_all
  next
    case False
    have "superseded P kek counterpart page_size torn f"
    proof (cases "torn = old")
      case not_old: False
      then have "try_decode P kek counterpart page_size torn = (None, None)"
        using untagged_try_decode [OF laws lt] unforged False ps by simp
      then show ?thesis by (simp add: superseded_def)
    qed (use sup in simp)
    moreover have "declared_page_size torn = Some page_size \<and> declared_format_version torn = Some MAIN_FORMAT_VERSION"
      if "s = SlotB"
      using declared_prefix [OF torn_prefix [OF torn slot_a [OF that]]] dn(3-5) lt ps by simp
    ultimately have "select_header P kek counterpart page_size (if s = SlotA then ?act else torn)
        (if s = SlotA then torn else ?act) = Ok (f, s, True)"
      by (rule select_active [OF laws cur])
    then show ?thesis using opened realm False by simp
  qed
  moreover have "commit_header P path hk g s page_size v =
      (Written (other_slot s), put_slot i page_size (other_slot s) bs v)"
    using commit_header_eq [OF hfile new(3) dn(5)] ps by simp
  ultimately show ?thesis by blast
qed

section \<open>A refresh publishes nothing\<close>

lemma header_ok_anchor [simp]:
  "header_ok (h\<lparr>h_counter_anchor := a, h_seq := n\<rparr>) page_size = header_ok h page_size"
  "header_key P kek (h\<lparr>h_counter_anchor := a, h_seq := n\<rparr>) = header_key P kek h"
  by (simp_all add: header_ok_def header_key_def main_widths_def)

lemma u64_not_max: "w \<noteq> - 1 \<Longrightarrow> unat (w :: u64) + 1 < 2 ^ 64"
proof -
  assume "w \<noteq> - 1"
  then have "unat w \<noteq> unat (- 1 :: u64)" by (simp add: word_unat_eq_iff)
  moreover have "unat (- 1 :: u64) = 2 ^ 64 - 1" by (simp add: unsigned_minus_1_eq_mask mask_eq_exp_minus_1)
  ultimately show ?thesis using unat_lt2p [of w] by simp
qed

lemma refresh_anchor_eq:
  assumes laws: "crypto_laws P" and hfile: "header_file v path i page_size"
    and cur: "slot_holds P kek page_size (slot_range (mv_data v i) page_size (hc_slot c)) f"
    and key: "header_key P kek f = Ok hk"
    and seq: "hc_seq c = h_seq f" "h_seq f \<noteq> - 1" and anchor: "h_counter_anchor f \<le> a"
  obtains bs where "encode_main_db_header P (f\<lparr>h_counter_anchor := a, h_seq := h_seq f + 1\<rparr>) hk page_size = Ok bs"
    "refresh_anchor P path hk c a page_size v =
      (Ok \<lparr>hc_slot = other_slot (hc_slot c), hc_seq = h_seq f + 1\<rparr>,
       put_slot i page_size (other_slot (hc_slot c)) bs v)"
proof -
  let ?g = "f\<lparr>h_counter_anchor := a, h_seq := h_seq f + 1\<rparr>" and ?s = "hc_slot c"
  have ok: "header_ok f page_size"
    and e: "encode_main_db_header P f hk page_size = Ok (slot_range (mv_data v i) page_size ?s)"
    using cur key by (auto simp: slot_holds_def)
  have val: "validate_page_size_log2 (h_page_size_log2 f) = Ok page_size" and w: "main_widths ?g"
    using ok by (simp_all add: header_ok_def main_widths_def)
  have d: "decode_main_db_header P (slot_range (mv_data v i) page_size ?s) hk page_size = Ok f"
    using decode_iff_encode [OF laws val] e ok by (simp add: header_ok_def)
  obtain bs where bs: "encode_main_db_header P ?g hk page_size = Ok bs"
    using encode_main_total [OF laws, of ?g page_size hk] val by auto
  have ps: "4096 \<le> page_size" using val by (rule validate_log2_bounds)
  have "unat (h_seq f) + 1 < 2 ^ 64"
    using seq(2) by (rule u64_not_max)
  then have n: "next_seq c = Ok (h_seq f + 1)"
    using seq(1) by (simp add: next_seq_def checked_add_u64_def)
  have "refresh_anchor P path hk c a page_size v =
      (Ok \<lparr>hc_slot = other_slot ?s, hc_seq = h_seq f + 1\<rparr>, put_slot i page_size (other_slot ?s) bs v)"
    using hfile mem_open_existing [of v path i OmRead] read_slot [OF hfile, of False ?s] d n anchor
      commit_header_eq [OF hfile bs encode_length [OF laws bs w]] ps
    by (auto simp: refresh_anchor_def header_file_def Let_def not_less)
  then show thesis using that bs by blast
qed

text \<open>
  C30.  An anchor refresh publishes nothing.  With the live header \<open>f\<close> in the cursor's slot, the
  refresh succeeds, moves the cursor to the other slot with the next sequence number, and the
  next open returns \<open>f\<close> with the anchor raised to the pending one and the sequence incremented --
  root, catalog, free list, commit and every other field unchanged.  Only then does the generator
  learn the anchor, so that its window is open again.
\<close>

theorem refresh_publishes_nothing:
  assumes laws: "crypto_laws P" and hfile: "header_file v path i page_size"
    and cur: "slot_holds P kek page_size (slot_range (mv_data v i) page_size (hc_slot c)) f"
    and key: "header_key P kek f = Ok hk"
    and seq: "hc_seq c = h_seq f" "h_seq f \<noteq> - 1"
    and anchor: "h_counter_anchor f \<le> pending_anchor gen" "g_durable_anchor gen \<le> pending_anchor gen"
  shows "\<exists>v'. refresh_main_anchor P path page_size (Some (hk, c)) gen v =
      (Ok (), Some (hk, \<lparr>hc_slot = other_slot (hc_slot c), hc_seq = h_seq f + 1\<rparr>),
       gen\<lparr>g_durable_anchor := pending_anchor gen\<rparr>, v') \<and>
    header_file v' path i page_size \<and>
    slot_holds P kek page_size (slot_range (mv_data v' i) page_size (other_slot (hc_slot c)))
      (f\<lparr>h_counter_anchor := pending_anchor gen, h_seq := h_seq f + 1\<rparr>) \<and>
    open_existing_header P path kek counterpart page_size (h_realm_id f) OmReadWrite v' =
      (Ok (f\<lparr>h_counter_anchor := pending_anchor gen, h_seq := h_seq f + 1\<rparr>, other_slot (hc_slot c), True), v')"
proof -
  let ?a = "pending_anchor gen" and ?s = "hc_slot c"
  let ?g = "f\<lparr>h_counter_anchor := ?a, h_seq := h_seq f + 1\<rparr>"
  obtain bs where e: "encode_main_db_header P ?g hk page_size = Ok bs"
    and r: "refresh_anchor P path hk c ?a page_size v =
      (Ok \<lparr>hc_slot = other_slot ?s, hc_seq = h_seq f + 1\<rparr>, put_slot i page_size (other_slot ?s) bs v)"
    by (rule refresh_anchor_eq [OF laws hfile cur key seq anchor(1)])
  let ?v = "put_slot i page_size (other_slot ?s) bs v"
  have ok: "header_ok f page_size" using cur by (simp add: slot_holds_def)
  have new: "slot_holds P kek page_size bs ?g" using ok key e by (simp add: slot_holds_def)
  note dn = slot_holds_decode [OF laws new] and df = slot_holds_decode [OF laws cur]
  note f' = put_slot_file [OF hfile dn(5), of "other_slot ?s"]
  have s2: "other_slot (other_slot ?s) = ?s" by (cases ?s) simp_all
  have "h_seq f < h_seq f + 1"
    using u64_not_max [OF seq(2)] by (simp add: word_less_nat_alt unat_add_u64_no_wrap)
  then have "superseded P kek counterpart page_size (slot_range (mv_data v i) page_size ?s) ?g"
    using df(2) by (simp add: superseded_def)
  then have "select_header P kek counterpart page_size
      (if other_slot ?s = SlotA then bs else slot_range (mv_data v i) page_size ?s)
      (if other_slot ?s = SlotA then slot_range (mv_data v i) page_size ?s else bs) = Ok (?g, other_slot ?s, True)"
    using df(3,4) by (intro select_active [OF laws new]) simp_all
  then have "open_existing_header P path kek counterpart page_size (h_realm_id f) OmReadWrite ?v =
      (Ok (?g, other_slot ?s, True), ?v)"
    using open_existing_header_eq [OF f'(1), of OmReadWrite P kek counterpart "h_realm_id f"] f'(2,3) s2
    by (cases ?s) simp_all
  moreover have "refresh_main_anchor P path page_size (Some (hk, c)) gen v =
      (Ok (), Some (hk, \<lparr>hc_slot = other_slot ?s, hc_seq = h_seq f + 1\<rparr>), gen\<lparr>g_durable_anchor := ?a\<rparr>, ?v)"
    using r anchor(2) by (simp add: refresh_main_anchor_def commit_anchor_def Let_def leD)
  ultimately show ?thesis using f' new by auto
qed

section \<open>Concrete instances\<close>

lemma zero_slot_superseded:
  assumes "217 \<le> page_size"
  shows "superseded P kek None page_size (replicate page_size 0) h"
proof -
  have "hd MAGIC_MAIN \<noteq> 0" by (simp add: MAGIC_MAIN_def)
  moreover have "hd (take 8 (replicate page_size (0 :: u8))) = 0"
    using assms by (simp add: min_absorb1)
  ultimately have "take 8 (replicate page_size (0 :: u8)) \<noteq> MAGIC_MAIN" by metis
  then have d: "\<And>hk. decode_main_db_header P (replicate page_size 0) hk page_size =
      Err (Corruption (StructuralHeaderInvalid ''main.db'' ''magic''))"
    using assms by (simp add: decode_main_db_header_def authenticate_main_db_header_def header_consts)
  have "authenticate_slot_with_kek P (replicate page_size 0) kek page_size = Ok None"
    using assms by (auto simp: authenticate_slot_with_kek_def slice_def authenticate_slot_def d split: result.splits)
  then show ?thesis by (simp add: superseded_def try_decode_def)
qed

definition demo_header_vfs :: "bytes \<Rightarrow> mem_vfs" where
  "demo_header_vfs slot_a =
     mem_vfs_new\<lparr>mv_files := [(''/main.db'', 0)], mv_data := (\<lambda>_. [])(0 := slot_a @ replicate 4096 0), mv_next_inode := 1\<rparr>"

lemma demo_header_ok: "header_ok demo_header 4096"
  using demo_header_facts by (simp add: header_ok_def)

lemma demo_header_file:
  assumes "length slot_a = 4096"
  shows "header_file (demo_header_vfs slot_a) ''/main.db'' 0 4096"
    "slot_range (mv_data (demo_header_vfs slot_a) 0) 4096 SlotA = slot_a"
    "slot_range (mv_data (demo_header_vfs slot_a) 0) 4096 SlotB = replicate 4096 0"
proof -
  have "canonical_native_path ''/main.db'' = Ok ''/main.db''" by code_simp
  then show "header_file (demo_header_vfs slot_a) ''/main.db'' 0 4096"
    using assms by (simp add: header_file_def file_at_def demo_header_vfs_def)
  show "slot_range (mv_data (demo_header_vfs slot_a) 0) 4096 SlotA = slot_a"
    "slot_range (mv_data (demo_header_vfs slot_a) 0) 4096 SlotB = replicate 4096 0"
    using assms by (simp_all add: slot_range_def header_slot_offset_def demo_header_vfs_def)
qed

lemma demo_slot:
  assumes "crypto_laws P"
  obtains hk bs where "header_key P [1] demo_header = Ok hk" "slot_holds P [1] 4096 bs demo_header" "length bs = 4096"
proof -
  obtain hk where hk: "header_key P [1] demo_header = Ok hk"
    using header_key_total [OF assms] by blast
  obtain bs where "encode_main_db_header P demo_header hk 4096 = Ok bs"
    using encode_main_total [OF assms demo_header_facts(4)] by blast
  then have "slot_holds P [1] 4096 bs demo_header"
    using hk demo_header_ok by (auto simp: slot_holds_def)
  then show thesis using that [OF hk] slot_holds_decode(5) [OF assms] by blast
qed

text \<open>A provider whose tags start with a one, so that a slot whose tag was not yet written is refused.\<close>

definition marked_prims :: crypto_prims where
  "marked_prims = demo_prims\<lparr>hmac_sha256 := (\<lambda>k m. Some (1 # take 31 (rev m @ k @ replicate 31 0)))\<rparr>"

lemma marked_prims_laws: "crypto_laws marked_prims"
  using demo_prims_laws by (simp add: crypto_laws_def marked_prims_def min_def)

theorem commit_atomic_witness:
  "\<exists>v hk bs torn. torn \<noteq> bs \<and> torn \<noteq> replicate 4096 0 \<and> torn_write (replicate 4096 0) bs torn \<and>
    commit_header marked_prims ''/main.db'' hk (demo_header\<lparr>h_seq := 8\<rparr>) SlotA 4096 v =
      (Written SlotB, put_slot 0 4096 SlotB bs v) \<and>
    open_existing_header marked_prims ''/main.db'' [1] None 4096 (h_realm_id demo_header) OmReadWrite
      (put_slot 0 4096 SlotB torn v) = (Ok (demo_header, SlotA, True), put_slot 0 4096 SlotB torn v)"
proof -
  let ?g = "demo_header\<lparr>h_seq := 8\<rparr>" and ?P = marked_prims
  obtain hk slot_a where hk: "header_key ?P [1] demo_header = Ok hk"
    and a: "slot_holds ?P [1] 4096 slot_a demo_header" "length slot_a = 4096"
    by (rule demo_slot [OF marked_prims_laws])
  note f = demo_header_file [OF a(2)]
  have ok: "header_ok ?g 4096" "header_key ?P [1] ?g = Ok hk"
    using demo_header_ok hk by (simp_all add: header_ok_def header_key_def main_widths_def)
  then obtain bs where bs: "encode_main_db_header ?P ?g hk 4096 = Ok bs"
    using encode_main_total [OF marked_prims_laws, of ?g 4096 hk] by (auto simp: header_ok_def)
  then have holds: "slot_holds ?P [1] 4096 bs ?g" using ok by (auto simp: slot_holds_def)
  note db = slot_holds_decode [OF marked_prims_laws holds]
  define torn where "torn = take 64 bs @ replicate 4032 0"
  have len: "length torn = 4096" using db(5) by (simp add: torn_def)
  have tw: "torn_write (replicate 4096 0) bs torn"
    using db(5) by (auto simp: torn_write_def torn_def nth_append)
  have "replicate 16 (0 :: u8) = 0 # replicate 15 0" by (simp add: numeral_eq_Suc)
  then have un: "untagged ?P k 4096 torn" for k
    using db(5) by (simp add: untagged_def torn_def marked_prims_def)
  have "try_decode ?P [1] None 4096 torn = (None, None)"
    by (rule untagged_try_decode [OF marked_prims_laws len _ un un]) simp
  then have ne: "torn \<noteq> bs" using db(2) [of None] by auto
  have "take 8 torn = MAGIC_MAIN"
    using db(3,5) by (auto simp: torn_def declared_page_size_def split: if_splits)
  then have "hd (take 8 torn) \<noteq> 0" by (simp add: MAGIC_MAIN_def)
  then have nz: "torn \<noteq> replicate 4096 0" by auto
  have "h_seq demo_header < h_seq ?g" by (simp add: demo_header_def)
  then have "commit_header ?P ''/main.db'' hk ?g SlotA 4096 (demo_header_vfs slot_a) =
      (Written SlotB, put_slot 0 4096 SlotB bs (demo_header_vfs slot_a)) \<and>
    open_existing_header ?P ''/main.db'' [1] None 4096 (h_realm_id demo_header) OmReadWrite
      (put_slot 0 4096 SlotB torn (demo_header_vfs slot_a)) =
      (Ok (demo_header, SlotA, True), put_slot 0 4096 SlotB torn (demo_header_vfs slot_a))"
    using commit_atomic [OF marked_prims_laws f(1), of "[1]" SlotA demo_header "replicate 4096 0" None ?g hk bs
        "h_realm_id demo_header" torn] f a ok bs zero_slot_superseded [of 4096 ?P "[1]" demo_header] tw un ne
    by auto
  then show ?thesis using ne nz tw by blast
qed

theorem refresh_publishes_nothing_witness:
  "\<exists>hk v v'. refresh_main_anchor demo_prims ''/main.db'' 4096
      (Some (hk, \<lparr>hc_slot = SlotA, hc_seq = 7\<rparr>)) (main_nonce_recover [0, 0, 0, 0, 0, 0] 99 4) v =
      (Ok (), Some (hk, \<lparr>hc_slot = SlotB, hc_seq = 8\<rparr>),
       (main_nonce_recover [0, 0, 0, 0, 0, 0] 99 4)\<lparr>g_durable_anchor := 1048675\<rparr>, v')"
proof -
  let ?gen = "main_nonce_recover [0, 0, 0, 0, 0, 0] 99 4"
  obtain hk slot_a where hk: "header_key demo_prims [1] demo_header = Ok hk"
    and a: "slot_holds demo_prims [1] 4096 slot_a demo_header" "length slot_a = 4096"
    by (rule demo_slot [OF demo_prims_laws])
  note f = demo_header_file [OF a(2)]
  have p: "pending_anchor ?gen = 1048675" "g_durable_anchor ?gen = 99"
    by (simp_all add: main_nonce_recover_def word_unat_eq_iff unat_saturating_add_u64)
  have h: "h_counter_anchor demo_header = 99" "h_seq demo_header = 7" by (simp_all add: demo_header_def)
  show ?thesis
    using refresh_publishes_nothing [OF demo_prims_laws f(1), of "[1]" "\<lparr>hc_slot = SlotA, hc_seq = 7\<rparr>"
        demo_header hk ?gen None] f a hk p h by auto
qed

section \<open>Damage to the framing of slot A\<close>

text \<open>
  One damaged slot is not always survived.  When slot A still carries the magic and the page
  size but another version number -- two flipped bytes -- the open is refused with that version,
  although slot B holds an intact header with the greatest sequence number: the cleartext checks
  run on slot A before any slot is authenticated.
\<close>

theorem slot_a_version_damage_refused:
  assumes "crypto_laws P" "slot_holds P kek page_size slot_b h"
    and "declared_page_size slot_a = Some page_size"
    and "declared_format_version slot_a = Some n" "n \<noteq> MAIN_FORMAT_VERSION"
  shows "select_header P kek counterpart page_size slot_a slot_b = Err (FormatVersionUnsupported n MAIN_FORMAT_VERSION) \<and>
    try_decode P kek counterpart page_size slot_b = (Some (h, True), None)"
  using assms slot_holds_decode [OF assms(1,2)]
  by (simp add: select_header_def check_page_size_def check_format_version_def or_else_def)

theorem slot_a_version_damage_refused_witness:
  "\<exists>slot_b. slot_holds demo_prims [1] 4096 slot_b demo_header \<and>
     select_header demo_prims [1] None 4096 (MAGIC_MAIN @ [2, 0, 1, 12] @ replicate 4084 0) slot_b =
       Err (FormatVersionUnsupported 2 MAIN_FORMAT_VERSION)"
proof -
  obtain hk slot_b where b: "slot_holds demo_prims [1] 4096 slot_b demo_header" by (rule demo_slot [OF demo_prims_laws])
  let ?a = "MAGIC_MAIN @ [2, 0, 1, 12] @ replicate 4084 0"
  have "declared_page_size ?a = Some 4096"
    by (simp add: declared_page_size_def MAGIC_MAIN_def)
  moreover have "declared_format_version ?a = Some 2"
    by (simp add: declared_format_version_def MAGIC_MAIN_def u16_from_le_bytes_def)
  ultimately show ?thesis
    using slot_a_version_damage_refused [OF demo_prims_laws b, of ?a 2 None] b
    by (auto simp: MAIN_FORMAT_VERSION_def)
qed

end
