(* ===== verification/Page_Cache.thy ===== *)
theory Page_Cache
  imports Prelude "HOL-Library.AList" "HOL-Library.Product_Lexorder" "HOL-Library.Option_ord"
begin

text \<open>
  The page cache (\<open>pager/cache/\<close>): a slab of nodes with a free list, a map from page identities to
  slots, a doubly linked list of the clean entries through the slab that the SIEVE hand walks, the
  set of dirty keys and the count of evictable entries.  Every operation is translated with its
  faults: the first broken invariant latches and every later operation reports it.

  The record carries \<open>pc_debug\<close>, the value of \<open>cfg!(debug_assertions)\<close> in the build, so that the
  checks which run in debug builds only are part of the model.  The map is an association list
  whose order stands for the iteration order of the hash map; the capacity a hash map happens to
  have allocated is an argument of the operations that read it.  An \<open>Arc\<close> of a page is the page
  with the identity of its allocation, which \<open>Arc::ptr_eq\<close> compares.
\<close>

section \<open>Pages and keys\<close>

datatype file_key = FkMain | FkApplyJournal bytes

type_synonym cache_key = "file_key \<times> u64"

text \<open>The derived order of the enumeration: \<open>Main\<close> first, journals by the bytes of their id.\<close>

fun file_key_rank :: "file_key \<Rightarrow> bytes option" where
  "file_key_rank FkMain = None"
| "file_key_rank (FkApplyJournal b) = Some b"

lemma file_key_rank_inject [simp]: "file_key_rank a = file_key_rank b \<longleftrightarrow> a = b"
  by (cases a; cases b) auto

instantiation file_key :: linorder
begin

definition less_eq_file_key :: "file_key \<Rightarrow> file_key \<Rightarrow> bool" where
  "less_eq_file_key a b \<longleftrightarrow> file_key_rank a \<le> file_key_rank b"

definition less_file_key :: "file_key \<Rightarrow> file_key \<Rightarrow> bool" where
  "less_file_key a b \<longleftrightarrow> file_key_rank a < file_key_rank b"

instance
  by standard (auto simp: less_eq_file_key_def less_file_key_def less_le)

end

record cached_page =
  ap_id :: nat
  ap_bytes :: bytes
  ap_kind_byte :: u8
  ap_realm_id_bytes :: "bytes option"

definition ptr_eq :: "cached_page \<Rightarrow> cached_page \<Rightarrow> bool" where
  "ptr_eq a b \<longleftrightarrow> ap_id a = ap_id b"

record cache_node =
  cn_key :: cache_key
  cn_page :: cached_page
  cn_pins :: u32
  cn_visited :: bool
  cn_linked :: bool
  cn_prev :: "nat option"
  cn_next :: "nat option"

record page_cache =
  pc_capacity :: nat
  pc_map :: "(cache_key \<times> nat) list"
  pc_slab :: "cache_node option list"
  pc_free :: "nat list"
  pc_head :: "nat option"
  pc_tail :: "nat option"
  pc_hand :: "nat option"
  pc_dirty :: "cache_key set"
  pc_evictable :: nat
  pc_fault :: "error option"
  pc_debug :: bool

type_synonym 'a cache_op = "page_cache \<Rightarrow> 'a result \<times> page_cache"

definition with_capacity :: "bool \<Rightarrow> nat \<Rightarrow> page_cache" where
  "with_capacity debug capacity =
     \<lparr>pc_capacity = max capacity 1, pc_map = [], pc_slab = [], pc_free = [], pc_head = None,
      pc_tail = None, pc_hand = None, pc_dirty = {}, pc_evictable = 0, pc_fault = None,
      pc_debug = debug\<rparr>"

section \<open>Faults\<close>

definition SLOT_EMPTY :: string where "SLOT_EMPTY = ''slot holds no entry''"
definition SLOT_HOLDS_OTHER_KEY :: string where "SLOT_HOLDS_OTHER_KEY = ''slot holds another key''"
definition NO_VICTIM :: string where "NO_VICTIM = ''evictable count is positive with no victim''"
definition RELEASE_WITHOUT_PIN :: string where "RELEASE_WITHOUT_PIN = ''release without a pin''"
definition DIRTY_NOT_RESIDENT :: string where "DIRTY_NOT_RESIDENT = ''dirty page not resident''"
definition EVICTABLE_COUNT_DRIFTED :: string where
  "EVICTABLE_COUNT_DRIFTED = ''evictable count differs from the live entries''"
definition OVER_BUDGET :: string where "OVER_BUDGET = ''entries exceed capacity while one is evictable''"
definition LIST_LINK_BROKEN :: string where "LIST_LINK_BROKEN = ''list link disagrees with the slot it names''"
definition MAP_SLOT_DISAGREES :: string where "MAP_SLOT_DISAGREES = ''map entry disagrees with the slot''"
definition LIVE_SLOTS_DRIFTED :: string where "LIVE_SLOTS_DRIFTED = ''live slots differ from the map''"
definition NODE_ALREADY_LINKED :: string where "NODE_ALREADY_LINKED = ''node is already on the list''"
definition LIST_MEMBERSHIP_DRIFTED :: string where
  "LIST_MEMBERSHIP_DRIFTED = ''list membership disagrees with the dirty marker''"

text \<open>A \<open>CacheFault\<close> is represented by the error value it converts to.\<close>

definition cache_fault :: "string \<Rightarrow> string \<Rightarrow> nat option \<Rightarrow> error" where
  "cache_fault operation detail slot = PageCacheStateInvalid operation detail slot"

definition check_usable :: "page_cache \<Rightarrow> unit result" where
  "check_usable c = (case pc_fault c of Some fault \<Rightarrow> Err fault | None \<Rightarrow> Ok ())"

definition latch :: "error \<Rightarrow> page_cache \<Rightarrow> page_cache" where
  "latch fault c = c\<lparr>pc_fault := Some fault\<rparr>"

definition guarded :: "'a cache_op \<Rightarrow> 'a cache_op" where
  "guarded body c =
     (case check_usable c of
        Err fault \<Rightarrow> (Err fault, c)
      | Ok _ \<Rightarrow>
          (case body c of
             (Ok x, c) \<Rightarrow> (Ok x, c)
           | (Err fault, c) \<Rightarrow> (Err fault, latch fault c)))"

section \<open>Slots\<close>

definition slot_node :: "cache_node option list \<Rightarrow> nat \<Rightarrow> string \<Rightarrow> cache_node result" where
  "slot_node slab idx operation =
     of_option (cache_fault operation SLOT_EMPTY (Some idx)) (if idx < length slab then slab ! idx else None)"

definition keyed_node :: "cache_node option list \<Rightarrow> nat \<Rightarrow> cache_key \<Rightarrow> string \<Rightarrow> cache_node result" where
  "keyed_node slab idx k operation =
     rbind (slot_node slab idx operation) (\<lambda>n.
       if cn_key n \<noteq> k then Err (cache_fault operation SLOT_HOLDS_OTHER_KEY (Some idx)) else Ok n)"

definition set_slot :: "nat \<Rightarrow> cache_node \<Rightarrow> page_cache \<Rightarrow> page_cache" where
  "set_slot idx n c = c\<lparr>pc_slab := (pc_slab c)[idx := Some n]\<rparr>"

text \<open>Change a node in place through the mutable borrow of its slot.\<close>

definition update_node :: "nat \<Rightarrow> string \<Rightarrow> (cache_node \<Rightarrow> cache_node) \<Rightarrow> unit cache_op" where
  "update_node idx operation f c =
     (case slot_node (pc_slab c) idx operation of
        Err e \<Rightarrow> (Err e, c)
      | Ok n \<Rightarrow> (Ok (), set_slot idx (f n) c))"

definition is_evictable :: "cache_node \<Rightarrow> cache_key set \<Rightarrow> bool" where
  "is_evictable n dirty \<longleftrightarrow> cn_pins n = 0 \<and> cn_key n \<notin> dirty"

definition one_less :: "string \<Rightarrow> unit cache_op" where
  "one_less operation c =
     (if pc_evictable c = 0 then (Err (cache_fault operation EVICTABLE_COUNT_DRIFTED None), c)
      else (Ok (), c\<lparr>pc_evictable := pc_evictable c - 1\<rparr>))"

definition cache_len :: "page_cache \<Rightarrow> nat" where
  "cache_len c = length (pc_map c)"

section \<open>The linked list\<close>

definition unlink_node :: "nat option \<Rightarrow> nat option \<Rightarrow> string \<Rightarrow> unit cache_op" where
  "unlink_node prev nxt operation c =
     mbind (case prev of
         Some p \<Rightarrow> update_node p operation (\<lambda>n. n\<lparr>cn_next := nxt\<rparr>) c
       | None \<Rightarrow> (Ok (), c\<lparr>pc_tail := nxt\<rparr>)) (\<lambda>_ c.
     case nxt of
       Some q \<Rightarrow> update_node q operation (\<lambda>n. n\<lparr>cn_prev := prev\<rparr>) c
     | None \<Rightarrow> (Ok (), c\<lparr>pc_head := prev\<rparr>))"

definition unlink_from_list :: "nat \<Rightarrow> string \<Rightarrow> unit cache_op" where
  "unlink_from_list idx operation c =
     (case slot_node (pc_slab c) idx operation of
        Err e \<Rightarrow> (Err e, c)
      | Ok n \<Rightarrow>
          if \<not> cn_linked n then (Ok (), c)
          else
            (let c = set_slot idx (n\<lparr>cn_linked := False, cn_prev := None, cn_next := None\<rparr>) c;
                 c = (if pc_hand c = Some idx then c\<lparr>pc_hand := cn_next n\<rparr> else c)
             in unlink_node (cn_prev n) (cn_next n) operation c))"

definition link_as_head :: "nat \<Rightarrow> string \<Rightarrow> unit cache_op" where
  "link_as_head idx operation c =
     (case slot_node (pc_slab c) idx operation of
        Err e \<Rightarrow> (Err e, c)
      | Ok n \<Rightarrow>
          if cn_linked n then (Err (cache_fault operation NODE_ALREADY_LINKED (Some idx)), c)
          else
            mbind (case pc_head c of
                Some old_head \<Rightarrow>
                  update_node old_head operation (\<lambda>m. m\<lparr>cn_next := Some idx\<rparr>)
                    (set_slot idx (n\<lparr>cn_linked := True, cn_prev := pc_head c, cn_next := None\<rparr>) c)
              | None \<Rightarrow>
                  (Ok (), (set_slot idx (n\<lparr>cn_linked := True, cn_prev := None, cn_next := None\<rparr>) c)\<lparr>pc_tail := Some idx\<rparr>))
              (\<lambda>_ c. (Ok (), c\<lparr>pc_head := Some idx\<rparr>)))"

definition free_node :: "nat \<Rightarrow> string \<Rightarrow> unit cache_op" where
  "free_node idx operation c =
     (case slot_node (pc_slab c) idx operation of
        Err e \<Rightarrow> (Err e, c)
      | Ok _ \<Rightarrow> (Ok (), c\<lparr>pc_slab := (pc_slab c)[idx := None], pc_free := pc_free c @ [idx]\<rparr>))"

definition alloc_node :: "cache_node \<Rightarrow> string \<Rightarrow> nat cache_op" where
  "alloc_node n operation c =
     (if pc_free c = [] then (Ok (length (pc_slab c)), c\<lparr>pc_slab := pc_slab c @ [Some n]\<rparr>)
      else
        (let idx = last (pc_free c); c = c\<lparr>pc_free := butlast (pc_free c)\<rparr> in
         if \<not> idx < length (pc_slab c) then (Err (cache_fault operation SLOT_EMPTY (Some idx)), c)
         else if pc_slab c ! idx \<noteq> None then (Err (cache_fault operation SLOT_HOLDS_OTHER_KEY (Some idx)), c)
         else (Ok idx, set_slot idx n c)))"

section \<open>Eviction\<close>

text \<open>Evict the node at \<open>idx\<close> and leave the hand on its newer neighbour.\<close>

definition evict_victim :: "nat \<Rightarrow> cache_node \<Rightarrow> unit cache_op" where
  "evict_victim idx n c =
     mbind (unlink_node (cn_prev n) (cn_next n) ''evict_one'' c) (\<lambda>_ c.
     mbind (free_node idx ''evict_one''
       (c\<lparr>pc_hand := cn_next n, pc_map := AList.delete (cn_key n) (pc_map c)\<rparr>)) (\<lambda>_ c.
     one_less ''evict_one'' c))"

text \<open>One walk of the hand; the first argument is the number of loop iterations left.\<close>

fun evict_loop :: "nat \<Rightarrow> nat option \<Rightarrow> unit cache_op" where
  "evict_loop 0 cur c = (Err (cache_fault ''evict_one'' NO_VICTIM None), c)"
| "evict_loop (Suc steps) cur c =
     (case cur of
        None \<Rightarrow> evict_loop steps (pc_tail c) c
      | Some idx \<Rightarrow>
          (case slot_node (pc_slab c) idx ''evict_one'' of
             Err e \<Rightarrow> (Err e, c)
           | Ok n \<Rightarrow>
               if pc_debug c \<and> cn_key n \<in> pc_dirty c
               then (Err (cache_fault ''evict_one'' LIST_MEMBERSHIP_DRIFTED (Some idx)), c)
               else if \<not> is_evictable n (pc_dirty c) then evict_loop steps (cn_next n) c
               else if cn_visited n then evict_loop steps (cn_next n) (set_slot idx (n\<lparr>cn_visited := False\<rparr>) c)
               else evict_victim idx n c))"

definition evict_one :: "unit cache_op" where
  "evict_one c =
     evict_loop (2 * (cache_len c - card (pc_dirty c) + 1))
       (case pc_hand c of Some h \<Rightarrow> Some h | None \<Rightarrow> pc_tail c) c"

definition check_evictable_count :: "page_cache \<Rightarrow> string \<Rightarrow> unit result" where
  "check_evictable_count c operation =
     rbind (fold_result (\<lambda>idx candidates.
         rbind (slot_node (pc_slab c) idx operation) (\<lambda>n.
           Ok (if is_evictable n (pc_dirty c) then candidates + 1 else candidates)))
       (map snd (pc_map c)) 0) (\<lambda>candidates.
     if candidates = pc_evictable c then Ok () else Err (cache_fault operation EVICTABLE_COUNT_DRIFTED None))"

definition check_list_membership :: "page_cache \<Rightarrow> string \<Rightarrow> unit result" where
  "check_list_membership c operation =
     for_each (\<lambda>(k, idx).
       rbind (slot_node (pc_slab c) idx operation) (\<lambda>n.
         if cn_linked n = (k \<in> pc_dirty c)
         then Err (cache_fault operation LIST_MEMBERSHIP_DRIFTED (Some idx)) else Ok ()))
     (pc_map c)"

definition check_within_budget :: "page_cache \<Rightarrow> string \<Rightarrow> unit result" where
  "check_within_budget c operation =
     (if pc_debug c \<and> pc_capacity c < cache_len c \<and> 0 < pc_evictable c
      then Err (cache_fault operation OVER_BUDGET None) else Ok ())"

lemma update_node_evictable:
  "update_node idx operation f c = (r, c') \<Longrightarrow> pc_evictable c' = pc_evictable c"
  by (auto simp: update_node_def set_slot_def split: result.splits)

lemma unlink_node_evictable:
  "unlink_node prev nxt operation c = (Ok u, c') \<Longrightarrow> pc_evictable c' = pc_evictable c"
  by (auto simp: unlink_node_def mbind_eq_Ok split: option.splits dest!: update_node_evictable)

lemma free_node_evictable:
  "free_node idx operation c = (Ok u, c') \<Longrightarrow> pc_evictable c' = pc_evictable c"
  by (auto simp: free_node_def split: result.splits)

lemma evict_victim_evictable:
  "evict_victim idx n c = (Ok u, c') \<Longrightarrow> pc_evictable c' < pc_evictable c"
  by (auto simp: evict_victim_def mbind_eq_Ok one_less_def split: if_splits
      dest!: unlink_node_evictable free_node_evictable)

lemma evict_loop_evictable:
  "evict_loop steps cur c = (Ok u, c') \<Longrightarrow> pc_evictable c' < pc_evictable c"
  by (induction steps cur c rule: evict_loop.induct)
    (auto simp: set_slot_def dest!: evict_victim_evictable split: option.splits result.splits if_splits)

text \<open>Each eviction lowers the count of candidates, so the trimming loop ends.\<close>

function trim_loop :: "nat \<Rightarrow> unit cache_op" where
  "trim_loop target c =
     (if target < cache_len c \<and> 0 < pc_evictable c
      then mbind (evict_one c) (\<lambda>_ c. trim_loop target c)
      else (Ok (), c))"
  by pat_completeness auto
termination
  by (relation "measure (pc_evictable \<circ> snd)") (auto simp: evict_one_def simp del: evict_loop.simps dest: evict_loop_evictable)

declare trim_loop.simps [simp del]

definition trim_to :: "nat \<Rightarrow> unit cache_op" where
  "trim_to target c =
     (if pc_debug c
      then (case rbind (check_evictable_count c ''trim_to'') (\<lambda>_. check_list_membership c ''trim_to'') of
              Err e \<Rightarrow> (Err e, c)
            | Ok _ \<Rightarrow> trim_loop target c)
      else trim_loop target c)"

section \<open>Reclaiming index memory\<close>

definition retarget_list_links :: "nat \<Rightarrow> nat \<Rightarrow> nat option \<Rightarrow> nat option \<Rightarrow> string \<Rightarrow> unit cache_op" where
  "retarget_list_links from_idx to_idx prev nxt operation c =
     (let broken = cache_fault operation LIST_LINK_BROKEN (Some from_idx) in
      mbind (case prev of
          Some p \<Rightarrow>
            (case slot_node (pc_slab c) p operation of
               Err e \<Rightarrow> (Err e, c)
             | Ok n \<Rightarrow>
                 if cn_next n \<noteq> Some from_idx then (Err broken, c)
                 else (Ok (), set_slot p (n\<lparr>cn_next := Some to_idx\<rparr>) c))
        | None \<Rightarrow> if pc_tail c = Some from_idx then (Ok (), c\<lparr>pc_tail := Some to_idx\<rparr>) else (Err broken, c)) (\<lambda>_ c.
      mbind (case nxt of
          Some q \<Rightarrow>
            (case slot_node (pc_slab c) q operation of
               Err e \<Rightarrow> (Err e, c)
             | Ok n \<Rightarrow>
                 if cn_prev n \<noteq> Some from_idx then (Err broken, c)
                 else (Ok (), set_slot q (n\<lparr>cn_prev := Some to_idx\<rparr>) c))
        | None \<Rightarrow> if pc_head c = Some from_idx then (Ok (), c\<lparr>pc_head := Some to_idx\<rparr>) else (Err broken, c)) (\<lambda>_ c.
      (Ok (), if pc_hand c = Some from_idx then c\<lparr>pc_hand := Some to_idx\<rparr> else c))))"

definition move_node :: "nat \<Rightarrow> nat \<Rightarrow> string \<Rightarrow> unit cache_op" where
  "move_node from_idx to_idx operation c =
     (case slot_node (pc_slab c) from_idx operation of
        Err e \<Rightarrow> (Err e, c)
      | Ok n \<Rightarrow>
          mbind (if cn_linked n then retarget_list_links from_idx to_idx (cn_prev n) (cn_next n) operation c
                 else (Ok (), c)) (\<lambda>_ c.
          if map_of (pc_map c) (cn_key n) \<noteq> Some from_idx
          then (Err (cache_fault operation MAP_SLOT_DISAGREES (Some from_idx)), c)
          else
            (let moved = (if from_idx < length (pc_slab c) then pc_slab c ! from_idx else None);
                 c = c\<lparr>pc_map := AList.update (cn_key n) to_idx (pc_map c),
                       pc_slab := (pc_slab c)[from_idx := None]\<rparr>
             in if \<not> to_idx < length (pc_slab c) then (Err (cache_fault operation SLOT_EMPTY (Some to_idx)), c)
                else if pc_slab c ! to_idx \<noteq> None
                then (Err (cache_fault operation SLOT_HOLDS_OTHER_KEY (Some to_idx)), c)
                else (Ok (), c\<lparr>pc_slab := (pc_slab c)[to_idx := moved]\<rparr>))))"

text \<open>The lowest free slot from \<open>low\<close> up, stopping at \<open>high\<close>.\<close>

function next_free :: "cache_node option list \<Rightarrow> nat \<Rightarrow> nat \<Rightarrow> nat" where
  "next_free slab low high =
     (if low < high \<and> low < length slab \<and> slab ! low \<noteq> None then next_free slab (low + 1) high else low)"
  by pat_completeness auto
termination
  by (relation "measure (\<lambda>(_, low, high). high - low)") auto

declare next_free.simps [simp del]

fun compact_loop :: "nat list \<Rightarrow> nat \<Rightarrow> string \<Rightarrow> unit cache_op" where
  "compact_loop [] low operation c = (Ok (), c)"
| "compact_loop (high # rest) low operation c =
     (case (if high < length (pc_slab c) then pc_slab c ! high else None) of
        None \<Rightarrow> compact_loop rest low operation c
      | Some n \<Rightarrow>
          if 0 < cn_pins n then (Ok (), c)
          else
            (let low = next_free (pc_slab c) low high in
             if high \<le> low then (Ok (), c)
             else mbind (move_node high low operation c) (\<lambda>_ c. compact_loop rest low operation c)))"

definition compact_high_slots :: "string \<Rightarrow> unit cache_op" where
  "compact_high_slots operation c = compact_loop (rev [0..<length (pc_slab c)]) 0 operation c"

definition live_prefix :: "cache_node option list \<Rightarrow> nat" where
  "live_prefix slab = length (dropWhile (\<lambda>slot. slot = None) (rev slab))"

definition reclaim_index_memory :: "nat \<Rightarrow> unit cache_op" where
  "reclaim_index_memory map_capacity c =
     (if map_capacity \<le> pc_capacity c * 2 \<and> length (pc_slab c) \<le> pc_capacity c * 2 then (Ok (), c)
      else
        mbind (compact_high_slots ''reclaim_index_memory'' c) (\<lambda>_ c.
          let slab = take (live_prefix (pc_slab c)) (pc_slab c);
              free = rev (filter (\<lambda>idx. slab ! idx = None) [0..<length slab]);
              c = c\<lparr>pc_slab := slab, pc_free := free\<rparr>
          in if length free + cache_len c \<noteq> length slab
             then (Err (cache_fault ''reclaim_index_memory'' LIVE_SLOTS_DRIFTED None), c)
             else (Ok (), c)))"

definition settle_batch :: "nat \<Rightarrow> string \<Rightarrow> unit cache_op" where
  "settle_batch map_capacity operation c =
     mbind (trim_to (pc_capacity c) c) (\<lambda>_ c.
     mbind (reclaim_index_memory map_capacity c) (\<lambda>_ c.
     (check_within_budget c operation, c)))"

section \<open>Lookup, pins and insertion\<close>

definition cache_get :: "cache_key \<Rightarrow> cached_page option cache_op" where
  "cache_get k = guarded (\<lambda>c.
     case map_of (pc_map c) k of
       None \<Rightarrow> (Ok None, c)
     | Some idx \<Rightarrow>
         (case keyed_node (pc_slab c) idx k ''get'' of
            Err e \<Rightarrow> (Err e, c)
          | Ok n \<Rightarrow> (Ok (Some (cn_page n)), set_slot idx (n\<lparr>cn_visited := True\<rparr>) c)))"

definition get_dirty :: "cache_key \<Rightarrow> cached_page option cache_op" where
  "get_dirty k c =
     mbind (cache_get k c) (\<lambda>p c.
       if p = None \<and> k \<in> pc_dirty c
       then (let fault = cache_fault ''get_dirty'' DIRTY_NOT_RESIDENT None in (Err fault, latch fault c))
       else (Ok p, c))"

definition saturating_inc_u32 :: "u32 \<Rightarrow> u32" where
  "saturating_inc_u32 w = (if w = - 1 then w else w + 1)"

text \<open>Pin the entry at \<open>idx\<close>; both callers then set its \<open>visited\<close> bit through the borrow it returns.\<close>

definition pin_resident :: "nat \<Rightarrow> cache_key \<Rightarrow> string \<Rightarrow> (cached_page \<times> nat) cache_op" where
  "pin_resident idx k operation c =
     (case keyed_node (pc_slab c) idx k operation of
        Err e \<Rightarrow> (Err e, c)
      | Ok n \<Rightarrow>
          mbind (if is_evictable n (pc_dirty c) then one_less operation c else (Ok (), c)) (\<lambda>_ c.
          (Ok (cn_page n, idx),
           set_slot idx (n\<lparr>cn_pins := saturating_inc_u32 (cn_pins n), cn_visited := True\<rparr>) c)))"

definition get_and_pin :: "cache_key \<Rightarrow> (cached_page \<times> nat) option cache_op" where
  "get_and_pin k = guarded (\<lambda>c.
     case map_of (pc_map c) k of
       None \<Rightarrow> (Ok None, c)
     | Some idx \<Rightarrow> mbind (pin_resident idx k ''get_and_pin'' c) (\<lambda>r c. (Ok (Some r), c)))"

definition unpin_at :: "nat \<Rightarrow> cache_key \<Rightarrow> page_cache \<Rightarrow> page_cache" where
  "unpin_at idx k c = snd (guarded (\<lambda>c.
     case keyed_node (pc_slab c) idx k ''unpin_at'' of
       Err e \<Rightarrow> (Err e, c)
     | Ok n \<Rightarrow>
         if cn_pins n = 0 then (Err (cache_fault ''unpin_at'' RELEASE_WITHOUT_PIN (Some idx)), c)
         else
           (let n = n\<lparr>cn_pins := cn_pins n - 1\<rparr>; c = set_slot idx n c in
            mbind (if is_evictable n (pc_dirty c)
                   then (let c = c\<lparr>pc_evictable := pc_evictable c + 1\<rparr> in
                         if pc_capacity c < cache_len c then trim_to (pc_capacity c) c else (Ok (), c))
                   else (Ok (), c)) (\<lambda>_ c.
            (check_within_budget c ''unpin_at'', c)))) c)"

definition insert_new :: "cache_key \<Rightarrow> cached_page \<Rightarrow> u32 \<Rightarrow> string \<Rightarrow> nat cache_op" where
  "insert_new k pg pins operation c =
     mbind (if pc_capacity c \<le> cache_len c then trim_to (pc_capacity c - 1) c else (Ok (), c)) (\<lambda>_ c.
     mbind (alloc_node \<lparr>cn_key = k, cn_page = pg, cn_pins = pins, cn_visited = False, cn_linked = False,
         cn_prev = None, cn_next = None\<rparr> operation c) (\<lambda>idx c.
     mbind (link_as_head idx operation c) (\<lambda>_ c.
     let c = c\<lparr>pc_map := AList.update k idx (pc_map c)\<rparr>;
         c = (if pins = 0 \<and> k \<notin> pc_dirty c then c\<lparr>pc_evictable := pc_evictable c + 1\<rparr> else c)
     in (Ok idx, c))))"

definition cache_insert :: "cache_key \<Rightarrow> cached_page \<Rightarrow> unit cache_op" where
  "cache_insert k pg = guarded (\<lambda>c.
     case map_of (pc_map c) k of
       Some idx \<Rightarrow>
         (case keyed_node (pc_slab c) idx k ''insert'' of
            Err e \<Rightarrow> (Err e, c)
          | Ok n \<Rightarrow> (Ok (), set_slot idx (n\<lparr>cn_page := pg\<rparr>) c))
     | None \<Rightarrow> mbind (insert_new k pg 0 ''insert'' c) (\<lambda>_ c. (Ok (), c)))"

definition insert_and_pin :: "cache_key \<Rightarrow> cached_page \<Rightarrow> (cached_page \<times> nat) cache_op" where
  "insert_and_pin k pg = guarded (\<lambda>c.
     case map_of (pc_map c) k of
       Some idx \<Rightarrow> pin_resident idx k ''insert_and_pin'' c
     | None \<Rightarrow> mbind (insert_new k pg 1 ''insert_and_pin'' c) (\<lambda>idx c. (Ok (pg, idx), c)))"

section \<open>Dirty pages\<close>

definition mark_dirty :: "cache_key \<Rightarrow> unit cache_op" where
  "mark_dirty k = guarded (\<lambda>c.
     case map_of (pc_map c) k of
       None \<Rightarrow> (Err (cache_fault ''mark_dirty'' DIRTY_NOT_RESIDENT None), c)
     | Some idx \<Rightarrow>
         (case keyed_node (pc_slab c) idx k ''mark_dirty'' of
            Err e \<Rightarrow> (Err e, c)
          | Ok n \<Rightarrow>
              mbind (if is_evictable n (pc_dirty c) then one_less ''mark_dirty'' c else (Ok (), c)) (\<lambda>_ c.
              unlink_from_list idx ''mark_dirty'' (c\<lparr>pc_dirty := insert k (pc_dirty c)\<rparr>))))"

definition clear_dirty :: "cache_key \<Rightarrow> unit cache_op" where
  "clear_dirty k = guarded (\<lambda>c.
     if k \<notin> pc_dirty c then (Ok (), c)
     else
       (case map_of (pc_map c) k of
          None \<Rightarrow> (Err (cache_fault ''clear_dirty'' DIRTY_NOT_RESIDENT None), c)
        | Some idx \<Rightarrow>
            (case keyed_node (pc_slab c) idx k ''clear_dirty'' of
               Err e \<Rightarrow> (Err e, c)
             | Ok n \<Rightarrow>
                 mbind (link_as_head idx ''clear_dirty'' c) (\<lambda>_ c.
                 let c = c\<lparr>pc_dirty := pc_dirty c - {k}\<rparr> in
                 (Ok (), if cn_pins n = 0 then c\<lparr>pc_evictable := pc_evictable c + 1\<rparr> else c)))))"

definition dirty_len :: "page_cache \<Rightarrow> nat" where
  "dirty_len c = card (pc_dirty c)"

definition dirty_for_file :: "page_cache \<Rightarrow> file_key \<Rightarrow> u64 list" where
  "dirty_for_file c fk = map snd (filter (\<lambda>k. fst k = fk) (sorted_list_of_set (pc_dirty c)))"

fun finish_loop :: "file_key \<Rightarrow> (u64 \<times> cached_page) list \<Rightarrow> unit cache_op" where
  "finish_loop fk [] c = (Ok (), c)"
| "finish_loop fk ((pid, snapshot) # rest) c =
     mbind (cache_get (fk, pid) c) (\<lambda>current c.
     mbind (case current of
         Some pg \<Rightarrow> if ptr_eq pg snapshot then clear_dirty (fk, pid) c else (Ok (), c)
       | None \<Rightarrow> (Ok (), c)) (\<lambda>_ c.
     finish_loop fk rest c))"

definition finish_flush :: "nat \<Rightarrow> file_key \<Rightarrow> (u64 \<times> cached_page) list \<Rightarrow> unit cache_op" where
  "finish_flush map_capacity fk gathered c =
     mbind (finish_loop fk gathered c) (\<lambda>_ c. guarded (settle_batch map_capacity ''finish_flush'') c)"

definition remove_unpinned_entry :: "cache_key \<Rightarrow> nat \<Rightarrow> string \<Rightarrow> unit cache_op" where
  "remove_unpinned_entry k idx operation c =
     (case keyed_node (pc_slab c) idx k operation of
        Err e \<Rightarrow> (Err e, c)
      | Ok n \<Rightarrow>
          (let was_evictable = is_evictable n (pc_dirty c) in
           mbind (unlink_from_list idx operation (c\<lparr>pc_map := AList.delete k (pc_map c)\<rparr>)) (\<lambda>_ c.
           mbind (free_node idx operation c) (\<lambda>_ c.
           if was_evictable then one_less operation c else (Ok (), c)))))"

definition discard_dirty_entry :: "cache_key \<Rightarrow> unit cache_op" where
  "discard_dirty_entry k = guarded (\<lambda>c.
     case map_of (pc_map c) k of
       None \<Rightarrow> (Err (cache_fault ''discard_dirty'' DIRTY_NOT_RESIDENT None), c)
     | Some idx \<Rightarrow>
         (case keyed_node (pc_slab c) idx k ''discard_dirty'' of
            Err e \<Rightarrow> (Err e, c)
          | Ok n \<Rightarrow>
              mbind (if 0 < cn_pins n then link_as_head idx ''discard_dirty'' c
                     else remove_unpinned_entry k idx ''discard_dirty'' c) (\<lambda>_ c.
              (Ok (), c\<lparr>pc_dirty := pc_dirty c - {k}\<rparr>))))"

fun discard_loop :: "file_key \<Rightarrow> u64 list \<Rightarrow> unit cache_op" where
  "discard_loop fk [] c = (Ok (), c)"
| "discard_loop fk (pid # rest) c = mbind (discard_dirty_entry (fk, pid) c) (\<lambda>_ c. discard_loop fk rest c)"

definition discard_dirty :: "nat \<Rightarrow> file_key \<Rightarrow> page_cache \<Rightarrow> page_cache" where
  "discard_dirty map_capacity fk c =
     snd (mbind (discard_loop fk (dirty_for_file c fk) c) (\<lambda>_ c. guarded (settle_batch map_capacity ''discard_dirty'') c))"

fun clear_loop :: "bool \<Rightarrow> (cache_key \<times> nat) list \<Rightarrow> unit cache_op" where
  "clear_loop keep_dirty [] c = (Ok (), c)"
| "clear_loop keep_dirty ((k, idx) # rest) c =
     (case keyed_node (pc_slab c) idx k ''clear_file'' of
        Err e \<Rightarrow> (Err e, c)
      | Ok n \<Rightarrow>
          if 0 < cn_pins n then clear_loop keep_dirty rest c
          else if keep_dirty \<and> k \<in> pc_dirty c then clear_loop keep_dirty rest c
          else
            mbind (remove_unpinned_entry k idx ''clear_file'' c) (\<lambda>_ c.
            clear_loop keep_dirty rest (if keep_dirty then c else c\<lparr>pc_dirty := pc_dirty c - {k}\<rparr>)))"

definition clear_file_entries :: "file_key \<Rightarrow> bool \<Rightarrow> unit cache_op" where
  "clear_file_entries fk keep_dirty =
     guarded (\<lambda>c. clear_loop keep_dirty (filter (\<lambda>(k, _). fst k = fk) (pc_map c)) c)"

definition clear_file :: "file_key \<Rightarrow> unit cache_op" where
  "clear_file fk = clear_file_entries fk False"

definition clear_clean_file :: "file_key \<Rightarrow> unit cache_op" where
  "clear_clean_file fk = clear_file_entries fk True"

end
