(* ===== verification/Cache_List.thy ===== *)
theory Cache_List
  imports Page_Cache
begin

text \<open>
  The doubly linked list inside the slab of the page cache.  \<open>chain c L\<close> says that the linked nodes
  of the cache are exactly those of the list \<open>L\<close> of slots, oldest first, with every pointer, the
  two ends and the hand agreeing; \<open>pay c\<close> is what the slots hold apart from links and \<open>visited\<close>
  bits.  Each primitive of the cache is characterised by its effect on these two.
\<close>

section \<open>Neighbours in a list\<close>

definition hd_opt :: "'a list \<Rightarrow> 'a option" where
  "hd_opt xs = (case xs of [] \<Rightarrow> None | x # _ \<Rightarrow> Some x)"

primrec succ_in :: "'a list \<Rightarrow> 'a \<Rightarrow> 'a option" where
  "succ_in [] y = None"
| "succ_in (x # xs) y = (if y = x then hd_opt xs else succ_in xs y)"

definition pred_in :: "'a list \<Rightarrow> 'a \<Rightarrow> 'a option" where
  "pred_in xs y = succ_in (rev xs) y"

lemma hd_opt_simps [simp]: "hd_opt [] = None" "hd_opt (x # xs) = Some x"
  by (simp_all add: hd_opt_def)

lemma hd_opt_eq_None [simp]: "hd_opt xs = None \<longleftrightarrow> xs = []"
  by (cases xs) auto

lemma hd_opt_append: "hd_opt (xs @ ys) = (if xs = [] then hd_opt ys else hd_opt xs)"
  by (cases xs) auto

lemma hd_opt_in: "hd_opt xs = Some x \<Longrightarrow> x \<in> set xs"
  by (cases xs) auto

lemma succ_in_notin [simp]: "y \<notin> set xs \<Longrightarrow> succ_in xs y = None"
  by (induction xs) auto

lemma succ_in_append:
  "succ_in (xs @ ys) y =
     (if y \<in> set xs then (case succ_in xs y of None \<Rightarrow> hd_opt ys | Some s \<Rightarrow> Some s) else succ_in ys y)"
  by (induction xs) (auto simp: hd_opt_append split: option.splits)

lemma succ_in_None: "distinct xs \<Longrightarrow> y \<in> set xs \<Longrightarrow> succ_in xs y = None \<longleftrightarrow> hd_opt (rev xs) = Some y"
  by (induction xs) (auto simp: hd_opt_append dest: hd_opt_in)

lemma succ_in_member: "succ_in xs y = Some s \<Longrightarrow> s \<in> set xs \<and> y \<in> set xs"
  by (induction xs) (auto dest: hd_opt_in split: if_splits)

lemma pred_in_notin [simp]: "y \<notin> set xs \<Longrightarrow> pred_in xs y = None"
  by (simp add: pred_in_def)

lemma pred_in_append:
  "pred_in (xs @ ys) y =
     (if y \<in> set ys then (case pred_in ys y of None \<Rightarrow> hd_opt (rev xs) | Some s \<Rightarrow> Some s) else pred_in xs y)"
  by (auto simp: pred_in_def succ_in_append)

lemma pred_in_Cons:
  "pred_in (x # ys) y = (if y \<in> set ys then (case pred_in ys y of None \<Rightarrow> Some x | Some s \<Rightarrow> Some s) else None)"
  by (simp add: pred_in_def succ_in_append split: option.splits)

lemma pred_in_None: "distinct xs \<Longrightarrow> y \<in> set xs \<Longrightarrow> pred_in xs y = None \<longleftrightarrow> hd_opt xs = Some y"
  using succ_in_None [of "rev xs" y] by (simp add: pred_in_def)

lemma pred_in_member: "pred_in xs y = Some s \<Longrightarrow> s \<in> set xs \<and> y \<in> set xs"
  using succ_in_member [of "rev xs" y s] by (simp add: pred_in_def)

lemma succ_in_nth: "distinct xs \<Longrightarrow> j < length xs \<Longrightarrow>
   succ_in xs (xs ! j) = (if Suc j < length xs then Some (xs ! Suc j) else None)"
proof (induction xs arbitrary: j)
  case (Cons x xs)
  show ?case
  proof (cases j)
    case 0
    then show ?thesis by (cases xs) auto
  next
    case (Suc m)
    then show ?thesis using Cons by (auto simp: nth_mem)
  qed
qed simp

section \<open>Slots and their contents\<close>

definition look :: "'a option list \<Rightarrow> nat \<Rightarrow> 'a option" where
  "look slab i = (if i < length slab then slab ! i else None)"

lemma look_update: "look (slab[i := x]) j = (if j = i \<and> i < length slab then x else look slab j)"
  by (auto simp: look_def)

lemma look_append: "look (slab @ [x]) j = (if j = length slab then x else look slab j)"
  by (auto simp: look_def nth_append)

lemma look_take: "look (take n slab) j = (if j < n then look slab j else None)"
  by (auto simp: look_def)

lemma look_lt: "look slab i = Some x \<Longrightarrow> i < length slab"
  by (auto simp: look_def split: if_splits)

lemma slot_node_look: "slot_node slab idx operation = of_option (cache_fault operation SLOT_EMPTY (Some idx)) (look slab idx)"
  by (simp add: slot_node_def look_def)

type_synonym slot_content = "cache_key \<times> cached_page \<times> u32"

definition content :: "cache_node \<Rightarrow> slot_content" where
  "content n = (cn_key n, cn_page n, cn_pins n)"

lemma content_simps [simp]:
  "content (n\<lparr>cn_next := x\<rparr>) = content n" "content (n\<lparr>cn_prev := x\<rparr>) = content n"
  "content (n\<lparr>cn_linked := b\<rparr>) = content n" "content (n\<lparr>cn_visited := b\<rparr>) = content n"
  "content (n\<lparr>cn_pins := w\<rparr>) = (cn_key n, cn_page n, w)"
  "content (n\<lparr>cn_page := pg\<rparr>) = (cn_key n, pg, cn_pins n)"
  by (simp_all add: content_def)

definition pay :: "page_cache \<Rightarrow> nat \<Rightarrow> slot_content option" where
  "pay c i = map_option content (look (pc_slab c) i)"

lemma pay_Some: "pay c i = Some (k, pg, pins) \<longleftrightarrow>
    (\<exists>n. look (pc_slab c) i = Some n \<and> cn_key n = k \<and> cn_page n = pg \<and> cn_pins n = pins)"
  by (cases "look (pc_slab c) i") (auto simp: pay_def content_def)

text \<open>The parts of the cache the list operations leave alone.\<close>

definition same_index :: "page_cache \<Rightarrow> page_cache \<Rightarrow> bool" where
  "same_index c c' \<longleftrightarrow>
     pc_map c' = pc_map c \<and> pc_free c' = pc_free c \<and> pc_dirty c' = pc_dirty c \<and>
     pc_evictable c' = pc_evictable c \<and> pc_capacity c' = pc_capacity c \<and> pc_fault c' = pc_fault c \<and>
     pc_debug c' = pc_debug c \<and> length (pc_slab c') = length (pc_slab c)"

lemma same_index_refl [simp]: "same_index c c"
  by (simp add: same_index_def)

lemma same_index_trans: "same_index a b \<Longrightarrow> same_index b c \<Longrightarrow> same_index a c"
  by (simp add: same_index_def)

definition chain :: "page_cache \<Rightarrow> nat list \<Rightarrow> bool" where
  "chain c L \<longleftrightarrow>
     distinct L \<and> pc_tail c = hd_opt L \<and> pc_head c = hd_opt (rev L) \<and>
     (\<forall>h. pc_hand c = Some h \<longrightarrow> h \<in> set L) \<and> (\<forall>i \<in> set L. look (pc_slab c) i \<noteq> None) \<and>
     (\<forall>i n. look (pc_slab c) i = Some n \<longrightarrow>
        (cn_linked n \<longleftrightarrow> i \<in> set L) \<and> cn_prev n = pred_in L i \<and> cn_next n = succ_in L i)"

lemma chainD:
  assumes "chain c L"
  shows "distinct L" "pc_tail c = hd_opt L" "pc_head c = hd_opt (rev L)"
    "pc_hand c = Some h \<Longrightarrow> h \<in> set L" "i \<in> set L \<Longrightarrow> \<exists>n. look (pc_slab c) i = Some n"
    "look (pc_slab c) i = Some n \<Longrightarrow> cn_linked n \<longleftrightarrow> i \<in> set L"
    "look (pc_slab c) i = Some n \<Longrightarrow> cn_prev n = pred_in L i"
    "look (pc_slab c) i = Some n \<Longrightarrow> cn_next n = succ_in L i"
  using assms by (auto simp: chain_def)

lemma chain_cong:
  assumes "pc_tail c' = pc_tail c" "pc_head c' = pc_head c" "pc_hand c' = pc_hand c" "pc_slab c' = pc_slab c"
  shows "chain c' L = chain c L" "pay c' = pay c"
  using assms by (simp_all add: chain_def pay_def fun_eq_iff)

text \<open>Replacing a node by one with the same links.\<close>

lemma set_slot_chain:
  assumes "chain c L" "look (pc_slab c) idx = Some n"
    and "cn_linked n' = cn_linked n" "cn_prev n' = cn_prev n" "cn_next n' = cn_next n"
  shows "chain (set_slot idx n' c) L" "pay (set_slot idx n' c) = (pay c)(idx := Some (content n'))"
    "same_index c (set_slot idx n' c)"
  using assms look_lt [OF assms(2)]
  by (auto simp: chain_def set_slot_def look_update pay_def same_index_def fun_eq_iff split: if_splits)

section \<open>Linking\<close>

lemma link_as_head_effect:
  assumes ch: "chain c L" and n: "look (pc_slab c) idx = Some n" and out: "idx \<notin> set L"
  shows "\<exists>c'. link_as_head idx operation c = (Ok (), c') \<and> chain c' (L @ [idx]) \<and> pay c' = pay c \<and> same_index c c'"
proof -
  note d = chainD [OF ch]
  have lt: "idx < length (pc_slab c)" using n by (rule look_lt)
  have unlinked: "\<not> cn_linked n" using d(6) [OF n] out by simp
  have succ: "succ_in (L @ [idx]) i = (if i = idx then None else if hd_opt (rev L) = Some i then Some idx else succ_in L i)" for i
    using out d(1) succ_in_None [of L i] hd_opt_in [of "rev L" i]
    by (auto simp: succ_in_append split: option.splits)
  have pred: "pred_in (L @ [idx]) i = (if i = idx then hd_opt (rev L) else pred_in L i)" for i
    by (simp add: pred_in_append) (simp add: pred_in_def)
  show ?thesis
  proof (cases "pc_head c")
    case None
    then have "L = []" using d(3) by simp
    let ?c = "(set_slot idx (n\<lparr>cn_linked := True, cn_prev := None, cn_next := None\<rparr>) c)\<lparr>pc_tail := Some idx, pc_head := Some idx\<rparr>"
    have "link_as_head idx operation c = (Ok (), ?c)"
      using n unlinked None by (simp add: link_as_head_def slot_node_look)
    moreover have "chain ?c (L @ [idx])"
      using ch lt \<open>L = []\<close> by (auto simp: chain_def set_slot_def look_update pred_in_def split: if_splits)
    moreover have "pay ?c = pay c" "same_index c ?c"
      using lt n by (auto simp: set_slot_def look_update pay_def same_index_def fun_eq_iff)
    ultimately show ?thesis by blast
  next
    case (Some old)
    then have old: "hd_opt (rev L) = Some old" using d(3) by simp
    then have "old \<in> set L" using hd_opt_in [of "rev L" old] by simp
    then obtain m where m: "look (pc_slab c) old = Some m" using d(5) by blast
    have ne: "old \<noteq> idx" using \<open>old \<in> set L\<close> out by blast
    let ?n = "n\<lparr>cn_linked := True, cn_prev := Some old, cn_next := None\<rparr>"
    let ?c = "(set_slot old (m\<lparr>cn_next := Some idx\<rparr>) (set_slot idx ?n c))\<lparr>pc_head := Some idx\<rparr>"
    have m': "look (pc_slab (set_slot idx ?n c)) old = Some m"
      using m ne by (simp add: set_slot_def look_update)
    have "link_as_head idx operation c = (Ok (), ?c)"
      using n unlinked Some m' by (simp add: link_as_head_def slot_node_look update_node_def)
    moreover have "chain ?c (L @ [idx])"
      using ch lt look_lt [OF m] m n ne out old Some
      by (auto simp: chain_def set_slot_def look_update succ pred hd_opt_append split: if_splits)
    moreover have "pay ?c = pay c" "same_index c ?c"
      using lt look_lt [OF m] n m ne by (auto simp: set_slot_def look_update pay_def same_index_def fun_eq_iff)
    ultimately show ?thesis by blast
  qed
qed

section \<open>Unlinking\<close>

text \<open>The neighbours of all other slots once \<open>idx\<close> leaves the list.\<close>

lemma succ_in_removed:
  assumes "distinct (as @ idx # bs)" "i \<noteq> idx"
  shows "succ_in (as @ bs) i = (if hd_opt (rev as) = Some i then hd_opt bs else succ_in (as @ idx # bs) i)"
  using assms succ_in_None [of as i] hd_opt_in [of "rev as" i]
  by (auto simp: succ_in_append split: option.splits)

lemma pred_in_removed:
  assumes "distinct (as @ idx # bs)" "i \<noteq> idx"
  shows "pred_in (as @ bs) i = (if hd_opt bs = Some i then hd_opt (rev as) else pred_in (as @ idx # bs) i)"
  using assms pred_in_None [of bs i] hd_opt_in [of bs i]
  by (auto simp: pred_in_append pred_in_Cons split: option.splits)

lemma neighbours_split:
  assumes "distinct (as @ idx # bs)"
  shows "pred_in (as @ idx # bs) idx = hd_opt (rev as)" "succ_in (as @ idx # bs) idx = hd_opt bs"
  using assms by (auto simp: pred_in_append pred_in_Cons succ_in_append)

definition links_at :: "cache_node \<Rightarrow> nat list \<Rightarrow> nat \<Rightarrow> bool" where
  "links_at n L i \<longleftrightarrow> (cn_linked n \<longleftrightarrow> i \<in> set L) \<and> cn_prev n = pred_in L i \<and> cn_next n = succ_in L i"

lemma chain_links: "chain c L \<longleftrightarrow>
     distinct L \<and> pc_tail c = hd_opt L \<and> pc_head c = hd_opt (rev L) \<and>
     (\<forall>h. pc_hand c = Some h \<longrightarrow> h \<in> set L) \<and> (\<forall>i \<in> set L. look (pc_slab c) i \<noteq> None) \<and>
     (\<forall>i n. look (pc_slab c) i = Some n \<longrightarrow> links_at n L i)"
  by (simp add: chain_def links_at_def)

lemma unlink_node_effect:
  assumes ch: "chain c (as @ idx # bs)"
    and others: "\<And>i. i \<noteq> idx \<Longrightarrow> look (pc_slab c0) i = look (pc_slab c) i"
    and ends: "pc_tail c0 = pc_tail c" "pc_head c0 = pc_head c"
  shows "\<exists>c'. unlink_node (hd_opt (rev as)) (hd_opt bs) operation c0 = (Ok (), c') \<and>
    pc_tail c' = hd_opt (as @ bs) \<and> pc_head c' = hd_opt (rev (as @ bs)) \<and> pc_hand c' = pc_hand c0 \<and>
    same_index c0 c' \<and> look (pc_slab c') idx = look (pc_slab c0) idx \<and>
    (\<forall>i. i \<noteq> idx \<longrightarrow> pay c' i = pay c i \<and> (\<forall>n. look (pc_slab c') i = Some n \<longrightarrow> links_at n (as @ bs) i))"
proof -
  note d = chainD [OF ch]
  have dist: "distinct (as @ idx # bs)" by (rule d(1))
  note rem = succ_in_removed [OF dist] pred_in_removed [OF dist]
  have lk: "links_at n (as @ idx # bs) i" if "look (pc_slab c) i = Some n" for i n
    using ch that by (simp add: chain_links)
  define c1 where "c1 = (case hd_opt (rev as) of
      Some p \<Rightarrow> set_slot p ((the (look (pc_slab c0) p))\<lparr>cn_next := hd_opt bs\<rparr>) c0
    | None \<Rightarrow> c0\<lparr>pc_tail := hd_opt bs\<rparr>)"
  define c' where "c' = (case hd_opt bs of
      Some q \<Rightarrow> set_slot q ((the (look (pc_slab c1) q))\<lparr>cn_prev := hd_opt (rev as)\<rparr>) c1
    | None \<Rightarrow> c1\<lparr>pc_head := hd_opt (rev as)\<rparr>)"
  have p: "p \<in> set as \<and> p \<noteq> idx \<and> p \<notin> set bs \<and> (\<exists>n. look (pc_slab c0) p = Some n)" if "hd_opt (rev as) = Some p" for p
    using hd_opt_in [OF that] dist d(5) [of p] others [of p] by (cases "p = idx") auto
  have q: "q \<in> set bs \<and> q \<noteq> idx \<and> q \<notin> set as \<and> (\<exists>n. look (pc_slab c0) q = Some n)" if "hd_opt bs = Some q" for q
    using hd_opt_in [OF that] dist d(5) [of q] others [of q] by (cases "q = idx") auto
  have q1: "look (pc_slab c1) q = look (pc_slab c0) q" if "hd_opt bs = Some q" for q
    using q [OF that] p by (auto simp: c1_def set_slot_def look_update split: option.splits)
  have eq: "unlink_node (hd_opt (rev as)) (hd_opt bs) operation c0 = (Ok (), c')"
    using p q q1
    by (auto simp: unlink_node_def c'_def c1_def update_node_def slot_node_look split: option.splits)
  have look1: "look (pc_slab c1) i =
      map_option (\<lambda>n. if hd_opt (rev as) = Some i then n\<lparr>cn_next := hd_opt bs\<rparr> else n) (look (pc_slab c0) i)" for i
  proof (cases "hd_opt (rev as)")
    case (Some p)
    then obtain n where "look (pc_slab c0) p = Some n" using p by blast
    then show ?thesis using Some look_lt [of "pc_slab c0" p n]
      by (cases "i = p") (simp_all add: c1_def set_slot_def look_update map_option.id [unfolded id_def])
  qed (simp add: c1_def map_option.id [unfolded id_def])
  have look2: "look (pc_slab c') i =
      map_option (\<lambda>n. if hd_opt bs = Some i then n\<lparr>cn_prev := hd_opt (rev as)\<rparr> else n) (look (pc_slab c1) i)" for i
  proof (cases "hd_opt bs")
    case (Some q)
    then obtain n where "look (pc_slab c1) q = Some n" using q q1 by force
    then show ?thesis using Some look_lt [of "pc_slab c1" q n]
      by (cases "i = q") (simp_all add: c'_def set_slot_def look_update map_option.id [unfolded id_def])
  qed (simp add: c'_def map_option.id [unfolded id_def])
  note look' = look1 look2
  show ?thesis
  proof (intro exI conjI allI impI)
    show "unlink_node (hd_opt (rev as)) (hd_opt bs) operation c0 = (Ok (), c')" by (rule eq)
    show "pc_tail c' = hd_opt (as @ bs)" "pc_head c' = hd_opt (rev (as @ bs))" "pc_hand c' = pc_hand c0"
      "same_index c0 c'"
      using d(2,3) ends
      by (auto simp: c'_def c1_def set_slot_def same_index_def hd_opt_append split: option.splits)
    show "look (pc_slab c') idx = look (pc_slab c0) idx"
    proof -
      have "hd_opt (rev as) \<noteq> Some idx" "hd_opt bs \<noteq> Some idx" using p q by blast+
      then show ?thesis by (simp add: look' map_option.id [unfolded id_def])
    qed
  next
    fix i assume i: "i \<noteq> idx"
    show "pay c' i = pay c i"
      using others [OF i] by (cases "look (pc_slab c) i") (simp_all add: pay_def look')
    fix n assume "look (pc_slab c') i = Some n"
    then show "links_at n (as @ bs) i"
      using i lk [of i] others [OF i] rem [OF i] by (auto simp: look' links_at_def split: if_splits)
  qed
qed

lemma chain_split:
  assumes "chain c L" "idx \<in> set L"
  obtains as bs where "L = as @ idx # bs" "remove1 idx L = as @ bs"
proof -
  obtain as bs where L: "L = as @ idx # bs" using split_list [OF assms(2)] by blast
  then have "remove1 idx L = as @ bs" using chainD(1) [OF assms(1)] by (simp add: remove1_append)
  then show thesis using that L by blast
qed

lemma unlink_from_list_effect:
  assumes ch: "chain c L" and n: "look (pc_slab c) idx = Some n"
  shows "\<exists>c'. unlink_from_list idx operation c = (Ok (), c') \<and> chain c' (remove1 idx L) \<and> pay c' = pay c \<and> same_index c c'"
proof (cases "idx \<in> set L")
  case False
  then show ?thesis
    using n chainD(6) [OF ch n] ch by (auto simp: unlink_from_list_def slot_node_look remove1_idem)
next
  case True
  obtain as bs where L: "L = as @ idx # bs" "remove1 idx L = as @ bs" by (rule chain_split [OF ch True])
  note ch' = ch [unfolded L(1)]
  note d = chainD [OF ch']
  note nb = neighbours_split [OF d(1)]
  have lk: "cn_linked n" "cn_prev n = hd_opt (rev as)" "cn_next n = hd_opt bs"
    using d(6-8) [OF n] nb by simp_all
  have lt: "idx < length (pc_slab c)" using n by (rule look_lt)
  let ?n = "n\<lparr>cn_linked := False, cn_prev := None, cn_next := None\<rparr>"
  let ?c1 = "set_slot idx ?n c"
  let ?c0 = "if pc_hand c = Some idx then ?c1\<lparr>pc_hand := hd_opt bs\<rparr> else ?c1"
  have c0: "look (pc_slab ?c0) i = (if i = idx then Some ?n else look (pc_slab c) i)"
    "pc_tail ?c0 = pc_tail c" "pc_head ?c0 = pc_head c" "same_index c ?c0" for i
    using lt by (auto simp: set_slot_def look_update same_index_def)
  have hand0: "pc_hand ?c0 = (if pc_hand c = Some idx then hd_opt bs else pc_hand c)"
    by (simp add: set_slot_def)
  obtain c' where c': "unlink_node (hd_opt (rev as)) (hd_opt bs) operation ?c0 = (Ok (), c')"
    "pc_tail c' = hd_opt (as @ bs)" "pc_head c' = hd_opt (rev (as @ bs))" "pc_hand c' = pc_hand ?c0"
    "same_index ?c0 c'" "look (pc_slab c') idx = look (pc_slab ?c0) idx"
    "\<And>i. i \<noteq> idx \<Longrightarrow> pay c' i = pay c i"
    "\<And>i m. i \<noteq> idx \<Longrightarrow> look (pc_slab c') i = Some m \<Longrightarrow> links_at m (as @ bs) i"
    using unlink_node_effect [OF ch', of ?c0 operation] c0 by auto
  have hand: "pc_hand c' = Some h \<Longrightarrow> h \<in> set (as @ bs)" for h
    using c'(4) hand0 d(4) [of h] hd_opt_in [of bs h] by (auto split: if_splits)
  have run: "unlink_from_list idx operation c = (Ok (), c')"
    using n lk c'(1) by (simp add: unlink_from_list_def slot_node_look Let_def set_slot_def cong: if_cong)
  have out: "idx \<notin> set (as @ bs)" using d(1) by simp
  have pay': "pay c' i = pay c i" for i
    using c'(6,7) c0(1) n by (cases "i = idx") (simp_all add: pay_def)
  have look: "look (pc_slab c') i \<noteq> None" if "i \<in> set (as @ bs)" for i
    using d(5) [of i] pay' [of i] that by (auto simp: pay_def)
  have "links_at m (as @ bs) i" if "look (pc_slab c') i = Some m" for i m
    using c'(6,8) c0(1) that out by (cases "i = idx") (auto simp: links_at_def)
  then have "chain c' (as @ bs)"
    using c'(2,3) d(1) hand look by (simp add: chain_links)
  then show ?thesis
    using run pay' L(2) same_index_trans [OF c0(4) c'(5)] by auto
qed

lemma free_node_effect:
  assumes "chain c L" "look (pc_slab c) idx = Some n" "idx \<notin> set L"
  shows "\<exists>c'. free_node idx operation c = (Ok (), c') \<and> chain c' L \<and> pay c' = (pay c)(idx := None) \<and>
    pc_free c' = pc_free c @ [idx] \<and> same_index c (c'\<lparr>pc_free := pc_free c\<rparr>)"
  using assms look_lt [OF assms(2)]
  by (auto simp: free_node_def slot_node_look chain_def look_update pay_def same_index_def fun_eq_iff split: if_splits)

lemma evict_victim_effect:
  assumes ch: "chain c L" and n: "look (pc_slab c) idx = Some n" and i: "idx \<in> set L" and e: "0 < pc_evictable c"
  shows "\<exists>c'. evict_victim idx n c = (Ok (), c') \<and> chain c' (remove1 idx L) \<and> pay c' = (pay c)(idx := None) \<and>
    pc_free c' = pc_free c @ [idx] \<and> pc_map c' = AList.delete (cn_key n) (pc_map c) \<and>
    pc_evictable c' = pc_evictable c - 1 \<and>
    same_index c (c'\<lparr>pc_free := pc_free c, pc_map := pc_map c, pc_evictable := pc_evictable c\<rparr>)"
proof -
  obtain as bs where L: "L = as @ idx # bs" "remove1 idx L = as @ bs" by (rule chain_split [OF ch i])
  note ch' = ch [unfolded L(1)]
  note d = chainD [OF ch']
  note nb = neighbours_split [OF d(1)]
  have lk: "cn_prev n = hd_opt (rev as)" "cn_next n = hd_opt bs"
    using d(7,8) [OF n] nb by simp_all
  obtain c' where c': "unlink_node (hd_opt (rev as)) (hd_opt bs) ''evict_one'' c = (Ok (), c')"
    "pc_tail c' = hd_opt (as @ bs)" "pc_head c' = hd_opt (rev (as @ bs))"
    "same_index c c'" "look (pc_slab c') idx = look (pc_slab c) idx"
    "\<And>i. i \<noteq> idx \<Longrightarrow> pay c' i = pay c i"
    "\<And>i m. i \<noteq> idx \<Longrightarrow> look (pc_slab c') i = Some m \<Longrightarrow> links_at m (as @ bs) i"
    using unlink_node_effect [OF ch', of c "''evict_one''"] by auto
  let ?c = "c'\<lparr>pc_hand := hd_opt bs, pc_map := AList.delete (cn_key n) (pc_map c'),
      pc_slab := (pc_slab c')[idx := None], pc_free := pc_free c' @ [idx], pc_evictable := pc_evictable c' - 1\<rparr>"
  have "evict_victim idx n c = (Ok (), ?c)"
    using c' lk n e by (simp add: evict_victim_def free_node_def one_less_def slot_node_look same_index_def)
  moreover have "chain ?c (as @ bs)"
  proof -
    have out: "idx \<notin> set (as @ bs)" using d(1) by simp
    have lt: "idx < length (pc_slab c')" using c'(5) n look_lt by metis
    have "look (pc_slab ?c) i \<noteq> None" if "i \<in> set (as @ bs)" for i
      using d(5) [of i] c'(6) [of i] that out lt by (cases "i = idx") (auto simp: look_update pay_def)
    moreover have "links_at m (as @ bs) i" if "look (pc_slab ?c) i = Some m" for i m
      using c'(7) [of i m] that lt by (simp add: look_update split: if_splits)
    moreover have "h \<in> set (as @ bs)" if "pc_hand ?c = Some h" for h
      using that hd_opt_in [of bs h] by simp
    ultimately show ?thesis using c'(2,3) d(1) by (simp add: chain_links)
  qed
  moreover have "pay ?c = (pay c)(idx := None)"
    using c'(5,6) look_lt n by (auto simp: pay_def look_update fun_eq_iff)
  ultimately show ?thesis
    using c'(4) L(2) by (auto simp: same_index_def)
qed

section \<open>Allocating and moving nodes\<close>

definition free_ok :: "page_cache \<Rightarrow> bool" where
  "free_ok c \<longleftrightarrow> distinct (pc_free c) \<and> set (pc_free c) = {i. i < length (pc_slab c) \<and> look (pc_slab c) i = None}"

lemma alloc_node_effect:
  assumes ch: "chain c L" and free: "free_ok c"
    and n: "\<not> cn_linked n" "cn_prev n = None" "cn_next n = None"
  shows "\<exists>idx c'. alloc_node n operation c = (Ok idx, c') \<and> pay c idx = None \<and> idx \<notin> set L \<and>
    chain c' L \<and> look (pc_slab c') idx = Some n \<and> pay c' = (pay c)(idx := Some (content n)) \<and> free_ok c' \<and>
    same_index (c\<lparr>pc_slab := [], pc_free := []\<rparr>) (c'\<lparr>pc_slab := [], pc_free := []\<rparr>)"
proof (cases "pc_free c = []")
  case True
  let ?idx = "length (pc_slab c)" and ?c = "c\<lparr>pc_slab := pc_slab c @ [Some n]\<rparr>"
  have new: "look (pc_slab c) ?idx = None" by (simp add: look_def)
  then have out: "?idx \<notin> set L" using chainD(5) [OF ch, of ?idx] by auto
  have "alloc_node n operation c = (Ok ?idx, ?c)" using True by (simp add: alloc_node_def)
  moreover have "chain ?c L"
    using ch n out new by (auto simp: chain_def look_append split: if_splits)
  moreover have "free_ok ?c" using free True by (auto simp: free_ok_def look_append)
  ultimately show ?thesis
    using out new by (auto simp: pay_def look_append same_index_def fun_eq_iff)
next
  case False
  let ?idx = "last (pc_free c)" and ?c = "set_slot (last (pc_free c)) n (c\<lparr>pc_free := butlast (pc_free c)\<rparr>)"
  have "?idx \<in> set (pc_free c)" using False by simp
  then have lt: "?idx < length (pc_slab c)" and new: "look (pc_slab c) ?idx = None"
    using free by (auto simp: free_ok_def)
  then have out: "?idx \<notin> set L" using chainD(5) [OF ch, of ?idx] by auto
  have "alloc_node n operation c = (Ok ?idx, ?c)"
    using False lt new by (simp add: alloc_node_def Let_def look_def)
  moreover have "chain ?c L"
    using ch n out lt by (auto simp: chain_def look_update set_slot_def split: if_splits)
  moreover have "free_ok ?c"
  proof -
    have sp: "pc_free c = butlast (pc_free c) @ [?idx]" using False by simp
    then have d: "distinct (butlast (pc_free c) @ [?idx])" using free by (metis free_ok_def)
    then have "set (butlast (pc_free c)) = set (pc_free c) - {?idx}"
      using arg_cong [OF sp, of set] by auto
    then show ?thesis using d free lt by (auto simp: free_ok_def set_slot_def look_update split: if_splits)
  qed
  ultimately show ?thesis
    using out new lt by (auto simp: pay_def look_update set_slot_def same_index_def fun_eq_iff)
qed

lemma neighbours_renamed:
  assumes "distinct (as @ from # bs)" "i \<noteq> from" "i \<noteq> to" "to \<notin> set (as @ bs)"
  shows "succ_in (as @ to # bs) i = (if hd_opt (rev as) = Some i then Some to else succ_in (as @ from # bs) i)"
    and "pred_in (as @ to # bs) i = (if hd_opt bs = Some i then Some to else pred_in (as @ from # bs) i)"
  using assms succ_in_None [of as i] hd_opt_in [of "rev as" i] pred_in_None [of bs i] hd_opt_in [of bs i]
  by (auto simp: succ_in_append pred_in_append pred_in_Cons split: option.splits)

text \<open>The neighbours of a linked node are made to point to its new slot.\<close>

lemma retarget_effect:
  assumes ch: "chain c (as @ from # bs)" and to: "look (pc_slab c) to = None"
  shows "\<exists>c'. retarget_list_links from to (hd_opt (rev as)) (hd_opt bs) operation c = (Ok (), c') \<and>
    pc_tail c' = hd_opt (as @ to # bs) \<and> pc_head c' = hd_opt (rev (as @ to # bs)) \<and>
    pc_hand c' = (if pc_hand c = Some from then Some to else pc_hand c) \<and> same_index c c' \<and>
    look (pc_slab c') from = look (pc_slab c) from \<and>
    (\<forall>i. i \<noteq> from \<longrightarrow> pay c' i = pay c i \<and> (\<forall>n. look (pc_slab c') i = Some n \<longrightarrow> links_at n (as @ to # bs) i))"
proof -
  note d = chainD [OF ch]
  have out: "to \<notin> set (as @ from # bs)" using d(5) [of to] to by auto
  have lk: "links_at n (as @ from # bs) i" if "look (pc_slab c) i = Some n" for i n
    using ch that by (simp add: chain_links)
  have p: "p \<noteq> from \<and> (\<exists>n. look (pc_slab c) p = Some n \<and> cn_next n = Some from)" if "hd_opt (rev as) = Some p" for p
    using hd_opt_in [OF that] that d(1) d(5) [of p] d(8) [of p] succ_in_None [of as p]
    by (auto simp: succ_in_append)
  have q: "q \<noteq> from \<and> hd_opt (rev as) \<noteq> Some q \<and> (\<exists>n. look (pc_slab c) q = Some n \<and> cn_prev n = Some from)"
    if "hd_opt bs = Some q" for q
    using hd_opt_in [OF that] that d(1) d(5) [of q] d(7) [of q] pred_in_None [of bs q] hd_opt_in [of "rev as" q]
    by (auto simp: pred_in_append pred_in_Cons)
  define c1 where "c1 = (case hd_opt (rev as) of
      Some p \<Rightarrow> set_slot p ((the (look (pc_slab c) p))\<lparr>cn_next := Some to\<rparr>) c | None \<Rightarrow> c\<lparr>pc_tail := Some to\<rparr>)"
  define c2 where "c2 = (case hd_opt bs of
      Some q \<Rightarrow> set_slot q ((the (look (pc_slab c1) q))\<lparr>cn_prev := Some to\<rparr>) c1 | None \<Rightarrow> c1\<lparr>pc_head := Some to\<rparr>)"
  define c' where "c' = (if pc_hand c = Some from then c2\<lparr>pc_hand := Some to\<rparr> else c2)"
  have look1: "look (pc_slab c1) i =
      map_option (\<lambda>n. if hd_opt (rev as) = Some i then n\<lparr>cn_next := Some to\<rparr> else n) (look (pc_slab c) i)" for i
  proof (cases "hd_opt (rev as)")
    case (Some p)
    then obtain n where "look (pc_slab c) p = Some n" using p by blast
    then show ?thesis using Some look_lt [of "pc_slab c" p n]
      by (cases "i = p") (simp_all add: c1_def set_slot_def look_update map_option.id [unfolded id_def])
  qed (simp add: c1_def map_option.id [unfolded id_def])
  have q1: "\<exists>n. look (pc_slab c1) q = Some n \<and> cn_prev n = Some from" if "hd_opt bs = Some q" for q
    using q [OF that] by (auto simp: look1)
  have look2: "look (pc_slab c') i =
      map_option (\<lambda>n. if hd_opt bs = Some i then n\<lparr>cn_prev := Some to\<rparr> else n) (look (pc_slab c1) i)" for i
  proof (cases "hd_opt bs")
    case (Some q)
    then obtain n where "look (pc_slab c1) q = Some n" using q1 by blast
    then show ?thesis using Some look_lt [of "pc_slab c1" q n]
      by (cases "i = q") (simp_all add: c'_def c2_def set_slot_def look_update map_option.id [unfolded id_def])
  qed (simp add: c'_def c2_def map_option.id [unfolded id_def])
  have head: "pc_head c1 = pc_head c" "pc_hand c1 = pc_hand c" "pc_hand c2 = pc_hand c"
    by (simp_all add: c2_def c1_def set_slot_def split: option.splits)
  have run1: "(case hd_opt (rev as) of
          Some p \<Rightarrow>
            (case slot_node (pc_slab c) p operation of
               Err e \<Rightarrow> (Err e, c)
             | Ok n \<Rightarrow> if cn_next n \<noteq> Some from then (Err broken, c)
                 else (Ok (), set_slot p (n\<lparr>cn_next := Some to\<rparr>) c))
        | None \<Rightarrow> if pc_tail c = Some from then (Ok (), c\<lparr>pc_tail := Some to\<rparr>) else (Err broken, c)) = (Ok (), c1)" for broken
    using p d(2) by (auto simp: c1_def slot_node_look hd_opt_append split: option.splits)
  have run2: "(case hd_opt bs of
          Some q \<Rightarrow>
            (case slot_node (pc_slab c1) q operation of
               Err e \<Rightarrow> (Err e, c1)
             | Ok n \<Rightarrow> if cn_prev n \<noteq> Some from then (Err broken, c1)
                 else (Ok (), set_slot q (n\<lparr>cn_prev := Some to\<rparr>) c1))
        | None \<Rightarrow> if pc_head c1 = Some from then (Ok (), c1\<lparr>pc_head := Some to\<rparr>) else (Err broken, c1)) = (Ok (), c2)" for broken
    using q1 d(3) head by (auto simp: c2_def slot_node_look hd_opt_append split: option.splits)
  show ?thesis
  proof (intro exI conjI allI impI)
    show "retarget_list_links from to (hd_opt (rev as)) (hd_opt bs) operation c = (Ok (), c')"
      unfolding retarget_list_links_def Let_def run1 mbind.simps run2 by (simp add: c'_def head)
    show "pc_tail c' = hd_opt (as @ to # bs)" "pc_head c' = hd_opt (rev (as @ to # bs))"
      "pc_hand c' = (if pc_hand c = Some from then Some to else pc_hand c)" "same_index c c'"
      using d(2,3)
      by (auto simp: c'_def c2_def c1_def set_slot_def same_index_def hd_opt_append split: option.splits)
    show "look (pc_slab c') from = look (pc_slab c) from"
    proof -
      have "hd_opt (rev as) \<noteq> Some from" "hd_opt bs \<noteq> Some from" using p q by blast+
      then show ?thesis by (simp add: look1 look2 map_option.id [unfolded id_def])
    qed
  next
    fix i assume i: "i \<noteq> from"
    show "pay c' i = pay c i"
      by (cases "look (pc_slab c) i") (simp_all add: pay_def look1 look2)
    fix n assume n: "look (pc_slab c') i = Some n"
    then have "i \<noteq> to" using to by (auto simp: look1 look2)
    then show "links_at n (as @ to # bs) i"
      using n i lk [of i] neighbours_renamed [OF d(1) i, of to] out
      by (auto simp: look1 look2 links_at_def split: if_splits)
  qed
qed

definition renamed :: "nat \<Rightarrow> nat \<Rightarrow> nat list \<Rightarrow> nat list" where
  "renamed from to L = map (\<lambda>i. if i = from then to else i) L"

lemma renamed_split: "distinct (as @ from # bs) \<Longrightarrow> renamed from to (as @ from # bs) = as @ to # bs"
  by (auto simp: renamed_def intro!: map_idI)

lemma renamed_notin: "from \<notin> set L \<Longrightarrow> renamed from to L = L"
  by (auto simp: renamed_def intro!: map_idI)

lemma set_renamed: "set (renamed from to L) = (if from \<in> set L then insert to (set L - {from}) else set L)"
  by (auto simp: renamed_def)

lemma move_node_effect:
  assumes ch: "chain c L" and n: "look (pc_slab c) from = Some n"
    and to: "to < length (pc_slab c)" "look (pc_slab c) to = None"
    and m: "map_of (pc_map c) (cn_key n) = Some from"
  shows "\<exists>c'. move_node from to operation c = (Ok (), c') \<and> chain c' (renamed from to L) \<and>
    pay c' = (pay c)(from := None, to := Some (content n)) \<and> pc_map c' = AList.update (cn_key n) to (pc_map c) \<and>
    same_index c (c'\<lparr>pc_map := pc_map c\<rparr>)"
proof -
  note d = chainD [OF ch]
  have ne: "from \<noteq> to" "from < length (pc_slab c)" using n to look_lt [OF n] by auto
  have out: "to \<notin> set L" using d(5) [of to] to by auto
  obtain c1 where c1: "(if cn_linked n then retarget_list_links from to (cn_prev n) (cn_next n) operation c
        else (Ok (), c)) = (Ok (), c1)" "same_index c c1" "look (pc_slab c1) from = Some n"
      "\<And>i. i \<noteq> from \<Longrightarrow> pay c1 i = pay c i"
      "\<And>i m. i \<noteq> from \<Longrightarrow> look (pc_slab c1) i = Some m \<Longrightarrow> links_at m (renamed from to L) i"
      "pc_tail c1 = hd_opt (renamed from to L)" "pc_head c1 = hd_opt (rev (renamed from to L))"
      "pc_hand c1 = (if pc_hand c = Some from then Some to else pc_hand c)"
    and nlinks: "links_at n (renamed from to L) to"
  proof (cases "from \<in> set L")
    case True
    obtain as bs where L: "L = as @ from # bs" by (rule chain_split [OF ch True])
    note nb = neighbours_split [OF d(1) [unfolded L]]
    have dist': "distinct (as @ to # bs)" using d(1) out L by auto
    have "links_at n (as @ to # bs) to"
      using d(6-8) [OF n] nb neighbours_split [OF dist'] L by (simp add: links_at_def)
    then show thesis
      using that retarget_effect [OF ch [unfolded L] to(2), of operation] d(6-8) [OF n] nb n L
        renamed_split [OF d(1) [unfolded L], of to] by auto
  next
    case False
    have "pc_hand c \<noteq> Some from" using d(4) False by blast
    moreover have "links_at n L to" using d(6-8) [OF n] False out by (simp add: links_at_def)
    moreover have "links_at k L i" if "look (pc_slab c) i = Some k" for i k
      using ch that by (simp add: chain_links)
    ultimately show thesis
      using that [of c] d(2,3) d(6) [OF n] n False renamed_notin [OF False, of to] by simp
  qed
  have to1: "look (pc_slab c1) to = None" using c1(4) [of to] ne to by (simp add: pay_def)
  have len: "length (pc_slab c1) = length (pc_slab c)" "pc_map c1 = pc_map c" using c1(2) by (simp_all add: same_index_def)
  let ?c = "c1\<lparr>pc_map := AList.update (cn_key n) to (pc_map c1), pc_slab := (pc_slab c1)[from := None, to := Some n]\<rparr>"
  have run: "move_node from to operation c = (Ok (), ?c)"
    unfolding move_node_def slot_node_look n of_option_simps result.case c1(1) mbind.simps Let_def
    using m len c1(3) to1 to ne by (simp add: look_def)
  have look: "look ((pc_slab c1)[from := None, to := Some n]) i = (if i = to then Some n else if i = from then None else look (pc_slab c1) i)" for i
    using ne to len by (simp add: look_update)
  have "chain ?c (renamed from to L)"
  proof -
    have "distinct (renamed from to L)"
      using d(1) out by (auto simp: renamed_def distinct_map inj_on_def)
    moreover have "h \<in> set (renamed from to L)" if "pc_hand ?c = Some h" for h
      using that c1(8) d(4) [of h] d(4) [of "from"] by (auto simp: set_renamed split: if_splits)
    moreover have "look (pc_slab ?c) i \<noteq> None" if "i \<in> set (renamed from to L)" for i
      using that d(5) [of i] c1(4) [of i] out
      by (cases "i = from") (auto simp: look set_renamed pay_def split: if_splits)
    moreover have "links_at k (renamed from to L) i" if "look (pc_slab ?c) i = Some k" for i k
      using that c1(5) nlinks by (auto simp: look split: if_splits)
    ultimately show ?thesis using c1(6,7) by (simp add: chain_links)
  qed
  moreover have "pay ?c = (pay c)(from := None, to := Some (content n))"
    using c1(4) ne to len by (auto simp: pay_def look_update fun_eq_iff)
  ultimately show ?thesis using run c1(2) len by (auto simp: same_index_def)
qed

section \<open>The walk of the hand\<close>

text \<open>The pointer to position \<open>j\<close> of the list; past its end the walk wraps.\<close>

definition at_pos :: "nat list \<Rightarrow> nat \<Rightarrow> nat option" where
  "at_pos L j = (if j < length L then Some (L ! j) else None)"

lemma at_pos_0: "at_pos L 0 = hd_opt L"
  by (cases L) (simp_all add: at_pos_def)

lemma at_pos_succ: "distinct L \<Longrightarrow> j < length L \<Longrightarrow> succ_in L (L ! j) = at_pos L (Suc j)"
  by (simp add: at_pos_def succ_in_nth)

definition candidate :: "page_cache \<Rightarrow> nat \<Rightarrow> bool" where
  "candidate c i \<longleftrightarrow> (\<exists>k pg. pay c i = Some (k, pg, 0) \<and> k \<notin> pc_dirty c)"

definition visited_at :: "page_cache \<Rightarrow> nat \<Rightarrow> bool" where
  "visited_at c i \<longleftrightarrow> (\<exists>n. look (pc_slab c) i = Some n \<and> cn_visited n)"

text \<open>
  Iterations the hand needs from position \<open>j\<close> until it meets the candidate at position \<open>q\<close> of a
  list of length \<open>l\<close> with its \<open>visited\<close> bit clear.
\<close>

definition walk_cost :: "nat \<Rightarrow> nat \<Rightarrow> nat \<Rightarrow> bool \<Rightarrow> nat" where
  "walk_cost l j q visited =
     (if visited then (if j \<le> q then l - j + 1 + q else l - j + 1 + l + 1 + q)
      else if j \<le> q then q - j else l - j + 1 + q)"

lemma evict_loop_finds:
  assumes "chain c L" "\<And>i. i \<in> set L \<Longrightarrow> \<exists>k pg pins. pay c i = Some (k, pg, pins) \<and> k \<notin> pc_dirty c"
    and "q < length L" "candidate c (L ! q)" "j \<le> length L"
    and "walk_cost (length L) j q (visited_at c (L ! q)) < steps"
  shows "\<exists>c' idx n. evict_loop steps (at_pos L j) c = evict_victim idx n c' \<and> idx \<in> set L \<and>
    look (pc_slab c') idx = Some n \<and> candidate c idx \<and> chain c' L \<and> pay c' = pay c \<and> same_index c c'"
  using assms
proof (induction steps arbitrary: j c)
  case (Suc steps)
  note ch = Suc.prems(1)
  note d = chainD [OF ch]
  show ?case
  proof (cases "j < length L")
    case False
    then have "j = length L" using Suc.prems(5) by simp
    moreover have "evict_loop (Suc steps) (at_pos L j) c = evict_loop steps (at_pos L 0) c"
      using False d(2) by (simp add: at_pos_0) (simp add: at_pos_def)
    moreover have "walk_cost (length L) 0 q (visited_at c (L ! q)) < steps"
      using Suc.prems(3,6) \<open>j = length L\<close> by (auto simp: walk_cost_def split: if_splits)
    ultimately show ?thesis
      using Suc.IH [OF ch Suc.prems(2-4), of 0] by simp
  next
    case True
    let ?i = "L ! j"
    have i: "?i \<in> set L" using True by simp
    obtain n where n: "look (pc_slab c) ?i = Some n" using d(5) [OF i] by blast
    have clean: "cn_key n \<notin> pc_dirty c" using Suc.prems(2) [OF i] n by (auto simp: pay_def content_def)
    have nxt: "cn_next n = at_pos L (Suc j)" using d(8) [OF n] at_pos_succ [OF d(1) True] by simp
    have cand: "is_evictable n (pc_dirty c) \<longleftrightarrow> candidate c ?i"
      using n by (simp add: is_evictable_def candidate_def pay_def content_def)
    have start: "at_pos L j = Some ?i" using True by (simp add: at_pos_def)
    show ?thesis
    proof (cases "is_evictable n (pc_dirty c) \<and> \<not> cn_visited n")
      case found: True
      then have "evict_loop (Suc steps) (at_pos L j) c = evict_victim ?i n c"
        using start n clean by (simp add: slot_node_look)
      then show ?thesis using i n found cand ch by (metis same_index_refl)
    next
      case pass: False
      define c' where "c' = (if is_evictable n (pc_dirty c) then set_slot ?i (n\<lparr>cn_visited := False\<rparr>) c else c)"
      have step: "evict_loop (Suc steps) (at_pos L j) c = evict_loop steps (at_pos L (Suc j)) c'"
        using start n clean pass nxt by (simp add: slot_node_look c'_def)
      note sl = set_slot_chain [OF ch n, where n' = "n\<lparr>cn_visited := False\<rparr>", simplified]
      have c': "chain c' L" "pay c' = pay c" "same_index c c'"
        using ch sl n by (auto simp: c'_def pay_def fun_eq_iff)
      have vis: "visited_at c' (L ! q) = (if q = j \<and> is_evictable n (pc_dirty c) then False else visited_at c (L ! q))"
        using n look_lt [OF n] nth_eq_iff_index_eq [OF d(1) Suc.prems(3) True]
        by (auto simp: c'_def visited_at_def set_slot_def look_update)
      have cost: "walk_cost (length L) (Suc j) q (visited_at c' (L ! q)) < steps"
      proof (cases "q = j")
        case same: True
        then have "is_evictable n (pc_dirty c)" using cand Suc.prems(4) by simp
        moreover have "visited_at c (L ! q)" using pass n same calculation by (auto simp: visited_at_def)
        ultimately show ?thesis
          using Suc.prems(6) True same vis by (simp add: walk_cost_def)
      next
        case False
        then show ?thesis using Suc.prems(3,6) True by (auto simp: walk_cost_def vis split: if_splits)
      qed
      have d': "pc_dirty c' = pc_dirty c" using c'(3) by (simp add: same_index_def)
      have cand': "candidate c' i = candidate c i" for i using c'(2) d' by (simp add: candidate_def)
      show ?thesis
        unfolding step
        using Suc.IH [OF c'(1), of "Suc j"] Suc.prems(2-4) True cost c' d' cand'
        by (auto intro: same_index_trans)
    qed
  qed
qed simp

end
