(* ===== verification/Cache_Inv.thy ===== *)
theory Cache_Inv
  imports Cache_List
begin

text \<open>
  The invariant of the page cache and the effect of every operation under it.  The invariant ties
  the map, the slab contents, the dirty set, the members of the list and the evictable count
  together (\<open>core\<close>), next to the linked list (\<open>chain\<close>) and the free list (\<open>free_ok\<close>).  What a client
  sees of the cache is \<open>entry\<close>: for each key the slot, the page and the pins.
\<close>

declare split_paired_All [simp del] split_paired_Ex [simp del]

section \<open>The index\<close>

definition cands :: "(nat \<Rightarrow> slot_content option) \<Rightarrow> cache_key set \<Rightarrow> nat set" where
  "cands P D = {i. \<exists>k pg. P i = Some (k, pg, 0) \<and> k \<notin> D}"

definition core ::
  "(nat \<Rightarrow> slot_content option) \<Rightarrow> (cache_key \<times> nat) list \<Rightarrow> cache_key set \<Rightarrow> nat set \<Rightarrow> nat \<Rightarrow> bool"
where
  "core P m D S e \<longleftrightarrow>
     distinct (map fst m) \<and> (\<forall>k i. map_of m k = Some i \<longleftrightarrow> (\<exists>pg pins. P i = Some (k, pg, pins))) \<and>
     D \<subseteq> dom (map_of m) \<and> S = {i. \<exists>k pg pins. P i = Some (k, pg, pins) \<and> k \<notin> D} \<and> e = card (cands P D)"

lemma coreD:
  assumes "core P m D S e"
  shows "distinct (map fst m)" "map_of m k = Some i \<longleftrightarrow> (\<exists>pg pins. P i = Some (k, pg, pins))"
    "D \<subseteq> dom (map_of m)" "i \<in> S \<longleftrightarrow> (\<exists>k pg pins. P i = Some (k, pg, pins) \<and> k \<notin> D)" "e = card (cands P D)"
    "P i = Some (k, pg, pins) \<Longrightarrow> P j = Some (k, pg', pins') \<Longrightarrow> i = j"
proof -
  show "distinct (map fst m)" "map_of m k = Some i \<longleftrightarrow> (\<exists>pg pins. P i = Some (k, pg, pins))"
    "D \<subseteq> dom (map_of m)" "i \<in> S \<longleftrightarrow> (\<exists>k pg pins. P i = Some (k, pg, pins) \<and> k \<notin> D)" "e = card (cands P D)"
    using assms by (auto simp: core_def)
  assume "P i = Some (k, pg, pins)" "P j = Some (k, pg', pins')"
  then have "map_of m k = Some i" "map_of m k = Some j" using assms by (auto simp: core_def)
  then show "i = j" by simp
qed

lemma coreI:
  assumes "distinct (map fst m)" "\<And>k i. map_of m k = Some i \<longleftrightarrow> (\<exists>pg pins. P i = Some (k, pg, pins))"
    and "D \<subseteq> dom (map_of m)" "\<And>i. i \<in> S \<longleftrightarrow> (\<exists>k pg pins. P i = Some (k, pg, pins) \<and> k \<notin> D)" "card (cands P D) = e"
  shows "core P m D S e"
  using assms by (simp add: core_def set_eq_iff)

lemma core_finite:
  assumes "core P m D S e"
  shows "finite (cands P D)"
proof (rule finite_subset)
  show "cands P D \<subseteq> snd ` set m"
  proof
    fix i assume "i \<in> cands P D"
    then obtain k pg where "P i = Some (k, pg, 0)" by (auto simp: cands_def)
    then have "map_of m k = Some i" using coreD(2) [OF assms, of k i] by blast
    then show "i \<in> snd ` set m" by (force dest: map_of_SomeD)
  qed
qed simp

lemma core_empty: "core (\<lambda>_. None) [] {} {} 0"
  by (auto simp: core_def cands_def)

lemma cands_remove:
  assumes "P i = Some (k, pg, pins)" "\<And>j pg' pins'. j \<noteq> i \<Longrightarrow> P j \<noteq> Some (k, pg', pins')"
  shows "cands (P(i := None)) (D - {k}) = cands P D - {i}" "cands P (insert k D) = cands P D - {i}"
proof -
  have "j \<in> cands (P(i := None)) (D - {k}) \<longleftrightarrow> j \<in> cands P D - {i}"
    "j \<in> cands P (insert k D) \<longleftrightarrow> j \<in> cands P D - {i}" for j
  proof -
    have "P j = Some (k', pg', 0) \<Longrightarrow> j \<noteq> i \<Longrightarrow> k' \<noteq> k" for k' pg' using assms(2) by blast
    then show "j \<in> cands (P(i := None)) (D - {k}) \<longleftrightarrow> j \<in> cands P D - {i}"
      "j \<in> cands P (insert k D) \<longleftrightarrow> j \<in> cands P D - {i}"
      using assms(1) by (cases "j = i"; simp add: cands_def; blast)+
  qed
  then show "cands (P(i := None)) (D - {k}) = cands P D - {i}" "cands P (insert k D) = cands P D - {i}" by blast+
qed

lemma core_remove:
  assumes c: "core P m D S e" and i: "P i = Some (k, pg, pins)"
  shows "core (P(i := None)) (AList.delete k m) (D - {k}) (S - {i}) (if i \<in> cands P D then e - 1 else e)"
proof -
  note d = coreD [OF c]
  have only: "\<And>j pg' pins'. j \<noteq> i \<Longrightarrow> P j \<noteq> Some (k, pg', pins')" using d(6) i by blast
  have m': "map_of (AList.delete k m) k' = Some j \<longleftrightarrow> (\<exists>pg pins. (P(i := None)) j = Some (k', pg, pins))" for k' j
    using d(2) [of k' j] i only [of j] by (cases "k' = k"; cases "j = i") (simp_all add: AList.delete_conv')
  have "card (cands P D - {i}) = (if i \<in> cands P D then e - 1 else e)"
    using d(5) core_finite [OF c] by simp
  then have e: "card (cands (P(i := None)) (D - {k})) = (if i \<in> cands P D then e - 1 else e)"
    using cands_remove(1) [of P i k pg pins D, OF i only] by simp
  have S: "j \<in> S - {i} \<longleftrightarrow> (\<exists>k' pg pins. (P(i := None)) j = Some (k', pg, pins) \<and> k' \<notin> D - {k})" for j
    using d(4) [of j] only [of j] by (cases "j = i") (simp, simp, blast)
  have "D - {k} \<subseteq> dom (map_of (AList.delete k m))" using d(3) by (auto simp: AList.delete_conv')
  then show ?thesis by (rule coreI [OF AList.distinct_delete [OF d(1)] m' _ S e])
qed

lemma core_add:
  assumes c: "core P m D S e" and i: "P i = None" and k: "map_of m k = None"
  shows "core (P(i := Some (k, pg, pins))) (AList.update k i m) D (insert i S) (if pins = 0 then e + 1 else e)"
proof -
  note d = coreD [OF c]
  have kD: "k \<notin> D" using d(3) k by auto
  have m': "map_of (AList.update k i m) k' = Some j \<longleftrightarrow>
      (\<exists>pg' pins'. (P(i := Some (k, pg, pins))) j = Some (k', pg', pins'))" for k' j
    using d(2) [of k' j] d(2) [of k j] i k by (auto simp: AList.update_conv')
  have "cands (P(i := Some (k, pg, pins))) D = (if pins = 0 then insert i (cands P D) else cands P D)"
    using i kD by (auto simp: cands_def)
  moreover have "i \<notin> cands P D" using i by (simp add: cands_def)
  ultimately have "card (cands (P(i := Some (k, pg, pins))) D) = (if pins = 0 then e + 1 else e)"
    using d(5) core_finite [OF c] by simp
  note e = this
  have S: "j \<in> insert i S \<longleftrightarrow> (\<exists>k' pg' pins'. (P(i := Some (k, pg, pins))) j = Some (k', pg', pins') \<and> k' \<notin> D)" for j
    using d(4) [of j] kD by (cases "j = i") simp_all
  have "D \<subseteq> dom (map_of (AList.update k i m))" using d(3) by (auto simp: AList.update_conv')
  then show ?thesis by (rule coreI [OF AList.distinct_update [OF d(1)] m' _ S e])
qed

lemma core_change:
  assumes c: "core P m D S e" and i: "P i = Some (k, pg, pins)"
  shows "core (P(i := Some (k, pg', pins'))) m D S
    (if k \<in> D \<or> (pins = 0) = (pins' = 0) then e else if pins' = 0 then e + 1 else e - 1)"
proof -
  note d = coreD [OF c]
  have "cands (P(i := Some (k, pg', pins'))) D =
      (if k \<notin> D \<and> pins' = 0 then insert i (cands P D) else cands P D - {i})"
    using i by (auto simp: cands_def)
  moreover have "i \<in> cands P D \<longleftrightarrow> k \<notin> D \<and> pins = 0" using i by (auto simp: cands_def)
  ultimately have e: "card (cands (P(i := Some (k, pg', pins'))) D) =
      (if k \<in> D \<or> (pins = 0) = (pins' = 0) then e else if pins' = 0 then e + 1 else e - 1)"
    using d(5) core_finite [OF c] by (auto simp: insert_absorb)
  have m': "map_of m k' = Some j \<longleftrightarrow> (\<exists>pg'' pins''. (P(i := Some (k, pg', pins'))) j = Some (k', pg'', pins''))" for k' j
    using d(2) [of k' j] i by auto
  have S: "j \<in> S \<longleftrightarrow> (\<exists>k' pg'' pins''. (P(i := Some (k, pg', pins'))) j = Some (k', pg'', pins'') \<and> k' \<notin> D)" for j
    using d(4) [of j] i by (cases "j = i") simp_all
  show ?thesis by (rule coreI [OF d(1) m' d(3) S e])
qed

lemma core_mark:
  assumes c: "core P m D S e" and i: "P i = Some (k, pg, pins)"
  shows "core P m (insert k D) (S - {i}) (if i \<in> cands P D then e - 1 else e)"
proof -
  note d = coreD [OF c]
  have only: "\<And>j pg' pins'. j \<noteq> i \<Longrightarrow> P j \<noteq> Some (k, pg', pins')" using d(6) i by blast
  have e: "card (cands P (insert k D)) = (if i \<in> cands P D then e - 1 else e)"
    using d(5) core_finite [OF c] cands_remove(2) [of P i k pg pins D, OF i only] by simp
  have S: "j \<in> S - {i} \<longleftrightarrow> (\<exists>k' pg' pins'. P j = Some (k', pg', pins') \<and> k' \<notin> insert k D)" for j
    using d(4) [of j] only [of j] i by (cases "j = i") (simp, simp, blast)
  have "map_of m k = Some i" using d(2) i by blast
  then have D: "insert k D \<subseteq> dom (map_of m)" using d(3) by blast
  show ?thesis by (rule coreI [OF d(1,2) D S e])
qed

lemma core_clear:
  assumes c: "core P m D S e" and i: "P i = Some (k, pg, pins)" and k: "k \<in> D"
  shows "core P m (D - {k}) (insert i S) (if pins = 0 then e + 1 else e)"
proof -
  note d = coreD [OF c]
  have only: "\<And>j pg' pins'. j \<noteq> i \<Longrightarrow> P j \<noteq> Some (k, pg', pins')" using d(6) i by blast
  have "j \<in> cands P (D - {k}) \<longleftrightarrow> j \<in> (if pins = 0 then insert i (cands P D) else cands P D)" for j
    using i only [of j] k by (cases "j = i") (simp add: cands_def, simp add: cands_def, blast)
  then have "cands P (D - {k}) = (if pins = 0 then insert i (cands P D) else cands P D)" by blast
  moreover have "i \<notin> cands P D" using i k by (auto simp: cands_def)
  ultimately have e: "card (cands P (D - {k})) = (if pins = 0 then e + 1 else e)"
    using d(5) core_finite [OF c] by simp
  have S: "j \<in> insert i S \<longleftrightarrow> (\<exists>k' pg' pins'. P j = Some (k', pg', pins') \<and> k' \<notin> D - {k})" for j
    using d(4) [of j] only [of j] i by (cases "j = i") (simp, simp, blast)
  have D: "D - {k} \<subseteq> dom (map_of m)" using d(3) by blast
  show ?thesis by (rule coreI [OF d(1,2) D S e])
qed

lemma core_move:
  assumes c: "core P m D S e" and i: "P from = Some (k, pg, pins)" and t: "P to = None"
  shows "core (P(from := None, to := Some (k, pg, pins))) (AList.update k to m) D
    (if from \<in> S then insert to (S - {from}) else S) e"
proof -
  note d = coreD [OF c]
  let ?P = "P(from := None, to := Some (k, pg, pins))"
  have only: "\<And>j pg' pins'. j \<noteq> from \<Longrightarrow> P j \<noteq> Some (k, pg', pins')" using d(6) i by blast
  have m': "map_of (AList.update k to m) k' = Some j \<longleftrightarrow> (\<exists>pg' pins'. ?P j = Some (k', pg', pins'))" for k' j
    using d(2) [of k' j] i t only by (auto simp: AList.update_conv')
  have "cands ?P D = (if from \<in> cands P D then insert to (cands P D - {from}) else cands P D)"
    using i t by (auto simp: cands_def)
  moreover have "to \<notin> cands P D" using t by (simp add: cands_def)
  ultimately have e: "card (cands ?P D) = e"
    using core_finite [OF c] card_Suc_Diff1 [of "cands P D" "from"] d(5) by auto
  have S: "j \<in> (if from \<in> S then insert to (S - {from}) else S) \<longleftrightarrow>
      (\<exists>k' pg' pins'. ?P j = Some (k', pg', pins') \<and> k' \<notin> D)" for j
    using d(4) [of j] d(4) [of "from"] i t by (cases "j = from"; cases "j = to") auto
  have "D \<subseteq> dom (map_of (AList.update k to m))" using d(3) by (auto simp: AList.update_conv')
  then show ?thesis by (rule coreI [OF AList.distinct_update [OF d(1)] m' _ S e])
qed

lemma card_dom_map_of: "distinct (map fst m) \<Longrightarrow> card (dom (map_of m)) = length m"
  using distinct_card [of "map fst m"] by (simp add: dom_map_of_conv_image_fst)

text \<open>The members of the list are the clean entries, so their number is known.\<close>

lemma core_card:
  assumes c: "core P m D S e"
  shows "card S = length m - card D"
proof -
  note d = coreD [OF c]
  have "bij_betw (\<lambda>k. the (map_of m k)) (dom (map_of m) - D) S"
    unfolding bij_betw_def
  proof
    show "inj_on (\<lambda>k. the (map_of m k)) (dom (map_of m) - D)"
    proof (rule inj_onI)
      fix k k' assume k: "k \<in> dom (map_of m) - D" "k' \<in> dom (map_of m) - D" "the (map_of m k) = the (map_of m k')"
      then obtain i where "map_of m k = Some i" "map_of m k' = Some i" by force
      then show "k = k'" using d(2) [of k i] d(2) [of k' i] by force
    qed
    show "(\<lambda>k. the (map_of m k)) ` (dom (map_of m) - D) = S"
    proof (intro equalityI subsetI)
      fix i assume "i \<in> (\<lambda>k. the (map_of m k)) ` (dom (map_of m) - D)"
      then obtain k where "map_of m k = Some i" "k \<notin> D" by auto
      then show "i \<in> S" using d(2) [of k i] d(4) [of i] by blast
    next
      fix i assume "i \<in> S"
      then obtain k where "map_of m k = Some i" "k \<notin> D" using d(2,4) by blast
      then show "i \<in> (\<lambda>k. the (map_of m k)) ` (dom (map_of m) - D)" by (force simp: image_iff)
    qed
  qed
  then have "card S = card (dom (map_of m) - D)" by (rule bij_betw_same_card [symmetric])
  also have "\<dots> = card (dom (map_of m)) - card D"
    using d(3) finite_dom_map_of [of m] by (intro card_Diff_subset) (auto intro: finite_subset)
  also have "card (dom (map_of m)) = length m"
    by (rule card_dom_map_of [OF d(1)])
  finally show ?thesis .
qed

lemma core_len:
  assumes "core P m D S e" "core P' m' D' S' e'" "map_of m' = (map_of m)(k := None)" "map_of m k \<noteq> None"
  shows "length m' = length m - 1"
proof -
  have "dom (map_of m') = dom (map_of m) - {k}" using assms(3) by simp
  then show ?thesis
    using card_dom_map_of [OF coreD(1) [OF assms(1)]] card_dom_map_of [OF coreD(1) [OF assms(2)]] assms(4) finite_dom_map_of [of m]
    by (simp add: card_Diff_singleton domIff)
qed

section \<open>The invariant\<close>

definition cache_ok :: "page_cache \<Rightarrow> nat list \<Rightarrow> bool" where
  "cache_ok c L \<longleftrightarrow>
     chain c L \<and> core (pay c) (pc_map c) (pc_dirty c) (set L) (pc_evictable c) \<and> free_ok c \<and>
     1 \<le> pc_capacity c \<and> pc_fault c = None"

definition cache_inv :: "page_cache \<Rightarrow> bool" where
  "cache_inv c \<longleftrightarrow> (\<exists>L. cache_ok c L)"

definition entry :: "page_cache \<Rightarrow> cache_key \<Rightarrow> (nat \<times> cached_page \<times> u32) option" where
  "entry c k =
     (case map_of (pc_map c) k of
        None \<Rightarrow> None
      | Some i \<Rightarrow> map_option (\<lambda>(_, pg, pins). (i, pg, pins)) (pay c i))"

lemma cache_okD:
  assumes "cache_ok c L"
  shows "chain c L" "core (pay c) (pc_map c) (pc_dirty c) (set L) (pc_evictable c)" "free_ok c"
    "1 \<le> pc_capacity c" "pc_fault c = None" "cache_inv c"
  using assms by (auto simp: cache_ok_def cache_inv_def)

lemma entry_pay_core:
  assumes "core (pay c) (pc_map c) D S e"
  shows "entry c k = Some (i, pg, pins) \<longleftrightarrow> pay c i = Some (k, pg, pins)"
proof -
  have d: "map_of (pc_map c) k = Some j \<longleftrightarrow> (\<exists>pg pins. pay c j = Some (k, pg, pins))" for j
    by (rule coreD(2) [OF assms])
  show ?thesis
  proof (cases "map_of (pc_map c) k")
    case None
    then show ?thesis using d [of i] by (auto simp: entry_def)
  next
    case (Some j)
    then obtain q p where j: "pay c j = Some (k, q, p)" using d by blast
    have "pay c i = Some (k, pg, pins) \<Longrightarrow> i = j" using d [of i] Some by auto
    then show ?thesis using Some j by (auto simp: entry_def)
  qed
qed

lemma entry_pay: "cache_inv c \<Longrightarrow> entry c k = Some (i, pg, pins) \<longleftrightarrow> pay c i = Some (k, pg, pins)"
  using entry_pay_core cache_okD(2) unfolding cache_inv_def by blast

lemma entry_map:
  assumes "cache_inv c"
  shows "map_of (pc_map c) k = map_option fst (entry c k)"
proof -
  obtain L where "cache_ok c L" using assms by (auto simp: cache_inv_def)
  then have d: "map_of (pc_map c) k = Some j \<Longrightarrow> \<exists>pg pins. pay c j = Some (k, pg, pins)" for j
    using coreD(2) [OF cache_okD(2)] by blast
  show ?thesis using d by (cases "map_of (pc_map c) k") (force simp: entry_def)+
qed

lemma entry_cong: "pc_map c' = pc_map c \<Longrightarrow> pay c' = pay c \<Longrightarrow> entry c' = entry c"
  by (rule ext) (simp add: entry_def split: option.split)

lemma dirty_resident:
  assumes "cache_inv c" "k \<in> pc_dirty c"
  shows "\<exists>i pg pins. entry c k = Some (i, pg, pins)"
proof -
  obtain L where "cache_ok c L" using assms by (auto simp: cache_inv_def)
  then have "k \<in> dom (map_of (pc_map c))" using coreD(3) [OF cache_okD(2)] assms(2) by blast
  then show ?thesis using entry_map [OF assms(1), of k] by (cases "entry c k") auto
qed

lemma option_ext3:
  assumes "\<And>j q p. a = Some (j, q, p) \<longleftrightarrow> b = Some (j, q, p)"
  shows "a = b"
proof (cases a)
  case None
  then show ?thesis using assms by (cases b) force+
next
  case (Some t)
  then show ?thesis using assms by (cases t) force
qed

lemma entry_core:
  assumes "cache_inv c" "cache_inv c'" "pay c' = (pay c)(i := x)" "entry c k = Some (i, pg, pins) \<or> (pay c i = None \<and> entry c k = None)"
    and "\<And>k' pg' pins'. x = Some (k', pg', pins') \<Longrightarrow> k' = k"
  shows "entry c' = (entry c)(k := map_option (\<lambda>(_, pg, pins). (i, pg, pins)) x)"
proof
  fix k'
  have eq: "entry c' k' = Some (j, q, p) \<longleftrightarrow> pay c' j = Some (k', q, p)"
    "entry c k' = Some (j, q, p) \<longleftrightarrow> pay c j = Some (k', q, p)" for j q p
    using entry_pay assms(1,2) by blast+
  show "entry c' k' = ((entry c)(k := map_option (\<lambda>(_, pg, pins). (i, pg, pins)) x)) k'"
  proof (cases "k' = k")
    case True
    have "pay c j = Some (k, q, p) \<Longrightarrow> j = i" for j q p
      using eq(2) [of j q p] True assms(4) by auto
    then have a: "entry c' k = Some (j, q, p) \<longleftrightarrow> j = i \<and> x = Some (k, q, p)" for j q p
      using eq(1) [of j q p] assms(3) True by (cases "j = i") auto
    have b: "map_option (\<lambda>(_, pg, pins). (i, pg, pins)) x = Some (j, q, p) \<longleftrightarrow> j = i \<and> x = Some (k, q, p)" for j q p
      using assms(5) by (cases x) auto
    have "entry c' k = map_option (\<lambda>(_, pg, pins). (i, pg, pins)) x"
      by (rule option_ext3) (simp only: a b)
    then show ?thesis using True by simp
  next
    case False
    have "pay c' j = Some (k', q, p) \<longleftrightarrow> pay c j = Some (k', q, p)" for j q p
      using assms(3) assms(5) [of k' q p] False entry_pay [OF assms(1), of k i pg pins] assms(4) by (cases "j = i") auto
    then have "entry c' k' = entry c k'" using eq by (intro option_ext3) blast
    then show ?thesis using False by simp
  qed
qed

section \<open>Eviction\<close>

text \<open>
  What a trim may do: the dirty set stays, and an entry is kept with its slot, page and pins or,
  when it is clean and unpinned, dropped.
\<close>

definition shrunk :: "page_cache \<Rightarrow> page_cache \<Rightarrow> bool" where
  "shrunk c c' \<longleftrightarrow>
     pc_dirty c' = pc_dirty c \<and> pc_capacity c' = pc_capacity c \<and> pc_debug c' = pc_debug c \<and>
     (\<forall>k. entry c' k = entry c k \<or>
        entry c' k = None \<and> k \<notin> pc_dirty c \<and> (\<exists>i pg. entry c k = Some (i, pg, 0)))"

lemma shrunk_refl [simp]: "shrunk c c"
  by (simp add: shrunk_def)

lemma shrunk_trans: "shrunk a b \<Longrightarrow> shrunk b c \<Longrightarrow> shrunk a c"
  unfolding shrunk_def by (metis option.distinct(1))

lemma candidate_cands: "candidate c i \<longleftrightarrow> i \<in> cands (pay c) (pc_dirty c)"
  by (simp add: candidate_def cands_def)

lemma hand_position:
  assumes "chain c L"
  obtains j where "j \<le> length L" "(case pc_hand c of Some h \<Rightarrow> Some h | None \<Rightarrow> pc_tail c) = at_pos L j"
proof (cases "pc_hand c")
  case None
  then show thesis using that [of 0] chainD(2) [OF assms] by (simp add: at_pos_0)
next
  case (Some h)
  then obtain j where "j < length L" "L ! j = h"
    using chainD(4) [OF assms Some] by (auto simp: in_set_conv_nth)
  then show thesis using that [of j] Some by (simp add: at_pos_def)
qed

lemma walk_cost_bound: "q < l \<Longrightarrow> j \<le> l \<Longrightarrow> walk_cost l j q v < 2 * (l + 1)"
  by (auto simp: walk_cost_def)

lemma remove_ok:
  assumes ok: "cache_ok c L" and i: "entry c k = Some (i, pg, pins)"
    and c': "chain c' (remove1 i L)" "pay c' = (pay c)(i := None)" "pc_free c' = pc_free c @ [i]"
      "length (pc_slab c') = length (pc_slab c)" "pc_map c' = AList.delete k (pc_map c)"
      "pc_dirty c' = pc_dirty c - {k}"
      "pc_evictable c' = (if k \<notin> pc_dirty c \<and> pins = 0 then pc_evictable c - 1 else pc_evictable c)"
      "pc_capacity c' = pc_capacity c" "pc_fault c' = pc_fault c"
  shows "cache_ok c' (remove1 i L)" "entry c' = (entry c)(k := None)" "cache_len c' = cache_len c - 1"
proof -
  note d = cache_okD [OF ok]
  have p: "pay c i = Some (k, pg, pins)" using i entry_pay [OF d(6)] by blast
  have core': "core (pay c') (pc_map c') (pc_dirty c') (set (remove1 i L)) (pc_evictable c')"
    using core_remove [OF d(2) p] c' p chainD(1) [OF d(1)]
    by (auto simp: set_remove1_eq cands_def split: if_splits)
  have look: "look (pc_slab x) j = None \<longleftrightarrow> pay x j = None" for x j by (simp add: pay_def)
  have lt: "i < length (pc_slab c)" using p look_lt by (auto simp: pay_def)
  have "free_ok c'"
    using d(3) c'(2-4) p lt by (auto simp: free_ok_def look split: if_splits)
  then show ok': "cache_ok c' (remove1 i L)"
    using core' c' d by (simp add: cache_ok_def)
  show "entry c' = (entry c)(k := None)"
    using entry_core [OF d(6) cache_okD(6) [OF ok'] c'(2)] i by simp
  show "cache_len c' = cache_len c - 1"
    using core_len [OF d(2) core', of k] c'(5) entry_map [OF d(6), of k] i
    by (simp add: cache_len_def AList.delete_conv')
qed

lemma evict_one_ok:
  assumes inv: "cache_inv c" and e: "0 < pc_evictable c"
  shows "\<exists>c'. evict_one c = (Ok (), c') \<and> cache_inv c' \<and> shrunk c c' \<and>
    pc_evictable c' = pc_evictable c - 1 \<and> cache_len c' = cache_len c - 1"
proof -
  obtain L where ok: "cache_ok c L" using inv by (auto simp: cache_inv_def)
  note d = cache_okD [OF ok]
  have ex: "\<exists>k pg pins. pay c i = Some (k, pg, pins) \<and> k \<notin> pc_dirty c" if "i \<in> set L" for i
    using coreD(4) [OF d(2), of i] that by blast
  obtain x where x: "candidate c x" "x \<in> set L"
  proof -
    have "cands (pay c) (pc_dirty c) \<noteq> {}" using e coreD(5) [OF d(2)] by auto
    then obtain x where "x \<in> cands (pay c) (pc_dirty c)" by blast
    moreover have "x \<in> set L" using calculation coreD(4) [OF d(2), of x] by (auto simp: cands_def)
    ultimately show thesis using that by (simp add: candidate_cands)
  qed
  then obtain q where q: "q < length L" "candidate c (L ! q)" by (auto simp: in_set_conv_nth)
  obtain j where j: "j \<le> length L" "(case pc_hand c of Some h \<Rightarrow> Some h | None \<Rightarrow> pc_tail c) = at_pos L j"
    by (rule hand_position [OF d(1)])
  have len: "cache_len c - card (pc_dirty c) = length L"
    using core_card [OF d(2)] distinct_card [OF chainD(1) [OF d(1)]] by (simp add: cache_len_def)
  obtain c1 idx n where w: "evict_one c = evict_victim idx n c1" "idx \<in> set L" "look (pc_slab c1) idx = Some n"
      "candidate c idx" "chain c1 L" "pay c1 = pay c" "same_index c c1"
    using evict_loop_finds [OF d(1) ex q j(1) walk_cost_bound [OF q(1) j(1)]] j(2) len
    unfolding evict_one_def by auto
  obtain k pg where k: "pay c idx = Some (k, pg, 0)" "k \<notin> pc_dirty c" using w(4) by (auto simp: candidate_def)
  have key: "cn_key n = k" using k w(3,6) by (auto simp: pay_def content_def dest: fun_cong [of _ _ idx])
  have i: "entry c k = Some (idx, pg, 0)" using k entry_pay [OF inv] by simp
  obtain c' where c': "evict_victim idx n c1 = (Ok (), c')" "chain c' (remove1 idx L)" "pay c' = (pay c1)(idx := None)"
    "pc_free c' = pc_free c1 @ [idx]" "pc_map c' = AList.delete (cn_key n) (pc_map c1)"
    "pc_evictable c' = pc_evictable c1 - 1"
    "same_index c1 (c'\<lparr>pc_free := pc_free c1, pc_map := pc_map c1, pc_evictable := pc_evictable c1\<rparr>)"
    using evict_victim_effect [OF w(5) w(3) w(2)] e w(7) by (auto simp: same_index_def)
  have f: "length (pc_slab c') = length (pc_slab c)" "pc_map c' = AList.delete k (pc_map c)" "pc_dirty c' = pc_dirty c"
    "pc_evictable c' = pc_evictable c - 1" "pc_capacity c' = pc_capacity c" "pc_fault c' = pc_fault c"
    "pc_debug c' = pc_debug c" "pc_free c' = pc_free c @ [idx]"
    using w(7) c'(4-7) key by (simp_all add: same_index_def)
  have r: "cache_ok c' (remove1 idx L)" "entry c' = (entry c)(k := None)" "cache_len c' = cache_len c - 1"
    using remove_ok [OF ok i c'(2)] c'(3) w(6) f k(2) by simp_all
  have "shrunk c c'"
    unfolding shrunk_def r(2) using f k(2) i by auto
  then show ?thesis using w(1) c'(1) r cache_okD(6) [OF r(1)] f by auto
qed

lemma trim_loop_ok:
  assumes "cache_inv c"
  shows "\<exists>c'. trim_loop target c = (Ok (), c') \<and> cache_inv c' \<and> shrunk c c' \<and>
    (cache_len c' \<le> target \<or> pc_evictable c' = 0) \<and> (pc_evictable c = 0 \<longrightarrow> c' = c)"
  using assms
proof (induction target c rule: trim_loop.induct)
  case (1 target c)
  show ?case
  proof (cases "target < cache_len c \<and> 0 < pc_evictable c")
    case True
    obtain c1 where c1: "evict_one c = (Ok (), c1)" "cache_inv c1" "shrunk c c1"
      using evict_one_ok [OF 1(2)] True by auto
    obtain c' where "trim_loop target c1 = (Ok (), c')" "cache_inv c'" "shrunk c1 c'"
        "cache_len c' \<le> target \<or> pc_evictable c' = 0"
      using 1(1) [OF True c1(1) c1(2)] by auto
    then show ?thesis
      using True c1 shrunk_trans [OF c1(3)] by (subst trim_loop.simps) auto
  next
    case False
    then show ?thesis using 1(2) by (subst trim_loop.simps) auto
  qed
qed

end
