(* ===== verification/Cache_Ops.thy ===== *)
theory Cache_Ops
  imports Cache_Inv
begin

text \<open>
  The public operations of the page cache under its invariant: none of them faults, in release and
  in debug builds alike, and each has the stated effect on the entries, the dirty set and the
  budget.
\<close>

section \<open>The checks of debug builds\<close>

lemma map_slots:
  assumes "core P m D S e"
  shows "distinct (map snd m)" "\<And>k i. (k, i) \<in> set m \<Longrightarrow> \<exists>pg pins. P i = Some (k, pg, pins)"
proof -
  note d = coreD [OF assms]
  show live: "\<And>k i. (k, i) \<in> set m \<Longrightarrow> \<exists>pg pins. P i = Some (k, pg, pins)"
    using d(1,2) by (metis map_of_eq_Some_iff)
  have "inj_on snd (set m)"
  proof (rule inj_onI)
    fix x y assume "x \<in> set m" "y \<in> set m" "snd x = snd y"
    then show "x = y" using live [of "fst x" "snd x"] live [of "fst y" "snd y"] by (cases x; cases y) auto
  qed
  then show "distinct (map snd m)" using d(1) by (simp add: distinct_map)
qed

lemma check_evictable_ok:
  assumes ok: "cache_ok c L"
  shows "check_evictable_count c operation = Ok ()"
proof -
  note core = cache_okD(2) [OF ok]
  have count: "fold_result (\<lambda>idx candidates.
      rbind (slot_node (pc_slab c) idx operation) (\<lambda>n.
        Ok (if is_evictable n (pc_dirty c) then candidates + 1 else candidates))) xs a =
      Ok (a + length (filter (\<lambda>i. i \<in> cands (pay c) (pc_dirty c)) xs))"
    if "\<And>i. i \<in> set xs \<Longrightarrow> pay c i \<noteq> None" for xs a
    using that
  proof (induction xs arbitrary: a)
    case (Cons i xs)
    then obtain n where n: "look (pc_slab c) i = Some n" by (auto simp: pay_def)
    have "is_evictable n (pc_dirty c) \<longleftrightarrow> i \<in> cands (pay c) (pc_dirty c)"
      using n by (simp add: is_evictable_def cands_def pay_def content_def)
    then show ?case using Cons n by (simp add: slot_node_look)
  qed simp
  let ?xs = "map snd (pc_map c)" and ?A = "cands (pay c) (pc_dirty c)"
  have live: "pay c i \<noteq> None" if "i \<in> set ?xs" for i
    using map_slots(2) [OF core] that by force
  have "?A \<subseteq> set ?xs"
  proof
    fix i assume "i \<in> ?A"
    then obtain k pg where "pay c i = Some (k, pg, 0)" by (auto simp: cands_def)
    then have "map_of (pc_map c) k = Some i" using coreD(2) [OF core] by blast
    then show "i \<in> set ?xs" by (force dest: map_of_SomeD)
  qed
  then have "set (filter (\<lambda>i. i \<in> ?A) ?xs) = ?A" by auto
  moreover have "distinct (filter (\<lambda>i. i \<in> ?A) ?xs)" using map_slots(1) [OF core] by simp
  ultimately have "length (filter (\<lambda>i. i \<in> ?A) ?xs) = pc_evictable c"
    using coreD(5) [OF core] distinct_card by metis
  then show ?thesis
    using count [of ?xs 0, OF live] by (simp add: check_evictable_count_def del: length_filter_map filter_map)
qed

lemma check_membership_ok:
  assumes ok: "cache_ok c L"
  shows "check_list_membership c operation = Ok ()"
  unfolding check_list_membership_def for_each_eq_Ok
proof
  note d = cache_okD [OF ok]
  fix x assume x: "x \<in> set (pc_map c)"
  obtain k i where ki: "x = (k, i)" by (cases x)
  then obtain pg pins where p: "pay c i = Some (k, pg, pins)" using map_slots(2) [OF d(2)] x by blast
  then obtain n where n: "look (pc_slab c) i = Some n" by (auto simp: pay_def)
  have "cn_linked n \<longleftrightarrow> i \<in> set L" using chainD(6) [OF d(1) n] .
  also have "\<dots> \<longleftrightarrow> k \<notin> pc_dirty c" using coreD(4) [OF d(2), of i] p by auto
  finally show "(case x of (k, idx) \<Rightarrow>
      rbind (slot_node (pc_slab c) idx operation) (\<lambda>n.
        if cn_linked n = (k \<in> pc_dirty c)
        then Err (cache_fault operation LIST_MEMBERSHIP_DRIFTED (Some idx)) else Ok ())) = Ok ()"
    using ki n by (simp add: slot_node_look)
qed

lemma trim_to_ok:
  assumes "cache_inv c"
  shows "\<exists>c'. trim_to target c = (Ok (), c') \<and> cache_inv c' \<and> shrunk c c' \<and>
    (cache_len c' \<le> target \<or> pc_evictable c' = 0) \<and> (pc_evictable c = 0 \<longrightarrow> c' = c)"
proof -
  obtain L where "cache_ok c L" using assms by (auto simp: cache_inv_def)
  then have "trim_to target c = trim_loop target c"
    by (simp add: trim_to_def check_evictable_ok check_membership_ok)
  then show ?thesis using trim_loop_ok [OF assms] by simp
qed

section \<open>Lookups and pins\<close>

definition same_view :: "page_cache \<Rightarrow> page_cache \<Rightarrow> bool" where
  "same_view c c' \<longleftrightarrow>
     entry c' = entry c \<and> pc_dirty c' = pc_dirty c \<and> pc_capacity c' = pc_capacity c \<and>
     pc_debug c' = pc_debug c \<and> pc_evictable c' = pc_evictable c \<and> cache_len c' = cache_len c"

lemma guarded_Ok: "cache_inv c \<Longrightarrow> body c = (Ok x, c') \<Longrightarrow> guarded body c = (Ok x, c')"
  by (auto simp: guarded_def check_usable_def cache_inv_def cache_ok_def)

lemma entry_node:
  assumes "cache_inv c" "entry c k = Some (i, pg, pins)"
  obtains n where "look (pc_slab c) i = Some n" "cn_key n = k" "cn_page n = pg" "cn_pins n = pins"
    "keyed_node (pc_slab c) i k operation = Ok n" "map_of (pc_map c) k = Some i"
proof -
  have "pay c i = Some (k, pg, pins)" using assms entry_pay by blast
  then obtain n where "look (pc_slab c) i = Some n" "cn_key n = k" "cn_page n = pg" "cn_pins n = pins"
    by (auto simp: pay_Some)
  then show thesis using that entry_map [OF assms(1), of k] assms(2)
    by (simp add: keyed_node_def slot_node_look)
qed

lemma replace_ok:
  assumes ok: "cache_ok c L" and i: "entry c k = Some (i, pg, pins)"
    and n': "look (pc_slab c) i = Some n" "cn_linked n' = cn_linked n" "cn_prev n' = cn_prev n" "cn_next n' = cn_next n"
      "content n' = (k, pg', pins')"
    and e: "e = (if k \<in> pc_dirty c \<or> (pins = 0) = (pins' = 0) then pc_evictable c
      else if pins' = 0 then pc_evictable c + 1 else pc_evictable c - 1)"
    and c': "c' = (set_slot i n' c)\<lparr>pc_evictable := e\<rparr>"
  shows "cache_ok c' L" "entry c' = (entry c)(k := Some (i, pg', pins'))" "cache_len c' = cache_len c"
proof -
  note d = cache_okD [OF ok]
  note s = set_slot_chain [OF d(1) n'(1-4)]
  have p: "pay c i = Some (k, pg, pins)" using i entry_pay [OF d(6)] by blast
  have cong: "chain c' L" "pay c' = (pay c)(i := Some (k, pg', pins'))"
    using s(1,2) chain_cong [of c' "set_slot i n' c"] c' n'(5) by simp_all
  have f: "pc_map c' = pc_map c" "pc_dirty c' = pc_dirty c" "pc_capacity c' = pc_capacity c"
    "pc_fault c' = pc_fault c" "pc_free c' = pc_free c" "pc_evictable c' = e" "length (pc_slab c') = length (pc_slab c)"
    by (simp_all add: c' set_slot_def)
  have "look (pc_slab c') j = None \<longleftrightarrow> look (pc_slab c) j = None" for j
    using fun_cong [OF cong(2), of j] p by (auto simp: pay_def split: if_splits)
  then have "free_ok c'" using d(3) f(5,7) by (simp add: free_ok_def)
  then show ok': "cache_ok c' L"
    using core_change [OF d(2) p, of pg' pins'] cong d f e by (simp add: cache_ok_def)
  show "entry c' = (entry c)(k := Some (i, pg', pins'))"
    using entry_core [OF d(6) cache_okD(6) [OF ok'] cong(2)] i by simp
  show "cache_len c' = cache_len c" using f(1) by (simp add: cache_len_def)
qed

lemma entry_upd_same: "entry c k = Some x \<Longrightarrow> (entry c)(k := Some x) = entry c"
  by auto

lemma get_ok:
  assumes inv: "cache_inv c"
  shows "\<exists>c'. cache_get k c = (Ok (map_option (\<lambda>(_, pg, _). pg) (entry c k)), c') \<and> cache_inv c' \<and> same_view c c'"
proof (cases "entry c k")
  case None
  then have "cache_get k c = (Ok None, c)"
    using entry_map [OF inv, of k] by (simp add: cache_get_def guarded_Ok [OF inv])
  then show ?thesis using inv None by (simp add: same_view_def)
next
  case (Some x)
  obtain i pg pins where x: "x = (i, pg, pins)" by (cases x)
  note i = Some [unfolded x]
  obtain n where n: "look (pc_slab c) i = Some n" "cn_key n = k" "cn_page n = pg" "cn_pins n = pins"
    "keyed_node (pc_slab c) i k ''get'' = Ok n" "map_of (pc_map c) k = Some i"
    by (rule entry_node [OF inv i])
  obtain L where ok: "cache_ok c L" using inv by (auto simp: cache_inv_def)
  let ?c = "set_slot i (n\<lparr>cn_visited := True\<rparr>) c"
  have "cache_get k c = (Ok (Some pg), ?c)"
    unfolding cache_get_def by (rule guarded_Ok [OF inv]) (simp add: n)
  moreover have "?c = ?c\<lparr>pc_evictable := pc_evictable c\<rparr>" by (simp add: set_slot_def)
  then have "cache_ok ?c L" "entry ?c = (entry c)(k := Some (i, pg, pins))" "cache_len ?c = cache_len c"
    using replace_ok [OF ok i n(1), of "n\<lparr>cn_visited := True\<rparr>" pg pins "pc_evictable c" ?c] n
    by (simp_all add: content_def)
  ultimately show ?thesis
    using i x Some cache_okD(6) by (auto simp: same_view_def entry_upd_same set_slot_def)
qed

lemma saturating_inc_nonzero: "saturating_inc_u32 w \<noteq> 0"
  by (simp add: saturating_inc_u32_def flip: eq_neg_iff_add_eq_0)

lemma pin_resident_ok:
  assumes inv: "cache_inv c" and i: "entry c k = Some (i, pg, pins)"
  shows "\<exists>c'. pin_resident i k operation c = (Ok (pg, i), c') \<and> cache_inv c' \<and>
    entry c' = (entry c)(k := Some (i, pg, saturating_inc_u32 pins)) \<and> pc_dirty c' = pc_dirty c \<and>
    pc_capacity c' = pc_capacity c \<and> pc_debug c' = pc_debug c \<and> pc_evictable c' \<le> pc_evictable c \<and>
    cache_len c' = cache_len c"
proof -
  obtain n where n: "look (pc_slab c) i = Some n" "cn_key n = k" "cn_page n = pg" "cn_pins n = pins"
    "keyed_node (pc_slab c) i k operation = Ok n"
    by (rule entry_node [OF inv i])
  obtain L where ok: "cache_ok c L" using inv by (auto simp: cache_inv_def)
  let ?n = "n\<lparr>cn_pins := saturating_inc_u32 pins, cn_visited := True\<rparr>"
  let ?e = "if k \<in> pc_dirty c \<or> pins \<noteq> 0 then pc_evictable c else pc_evictable c - 1"
  let ?c = "(set_slot i ?n c)\<lparr>pc_evictable := ?e\<rparr>"
  have p: "pay c i = Some (k, pg, pins)" using i entry_pay [OF inv] by blast
  have pos: "0 < pc_evictable c" if "k \<notin> pc_dirty c" "pins = 0"
  proof -
    have "i \<in> cands (pay c) (pc_dirty c)" using p that by (auto simp: cands_def)
    then show ?thesis
      using coreD(5) [OF cache_okD(2) [OF ok]] core_finite [OF cache_okD(2) [OF ok]] by (auto simp: card_gt_0_iff)
  qed
  have "pin_resident i k operation c = (Ok (pg, i), ?c)"
    using n pos by (auto simp: pin_resident_def is_evictable_def one_less_def set_slot_def)
  moreover have cont: "content ?n = (k, pg, saturating_inc_u32 pins)" using n by (simp add: content_def)
  have e: "?e = (if k \<in> pc_dirty c \<or> (pins = 0) = (saturating_inc_u32 pins = 0) then pc_evictable c
      else if saturating_inc_u32 pins = 0 then pc_evictable c + 1 else pc_evictable c - 1)"
    by (simp add: saturating_inc_nonzero)
  have "cache_ok ?c L" "entry ?c = (entry c)(k := Some (i, pg, saturating_inc_u32 pins))" "cache_len ?c = cache_len c"
    by (rule replace_ok [OF ok i n(1) _ _ _ cont e refl]; simp)+
  ultimately show ?thesis using cache_okD(6) by (auto simp: set_slot_def)
qed

text \<open>The budget that holds whenever the cache lock is released.\<close>

definition within_budget :: "page_cache \<Rightarrow> bool" where
  "within_budget c \<longleftrightarrow> cache_len c \<le> pc_capacity c \<or> pc_evictable c = 0"

lemma check_budget_ok: "within_budget c \<Longrightarrow> check_within_budget c operation = Ok ()"
  by (auto simp: check_within_budget_def within_budget_def)

text \<open>
  The entries an operation may leave behind when it is allowed to trim: \<open>E\<close>, with clean unpinned
  ones possibly gone.
\<close>

definition trimmed ::
  "(cache_key \<Rightarrow> (nat \<times> cached_page \<times> u32) option) \<Rightarrow> cache_key set \<Rightarrow> page_cache \<Rightarrow> bool"
where
  "trimmed E D c' \<longleftrightarrow>
     (\<forall>k. entry c' k = E k \<or> entry c' k = None \<and> k \<notin> D \<and> (\<exists>i pg. E k = Some (i, pg, 0)))"

lemma shrunk_trimmed:
  "shrunk c c' \<longleftrightarrow> trimmed (entry c) (pc_dirty c) c' \<and> pc_dirty c' = pc_dirty c \<and>
     pc_capacity c' = pc_capacity c \<and> pc_debug c' = pc_debug c"
  by (auto simp: shrunk_def trimmed_def)

lemma unpin_ok:
  assumes inv: "cache_inv c" and budget: "within_budget c" and i: "entry c k = Some (i, pg, pins)" and pins: "pins \<noteq> 0"
  shows "cache_inv (unpin_at i k c)" "within_budget (unpin_at i k c)"
    "trimmed ((entry c)(k := Some (i, pg, pins - 1))) (pc_dirty c) (unpin_at i k c)"
    "pc_dirty (unpin_at i k c) = pc_dirty c" "pc_capacity (unpin_at i k c) = pc_capacity c"
    "pc_debug (unpin_at i k c) = pc_debug c"
proof -
  obtain n where n: "look (pc_slab c) i = Some n" "cn_key n = k" "cn_page n = pg" "cn_pins n = pins"
    "keyed_node (pc_slab c) i k ''unpin_at'' = Ok n"
    by (rule entry_node [OF inv i])
  obtain L where ok: "cache_ok c L" using inv by (auto simp: cache_inv_def)
  let ?n = "n\<lparr>cn_pins := pins - 1\<rparr>"
  define freed where "freed = (pins = 1 \<and> k \<notin> pc_dirty c)"
  let ?e = "if freed then pc_evictable c + 1 else pc_evictable c"
  let ?c = "(set_slot i ?n c)\<lparr>pc_evictable := ?e\<rparr>"
  have ev: "is_evictable ?n (pc_dirty c) = freed"
    using n by (auto simp: is_evictable_def freed_def)
  have one: "(pins - 1 = 0) = (pins = 1)" by auto
  have cont: "content ?n = (k, pg, pins - 1)" using n by (simp add: content_def)
  have e: "?e = (if k \<in> pc_dirty c \<or> (pins = 0) = (pins - 1 = 0) then pc_evictable c
      else if pins - 1 = 0 then pc_evictable c + 1 else pc_evictable c - 1)"
    using pins one by (auto simp: freed_def)
  have c1: "cache_ok ?c L" "entry ?c = (entry c)(k := Some (i, pg, pins - 1))" "cache_len ?c = cache_len c"
    by (rule replace_ok [OF ok i n(1) _ _ _ cont e refl]; simp)+
  have f: "pc_dirty ?c = pc_dirty c" "pc_capacity ?c = pc_capacity c" "pc_debug ?c = pc_debug c"
    by (simp_all add: set_slot_def)
  obtain c' where c': "(if freed \<and> pc_capacity c < cache_len c then trim_to (pc_capacity c) ?c else (Ok (), ?c)) = (Ok (), c')"
      "cache_inv c'" "shrunk ?c c'" "within_budget c'"
  proof (cases "freed \<and> pc_capacity c < cache_len c")
    case True
    then show thesis
      using that trim_to_ok [OF cache_okD(6) [OF c1(1)], of "pc_capacity c"] f by (auto simp: within_budget_def shrunk_def)
  next
    case False
    then have "within_budget ?c" using budget c1(3) f by (auto simp: within_budget_def)
    then show thesis using that False cache_okD(6) [OF c1(1)] by auto
  qed
  have "unpin_at i k c = c'"
  proof -
    have "(case keyed_node (pc_slab c) i k ''unpin_at'' of
       Err e \<Rightarrow> (Err e, c)
     | Ok n \<Rightarrow>
         if cn_pins n = 0 then (Err (cache_fault ''unpin_at'' RELEASE_WITHOUT_PIN (Some i)), c)
         else
           (let n = n\<lparr>cn_pins := cn_pins n - 1\<rparr>; c = set_slot i n c in
            mbind (if is_evictable n (pc_dirty c)
                   then (let c = c\<lparr>pc_evictable := pc_evictable c + 1\<rparr> in
                         if pc_capacity c < cache_len c then trim_to (pc_capacity c) c else (Ok (), c))
                   else (Ok (), c)) (\<lambda>_ c.
            (check_within_budget c ''unpin_at'', c)))) = (Ok (), c')"
      using c'(1) check_budget_ok [OF c'(4)] n pins ev
      by (auto simp: Let_def set_slot_def cache_len_def split: if_splits)
    then show ?thesis unfolding unpin_at_def by (simp add: guarded_Ok [OF inv])
  qed
  then show "cache_inv (unpin_at i k c)" "within_budget (unpin_at i k c)"
    "trimmed ((entry c)(k := Some (i, pg, pins - 1))) (pc_dirty c) (unpin_at i k c)"
    "pc_dirty (unpin_at i k c) = pc_dirty c" "pc_capacity (unpin_at i k c) = pc_capacity c"
    "pc_debug (unpin_at i k c) = pc_debug c"
    using c'(2-4) c1(2) f by (simp_all add: shrunk_trimmed)
qed

section \<open>Insertion\<close>

lemma add_ok:
  assumes ok: "cache_ok c L" and k: "entry c k = None" and i: "pay c i = None"
    and c': "chain c' (L @ [i])" "pay c' = (pay c)(i := Some (k, pg, pins))" "free_ok c'"
      "pc_map c' = AList.update k i (pc_map c)" "pc_dirty c' = pc_dirty c"
      "pc_evictable c' = (if pins = 0 then pc_evictable c + 1 else pc_evictable c)"
      "pc_capacity c' = pc_capacity c" "pc_fault c' = pc_fault c"
  shows "cache_ok c' (L @ [i])" "entry c' = (entry c)(k := Some (i, pg, pins))" "cache_len c' = cache_len c + 1"
proof -
  note d = cache_okD [OF ok]
  have m: "map_of (pc_map c) k = None" using entry_map [OF d(6), of k] k by simp
  have core': "core (pay c') (pc_map c') (pc_dirty c') (set (L @ [i])) (pc_evictable c')"
    using core_add [OF d(2) i m, of pg pins] c' by simp
  then show ok': "cache_ok c' (L @ [i])" using c' d by (simp add: cache_ok_def)
  show "entry c' = (entry c)(k := Some (i, pg, pins))"
    using entry_core [OF d(6) cache_okD(6) [OF ok'] c'(2), of k] i k by auto
  have "map_of (pc_map c) = (map_of (pc_map c'))(k := None)" using c'(4) m by (auto simp: AList.update_conv')
  then have "cache_len c = cache_len c' - 1" "0 < cache_len c'"
    using core_len [OF core' d(2), of k] c'(4) by (auto simp: cache_len_def AList.update_conv' neq_Nil_conv)
  then show "cache_len c' = cache_len c + 1" by simp
qed

lemma shrunk_None: "shrunk c c' \<Longrightarrow> entry c k = None \<Longrightarrow> entry c' k = None"
  unfolding shrunk_def by metis

lemma insert_new_ok:
  assumes inv: "cache_inv c" and k: "entry c k = None"
  shows "\<exists>idx c' c1. insert_new k pg pins operation c = (Ok idx, c') \<and> cache_inv c' \<and> shrunk c c1 \<and>
    entry c' = (entry c1)(k := Some (idx, pg, pins)) \<and> pc_dirty c' = pc_dirty c \<and>
    pc_capacity c' = pc_capacity c \<and> pc_debug c' = pc_debug c \<and>
    (cache_len c' \<le> pc_capacity c \<or> pc_evictable c' = (if pins = 0 then 1 else 0))"
proof -
  have cap: "1 \<le> pc_capacity c" using inv by (auto simp: cache_inv_def cache_ok_def)
  obtain c1 where c1: "(if pc_capacity c \<le> cache_len c then trim_to (pc_capacity c - 1) c else (Ok (), c)) = (Ok (), c1)"
      "cache_inv c1" "shrunk c c1" "cache_len c1 < pc_capacity c \<or> pc_evictable c1 = 0"
  proof (cases "pc_capacity c \<le> cache_len c")
    case True
    then show thesis using that trim_to_ok [OF inv, of "pc_capacity c - 1"] cap by force
  qed (use that inv in auto)
  obtain L where ok: "cache_ok c1 L" using c1(2) by (auto simp: cache_inv_def)
  note d = cache_okD [OF ok]
  let ?n = "\<lparr>cn_key = k, cn_page = pg, cn_pins = pins, cn_visited = False, cn_linked = False, cn_prev = None, cn_next = None\<rparr>"
  obtain idx c2 where c2: "alloc_node ?n operation c1 = (Ok idx, c2)" "pay c1 idx = None" "idx \<notin> set L" "chain c2 L"
      "look (pc_slab c2) idx = Some ?n" "pay c2 = (pay c1)(idx := Some (content ?n))" "free_ok c2"
      "same_index (c1\<lparr>pc_slab := [], pc_free := []\<rparr>) (c2\<lparr>pc_slab := [], pc_free := []\<rparr>)"
    using alloc_node_effect [OF d(1,3), of ?n operation] by auto
  obtain c3 where c3: "link_as_head idx operation c2 = (Ok (), c3)" "chain c3 (L @ [idx])" "pay c3 = pay c2" "same_index c2 c3"
    using link_as_head_effect [OF c2(4,5,3), of operation] by auto
  have kd: "k \<notin> pc_dirty c" using dirty_resident [OF inv, of k] k by auto
  have s: "pc_dirty c1 = pc_dirty c" "pc_capacity c1 = pc_capacity c" "pc_debug c1 = pc_debug c" "entry c1 k = None"
    using c1(3) shrunk_None [OF c1(3) k] by (simp_all add: shrunk_def)
  let ?c = "c3\<lparr>pc_map := AList.update k idx (pc_map c3), pc_evictable := pc_evictable c3 + (if pins = 0 then 1 else 0)\<rparr>"
  have run: "insert_new k pg pins operation c = (Ok idx, ?c)"
    unfolding insert_new_def c1(1) mbind.simps c2(1) c3(1) Let_def
    using kd s c2(8) c3(4) by (simp add: same_index_def)
  have f: "pc_map c3 = pc_map c1" "pc_dirty c3 = pc_dirty c1" "pc_evictable c3 = pc_evictable c1"
    "pc_capacity c3 = pc_capacity c1" "pc_fault c3 = pc_fault c1" "pc_debug c3 = pc_debug c1" "pc_free c3 = pc_free c2"
    "length (pc_slab c3) = length (pc_slab c2)"
    using c2(8) c3(4) by (simp_all add: same_index_def)
  have "look (pc_slab c3) j = None \<longleftrightarrow> look (pc_slab c2) j = None" for j
    using fun_cong [OF c3(3), of j] by (auto simp: pay_def)
  then have free: "free_ok ?c" using c2(7) f by (simp add: free_ok_def)
  have ch: "chain ?c (L @ [idx])" "pay ?c = (pay c1)(idx := Some (k, pg, pins))"
    using chain_cong [of ?c c3] c3(2,3) c2(6) by (simp_all add: content_def)
  have r: "cache_ok ?c (L @ [idx])" "entry ?c = (entry c1)(k := Some (idx, pg, pins))" "cache_len ?c = cache_len c1 + 1"
    by (rule add_ok [OF ok s(4) c2(2) ch free]; simp add: f)+
  then show ?thesis
    using run c1(3,4) cache_okD(6) [OF r(1)] f s by auto
qed

lemma insert_ok:
  assumes inv: "cache_inv c"
  shows "\<exists>c' c1 idx. cache_insert k pg c = (Ok (), c') \<and> cache_inv c' \<and> shrunk c c1 \<and>
    entry c' = (entry c1)(k := Some (idx, pg, case entry c k of None \<Rightarrow> 0 | Some (_, _, pins) \<Rightarrow> pins)) \<and>
    (\<forall>i q pins. entry c k = Some (i, q, pins) \<longrightarrow> idx = i) \<and>
    pc_dirty c' = pc_dirty c \<and> pc_capacity c' = pc_capacity c \<and> pc_debug c' = pc_debug c \<and>
    (within_budget c \<longrightarrow> within_budget c' \<or> entry c k = None \<and> pc_evictable c' = 1)"
proof (cases "entry c k")
  case None
  obtain idx c' c1 where r: "insert_new k pg 0 ''insert'' c = (Ok idx, c')" "cache_inv c'" "shrunk c c1"
    "entry c' = (entry c1)(k := Some (idx, pg, 0))" "pc_dirty c' = pc_dirty c" "pc_capacity c' = pc_capacity c"
    "pc_debug c' = pc_debug c" "cache_len c' \<le> pc_capacity c \<or> pc_evictable c' = 1"
    using insert_new_ok [OF inv None, of pg 0 "''insert''"] by auto
  have "map_of (pc_map c) k = None" using entry_map [OF inv, of k] None by simp
  then have "cache_insert k pg c = (Ok (), c')"
    unfolding cache_insert_def by (intro guarded_Ok [OF inv]) (simp add: r(1))
  then show ?thesis using r None by (auto simp: within_budget_def)
next
  case (Some x)
  obtain i q pins where x: "x = (i, q, pins)" by (cases x)
  note i = Some [unfolded x]
  obtain n where n: "look (pc_slab c) i = Some n" "cn_key n = k" "cn_page n = q" "cn_pins n = pins"
    "keyed_node (pc_slab c) i k ''insert'' = Ok n" "map_of (pc_map c) k = Some i"
    by (rule entry_node [OF inv i])
  obtain L where ok: "cache_ok c L" using inv by (auto simp: cache_inv_def)
  let ?n = "n\<lparr>cn_page := pg\<rparr>"
  let ?c = "(set_slot i ?n c)\<lparr>pc_evictable := pc_evictable c\<rparr>"
  have cont: "content ?n = (k, pg, pins)" using n by (simp add: content_def)
  have e: "pc_evictable c = (if k \<in> pc_dirty c \<or> (pins = 0) = (pins = 0) then pc_evictable c
      else if pins = 0 then pc_evictable c + 1 else pc_evictable c - 1)" by simp
  have c1: "cache_ok ?c L" "entry ?c = (entry c)(k := Some (i, pg, pins))" "cache_len ?c = cache_len c"
    by (rule replace_ok [OF ok i n(1) _ _ _ cont e refl]; simp)+
  have "cache_insert k pg c = (Ok (), ?c)"
    unfolding cache_insert_def by (intro guarded_Ok [OF inv]) (simp add: n set_slot_def)
  moreover have "pc_dirty ?c = pc_dirty c" "pc_capacity ?c = pc_capacity c" "pc_debug ?c = pc_debug c" "pc_evictable ?c = pc_evictable c"
    by (simp_all add: set_slot_def)
  ultimately show ?thesis
    using i c1(2,3) cache_okD(6) [OF c1(1)] shrunk_refl [of c] by (fastforce simp: within_budget_def)
qed

end
