(* ===== verification/Cache_Dirty.thy ===== *)
theory Cache_Dirty
  imports Cache_Ops
begin

text \<open>
  Dirty tracking, batch settlement and the release of index memory under the cache invariant.
\<close>

section \<open>Marking and clearing\<close>

lemma mark_dirty_ok:
  assumes inv: "cache_inv c" and i: "entry c k = Some (i, pg, pins)"
  shows "\<exists>c'. mark_dirty k c = (Ok (), c') \<and> cache_inv c' \<and> entry c' = entry c \<and> pc_dirty c' = insert k (pc_dirty c) \<and>
    pc_capacity c' = pc_capacity c \<and> pc_debug c' = pc_debug c \<and> cache_len c' = cache_len c \<and>
    pc_evictable c' = (if pins = 0 \<and> k \<notin> pc_dirty c then pc_evictable c - 1 else pc_evictable c)"
proof -
  obtain n where n: "look (pc_slab c) i = Some n" "cn_key n = k" "cn_page n = pg" "cn_pins n = pins"
    "keyed_node (pc_slab c) i k ''mark_dirty'' = Ok n" "map_of (pc_map c) k = Some i"
    by (rule entry_node [OF inv i])
  obtain L where ok: "cache_ok c L" using inv by (auto simp: cache_inv_def)
  note d = cache_okD [OF ok]
  have p: "pay c i = Some (k, pg, pins)" using i entry_pay [OF inv] by blast
  have cand: "i \<in> cands (pay c) (pc_dirty c) \<longleftrightarrow> pins = 0 \<and> k \<notin> pc_dirty c"
    using p by (auto simp: cands_def)
  have pos: "0 < pc_evictable c" if "pins = 0 \<and> k \<notin> pc_dirty c"
    using that cand coreD(5) [OF d(2)] core_finite [OF d(2)] by (auto simp: card_gt_0_iff)
  let ?e = "if pins = 0 \<and> k \<notin> pc_dirty c then pc_evictable c - 1 else pc_evictable c"
  let ?c = "c\<lparr>pc_evictable := ?e, pc_dirty := insert k (pc_dirty c)\<rparr>"
  have ch: "chain ?c L" "pay ?c = pay c" using chain_cong [of ?c c] d(1) by simp_all
  obtain c' where c': "unlink_from_list i ''mark_dirty'' ?c = (Ok (), c')" "chain c' (remove1 i L)" "pay c' = pay ?c" "same_index ?c c'"
    using unlink_from_list_effect [OF ch(1), of i n "''mark_dirty''"] n by auto
  have "(if is_evictable n (pc_dirty c) then one_less ''mark_dirty'' c else (Ok (), c)) = (Ok (), c\<lparr>pc_evictable := ?e\<rparr>)"
    using n pos by (auto simp: is_evictable_def one_less_def)
  then have run: "mark_dirty k c = (Ok (), c')"
    unfolding mark_dirty_def by (intro guarded_Ok [OF inv]) (simp add: n c'(1))
  have f: "pc_map c' = pc_map c" "pc_free c' = pc_free c" "pc_dirty c' = insert k (pc_dirty c)" "pc_evictable c' = ?e"
    "pc_capacity c' = pc_capacity c" "pc_fault c' = pc_fault c" "pc_debug c' = pc_debug c"
    "length (pc_slab c') = length (pc_slab c)"
    using c'(4) by (simp_all add: same_index_def)
  have "look (pc_slab c') j = None \<longleftrightarrow> look (pc_slab c) j = None" for j
    using fun_cong [OF c'(3), of j] ch(2) by (auto simp: pay_def)
  then have "free_ok c'" using d(3) f by (simp add: free_ok_def)
  then have "cache_ok c' (remove1 i L)"
    using core_mark [OF d(2) p] c'(2,3) ch(2) d f cand chainD(1) [OF d(1)]
    by (simp add: cache_ok_def set_remove1_eq)
  then have inv': "cache_inv c'" by (rule cache_okD(6))
  have "entry c' = entry c"
    using c'(3) ch(2) f(1) by (intro entry_cong) simp_all
  then show ?thesis using run inv' f by (simp add: cache_len_def)
qed

lemma relink_ok:
  assumes inv: "cache_inv c" and i: "entry c k = Some (i, pg, pins)" and k: "k \<in> pc_dirty c"
  obtains c1 where "link_as_head i operation c = (Ok (), c1)"
    "cache_inv (c1\<lparr>pc_dirty := pc_dirty c1 - {k}, pc_evictable := if pins = 0 then pc_evictable c + 1 else pc_evictable c\<rparr>)"
    "pay c1 = pay c" "same_index c c1"
proof -
  obtain n where n: "look (pc_slab c) i = Some n" by (rule entry_node [OF inv i])
  obtain L where ok: "cache_ok c L" using inv by (auto simp: cache_inv_def)
  note d = cache_okD [OF ok]
  have p: "pay c i = Some (k, pg, pins)" using i entry_pay [OF inv] by blast
  have out: "i \<notin> set L" using coreD(4) [OF d(2), of i] p k by auto
  obtain c1 where c1: "link_as_head i operation c = (Ok (), c1)" "chain c1 (L @ [i])" "pay c1 = pay c" "same_index c c1"
    using link_as_head_effect [OF d(1) n out, of operation] by auto
  let ?c = "c1\<lparr>pc_dirty := pc_dirty c1 - {k}, pc_evictable := if pins = 0 then pc_evictable c + 1 else pc_evictable c\<rparr>"
  have ch: "chain ?c (L @ [i])" "pay ?c = pay c" using chain_cong [of ?c c1] c1(2,3) by simp_all
  have "look (pc_slab c1) j = None \<longleftrightarrow> look (pc_slab c) j = None" for j
    using fun_cong [OF c1(3), of j] by (auto simp: pay_def)
  then have "free_ok ?c" using d(3) c1(4) by (simp add: free_ok_def same_index_def)
  then have "cache_ok ?c (L @ [i])"
    using core_clear [OF d(2) p k] ch d c1(4) by (simp add: cache_ok_def same_index_def)
  then show thesis using that c1 cache_okD(6) by blast
qed

lemma clear_dirty_ok:
  assumes inv: "cache_inv c"
  shows "\<exists>c'. clear_dirty k c = (Ok (), c') \<and> cache_inv c' \<and> entry c' = entry c \<and> pc_dirty c' = pc_dirty c - {k} \<and>
    pc_capacity c' = pc_capacity c \<and> pc_debug c' = pc_debug c"
proof (cases "k \<in> pc_dirty c")
  case False
  then have "clear_dirty k c = (Ok (), c)" by (simp add: clear_dirty_def guarded_Ok [OF inv])
  then show ?thesis using inv False by simp
next
  case True
  obtain i pg pins where i: "entry c k = Some (i, pg, pins)" using dirty_resident [OF inv True] by blast
  obtain n where n: "cn_pins n = pins" "keyed_node (pc_slab c) i k ''clear_dirty'' = Ok n" "map_of (pc_map c) k = Some i"
    by (rule entry_node [OF inv i])
  obtain c1 where c1: "link_as_head i ''clear_dirty'' c = (Ok (), c1)"
    "cache_inv (c1\<lparr>pc_dirty := pc_dirty c1 - {k}, pc_evictable := if pins = 0 then pc_evictable c + 1 else pc_evictable c\<rparr>)"
    "pay c1 = pay c" "same_index c c1"
    by (rule relink_ok [where operation = "''clear_dirty''", OF inv i True])
  let ?c = "c1\<lparr>pc_dirty := pc_dirty c1 - {k}, pc_evictable := if pins = 0 then pc_evictable c + 1 else pc_evictable c\<rparr>"
  have "clear_dirty k c = (Ok (), ?c)"
    unfolding clear_dirty_def using True c1(4)
    by (intro guarded_Ok [OF inv]) (simp add: n c1(1) Let_def same_index_def)
  moreover have "entry ?c = entry c"
    using c1(3,4) chain_cong(2) [of ?c c1] by (intro entry_cong) (simp_all add: same_index_def)
  ultimately show ?thesis using c1(2) c1(4) by (auto simp: same_index_def)
qed

section \<open>Removing entries\<close>

lemma remove_unpinned_ok:
  assumes inv: "cache_inv c" and i: "entry c k = Some (i, pg, 0)"
  shows "\<exists>c'. remove_unpinned_entry k i operation c = (Ok (), c') \<and> cache_inv (c'\<lparr>pc_dirty := pc_dirty c' - {k}\<rparr>) \<and>
    entry (c'\<lparr>pc_dirty := pc_dirty c' - {k}\<rparr>) = (entry c)(k := None) \<and> pc_dirty c' = pc_dirty c \<and>
    pc_capacity c' = pc_capacity c \<and> pc_debug c' = pc_debug c \<and> pc_evictable c' \<le> pc_evictable c \<and>
    cache_len c' = cache_len c - 1"
proof -
  obtain n where n: "look (pc_slab c) i = Some n" "cn_key n = k" "cn_page n = pg" "cn_pins n = 0"
    "keyed_node (pc_slab c) i k operation = Ok n" "map_of (pc_map c) k = Some i"
    by (rule entry_node [OF inv i])
  obtain L where ok: "cache_ok c L" using inv by (auto simp: cache_inv_def)
  note d = cache_okD [OF ok]
  let ?c0 = "c\<lparr>pc_map := AList.delete k (pc_map c)\<rparr>"
  have ch0: "chain ?c0 L" "pay ?c0 = pay c" using chain_cong [of ?c0 c] d(1) by simp_all
  obtain c1 where c1: "unlink_from_list i operation ?c0 = (Ok (), c1)" "chain c1 (remove1 i L)" "pay c1 = pay ?c0" "same_index ?c0 c1"
    using unlink_from_list_effect [OF ch0(1), of i n operation] n by auto
  have p: "pay c i = Some (k, pg, 0)" using i entry_pay [OF inv] by blast
  obtain m where m: "look (pc_slab c1) i = Some m" using fun_cong [OF c1(3), of i] ch0(2) p by (auto simp: pay_def)
  have out: "i \<notin> set (remove1 i L)" using chainD(1) [OF d(1)] by simp
  obtain c2 where c2: "free_node i operation c1 = (Ok (), c2)" "chain c2 (remove1 i L)" "pay c2 = (pay c1)(i := None)"
      "pc_free c2 = pc_free c1 @ [i]" "same_index c1 (c2\<lparr>pc_free := pc_free c1\<rparr>)"
    using free_node_effect [OF c1(2) m out, of operation] by auto
  have f: "pc_map c2 = AList.delete k (pc_map c)" "pc_dirty c2 = pc_dirty c" "pc_evictable c2 = pc_evictable c"
    "pc_capacity c2 = pc_capacity c" "pc_fault c2 = pc_fault c" "pc_debug c2 = pc_debug c"
    "length (pc_slab c2) = length (pc_slab c)" "pc_free c2 = pc_free c @ [i]" "pay c2 = (pay c)(i := None)"
    using c1(3,4) c2(3,4,5) ch0(2) by (simp_all add: same_index_def)
  have pos: "0 < pc_evictable c" if "k \<notin> pc_dirty c"
  proof -
    have "i \<in> cands (pay c) (pc_dirty c)" using p that by (auto simp: cands_def)
    then show ?thesis using coreD(5) [OF d(2)] core_finite [OF d(2)] by (auto simp: card_gt_0_iff)
  qed
  let ?c3 = "c2\<lparr>pc_evictable := if k \<notin> pc_dirty c then pc_evictable c - 1 else pc_evictable c\<rparr>"
  have run: "remove_unpinned_entry k i operation c = (Ok (), ?c3)"
    unfolding remove_unpinned_entry_def n(5) result.case Let_def c1(1) mbind.simps c2(1)
    using n(2,4) pos f(3) by (cases "k \<in> pc_dirty c") (simp_all add: is_evictable_def one_less_def)
  let ?c = "?c3\<lparr>pc_dirty := pc_dirty ?c3 - {k}\<rparr>"
  have ch: "chain ?c (remove1 i L)" "pay ?c = (pay c)(i := None)"
    using chain_cong [of ?c c2] c2(2) f(9) by simp_all
  have r: "cache_ok ?c (remove1 i L)" "entry ?c = (entry c)(k := None)" "cache_len ?c = cache_len c - 1"
    by (rule remove_ok [OF ok i ch]; simp add: f)+
  show ?thesis
  proof (intro exI conjI)
    show "remove_unpinned_entry k i operation c = (Ok (), ?c3)" by (rule run)
    show "cache_inv (?c3\<lparr>pc_dirty := pc_dirty ?c3 - {k}\<rparr>)" by (rule cache_okD(6) [OF r(1)])
    show "entry (?c3\<lparr>pc_dirty := pc_dirty ?c3 - {k}\<rparr>) = (entry c)(k := None)" by (rule r(2))
    show "cache_len ?c3 = cache_len c - 1" using r(3) by (simp add: cache_len_def)
  qed (simp_all add: f)
qed

section \<open>Releasing index memory\<close>

text \<open>
  Compaction moves unpinned nodes to lower slots: pages, pins and the slots of pinned entries stay.
  While it runs, the free list is out of date.
\<close>

definition moved :: "page_cache \<Rightarrow> page_cache \<Rightarrow> bool" where
  "moved c c' \<longleftrightarrow>
     pc_dirty c' = pc_dirty c \<and> pc_capacity c' = pc_capacity c \<and> pc_debug c' = pc_debug c \<and>
     pc_evictable c' = pc_evictable c \<and> cache_len c' = cache_len c \<and>
     (\<forall>k. entry c' k = entry c k \<or>
        (\<exists>i j pg. entry c k = Some (i, pg, 0) \<and> entry c' k = Some (j, pg, 0)))"

lemma moved_refl [simp]: "moved c c"
  by (simp add: moved_def)

lemma moved_trans:
  assumes "moved a b" "moved b c"
  shows "moved a c"
proof -
  have "entry c k = entry a k \<or> (\<exists>i j pg. entry a k = Some (i, pg, 0) \<and> entry c k = Some (j, pg, 0))" for k
  proof -
    have "entry b k = entry a k \<or> (\<exists>i j pg. entry a k = Some (i, pg, 0) \<and> entry b k = Some (j, pg, 0))"
      "entry c k = entry b k \<or> (\<exists>i j pg. entry b k = Some (i, pg, 0) \<and> entry c k = Some (j, pg, 0))"
      using assms by (simp_all add: moved_def)
    then show ?thesis by (elim disjE exE conjE) simp_all
  qed
  then show ?thesis using assms by (simp add: moved_def)
qed

definition compacting :: "page_cache \<Rightarrow> nat list \<Rightarrow> bool" where
  "compacting c L \<longleftrightarrow>
     chain c L \<and> core (pay c) (pc_map c) (pc_dirty c) (set L) (pc_evictable c) \<and>
     1 \<le> pc_capacity c \<and> pc_fault c = None"

lemma move_ok:
  assumes cp: "compacting c L" and n: "look (pc_slab c) from = Some n" "cn_pins n = 0"
    and to: "to < length (pc_slab c)" "look (pc_slab c) to = None"
  shows "\<exists>c'. move_node from to operation c = (Ok (), c') \<and> compacting c' (renamed from to L) \<and> moved c c' \<and>
    length (pc_slab c') = length (pc_slab c)"
proof -
  have ch: "chain c L" and core: "core (pay c) (pc_map c) (pc_dirty c) (set L) (pc_evictable c)"
    using cp by (simp_all add: compacting_def)
  let ?k = "cn_key n" and ?pg = "cn_page n"
  have p: "pay c from = Some (?k, ?pg, 0)" "pay c to = None" using n to by (simp_all add: pay_def content_def)
  have m: "map_of (pc_map c) ?k = Some from" using coreD(2) [OF core] p by blast
  obtain c' where c': "move_node from to operation c = (Ok (), c')" "chain c' (renamed from to L)"
      "pay c' = (pay c)(from := None, to := Some (?k, ?pg, 0))" "pc_map c' = AList.update ?k to (pc_map c)"
      "same_index c (c'\<lparr>pc_map := pc_map c\<rparr>)"
    using move_node_effect [OF ch n(1) to m, of operation] n(2) by (auto simp: content_def)
  have f: "pc_dirty c' = pc_dirty c" "pc_capacity c' = pc_capacity c" "pc_debug c' = pc_debug c"
    "pc_evictable c' = pc_evictable c" "pc_fault c' = pc_fault c" "length (pc_slab c') = length (pc_slab c)"
    using c'(5) by (simp_all add: same_index_def)
  have core': "core (pay c') (pc_map c') (pc_dirty c') (set (renamed from to L)) (pc_evictable c')"
    using core_move [OF core p] c'(3,4) f by (simp add: set_renamed)
  have e: "entry c k = Some (j, q, pn) \<longleftrightarrow> pay c j = Some (k, q, pn)"
    "entry c' k = Some (j, q, pn) \<longleftrightarrow> pay c' j = Some (k, q, pn)" for k j q pn
    using entry_pay_core [OF core] entry_pay_core [OF core'] by blast+
  have "entry c' k = entry c k" if "k \<noteq> ?k" for k
  proof (rule option_ext3)
    fix j q pn
    show "entry c' k = Some (j, q, pn) \<longleftrightarrow> entry c k = Some (j, q, pn)"
      using that p by (cases "j = from"; cases "j = to") (simp_all add: e c'(3))
  qed
  moreover have "entry c ?k = Some (from, ?pg, 0)" "entry c' ?k = Some (to, ?pg, 0)"
    using p by (simp_all add: e c'(3))
  moreover have "cache_len c' = cache_len c"
  proof -
    have "dom (map_of (pc_map c')) = dom (map_of (pc_map c))" using c'(4) m by (auto simp: AList.update_conv')
    then show ?thesis
      using card_dom_map_of [OF coreD(1) [OF core]] card_dom_map_of [OF coreD(1) [OF core']] by (simp add: cache_len_def)
  qed
  ultimately have "moved c c'" unfolding moved_def using f by (metis (no_types))
  then show ?thesis using c'(1,2) core' cp f by (auto simp: compacting_def)
qed

lemma next_free_props:
  "low \<le> high \<Longrightarrow> high \<le> length slab \<Longrightarrow>
     next_free slab low high \<le> high \<and> (next_free slab low high < high \<longrightarrow> slab ! next_free slab low high = None)"
  by (induction slab low high rule: next_free.induct) (subst (1 2 3) next_free.simps, auto)

lemma compact_loop_ok:
  assumes "compacting c L" "\<And>h. h \<in> set hs \<Longrightarrow> h < length (pc_slab c)"
  shows "\<exists>c' L'. compact_loop hs low operation c = (Ok (), c') \<and> compacting c' L' \<and> moved c c' \<and>
    length (pc_slab c') = length (pc_slab c)"
  using assms
proof (induction hs arbitrary: c L low)
  case Nil
  then show ?case by auto
next
  case (Cons high hs)
  have lt: "high < length (pc_slab c)" using Cons.prems(2) by simp
  show ?case
  proof (cases "look (pc_slab c) high")
    case None
    then have "compact_loop (high # hs) low operation c = compact_loop hs low operation c"
      using lt by (simp add: look_def)
    then show ?thesis using Cons.IH [OF Cons.prems(1), of low] Cons.prems(2) by simp
  next
    case (Some n)
    then have slot: "pc_slab c ! high = Some n" using lt by (simp add: look_def)
    let ?low = "next_free (pc_slab c) low high"
    show ?thesis
    proof (cases "cn_pins n = 0 \<and> ?low < high")
      case True
      then have "low < high" by (subst (asm) next_free.simps) (auto split: if_splits)
      then have to: "look (pc_slab c) ?low = None" "?low < length (pc_slab c)"
        using next_free_props [of low high "pc_slab c"] lt True by (auto simp: look_def)
      obtain c1 where c1: "move_node high ?low operation c = (Ok (), c1)" "compacting c1 (renamed high ?low L)"
          "moved c c1" "length (pc_slab c1) = length (pc_slab c)"
        using move_ok [OF Cons.prems(1) Some _ to(2,1), of operation] True by auto
      obtain c' L' where "compact_loop hs ?low operation c1 = (Ok (), c')" "compacting c' L'" "moved c1 c'"
          "length (pc_slab c') = length (pc_slab c1)"
        using Cons.IH [OF c1(2), of ?low] Cons.prems(2) c1(4) by auto
      moreover have "compact_loop (high # hs) low operation c = compact_loop hs ?low operation c1"
        using lt slot True c1(1) by simp
      ultimately show ?thesis using moved_trans [OF c1(3)] c1(4) by auto
    next
      case False
      then have "compact_loop (high # hs) low operation c = (Ok (), c)"
        using lt slot by (auto simp: word_gt_0)
      then show ?thesis using Cons.prems(1) by auto
    qed
  qed
qed

lemma live_prefix_look: "live_prefix slab \<le> i \<Longrightarrow> look slab i = None"
proof -
  assume i: "live_prefix slab \<le> i"
  let ?dead = "takeWhile (\<lambda>slot. slot = None) (rev slab)" and ?live = "dropWhile (\<lambda>slot. slot = None) (rev slab)"
  have split: "slab = rev ?live @ rev ?dead"
    by (metis rev_append rev_rev_ident takeWhile_dropWhile_id)
  show "look slab i = None"
  proof (cases "i < length slab")
    case True
    then have lt: "i - length ?live < length ?dead"
      using i arg_cong [OF split, of length] by (simp add: live_prefix_def)
    have "slab ! i = rev ?dead ! (i - length ?live)"
      using i by (subst split) (simp add: live_prefix_def nth_append)
    moreover have "rev ?dead ! (i - length ?live) \<in> set ?dead" using lt by (metis length_rev nth_mem set_rev)
    ultimately show ?thesis using True by (auto simp: look_def dest: set_takeWhileD)
  qed (simp add: look_def)
qed

lemma live_prefix_le: "live_prefix slab \<le> length slab"
  using length_dropWhile_le [of "\<lambda>slot. slot = None" "rev slab"] by (simp add: live_prefix_def)

text \<open>Every live slot is in the map and every other slot is free, so the two counts add up.\<close>

lemma live_count:
  assumes "core (pay c) (pc_map c) D S e"
  shows "card {i. i < length (pc_slab c) \<and> look (pc_slab c) i = None} + cache_len c = length (pc_slab c)"
proof -
  let ?live = "{i. i < length (pc_slab c) \<and> look (pc_slab c) i \<noteq> None}"
  let ?dead = "{i. i < length (pc_slab c) \<and> look (pc_slab c) i = None}"
  have "core (pay c) (pc_map c) {} ?live (card (cands (pay c) {}))"
  proof (rule coreI [OF coreD(1,2) [OF assms]])
    show "i \<in> ?live \<longleftrightarrow> (\<exists>k pg pins. pay c i = Some (k, pg, pins) \<and> k \<notin> {})" for i
      using look_lt [of "pc_slab c" i] by (auto simp: pay_def content_def)
  qed simp_all
  then have "card ?live = cache_len c" using core_card by (fastforce simp: cache_len_def)
  moreover have "?live \<union> ?dead = {..<length (pc_slab c)}" "?live \<inter> ?dead = {}" by auto
  then have "card ?live + card ?dead = length (pc_slab c)"
    using card_Un_disjoint [of ?live ?dead] by simp
  ultimately show ?thesis by simp
qed

lemma reclaim_ok:
  assumes inv: "cache_inv c"
  shows "\<exists>c'. reclaim_index_memory map_capacity c = (Ok (), c') \<and> cache_inv c' \<and> moved c c'"
proof (cases "map_capacity \<le> pc_capacity c * 2 \<and> length (pc_slab c) \<le> pc_capacity c * 2")
  case True
  then show ?thesis using inv by (simp add: reclaim_index_memory_def)
next
  case False
  obtain L where ok: "cache_ok c L" using inv by (auto simp: cache_inv_def)
  then have cp: "compacting c L" by (simp add: cache_ok_def compacting_def)
  obtain c1 L1 where c1: "compact_loop (rev [0..<length (pc_slab c)]) 0 ''reclaim_index_memory'' c = (Ok (), c1)"
      "compacting c1 L1" "moved c c1"
    using compact_loop_ok [OF cp, of "rev [0..<length (pc_slab c)]" 0 "''reclaim_index_memory''"] by auto
  have ch: "chain c1 L1" and core: "core (pay c1) (pc_map c1) (pc_dirty c1) (set L1) (pc_evictable c1)"
    using c1(2) by (simp_all add: compacting_def)
  let ?slab = "take (live_prefix (pc_slab c1)) (pc_slab c1)"
  let ?free = "rev (filter (\<lambda>idx. ?slab ! idx = None) [0..<length ?slab])"
  let ?c = "c1\<lparr>pc_slab := ?slab, pc_free := ?free\<rparr>"
  have look: "look ?slab i = look (pc_slab c1) i" for i
    using live_prefix_look [of "pc_slab c1" i] by (auto simp: look_take)
  have pay: "pay ?c = pay c1" by (simp add: pay_def fun_eq_iff look)
  have chain: "chain ?c L1" using ch by (simp add: chain_def look)
  have dead: "set ?free = {i. i < length ?slab \<and> look ?slab i = None}" by (auto simp: look_def)
  have free: "free_ok ?c" using dead by (auto simp: free_ok_def)
  have "length ?free = card (set ?free)" by (rule distinct_card [symmetric]) simp
  then have count: "length ?free + cache_len ?c = length ?slab"
    using live_count [of ?c "pc_dirty c1" "set L1" "pc_evictable c1"] core pay dead
    by (simp add: cache_len_def)
  have "reclaim_index_memory map_capacity c = (Ok (), ?c)"
    unfolding reclaim_index_memory_def if_not_P [OF False] compact_high_slots_def
    using c1(1) count by (simp add: Let_def cache_len_def)
  moreover have "cache_ok ?c L1"
    using chain pay core free c1(2) by (simp add: cache_ok_def compacting_def)
  moreover have "moved c ?c"
    using c1(3) entry_cong [of ?c c1] pay by (simp add: moved_def cache_len_def)
  ultimately show ?thesis using cache_okD(6) by blast
qed

text \<open>What a settled batch leaves of the entries \<open>E\<close>.\<close>

definition settled ::
  "(cache_key \<Rightarrow> (nat \<times> cached_page \<times> u32) option) \<Rightarrow> cache_key set \<Rightarrow> page_cache \<Rightarrow> bool"
where
  "settled E D c' \<longleftrightarrow>
     (\<forall>k. entry c' k = E k \<or> k \<notin> D \<and> entry c' k = None \<and> (\<exists>i pg. E k = Some (i, pg, 0)) \<or>
        (\<exists>i j pg. E k = Some (i, pg, 0) \<and> entry c' k = Some (j, pg, 0)))"

lemma settle_ok:
  assumes inv: "cache_inv c"
  shows "\<exists>c'. settle_batch map_capacity operation c = (Ok (), c') \<and> cache_inv c' \<and>
    settled (entry c) (pc_dirty c) c' \<and> within_budget c' \<and> pc_dirty c' = pc_dirty c \<and>
    pc_capacity c' = pc_capacity c \<and> pc_debug c' = pc_debug c"
proof -
  obtain c1 where c1: "trim_to (pc_capacity c) c = (Ok (), c1)" "cache_inv c1" "shrunk c c1"
      "cache_len c1 \<le> pc_capacity c \<or> pc_evictable c1 = 0"
    using trim_to_ok [OF inv, of "pc_capacity c"] by auto
  obtain c' where c': "reclaim_index_memory map_capacity c1 = (Ok (), c')" "cache_inv c'" "moved c1 c'"
    using reclaim_ok [OF c1(2)] by auto
  have f: "pc_dirty c' = pc_dirty c" "pc_capacity c' = pc_capacity c" "pc_debug c' = pc_debug c"
    using c1(3) c'(3) by (simp_all add: shrunk_def moved_def)
  have budget: "within_budget c'" using c1(4) c'(3) f by (auto simp: within_budget_def moved_def)
  have "entry c' k = entry c k \<or> k \<notin> pc_dirty c \<and> entry c' k = None \<and> (\<exists>i pg. entry c k = Some (i, pg, 0)) \<or>
      (\<exists>i j pg. entry c k = Some (i, pg, 0) \<and> entry c' k = Some (j, pg, 0))" for k
  proof -
    have "entry c1 k = entry c k \<or> entry c1 k = None \<and> k \<notin> pc_dirty c \<and> (\<exists>i pg. entry c k = Some (i, pg, 0))"
      "entry c' k = entry c1 k \<or> (\<exists>i j pg. entry c1 k = Some (i, pg, 0) \<and> entry c' k = Some (j, pg, 0))"
      using c1(3) c'(3) by (simp_all add: shrunk_def moved_def)
    then show ?thesis by (elim disjE exE conjE) simp_all
  qed
  then have "settled (entry c) (pc_dirty c) c'" by (simp add: settled_def)
  then show ?thesis
    using c1(1) c'(1,2) f budget by (simp add: settle_batch_def check_budget_ok)
qed

end
