(* ===== verification/Cache_Run.thy ===== *)
theory Cache_Run
  imports Cache_Dirty
begin

text \<open>
  The page cache as its clients use it: the batch operations, and arbitrary runs of operations by
  clients that release the pins they took.  No run ever latches a fault, the budget holds whenever
  the lock is released, and a guard always finds its own entry.
\<close>

section \<open>Flushed pages\<close>

definition flushed :: "page_cache \<Rightarrow> file_key \<Rightarrow> (u64 \<times> cached_page) list \<Rightarrow> cache_key set" where
  "flushed c fk gathered =
     {k. \<exists>pid snapshot i pg pins. k = (fk, pid) \<and> (pid, snapshot) \<in> set gathered \<and>
       entry c k = Some (i, pg, pins) \<and> ptr_eq pg snapshot}"

lemma finish_loop_ok:
  assumes "cache_inv c"
  shows "\<exists>c'. finish_loop fk gathered c = (Ok (), c') \<and> cache_inv c' \<and> entry c' = entry c \<and>
    pc_dirty c' = pc_dirty c - flushed c fk gathered \<and> pc_capacity c' = pc_capacity c \<and> pc_debug c' = pc_debug c"
  using assms
proof (induction gathered arbitrary: c)
  case Nil
  then show ?case by (simp add: flushed_def)
next
  case (Cons g gathered)
  obtain pid snapshot where g: "g = (pid, snapshot)" by (cases g)
  let ?k = "(fk, pid)" and ?cur = "map_option (\<lambda>(_, pg, _). pg) (entry c (fk, pid))"
  obtain c1 where c1: "cache_get ?k c = (Ok ?cur, c1)" "cache_inv c1" "same_view c c1"
    using get_ok [OF Cons.prems] by blast
  let ?hit = "\<exists>i pg pins. entry c ?k = Some (i, pg, pins) \<and> ptr_eq pg snapshot"
  obtain c2 where c2: "(case ?cur of
         Some pg \<Rightarrow> if ptr_eq pg snapshot then clear_dirty (fk, pid) c1 else (Ok (), c1)
       | None \<Rightarrow> (Ok (), c1)) = (Ok (), c2)" "cache_inv c2" "entry c2 = entry c"
      "pc_dirty c2 = (if ?hit then pc_dirty c - {?k} else pc_dirty c)"
      "pc_capacity c2 = pc_capacity c" "pc_debug c2 = pc_debug c"
  proof (cases ?hit)
    case True
    then show thesis
      using that clear_dirty_ok [OF c1(2), of ?k] c1(3) by (auto simp: same_view_def)
  next
    case False
    then show thesis
      using that [of c1] c1(2,3) by (cases "entry c ?k") (auto simp: same_view_def)
  qed
  obtain c' where c': "finish_loop fk gathered c2 = (Ok (), c')" "cache_inv c'" "entry c' = entry c2"
      "pc_dirty c' = pc_dirty c2 - flushed c2 fk gathered" "pc_capacity c' = pc_capacity c2" "pc_debug c' = pc_debug c2"
    using Cons.IH [OF c2(2)] by blast
  have "flushed c fk (g # gathered) = (if ?hit then insert ?k (flushed c fk gathered) else flushed c fk gathered)"
    using g by (auto simp: flushed_def)
  moreover have "flushed c2 fk gathered = flushed c fk gathered" using c2(3) by (simp add: flushed_def)
  ultimately have "pc_dirty c' = pc_dirty c - flushed c fk (g # gathered)" using c'(4) c2(4) by auto
  moreover have "finish_loop fk (g # gathered) c = (Ok (), c')"
    unfolding g finish_loop.simps c1(1) mbind.simps c2(1) by (rule c'(1))
  ultimately show ?case using c' c2 by simp
qed

lemma finish_flush_ok:
  assumes inv: "cache_inv c"
  shows "\<exists>c'. finish_flush map_capacity fk gathered c = (Ok (), c') \<and> cache_inv c' \<and>
    pc_dirty c' = pc_dirty c - flushed c fk gathered \<and> settled (entry c) (pc_dirty c') c' \<and> within_budget c' \<and>
    pc_capacity c' = pc_capacity c \<and> pc_debug c' = pc_debug c"
proof -
  obtain c1 where c1: "finish_loop fk gathered c = (Ok (), c1)" "cache_inv c1" "entry c1 = entry c"
      "pc_dirty c1 = pc_dirty c - flushed c fk gathered" "pc_capacity c1 = pc_capacity c" "pc_debug c1 = pc_debug c"
    using finish_loop_ok [OF inv] by blast
  obtain c' where c': "settle_batch map_capacity ''finish_flush'' c1 = (Ok (), c')" "cache_inv c'"
      "settled (entry c1) (pc_dirty c1) c'" "within_budget c'" "pc_dirty c' = pc_dirty c1"
      "pc_capacity c' = pc_capacity c1" "pc_debug c' = pc_debug c1"
    using settle_ok [OF c1(2)] by blast
  have "finish_flush map_capacity fk gathered c = (Ok (), c')"
    using c1(1) guarded_Ok [of c1 "settle_batch map_capacity ''finish_flush''", OF c1(2) c'(1)] by (simp add: finish_flush_def)
  then show ?thesis using c' c1 by simp
qed

section \<open>Discarding and clearing\<close>

definition unpinned :: "(nat \<times> cached_page \<times> u32) option \<Rightarrow> bool" where
  "unpinned e \<longleftrightarrow> (\<forall>i pg pins. e = Some (i, pg, pins) \<longrightarrow> pins = 0)"

lemma discard_entry_ok:
  assumes inv: "cache_inv c" and k: "k \<in> pc_dirty c"
  shows "\<exists>c'. discard_dirty_entry k c = (Ok (), c') \<and> cache_inv c' \<and>
    entry c' = (if unpinned (entry c k) then (entry c)(k := None) else entry c) \<and> pc_dirty c' = pc_dirty c - {k} \<and>
    pc_capacity c' = pc_capacity c \<and> pc_debug c' = pc_debug c"
proof -
  obtain i pg pins where i: "entry c k = Some (i, pg, pins)" using dirty_resident [OF inv k] by blast
  obtain n where n: "cn_pins n = pins" "keyed_node (pc_slab c) i k ''discard_dirty'' = Ok n" "map_of (pc_map c) k = Some i"
    by (rule entry_node [OF inv i])
  show ?thesis
  proof (cases "pins = 0")
    case True
    obtain c1 where c1: "remove_unpinned_entry k i ''discard_dirty'' c = (Ok (), c1)"
        "cache_inv (c1\<lparr>pc_dirty := pc_dirty c1 - {k}\<rparr>)" "entry (c1\<lparr>pc_dirty := pc_dirty c1 - {k}\<rparr>) = (entry c)(k := None)"
        "pc_dirty c1 = pc_dirty c" "pc_capacity c1 = pc_capacity c" "pc_debug c1 = pc_debug c"
      using remove_unpinned_ok [OF inv, of k i pg "''discard_dirty''"] i True by auto
    have "discard_dirty_entry k c = (Ok (), c1\<lparr>pc_dirty := pc_dirty c1 - {k}\<rparr>)"
      unfolding discard_dirty_entry_def using True n c1(1) by (intro guarded_Ok [OF inv]) simp
    then show ?thesis using c1 i True by (simp add: unpinned_def)
  next
    case False
    obtain c1 where c1: "link_as_head i ''discard_dirty'' c = (Ok (), c1)"
        "cache_inv (c1\<lparr>pc_dirty := pc_dirty c1 - {k}, pc_evictable := if pins = 0 then pc_evictable c + 1 else pc_evictable c\<rparr>)"
        "pay c1 = pay c" "same_index c c1"
      by (rule relink_ok [where operation = "''discard_dirty''", OF inv i k])
    let ?c = "c1\<lparr>pc_dirty := pc_dirty c1 - {k}\<rparr>"
    have "?c = c1\<lparr>pc_dirty := pc_dirty c1 - {k}, pc_evictable := if pins = 0 then pc_evictable c + 1 else pc_evictable c\<rparr>"
      using c1(4) False by (simp add: same_index_def)
    then have "cache_inv ?c" using c1(2) by simp
    moreover have "entry ?c = entry c"
      using c1(3,4) chain_cong(2) [of ?c c1] by (intro entry_cong) (simp_all add: same_index_def)
    moreover have "discard_dirty_entry k c = (Ok (), ?c)"
      unfolding discard_dirty_entry_def using False n c1(1) by (intro guarded_Ok [OF inv]) (simp add: word_gt_0)
    ultimately show ?thesis using c1(4) i False by (simp add: unpinned_def same_index_def)
  qed
qed

lemma discard_loop_ok:
  assumes "cache_inv c" "distinct pids" "\<And>p. p \<in> set pids \<Longrightarrow> (fk, p) \<in> pc_dirty c"
  shows "\<exists>c'. discard_loop fk pids c = (Ok (), c') \<and> cache_inv c' \<and>
    entry c' = (\<lambda>k. if k \<in> Pair fk ` set pids \<and> unpinned (entry c k) then None else entry c k) \<and>
    pc_dirty c' = pc_dirty c - Pair fk ` set pids \<and> pc_capacity c' = pc_capacity c \<and> pc_debug c' = pc_debug c"
  using assms
proof (induction pids arbitrary: c)
  case (Cons p pids)
  obtain c1 where c1: "discard_dirty_entry (fk, p) c = (Ok (), c1)" "cache_inv c1"
      "entry c1 = (if unpinned (entry c (fk, p)) then (entry c)((fk, p) := None) else entry c)"
      "pc_dirty c1 = pc_dirty c - {(fk, p)}" "pc_capacity c1 = pc_capacity c" "pc_debug c1 = pc_debug c"
    using discard_entry_ok [OF Cons.prems(1), of "(fk, p)"] Cons.prems(3) by auto
  obtain c' where c': "discard_loop fk pids c1 = (Ok (), c')" "cache_inv c'"
      "entry c' = (\<lambda>k. if k \<in> Pair fk ` set pids \<and> unpinned (entry c1 k) then None else entry c1 k)"
      "pc_dirty c' = pc_dirty c1 - Pair fk ` set pids" "pc_capacity c' = pc_capacity c1" "pc_debug c' = pc_debug c1"
    using Cons.IH [OF c1(2)] Cons.prems(2,3) c1(4) by auto
  have "entry c' = (\<lambda>k. if k \<in> Pair fk ` set (p # pids) \<and> unpinned (entry c k) then None else entry c k)"
    unfolding c'(3) c1(3) using Cons.prems(2) by (auto simp: fun_eq_iff unpinned_def)
  then show ?case using c1 c' by auto
qed simp

lemma dirty_for_file_set:
  assumes "cache_inv c"
  shows "set (dirty_for_file c fk) = {p. (fk, p) \<in> pc_dirty c}" "distinct (dirty_for_file c fk)"
    "sorted (dirty_for_file c fk)"
proof -
  obtain L where "cache_ok c L" using assms by (auto simp: cache_inv_def)
  then have "pc_dirty c \<subseteq> dom (map_of (pc_map c))" using coreD(3) [OF cache_okD(2)] by blast
  then have fin: "finite (pc_dirty c)" by (rule finite_subset) (rule finite_dom_map_of)
  let ?ks = "filter (\<lambda>k. fst k = fk) (sorted_list_of_set (pc_dirty c))"
  show "set (dirty_for_file c fk) = {p. (fk, p) \<in> pc_dirty c}"
    using fin by (force simp: dirty_for_file_def)
  have ks: "distinct ?ks" "sorted ?ks" using sorted_filter [of id "sorted_list_of_set (pc_dirty c)"] fin by simp_all
  have "inj_on snd (set ?ks)" by (auto simp: inj_on_def prod_eq_iff)
  then show "distinct (dirty_for_file c fk)" using ks(1) by (simp add: dirty_for_file_def distinct_map)
  have srt: "sorted (map snd xs)" if "sorted xs" "\<And>k. k \<in> set xs \<Longrightarrow> fst k = fk" for xs :: "cache_key list"
    using that
  proof (induction xs)
    case (Cons x xs)
    have "snd x \<le> snd y" if "y \<in> set xs" for y
    proof -
      have "x \<le> y" "fst x = fst y" using Cons.prems that by auto
      then show ?thesis by (cases x; cases y) auto
    qed
    then show ?case using Cons by auto
  qed simp
  show "sorted (dirty_for_file c fk)" unfolding dirty_for_file_def by (rule srt [OF ks(2)]) simp
qed

lemma discard_dirty_ok:
  assumes inv: "cache_inv c"
    and c'_def: "c' = discard_dirty map_capacity fk c"
  shows "cache_inv c'" "within_budget c'" "pc_dirty c' = {k \<in> pc_dirty c. fst k \<noteq> fk}"
    "settled (\<lambda>k. if k \<in> pc_dirty c \<and> fst k = fk \<and> unpinned (entry c k) then None else entry c k) (pc_dirty c') c'"
    "pc_capacity c' = pc_capacity c" "pc_debug c' = pc_debug c"
proof -
  note s = dirty_for_file_set [OF inv, of fk]
  have keys: "Pair fk ` set (dirty_for_file c fk) = {k \<in> pc_dirty c. fst k = fk}" using s(1) by force
  have rest: "pc_dirty c - {k \<in> pc_dirty c. fst k = fk} = {k \<in> pc_dirty c. fst k \<noteq> fk}" by blast
  obtain c1 where c1: "discard_loop fk (dirty_for_file c fk) c = (Ok (), c1)" "cache_inv c1"
      "entry c1 = (\<lambda>k. if k \<in> pc_dirty c \<and> fst k = fk \<and> unpinned (entry c k) then None else entry c k)"
      "pc_dirty c1 = {k \<in> pc_dirty c. fst k \<noteq> fk}" "pc_capacity c1 = pc_capacity c" "pc_debug c1 = pc_debug c"
    using discard_loop_ok [OF inv s(2), of fk] s(1) keys rest by auto
  obtain c2 where c2: "settle_batch map_capacity ''discard_dirty'' c1 = (Ok (), c2)" "cache_inv c2"
      "settled (entry c1) (pc_dirty c1) c2" "within_budget c2" "pc_dirty c2 = pc_dirty c1"
      "pc_capacity c2 = pc_capacity c1" "pc_debug c2 = pc_debug c1"
    using settle_ok [OF c1(2)] by blast
  have "c' = c2"
    using c1(1) guarded_Ok [of c1 "settle_batch map_capacity ''discard_dirty''", OF c1(2) c2(1)] by (simp add: c'_def discard_dirty_def)
  then show "cache_inv c'" "within_budget c'" "pc_dirty c' = {k \<in> pc_dirty c. fst k \<noteq> fk}"
    "settled (\<lambda>k. if k \<in> pc_dirty c \<and> fst k = fk \<and> unpinned (entry c k) then None else entry c k) (pc_dirty c') c'"
    "pc_capacity c' = pc_capacity c" "pc_debug c' = pc_debug c"
    using c1 c2 by simp_all
qed

lemma clear_loop_ok:
  assumes "cache_inv c" "within_budget c" "distinct (map fst es)"
    and "\<And>k i. (k, i) \<in> set es \<Longrightarrow> \<exists>pg pins. entry c k = Some (i, pg, pins)"
  shows "\<exists>c'. clear_loop keep_dirty es c = (Ok (), c') \<and> cache_inv c' \<and> within_budget c' \<and>
    entry c' = (\<lambda>k. if k \<in> fst ` set es \<and> unpinned (entry c k) \<and> \<not> (keep_dirty \<and> k \<in> pc_dirty c) then None else entry c k) \<and>
    pc_dirty c' = pc_dirty c - {k \<in> fst ` set es. unpinned (entry c k) \<and> \<not> keep_dirty} \<and>
    pc_capacity c' = pc_capacity c \<and> pc_debug c' = pc_debug c"
  using assms
proof (induction es arbitrary: c)
  case (Cons x es)
  obtain k i where x: "x = (k, i)" by (cases x)
  obtain pg pins where i: "entry c k = Some (i, pg, pins)" using Cons.prems(4) x by fastforce
  obtain n where n: "cn_pins n = pins" "keyed_node (pc_slab c) i k ''clear_file'' = Ok n"
    by (rule entry_node [OF Cons.prems(1) i])
  have unp: "unpinned (entry c k) \<longleftrightarrow> pins = 0" using i by (simp add: unpinned_def)
  have out: "k \<notin> fst ` set es" using Cons.prems(3) x by auto
  have dist: "distinct (map fst es)" using Cons.prems(3) by simp
  show ?case
  proof (cases "pins = 0 \<and> \<not> (keep_dirty \<and> k \<in> pc_dirty c)")
    case False
    then have run: "clear_loop keep_dirty (x # es) c = clear_loop keep_dirty es c"
      using x n by (auto simp: word_gt_0)
    obtain c' where c': "clear_loop keep_dirty es c = (Ok (), c')" "cache_inv c'" "within_budget c'"
      "entry c' = (\<lambda>k. if k \<in> fst ` set es \<and> unpinned (entry c k) \<and> \<not> (keep_dirty \<and> k \<in> pc_dirty c) then None else entry c k)"
      "pc_dirty c' = pc_dirty c - {k \<in> fst ` set es. unpinned (entry c k) \<and> \<not> keep_dirty}"
      "pc_capacity c' = pc_capacity c" "pc_debug c' = pc_debug c"
      using Cons.IH [OF Cons.prems(1,2) dist] Cons.prems(4) by (metis (no_types, lifting) list.set_intros(2))
    have "entry c' = (\<lambda>k. if k \<in> fst ` set (x # es) \<and> unpinned (entry c k) \<and> \<not> (keep_dirty \<and> k \<in> pc_dirty c) then None else entry c k)"
      unfolding c'(4) using False x unp out by (auto simp: fun_eq_iff)
    moreover have "pc_dirty c' = pc_dirty c - {k \<in> fst ` set (x # es). unpinned (entry c k) \<and> \<not> keep_dirty}"
      unfolding c'(5) using False x unp by auto
    ultimately show ?thesis using run c' by simp
  next
    case True
    obtain c1 where c1: "remove_unpinned_entry k i ''clear_file'' c = (Ok (), c1)"
        "cache_inv (c1\<lparr>pc_dirty := pc_dirty c1 - {k}\<rparr>)" "entry (c1\<lparr>pc_dirty := pc_dirty c1 - {k}\<rparr>) = (entry c)(k := None)"
        "pc_dirty c1 = pc_dirty c" "pc_capacity c1 = pc_capacity c" "pc_debug c1 = pc_debug c"
        "pc_evictable c1 \<le> pc_evictable c" "cache_len c1 = cache_len c - 1"
      using remove_unpinned_ok [OF Cons.prems(1), of k i pg "''clear_file''"] i True by auto
    let ?c = "c1\<lparr>pc_dirty := pc_dirty c1 - {k}\<rparr>"
    have same: "(if keep_dirty then c1 else ?c) = ?c" using True c1(4) by auto
    have "clear_loop keep_dirty (x # es) c = clear_loop keep_dirty es (if keep_dirty then c1 else ?c)"
      using x n True c1(1) by auto
    then have run: "clear_loop keep_dirty (x # es) c = clear_loop keep_dirty es ?c" unfolding same .
    have budget: "within_budget ?c" using Cons.prems(2) c1(5,7,8) by (auto simp: within_budget_def cache_len_def)
    have live: "\<exists>pg pins. entry ?c k' = Some (j, pg, pins)" if "(k', j) \<in> set es" for k' j
      using Cons.prems(4) [of k' j] that out unfolding c1(3) by (force simp: image_iff)
    obtain c' where c': "clear_loop keep_dirty es ?c = (Ok (), c')" "cache_inv c'" "within_budget c'"
      "entry c' = (\<lambda>k. if k \<in> fst ` set es \<and> unpinned (entry ?c k) \<and> \<not> (keep_dirty \<and> k \<in> pc_dirty ?c) then None else entry ?c k)"
      "pc_dirty c' = pc_dirty ?c - {k \<in> fst ` set es. unpinned (entry ?c k) \<and> \<not> keep_dirty}"
      "pc_capacity c' = pc_capacity ?c" "pc_debug c' = pc_debug ?c"
      using Cons.IH [OF c1(2) budget dist live] by blast
    have "entry c' = (\<lambda>k. if k \<in> fst ` set (x # es) \<and> unpinned (entry c k) \<and> \<not> (keep_dirty \<and> k \<in> pc_dirty c) then None else entry c k)"
      unfolding c'(4) c1(3) using True x unp out c1(4) by (auto simp: fun_eq_iff)
    moreover have "pc_dirty c' = pc_dirty c - {k \<in> fst ` set (x # es). unpinned (entry c k) \<and> \<not> keep_dirty}"
      unfolding c'(5) c1(3) using True x unp out c1(4) by (auto simp: unpinned_def)
    ultimately show ?thesis using run c' c1 by simp
  qed
qed simp

lemma clear_file_entries_ok:
  assumes inv: "cache_inv c" and budget: "within_budget c"
  shows "\<exists>c'. clear_file_entries fk keep_dirty c = (Ok (), c') \<and> cache_inv c' \<and> within_budget c' \<and>
    entry c' = (\<lambda>k. if fst k = fk \<and> unpinned (entry c k) \<and> \<not> (keep_dirty \<and> k \<in> pc_dirty c) then None else entry c k) \<and>
    pc_dirty c' = pc_dirty c - {k. fst k = fk \<and> unpinned (entry c k) \<and> \<not> keep_dirty} \<and>
    pc_capacity c' = pc_capacity c \<and> pc_debug c' = pc_debug c"
proof -
  let ?es = "filter (\<lambda>(k, _). fst k = fk) (pc_map c)"
  obtain L where ok: "cache_ok c L" using inv by (auto simp: cache_inv_def)
  note core = cache_okD(2) [OF ok]
  have live: "\<exists>pg pins. entry c k = Some (i, pg, pins)" if "(k, i) \<in> set ?es" for k i
    using map_slots(2) [OF core, of k i] that entry_pay [OF inv] by auto
  have dist: "distinct (map fst ?es)"
    using coreD(1) [OF core] by (rule distinct_map_filter)
  have dom: "k \<in> fst ` set ?es \<longleftrightarrow> fst k = fk \<and> entry c k \<noteq> None" for k
  proof -
    have "k \<in> fst ` set (pc_map c) \<longleftrightarrow> entry c k \<noteq> None"
      using entry_map [OF inv, of k] map_of_eq_None_iff [of "pc_map c" k] by (cases "entry c k") auto
    then show ?thesis by (force simp: image_iff)
  qed
  obtain c' where c': "clear_loop keep_dirty ?es c = (Ok (), c')" "cache_inv c'" "within_budget c'"
    "entry c' = (\<lambda>k. if k \<in> fst ` set ?es \<and> unpinned (entry c k) \<and> \<not> (keep_dirty \<and> k \<in> pc_dirty c) then None else entry c k)"
    "pc_dirty c' = pc_dirty c - {k \<in> fst ` set ?es. unpinned (entry c k) \<and> \<not> keep_dirty}"
    "pc_capacity c' = pc_capacity c" "pc_debug c' = pc_debug c"
    using clear_loop_ok [OF inv budget dist live, of keep_dirty] by blast
  have run: "clear_file_entries fk keep_dirty c = (Ok (), c')"
    unfolding clear_file_entries_def using c'(1) by (intro guarded_Ok [OF inv]) simp
  have "entry c' = (\<lambda>k. if fst k = fk \<and> unpinned (entry c k) \<and> \<not> (keep_dirty \<and> k \<in> pc_dirty c) then None else entry c k)"
    unfolding c'(4) dom by (auto simp: fun_eq_iff)
  moreover have "pc_dirty c' = pc_dirty c - {k. fst k = fk \<and> unpinned (entry c k) \<and> \<not> keep_dirty}"
    unfolding c'(5) dom using dirty_resident [OF inv] by force
  ultimately show ?thesis using run c' by blast
qed

section \<open>Runs\<close>

text \<open>The pinned entries, as the holders of guards see them: slot and number of pins.\<close>

definition pin_view :: "(cache_key \<Rightarrow> (nat \<times> cached_page \<times> u32) option) \<Rightarrow> cache_key \<Rightarrow> (nat \<times> u32) option" where
  "pin_view E k = (case E k of None \<Rightarrow> None | Some (i, pg, pins) \<Rightarrow> if pins = 0 then None else Some (i, pins))"

lemma pin_view_eq:
  assumes "E' k = E k \<or> unpinned (E k) \<and> unpinned (E' k)"
  shows "pin_view E' k = pin_view E k"
  using assms by (auto simp: pin_view_def unpinned_def split: option.splits)

lemma pin_view_upd: "pin_view (E(k := Some (i, pg, pins))) = (pin_view E)(k := if pins = 0 then None else Some (i, pins))"
  by (auto simp: pin_view_def)

lemma pin_view_trimmed: "trimmed E D c' \<Longrightarrow> pin_view (entry c') = pin_view E"
  by (rule ext, rule pin_view_eq) (force simp: trimmed_def unpinned_def)

lemma pin_view_shrunk: "shrunk c c' \<Longrightarrow> pin_view (entry c') = pin_view (entry c)"
  unfolding shrunk_trimmed using pin_view_trimmed by blast

lemma pin_view_settled:
  assumes "settled E D c'"
  shows "pin_view (entry c') = pin_view E"
proof (rule ext, rule pin_view_eq)
  fix k
  have "entry c' k = E k \<or> k \<notin> D \<and> entry c' k = None \<and> (\<exists>i pg. E k = Some (i, pg, 0)) \<or>
      (\<exists>i j pg. E k = Some (i, pg, 0) \<and> entry c' k = Some (j, pg, 0))"
    using assms by (simp add: settled_def)
  then show "entry c' k = E k \<or> unpinned (E k) \<and> unpinned (entry c' k)"
    by (elim disjE exE conjE) (simp_all add: unpinned_def)
qed

lemma pin_view_drop:
  "pin_view (\<lambda>k. if Q k \<and> unpinned (E k) \<and> R k then None else E k) = pin_view E"
  "pin_view (\<lambda>k. if Q k \<and> R k \<and> unpinned (E k) then None else E k) = pin_view E"
  by (rule ext, rule pin_view_eq, auto simp: unpinned_def)+

text \<open>The guards that are alive account for the pins, entry by entry.\<close>

fun guard_at :: "(nat \<times> u32) option \<Rightarrow> (nat \<times> cache_key) list \<Rightarrow> cache_key \<Rightarrow> bool" where
  "guard_at None gs k \<longleftrightarrow> (\<forall>i. (i, k) \<notin> set gs)"
| "guard_at (Some (i, pins)) gs k \<longleftrightarrow> count_list gs (i, k) = unat pins \<and> (\<forall>j. (j, k) \<in> set gs \<longrightarrow> j = i)"

definition guards_ok :: "page_cache \<Rightarrow> (nat \<times> cache_key) list \<Rightarrow> bool" where
  "guards_ok c gs \<longleftrightarrow> (\<forall>k. guard_at (pin_view (entry c) k) gs k)"

lemma guards_cong: "pin_view (entry c') = pin_view (entry c) \<Longrightarrow> guards_ok c' gs = guards_ok c gs"
  by (simp add: guards_ok_def)

lemma guard_at_other:
  "k' \<noteq> k \<Longrightarrow> guard_at v ((i, k) # gs) k' = guard_at v gs k'"
  by (cases "(v, gs, k')" rule: guard_at.cases) auto

lemma count_remove1:
  "count_list (remove1 x gs) y = (if y = x then count_list gs y - 1 else count_list gs y)"
  by (induction gs) auto

lemma guard_at_remove:
  "k' \<noteq> k \<Longrightarrow> guard_at v (remove1 (i, k) gs) k' = guard_at v gs k'"
  by (cases "(v, gs, k')" rule: guard_at.cases) (auto simp: count_remove1 in_set_remove1)

lemma guard_entry:
  assumes "guards_ok c gs" "(i, k) \<in> set gs"
  obtains pg pins where "entry c k = Some (i, pg, pins)" "pins \<noteq> 0"
proof -
  have "guard_at (pin_view (entry c) k) gs k" using assms(1) by (simp add: guards_ok_def)
  then obtain pins where "pin_view (entry c) k = Some (i, pins)" using assms(2) by (cases "pin_view (entry c) k") auto
  then show thesis using that by (auto simp: pin_view_def split: option.splits if_splits)
qed

lemma guards_count:
  assumes "guards_ok c gs" "entry c k = Some (i, pg, pins)"
  shows "count_list gs (i, k) = unat pins" "(j, k) \<in> set gs \<Longrightarrow> j = i"
proof -
  have "guard_at (if pins = 0 then None else Some (i, pins)) gs k"
    using assms spec [of _ k] by (auto simp: guards_ok_def pin_view_def simp del: guard_at.simps dest: spec [of _ k])
  note g = this
  have "count_list gs (i, k) = unat pins \<and> (\<forall>j. (j, k) \<in> set gs \<longrightarrow> j = i)"
  proof (cases "pins = 0")
    case True
    then have "\<forall>j. (j, k) \<notin> set gs" using g by simp
    then show ?thesis using True by (simp add: count_notin)
  next
    case False
    then show ?thesis using g unfolding if_not_P [OF False] guard_at.simps by blast
  qed
  then show "count_list gs (i, k) = unat pins" "(j, k) \<in> set gs \<Longrightarrow> j = i" by blast+
qed

lemma guards_pin:
  assumes g: "guards_ok c gs" and i: "entry c k = Some (i, pg, pins)" and len: "length gs < 2 ^ 32 - 1"
    and c': "entry c' = (entry c)(k := Some (i, pg, saturating_inc_u32 pins))"
  shows "guards_ok c' ((i, k) # gs)"
proof -
  note c = guards_count [OF g i]
  have "unat pins < 2 ^ 32 - 1" using len c(1) count_le_length [of gs "(i, k)"] by linarith
  then have "unat (saturating_inc_u32 pins) = unat pins + 1"
    by (auto simp: saturating_inc_u32_def unat_word_ariths unsigned_minus_1_eq_mask mask_eq_exp_minus_1)
  then have "guard_at (pin_view (entry c') k) ((i, k) # gs) k"
    using c(1) by (simp add: c' pin_view_upd saturating_inc_nonzero) (blast dest: c(2))
  moreover have "guard_at (pin_view (entry c') k') ((i, k) # gs) k'" if "k' \<noteq> k" for k'
    using g that by (simp add: guards_ok_def c' pin_view_upd guard_at_other)
  ultimately show ?thesis by (metis guards_ok_def)
qed

lemma guards_new:
  assumes g: "guards_ok c gs" and k: "entry c k = None"
    and c': "entry c' = (entry c1)(k := Some (i, pg, 1))" "shrunk c c1"
  shows "guards_ok c' ((i, k) # gs)"
proof -
  have "guard_at (pin_view (entry c) k) gs k" using g by (simp add: guards_ok_def)
  then have "\<forall>i. (i, k) \<notin> set gs" using k by (simp add: pin_view_def)
  then have "guard_at (pin_view (entry c') k) ((i, k) # gs) k"
    by (simp add: c'(1) pin_view_upd count_notin)
  moreover have "guard_at (pin_view (entry c') k') ((i, k) # gs) k'" if "k' \<noteq> k" for k'
    using g that by (simp add: guards_ok_def c'(1) pin_view_upd pin_view_shrunk [OF c'(2)] guard_at_other)
  ultimately show ?thesis by (metis guards_ok_def)
qed

lemma guards_unpin:
  assumes g: "guards_ok c gs" and i: "(i, k) \<in> set gs" "entry c k = Some (i, pg, pins)" "pins \<noteq> 0"
    and c': "trimmed ((entry c)(k := Some (i, pg, pins - 1))) D c'"
  shows "guards_ok c' (remove1 (i, k) gs)"
proof -
  note c = guards_count [OF g i(2)]
  have un: "unat (pins - 1) = unat pins - 1" using i(3) by (simp add: unat_minus_one)
  have sub: "(j, k) \<in> set (remove1 (i, k) gs) \<Longrightarrow> j = i" for j
    using c(2) set_remove1_subset [of "(i, k)" gs] by blast
  have "guard_at (pin_view (entry c') k) (remove1 (i, k) gs) k"
  proof (cases "pins = 1")
    case True
    then have "count_list (remove1 (i, k) gs) (i, k) = 0" using c(1) by (simp add: count_remove1)
    then have "(i, k) \<notin> set (remove1 (i, k) gs)" by (rule count_list_0_iff [THEN iffD1])
    then show ?thesis using True by (simp add: pin_view_trimmed [OF c'] pin_view_upd) (blast dest: sub)
  next
    case False
    then show ?thesis
      using c(1) un by (simp add: pin_view_trimmed [OF c'] pin_view_upd count_remove1) (blast dest: sub)
  qed
  moreover have "guard_at (pin_view (entry c') k') (remove1 (i, k) gs) k'" if "k' \<noteq> k" for k'
    using g that by (simp add: guards_ok_def pin_view_trimmed [OF c'] pin_view_upd guard_at_remove)
  ultimately show ?thesis by (metis guards_ok_def)
qed

text \<open>
  A run of the cache: the public operations in any order, with any pages, files and hash-map
  allocations.  A client holds the guards it was given and gives each back once; a page is written
  by \<open>insert\<close> and \<open>mark_dirty\<close> under one lock; a page is re-marked dirty only under a guard.  Fewer
  than $2^{32} - 1$ guards are alive at any time.
\<close>

inductive cache_run :: "bool \<Rightarrow> nat \<Rightarrow> page_cache \<Rightarrow> (nat \<times> cache_key) list \<Rightarrow> bool" for debug capacity where
  run_new: "cache_run debug capacity (with_capacity debug capacity) []"
| run_get: "cache_run debug capacity c gs \<Longrightarrow> cache_get k c = (r, c') \<Longrightarrow> cache_run debug capacity c' gs"
| run_get_dirty: "cache_run debug capacity c gs \<Longrightarrow> get_dirty k c = (r, c') \<Longrightarrow> cache_run debug capacity c' gs"
| run_pin: "cache_run debug capacity c gs \<Longrightarrow> length gs < 2 ^ 32 - 1 \<Longrightarrow> get_and_pin k c = (r, c') \<Longrightarrow>
    cache_run debug capacity c' (case r of Ok (Some (pg, i)) \<Rightarrow> (i, k) # gs | _ \<Rightarrow> gs)"
| run_insert_pin: "cache_run debug capacity c gs \<Longrightarrow> length gs < 2 ^ 32 - 1 \<Longrightarrow> insert_and_pin k pg c = (r, c') \<Longrightarrow>
    cache_run debug capacity c' (case r of Ok (pg', i) \<Rightarrow> (i, k) # gs | _ \<Rightarrow> gs)"
| run_unpin: "cache_run debug capacity c gs \<Longrightarrow> (i, k) \<in> set gs \<Longrightarrow>
    cache_run debug capacity (unpin_at i k c) (remove1 (i, k) gs)"
| run_write: "cache_run debug capacity c gs \<Longrightarrow> cache_insert k pg c = (Ok (), c1) \<Longrightarrow> mark_dirty k c1 = (r, c') \<Longrightarrow>
    cache_run debug capacity c' gs"
| run_mark: "cache_run debug capacity c gs \<Longrightarrow> (i, k) \<in> set gs \<Longrightarrow> mark_dirty k c = (r, c') \<Longrightarrow>
    cache_run debug capacity c' gs"
| run_flush: "cache_run debug capacity c gs \<Longrightarrow> finish_flush map_capacity fk gathered c = (r, c') \<Longrightarrow>
    cache_run debug capacity c' gs"
| run_discard: "cache_run debug capacity c gs \<Longrightarrow> cache_run debug capacity (discard_dirty map_capacity fk c) gs"
| run_clear: "cache_run debug capacity c gs \<Longrightarrow> clear_file fk c = (r, c') \<Longrightarrow> cache_run debug capacity c' gs"
| run_clear_clean: "cache_run debug capacity c gs \<Longrightarrow> clear_clean_file fk c = (r, c') \<Longrightarrow> cache_run debug capacity c' gs"

definition run_ok :: "bool \<Rightarrow> nat \<Rightarrow> page_cache \<Rightarrow> (nat \<times> cache_key) list \<Rightarrow> bool" where
  "run_ok debug capacity c gs \<longleftrightarrow>
     cache_inv c \<and> within_budget c \<and> guards_ok c gs \<and> pc_capacity c = max capacity 1 \<and> pc_debug c = debug"

lemma run_okI:
  assumes "run_ok debug capacity c gs" "cache_inv c'" "within_budget c'" "pin_view (entry c') = pin_view (entry c)"
    "pc_capacity c' = pc_capacity c" "pc_debug c' = pc_debug c"
  shows "run_ok debug capacity c' gs"
  using assms guards_cong [OF assms(4)] by (simp add: run_ok_def)

lemma new_ok: "run_ok debug capacity (with_capacity debug capacity) []"
proof -
  let ?c = "with_capacity debug capacity"
  have "cache_ok ?c []"
    using core_empty by (simp add: cache_ok_def with_capacity_def chain_def free_ok_def look_def pay_def [abs_def])
  moreover have "entry ?c = (\<lambda>_. None)" by (simp add: entry_def with_capacity_def fun_eq_iff)
  ultimately show ?thesis
    using cache_okD(6) by (auto simp: run_ok_def within_budget_def with_capacity_def cache_len_def guards_ok_def pin_view_def)
qed

lemma get_dirty_ok:
  assumes inv: "cache_inv c"
  shows "\<exists>c'. get_dirty k c = (Ok (map_option (\<lambda>(_, pg, _). pg) (entry c k)), c') \<and> cache_inv c' \<and> same_view c c'"
proof -
  obtain c' where c': "cache_get k c = (Ok (map_option (\<lambda>(_, pg, _). pg) (entry c k)), c')" "cache_inv c'" "same_view c c'"
    using get_ok [OF inv] by blast
  have "\<not> (map_option (\<lambda>(_, pg, _). pg) (entry c k) = None \<and> k \<in> pc_dirty c')"
    using dirty_resident [OF inv, of k] c'(3) by (auto simp: same_view_def)
  then show ?thesis using c' by (cases "entry c k") (auto simp: get_dirty_def)
qed

lemma write_ok:
  assumes inv: "cache_inv c" and budget: "within_budget c"
  shows "\<exists>c1 c' c2 idx. cache_insert k pg c = (Ok (), c1) \<and> mark_dirty k c1 = (Ok (), c') \<and> cache_inv c' \<and> within_budget c' \<and>
    shrunk c c2 \<and> entry c' = (entry c2)(k := Some (idx, pg, case entry c k of None \<Rightarrow> 0 | Some (_, _, pins) \<Rightarrow> pins)) \<and>
    (\<forall>i q pins. entry c k = Some (i, q, pins) \<longrightarrow> idx = i) \<and>
    pc_dirty c' = insert k (pc_dirty c) \<and> pc_capacity c' = pc_capacity c \<and> pc_debug c' = pc_debug c"
proof -
  let ?pins = "case entry c k of None \<Rightarrow> 0 | Some (_, _, pins) \<Rightarrow> pins"
  obtain c1 c2 idx where c1: "cache_insert k pg c = (Ok (), c1)" "cache_inv c1" "shrunk c c2"
      "entry c1 = (entry c2)(k := Some (idx, pg, ?pins))"
      "\<forall>i q pins. entry c k = Some (i, q, pins) \<longrightarrow> idx = i"
      "pc_dirty c1 = pc_dirty c" "pc_capacity c1 = pc_capacity c" "pc_debug c1 = pc_debug c"
      "within_budget c1 \<or> entry c k = None \<and> pc_evictable c1 = 1"
    using insert_ok [OF inv, of k pg] budget by blast
  have here: "entry c1 k = Some (idx, pg, ?pins)" using c1(4) by simp
  obtain c' where c': "mark_dirty k c1 = (Ok (), c')" "cache_inv c'" "entry c' = entry c1" "pc_dirty c' = insert k (pc_dirty c1)"
      "pc_capacity c' = pc_capacity c1" "pc_debug c' = pc_debug c1" "cache_len c' = cache_len c1"
      "pc_evictable c' = (if ?pins = 0 \<and> k \<notin> pc_dirty c1 then pc_evictable c1 - 1 else pc_evictable c1)"
    using mark_dirty_ok [OF c1(2) here] by blast
  have "k \<notin> pc_dirty c" if "entry c k = None" using dirty_resident [OF inv, of k] that by auto
  then have "within_budget c'"
    using c1(6,9) c'(5,7,8) by (auto simp: within_budget_def)
  then show ?thesis using c1 c' by auto
qed

lemma get_and_pin_ok:
  assumes "cache_inv c"
  shows "\<exists>c'. get_and_pin k c = (Ok (map_option (\<lambda>(i, pg, _). (pg, i)) (entry c k)), c') \<and> cache_inv c' \<and>
    (within_budget c \<longrightarrow> within_budget c') \<and> pc_dirty c' = pc_dirty c \<and>
    pc_capacity c' = pc_capacity c \<and> pc_debug c' = pc_debug c \<and>
    (case entry c k of None \<Rightarrow> entry c' = entry c
     | Some (i, pg, pins) \<Rightarrow> entry c' = (entry c)(k := Some (i, pg, saturating_inc_u32 pins)))"
proof (cases "entry c k")
  case None
  then have "get_and_pin k c = (Ok None, c)"
    using entry_map [OF assms, of k] by (simp add: get_and_pin_def guarded_Ok [OF assms])
  then show ?thesis using assms None by simp
next
  case (Some x)
  obtain i pg pins where x: "x = (i, pg, pins)" by (cases x)
  note i = Some [unfolded x]
  obtain c' where c': "pin_resident i k ''get_and_pin'' c = (Ok (pg, i), c')" "cache_inv c'"
      "entry c' = (entry c)(k := Some (i, pg, saturating_inc_u32 pins))" "pc_dirty c' = pc_dirty c"
      "pc_capacity c' = pc_capacity c" "pc_debug c' = pc_debug c" "pc_evictable c' \<le> pc_evictable c" "cache_len c' = cache_len c"
    using pin_resident_ok [OF assms i] by blast
  have "map_of (pc_map c) k = Some i" using entry_map [OF assms, of k] i by simp
  then have "get_and_pin k c = (Ok (Some (pg, i)), c')"
    unfolding get_and_pin_def using c'(1) by (intro guarded_Ok [OF assms]) simp
  then show ?thesis using c' i by (auto simp: within_budget_def)
qed

lemma insert_and_pin_ok:
  assumes inv: "cache_inv c"
  shows "\<exists>c' idx. insert_and_pin k pg c = (Ok (case entry c k of None \<Rightarrow> pg | Some (_, q, _) \<Rightarrow> q, idx), c') \<and> cache_inv c' \<and>
    (within_budget c \<longrightarrow> within_budget c') \<and> pc_dirty c' = pc_dirty c \<and>
    pc_capacity c' = pc_capacity c \<and> pc_debug c' = pc_debug c \<and>
    (case entry c k of
       None \<Rightarrow> \<exists>c1. shrunk c c1 \<and> entry c' = (entry c1)(k := Some (idx, pg, 1))
     | Some (i, q, pins) \<Rightarrow> idx = i \<and> entry c' = (entry c)(k := Some (i, q, saturating_inc_u32 pins)))"
proof (cases "entry c k")
  case None
  obtain idx c' c1 where r: "insert_new k pg 1 ''insert_and_pin'' c = (Ok idx, c')" "cache_inv c'" "shrunk c c1"
    "entry c' = (entry c1)(k := Some (idx, pg, 1))" "pc_dirty c' = pc_dirty c" "pc_capacity c' = pc_capacity c"
    "pc_debug c' = pc_debug c" "cache_len c' \<le> pc_capacity c \<or> pc_evictable c' = 0"
    using insert_new_ok [OF inv None, of pg 1 "''insert_and_pin''"] by auto
  have "map_of (pc_map c) k = None" using entry_map [OF inv, of k] None by simp
  then have "insert_and_pin k pg c = (Ok (pg, idx), c')"
    unfolding insert_and_pin_def by (intro guarded_Ok [OF inv]) (simp add: r(1))
  then show ?thesis using r None by (auto simp: within_budget_def)
next
  case (Some x)
  obtain i q pins where x: "x = (i, q, pins)" by (cases x)
  note i = Some [unfolded x]
  obtain c' where c': "pin_resident i k ''insert_and_pin'' c = (Ok (q, i), c')" "cache_inv c'"
      "entry c' = (entry c)(k := Some (i, q, saturating_inc_u32 pins))" "pc_dirty c' = pc_dirty c"
      "pc_capacity c' = pc_capacity c" "pc_debug c' = pc_debug c" "pc_evictable c' \<le> pc_evictable c" "cache_len c' = cache_len c"
    using pin_resident_ok [OF inv i] by blast
  have "map_of (pc_map c) k = Some i" using entry_map [OF inv, of k] i by simp
  then have "insert_and_pin k pg c = (Ok (q, i), c')"
    unfolding insert_and_pin_def using c'(1) by (intro guarded_Ok [OF inv]) simp
  then show ?thesis using c' i by (auto simp: within_budget_def)
qed

lemma run_step_pin:
  assumes ok: "run_ok debug capacity c gs" and len: "length gs < 2 ^ 32 - 1" and r: "get_and_pin k c = (r, c')"
  shows "run_ok debug capacity c' (case r of Ok (Some (pg, i)) \<Rightarrow> (i, k) # gs | _ \<Rightarrow> gs)"
proof -
  have inv: "cache_inv c" using ok by (simp add: run_ok_def)
  note p = get_and_pin_ok [OF inv, of k]
  show ?thesis
  proof (cases "entry c k")
    case None
    then have "r = Ok None" "cache_inv c'" "within_budget c'" "entry c' = entry c" "pc_capacity c' = pc_capacity c" "pc_debug c' = pc_debug c"
      using p r ok by (auto simp: run_ok_def)
    then show ?thesis using run_okI [OF ok] by simp
  next
    case (Some x)
    obtain i pg pins where x: "x = (i, pg, pins)" by (cases x)
    note i = Some [unfolded x]
    have c': "r = Ok (Some (pg, i))" "cache_inv c'" "within_budget c'" "pc_capacity c' = pc_capacity c" "pc_debug c' = pc_debug c"
      "entry c' = (entry c)(k := Some (i, pg, saturating_inc_u32 pins))"
      using p r ok i by (auto simp: run_ok_def)
    then show ?thesis using ok guards_pin [OF _ i len c'(6)] by (simp add: run_ok_def)
  qed
qed

lemma run_step_insert_pin:
  assumes ok: "run_ok debug capacity c gs" and len: "length gs < 2 ^ 32 - 1" and r: "insert_and_pin k pg c = (r, c')"
  shows "run_ok debug capacity c' (case r of Ok (pg', i) \<Rightarrow> (i, k) # gs | _ \<Rightarrow> gs)"
proof -
  have inv: "cache_inv c" using ok by (simp add: run_ok_def)
  note p = insert_and_pin_ok [OF inv, of k pg]
  show ?thesis
  proof (cases "entry c k")
    case None
    then obtain idx c1 where c': "r = Ok (pg, idx)" "cache_inv c'" "within_budget c'" "pc_capacity c' = pc_capacity c"
        "pc_debug c' = pc_debug c" "shrunk c c1" "entry c' = (entry c1)(k := Some (idx, pg, 1))"
      using p r ok by (auto simp: run_ok_def)
    then show ?thesis using ok guards_new [OF _ None c'(7,6)] by (simp add: run_ok_def)
  next
    case (Some x)
    obtain i q pins where x: "x = (i, q, pins)" by (cases x)
    note i = Some [unfolded x]
    have c': "r = Ok (q, i)" "cache_inv c'" "within_budget c'" "pc_capacity c' = pc_capacity c" "pc_debug c' = pc_debug c"
      "entry c' = (entry c)(k := Some (i, q, saturating_inc_u32 pins))"
      using p r ok i by (auto simp: run_ok_def)
    then show ?thesis using ok guards_pin [OF _ i len c'(6)] by (simp add: run_ok_def)
  qed
qed

lemma run_step_clear:
  assumes ok: "run_ok debug capacity c gs" and r: "clear_file_entries fk keep_dirty c = (r, c')"
  shows "run_ok debug capacity c' gs"
proof -
  have "cache_inv c'" "within_budget c'" "pc_capacity c' = pc_capacity c" "pc_debug c' = pc_debug c"
    "entry c' = (\<lambda>k. if fst k = fk \<and> unpinned (entry c k) \<and> \<not> (keep_dirty \<and> k \<in> pc_dirty c) then None else entry c k)"
    using clear_file_entries_ok [of c fk keep_dirty] ok r by (auto simp: run_ok_def)
  then show ?thesis using run_okI [OF ok] by (simp add: pin_view_drop(1))
qed

lemma cache_run_ok: "cache_run debug capacity c gs \<Longrightarrow> run_ok debug capacity c gs"
proof (induction rule: cache_run.induct)
  case run_new
  then show ?case by (rule new_ok)
next
  case (run_get c gs k r c')
  then show ?case using get_ok [of c k] run_okI [OF run_get.IH] by (auto simp: run_ok_def same_view_def within_budget_def)
next
  case (run_get_dirty c gs k r c')
  then show ?case using get_dirty_ok [of c k] run_okI [OF run_get_dirty.IH] by (auto simp: run_ok_def same_view_def within_budget_def)
next
  case (run_pin c gs k r c')
  then show ?case by (intro run_step_pin)
next
  case (run_insert_pin c gs k pg r c')
  then show ?case by (intro run_step_insert_pin)
next
  case (run_unpin c gs i k)
  then have ok: "cache_inv c" "within_budget c" "guards_ok c gs" by (simp_all add: run_ok_def)
  obtain pg pins where e: "entry c k = Some (i, pg, pins)" "pins \<noteq> 0" by (rule guard_entry [OF ok(3) run_unpin.hyps(2)])
  note u = unpin_ok [OF ok(1,2) e]
  show ?case
    using run_unpin.IH u guards_unpin [OF ok(3) run_unpin.hyps(2) e u(3)] by (simp add: run_ok_def)
next
  case (run_write c gs k pg c1 r c')
  then have ok: "cache_inv c" "within_budget c" by (simp_all add: run_ok_def)
  let ?pins = "case entry c k of None \<Rightarrow> 0 | Some (_, _, pins) \<Rightarrow> pins"
  obtain c2 idx where w: "cache_inv c'" "within_budget c'" "shrunk c c2" "entry c' = (entry c2)(k := Some (idx, pg, ?pins))"
      "\<forall>i q pins. entry c k = Some (i, q, pins) \<longrightarrow> idx = i" "pc_capacity c' = pc_capacity c" "pc_debug c' = pc_debug c"
    using write_ok [OF ok, of k pg] run_write.hyps by auto
  have "pin_view (entry c') = pin_view (entry c)"
  proof
    fix k'
    show "pin_view (entry c') k' = pin_view (entry c) k'"
      using w(5) by (cases "entry c k") (auto simp: w(4) pin_view_upd pin_view_shrunk [OF w(3)], auto simp: pin_view_def)
  qed
  then show ?case using run_okI [OF run_write.IH w(1,2)] w by simp
next
  case (run_mark c gs i k r c')
  then have ok: "cache_inv c" "within_budget c" "guards_ok c gs" by (simp_all add: run_ok_def)
  obtain pg pins where e: "entry c k = Some (i, pg, pins)" "pins \<noteq> 0" by (rule guard_entry [OF ok(3) run_mark.hyps(2)])
  show ?case
    using mark_dirty_ok [OF ok(1) e(1)] run_mark.hyps run_okI [OF run_mark.IH] ok e(2) by (auto simp: within_budget_def)
next
  case (run_flush c gs map_capacity fk gathered r c')
  then show ?case
    using finish_flush_ok [of c map_capacity fk gathered] run_okI [OF run_flush.IH] pin_view_settled by (fastforce simp: run_ok_def)
next
  case (run_discard c gs map_capacity fk)
  then have inv: "cache_inv c" by (simp add: run_ok_def)
  note d = discard_dirty_ok [OF inv, where map_capacity = map_capacity and fk = fk, OF refl]
  have "pin_view (entry (discard_dirty map_capacity fk c)) = pin_view (entry c)"
    using pin_view_settled [OF d(4)] pin_view_drop(2) [of "\<lambda>k. k \<in> pc_dirty c" "\<lambda>k. fst k = fk" "entry c"] by simp
  then show ?case using run_okI [OF run_discard.IH d(1,2)] d by simp
next
  case (run_clear c gs fk r c')
  show ?case by (rule run_step_clear [OF run_clear.IH run_clear.hyps(2) [unfolded clear_file_def]])
next
  case (run_clear_clean c gs fk r c')
  show ?case by (rule run_step_clear [OF run_clear_clean.IH run_clear_clean.hyps(2) [unfolded clear_clean_file_def]])
qed

section \<open>Properties\<close>

text \<open>
  C31.  The page cache is sound under every client that follows the protocol of the pager: a page
  is marked dirty right after its insertion or while pinned, a guard is released once, and fewer
  than 2^32 - 1 guards are live.  In any such run, in release and in debug builds, no fault is ever
  latched; the pool is within its capacity or holds nothing evictable; every dirty key is resident;
  and every live guard finds the entry it was taken on in its slot, still pinned.
\<close>
theorem cache_run_sound:
  assumes "cache_run debug capacity c gs"
  shows "pc_fault c = None \<and> (cache_len c \<le> max capacity 1 \<or> pc_evictable c = 0) \<and>
    (\<forall>k \<in> pc_dirty c. \<exists>i pg pins. entry c k = Some (i, pg, pins)) \<and>
    (\<forall>i k. (i, k) \<in> set gs \<longrightarrow> (\<exists>pg pins. entry c k = Some (i, pg, pins) \<and> pins \<noteq> 0))"
proof -
  have ok: "cache_inv c" "within_budget c" "guards_ok c gs" "pc_capacity c = max capacity 1"
    using cache_run_ok [OF assms] by (simp_all add: run_ok_def)
  have "pc_fault c = None" using ok(1) by (auto simp: cache_inv_def cache_ok_def)
  moreover have "cache_len c \<le> max capacity 1 \<or> pc_evictable c = 0" using ok(2,4) by (simp add: within_budget_def)
  moreover have "\<exists>pg pins. entry c k = Some (i, pg, pins) \<and> pins \<noteq> 0" if "(i, k) \<in> set gs" for i k
    using guard_entry [OF ok(3) that] by blast
  ultimately show ?thesis using dirty_resident [OF ok(1)] by blast
qed

text \<open>
  C32.  A flush never loses a concurrent write.  When the pages of a flush have reached disk,
  \<open>finish_flush\<close> succeeds and clears exactly the keys whose resident page is still the one that was
  gathered; a page that was replaced in the meantime stays dirty and resident with its new
  content, and the pool is back within its budget.
\<close>
theorem flush_keeps_rewritten_pages:
  assumes "cache_run debug capacity c gs"
  shows "\<exists>c'. finish_flush map_capacity fk gathered c = (Ok (), c') \<and>
    pc_dirty c' = pc_dirty c - flushed c fk gathered \<and>
    (\<forall>k \<in> pc_dirty c'. \<exists>i j pg pins. entry c k = Some (i, pg, pins) \<and> entry c' k = Some (j, pg, pins)) \<and>
    (cache_len c' \<le> max capacity 1 \<or> pc_evictable c' = 0)"
proof -
  have ok: "cache_inv c" "pc_capacity c = max capacity 1"
    using cache_run_ok [OF assms] by (simp_all add: run_ok_def)
  obtain c' where c': "finish_flush map_capacity fk gathered c = (Ok (), c')" "cache_inv c'"
      "pc_dirty c' = pc_dirty c - flushed c fk gathered" "settled (entry c) (pc_dirty c') c'" "within_budget c'"
      "pc_capacity c' = pc_capacity c"
    using finish_flush_ok [OF ok(1)] by blast
  have "\<exists>i j pg pins. entry c k = Some (i, pg, pins) \<and> entry c' k = Some (j, pg, pins)" if k: "k \<in> pc_dirty c'" for k
  proof -
    obtain i pg pins where e: "entry c' k = Some (i, pg, pins)" using dirty_resident [OF c'(2) k] by blast
    have "entry c' k = entry c k \<or> k \<notin> pc_dirty c' \<and> entry c' k = None \<and> (\<exists>i pg. entry c k = Some (i, pg, 0)) \<or>
      (\<exists>i j pg. entry c k = Some (i, pg, 0) \<and> entry c' k = Some (j, pg, 0))"
      using c'(4) by (simp add: settled_def)
    then show ?thesis using e k by (elim disjE exE conjE) simp_all
  qed
  then show ?thesis using c' ok(2) by (auto simp: within_budget_def)
qed

text \<open>
  C33.  The hand always finds a victim within its step bound.  Whenever the count of candidates is
  positive, one eviction succeeds and takes exactly one entry, which was neither dirty nor pinned;
  every other entry keeps its slot, page and pins.
\<close>
theorem eviction_finds_victim:
  assumes "cache_run debug capacity c gs" "0 < pc_evictable c"
  shows "\<exists>c'. evict_one c = (Ok (), c') \<and> cache_len c' = cache_len c - 1 \<and>
    pc_evictable c' = pc_evictable c - 1 \<and> pc_dirty c' = pc_dirty c \<and>
    (\<forall>k. entry c' k = entry c k \<or>
       entry c' k = None \<and> k \<notin> pc_dirty c \<and> (\<exists>i pg. entry c k = Some (i, pg, 0)))"
  using cache_run_ok [OF assms(1)] evict_one_ok [of c] assms(2) by (auto simp: run_ok_def shrunk_def)

definition demo_cached :: "nat \<Rightarrow> cached_page" where
  "demo_cached i = \<lparr>ap_id = i, ap_bytes = [1, 2, 3], ap_kind_byte = 1, ap_realm_id_bytes = Some []\<rparr>"

text \<open>A cache of one page, with a dirty page and a clean pinned one.\<close>

lemma demo_run:
  obtains c i where "cache_run True 1 c [(i, (FkMain, 5))]" "(FkMain, 4) \<in> pc_dirty c"
    "entry c (FkMain, 5) = Some (i, demo_cached 1, 1)"
proof -
  let ?c = "with_capacity True 1"
  have r0: "cache_run True 1 ?c []" by (rule run_new)
  have ok: "cache_inv ?c" "within_budget ?c" using cache_run_ok [OF r0] by (simp_all add: run_ok_def)
  obtain c1 c2 where w: "cache_insert (FkMain, 4) (demo_cached 0) ?c = (Ok (), c1)" "mark_dirty (FkMain, 4) c1 = (Ok (), c2)"
      "cache_inv c2" "pc_dirty c2 = insert (FkMain, 4) (pc_dirty ?c)" "\<exists>x idx y. shrunk ?c x \<and> entry c2 = (entry x)((FkMain, 4) := Some (idx, demo_cached 0, y))"
    using write_ok [OF ok, of "(FkMain, 4)" "demo_cached 0"] by blast
  have none: "entry c2 (FkMain, 5) = None"
  proof -
    have "entry ?c (FkMain, 5) = None" by (simp add: entry_def with_capacity_def)
    then show ?thesis using w(5) shrunk_None by fastforce
  qed
  obtain c3 i where p: "insert_and_pin (FkMain, 5) (demo_cached 1) c2 = (Ok (demo_cached 1, i), c3)"
      "pc_dirty c3 = pc_dirty c2" "\<exists>x. entry c3 = (entry x)((FkMain, 5) := Some (i, demo_cached 1, 1))"
    using insert_and_pin_ok [OF w(3), of "(FkMain, 5)" "demo_cached 1"] none by auto
  have "cache_run True 1 c2 []" by (rule run_write [OF r0 w(1,2)])
  from run_insert_pin [OF this _ p(1)] have "cache_run True 1 c3 [(i, (FkMain, 5))]" by simp
  then show thesis using that p(2,3) w(4) by fastforce
qed

theorem cache_run_sound_witness:
  "\<exists>c i. cache_run True 1 c [(i, (FkMain, 5))] \<and> (FkMain, 4) \<in> pc_dirty c \<and> pc_fault c = None \<and>
    (cache_len c \<le> 1 \<or> pc_evictable c = 0)"
proof -
  obtain c i where c: "cache_run True 1 c [(i, (FkMain, 5))]" "(FkMain, 4) \<in> pc_dirty c" by (rule demo_run)
  show ?thesis using cache_run_sound [OF c(1)] c by auto
qed

theorem flush_keeps_rewritten_pages_witness:
  "\<exists>c c' i. cache_run True 1 c [(i, (FkMain, 5))] \<and>
    finish_flush 8 FkMain [(4, demo_cached 7)] c = (Ok (), c') \<and>
    pc_dirty c' = pc_dirty c - flushed c FkMain [(4, demo_cached 7)]"
proof -
  obtain c i where c: "cache_run True 1 c [(i, (FkMain, 5))]" by (rule demo_run)
  show ?thesis using flush_keeps_rewritten_pages [OF c, of 8 FkMain "[(4, demo_cached 7)]"] c by blast
qed

theorem eviction_finds_victim_witness:
  "\<exists>c c'. cache_run True 1 c [] \<and> 0 < pc_evictable c \<and> evict_one c = (Ok (), c') \<and> cache_len c' = cache_len c - 1"
proof -
  define c1 where "c1 = snd (insert_and_pin (FkMain, 5) (demo_cached 1) (with_capacity True 1))"
  have p: "insert_and_pin (FkMain, 5) (demo_cached 1) (with_capacity True 1) = (Ok (demo_cached 1, 0), c1)"
    unfolding c1_def by code_simp
  have e: "pc_evictable (unpin_at 0 (FkMain, 5) c1) = 1" unfolding c1_def by code_simp
  from run_insert_pin [OF run_new [of True 1] _ p] have "cache_run True 1 c1 [(0, (FkMain, 5))]" by simp
  from run_unpin [OF this, of 0 "(FkMain, 5)"] have "cache_run True 1 (unpin_at 0 (FkMain, 5) c1) []" by simp
  then show ?thesis using eviction_finds_victim [of True 1 "unpin_at 0 (FkMain, 5) c1" "[]"] e by fastforce
qed

end
