(* ===== verification/Freelist.thy ===== *)
theory Freelist
  imports Pager_Store Byte_Cursor
begin

text \<open>
  The durable free-page list (\<open>src/src/pager/freelist/\<close>): a singly linked chain of pages of kind
  \<open>Free\<close>, each with the number of its entries and a summary of everything from itself down.  The
  theory translates the layout of a chain page, the cursor that walks the chain with Floyd's
  cycle detection, the readers built on it, and the rewrite of a prefix of the chain onto a
  retained tail.

  A walk that reports an error is dropped by each of its callers, so the model of \<open>advance\<close>
  returns the new cursor only on success.
\<close>

section \<open>Layout of a chain page\<close>

definition ENTRY_LEN :: nat where "ENTRY_LEN = 16"
definition PAGE_HEADER_LEN :: nat where "PAGE_HEADER_LEN = 36"
definition CHAIN_METADATA_CID :: u64 where "CHAIN_METADATA_CID = 0"

definition SCAN_PAGES :: nat where "SCAN_PAGES = 64"
definition TAIL_COMPACT_PAGES :: nat where "TAIL_COMPACT_PAGES = 4"
definition WINDOW_PAGES :: nat where "WINDOW_PAGES = SCAN_PAGES + TAIL_COMPACT_PAGES"

definition chain_capacity :: "nat \<Rightarrow> nat" where
  "chain_capacity page_size = (body_capacity page_size - PAGE_HEADER_LEN) div ENTRY_LEN"

type_synonym free_entry = "u64 \<times> page_id"

record chain_page_header =
  ch_next :: page_id
  ch_count :: nat
  ch_suffix_entries :: u64
  ch_suffix_max_cid :: u64
  ch_suffix_min_cid :: u64

definition decode_chain_header :: "bytes \<Rightarrow> chain_page_header result" where
  "decode_chain_header body =
     (if length body < PAGE_HEADER_LEN
      then Err (Corruption (CatalogRowInvalid ''freelist chain page shorter than its header''))
      else
        rbind (rd_u64 body) (\<lambda>(nxt, rest).
        rbind (rd_u32 rest) (\<lambda>(cnt, rest).
        let count = unat cnt in
        if count > (length body - PAGE_HEADER_LEN) div ENTRY_LEN
        then Err (Corruption (CatalogRowInvalid ''freelist chain page entry count exceeds capacity''))
        else
          rbind (rd_u64 rest) (\<lambda>(suffix_entries, rest).
          rbind (rd_u64 rest) (\<lambda>(suffix_max_cid, rest).
          rbind (rd_u64 rest) (\<lambda>(suffix_min_cid, _).
          if suffix_entries < of_nat count
          then Err (Corruption (CatalogRowInvalid
                 ''freelist chain page suffix total is below its own entry count''))
          else Ok \<lparr>ch_next = nxt, ch_count = count, ch_suffix_entries = suffix_entries,
                   ch_suffix_max_cid = suffix_max_cid, ch_suffix_min_cid = suffix_min_cid\<rparr>))))))"

definition encode_chain_header :: "bytes \<Rightarrow> chain_page_header \<Rightarrow> bytes result" where
  "encode_chain_header body header =
     rbind (of_option (Io ''free-list chunk_len overflow'') (u32_try_from (ch_count header))) (\<lambda>count.
     rbind (write_at body 0 (u64_to_le_bytes (ch_next header))) (\<lambda>body.
     rbind (write_at body 8 (u32_to_le_bytes count)) (\<lambda>body.
     rbind (write_at body 12 (u64_to_le_bytes (ch_suffix_entries header))) (\<lambda>body.
     rbind (write_at body 20 (u64_to_le_bytes (ch_suffix_max_cid header))) (\<lambda>body.
     write_at body 28 (u64_to_le_bytes (ch_suffix_min_cid header)))))))"

definition decode_free_entry :: "bytes \<Rightarrow> nat \<Rightarrow> free_entry result" where
  "decode_free_entry body i =
     (let offset = PAGE_HEADER_LEN + i * ENTRY_LEN in
      if offset + ENTRY_LEN \<le> length body
      then
        (let slot = take ENTRY_LEN (drop offset body) in
         rbind (slice slot 0 8) (\<lambda>cid.
         rbind (slice slot 8 16) (\<lambda>pid.
         Ok (u64_from_le_bytes cid, u64_from_le_bytes pid))))
      else Err (Corruption (CatalogRowInvalid ''freelist chain page entry runs past the page body'')))"

section \<open>Reading the chain\<close>

record chain_summary =
  cs_entries :: u64
  cs_max_cid :: u64
  cs_min_cid :: u64

definition default_summary :: chain_summary where
  "default_summary = \<lparr>cs_entries = 0, cs_max_cid = 0, cs_min_cid = - 1\<rparr>"

record chain_tail =
  ct_head :: page_id
  ct_summary :: chain_summary

definition EMPTY_TAIL :: chain_tail where
  "EMPTY_TAIL = \<lparr>ct_head = 0, ct_summary = \<lparr>cs_entries = 0, cs_max_cid = 0, cs_min_cid = - 1\<rparr>\<rparr>"

definition summary_of_header :: "chain_page_header \<Rightarrow> chain_summary" where
  "summary_of_header header =
     \<lparr>cs_entries = ch_suffix_entries header, cs_max_cid = ch_suffix_max_cid header,
      cs_min_cid = ch_suffix_min_cid header\<rparr>"

definition read_chain_summary :: "pager \<Rightarrow> realm_id \<Rightarrow> page_id \<Rightarrow> chain_summary result" where
  "read_chain_summary s realm head =
     (if head = 0 then Ok default_summary
      else
        rbind (read_main_page s head realm Free) (\<lambda>body.
        rbind (decode_chain_header body) (\<lambda>header.
        Ok (summary_of_header header))))"

record chain_walk =
  cw_tortoise :: page_id
  cw_hare :: page_id
  cw_entries :: "free_entry list"
  cw_last_summary :: chain_summary

definition walk_new :: "page_id \<Rightarrow> chain_walk" where
  "walk_new head =
     \<lparr>cw_tortoise = head, cw_hare = head, cw_entries = [], cw_last_summary = default_summary\<rparr>"

definition read_chain_link :: "pager \<Rightarrow> realm_id \<Rightarrow> page_id \<Rightarrow> page_id result" where
  "read_chain_link s realm page_id =
     rbind (read_main_page s page_id realm Free) (\<lambda>body. rmap ch_next (decode_chain_header body))"

text \<open>One iteration of the loop that moves the hare; at the terminator it stays.\<close>

definition hare_step :: "pager \<Rightarrow> realm_id \<Rightarrow> page_id \<Rightarrow> page_id result" where
  "hare_step s realm hare = (if hare = 0 then Ok 0 else read_chain_link s realm hare)"

definition advance :: "pager \<Rightarrow> realm_id \<Rightarrow> chain_walk \<Rightarrow> (page_id option \<times> chain_walk) result" where
  "advance s realm w =
     (let page_id = cw_tortoise w in
      if page_id = 0 then Ok (None, w\<lparr>cw_entries := []\<rparr>)
      else
        rbind (read_main_page s page_id realm Free) (\<lambda>body.
        rbind (decode_chain_header body) (\<lambda>header.
        rbind (traverse (decode_free_entry body) [0..<ch_count header]) (\<lambda>entries.
        rbind (hare_step s realm (cw_hare w)) (\<lambda>hare.
        rbind (hare_step s realm hare) (\<lambda>hare.
        if hare \<noteq> 0 \<and> hare = ch_next header then Err (Corruption (PageChainCycle ''free_list'' hare))
        else Ok (Some page_id,
                 \<lparr>cw_tortoise = ch_next header, cw_hare = hare, cw_entries = entries,
                  cw_last_summary = summary_of_header header\<rparr>)))))))"

record chain_prefix =
  cp_entries :: "free_entry list"
  cp_chain_pages :: "page_id list"
  cp_tail :: chain_tail

function prefix_loop ::
  "pager \<Rightarrow> realm_id \<Rightarrow> nat \<Rightarrow> chain_walk \<Rightarrow> free_entry list \<Rightarrow> page_id list \<Rightarrow>
     (chain_walk \<times> free_entry list \<times> page_id list) result" where
  "prefix_loop s realm max_pages w entries chain_pages =
     (if length chain_pages < max_pages
      then
        rbind (advance s realm w) (\<lambda>(visited, w).
        case visited of
          None \<Rightarrow> Ok (w, entries, chain_pages)
        | Some page_id \<Rightarrow>
            prefix_loop s realm max_pages w (entries @ cw_entries w) (chain_pages @ [page_id]))
      else Ok (w, entries, chain_pages))"
  by pat_completeness auto
termination
  by (relation "measure (\<lambda>(s, realm, max_pages, w, entries, chain_pages). max_pages - length chain_pages)") auto

declare prefix_loop.simps [simp del]

definition read_chain_prefix :: "pager \<Rightarrow> realm_id \<Rightarrow> page_id \<Rightarrow> nat \<Rightarrow> chain_prefix result" where
  "read_chain_prefix s realm head max_pages =
     rbind (prefix_loop s realm max_pages (walk_new head) [] []) (\<lambda>(w, entries, chain_pages).
     rbind (read_chain_summary s realm (cw_tortoise w)) (\<lambda>summary.
     Ok \<lparr>cp_entries = entries, cp_chain_pages = chain_pages,
         cp_tail = \<lparr>ct_head = cw_tortoise w, ct_summary = summary\<rparr>\<rparr>))"

definition free_read_chain :: "pager \<Rightarrow> realm_id \<Rightarrow> page_id \<Rightarrow> (free_entry list \<times> page_id list) result" where
  "free_read_chain s realm head =
     rbind (read_chain_prefix s realm head (2 ^ 64 - 1)) (\<lambda>prefix.
     Ok (cp_entries prefix, cp_chain_pages prefix))"

definition count_chain :: "pager \<Rightarrow> realm_id \<Rightarrow> page_id \<Rightarrow> u64 result" where
  "count_chain s realm head = rmap cs_entries (read_chain_summary s realm head)"

text \<open>The loop of \<open>count_at_or_above_floor\<close> has no bound of its own: \<open>None\<close> is a loop that never ends.\<close>

partial_function (option) count_loop ::
  "pager \<Rightarrow> realm_id \<Rightarrow> u64 \<Rightarrow> chain_walk \<Rightarrow> u64 \<Rightarrow> u64 result option" where
  "count_loop s realm floor_cid w sofar =
     (case advance s realm w of
        Err e \<Rightarrow> Some (Err e)
      | Ok (visited, w) \<Rightarrow>
          if visited = None then Some (Ok sofar)
          else if cs_max_cid (cw_last_summary w) < floor_cid then Some (Ok sofar)
          else if floor_cid \<le> cs_min_cid (cw_last_summary w)
          then Some (Ok (saturating_add_u64 sofar (cs_entries (cw_last_summary w))))
          else
            (let stuck = of_nat (length (filter (\<lambda>(commit_id, _). floor_cid \<le> commit_id) (cw_entries w))) in
             count_loop s realm floor_cid w (saturating_add_u64 sofar stuck)))"

definition count_at_or_above_floor :: "pager \<Rightarrow> realm_id \<Rightarrow> page_id \<Rightarrow> u64 \<Rightarrow> u64 result option" where
  "count_at_or_above_floor s realm head floor_cid = count_loop s realm floor_cid (walk_new head) 0"

section \<open>Writing the chain\<close>

definition div_ceil :: "nat \<Rightarrow> nat \<Rightarrow> nat" where
  "div_ceil n d = (if n mod d = 0 then n div d else n div d + 1)"

definition write_free_entry :: "nat \<Rightarrow> free_entry \<Rightarrow> bytes \<Rightarrow> bytes result" where
  "write_free_entry j e body =
     (let off = PAGE_HEADER_LEN + j * ENTRY_LEN in
      rbind (write_at body off (u64_to_le_bytes (fst e))) (\<lambda>body.
      write_at body (off + 8) (u64_to_le_bytes (snd e))))"

fun write_free_entries :: "nat \<Rightarrow> free_entry list \<Rightarrow> bytes \<Rightarrow> bytes result" where
  "write_free_entries j [] body = Ok body"
| "write_free_entries j (e # es) body = rbind (write_free_entry j e body) (write_free_entries (Suc j) es)"

text \<open>The summary of a page from its chunk and the summary of the page after it.\<close>

definition extend_summary :: "free_entry list \<Rightarrow> chain_summary \<Rightarrow> chain_summary" where
  "extend_summary chunk sm =
     \<lparr>cs_entries = saturating_add_u64 (cs_entries sm) (of_nat (length chunk)),
      cs_max_cid = (if chunk = [] then cs_max_cid sm else max (Max (fst ` set chunk)) (cs_max_cid sm)),
      cs_min_cid = (if chunk = [] then cs_min_cid sm else min (Min (fst ` set chunk)) (cs_min_cid sm))\<rparr>"

fun chunk_starts :: "nat \<Rightarrow> nat \<Rightarrow> nat \<Rightarrow> nat \<Rightarrow> nat list" where
  "chunk_starts cap n_entries cursor 0 = []"
| "chunk_starts cap n_entries cursor (Suc n) = cursor # chunk_starts cap n_entries (min (cursor + cap) n_entries) n"

fun free_write_loop ::
  "realm_id \<Rightarrow> nat \<Rightarrow> page_id list \<Rightarrow> free_entry list \<Rightarrow> page_id \<Rightarrow> nat list \<Rightarrow> nat list \<Rightarrow> chain_summary \<Rightarrow> pager \<Rightarrow>
     pager result" where
  "free_write_loop realm page_size chain_pages entries tail_head starts [] sm s = Ok s"
| "free_write_loop realm page_size chain_pages entries tail_head starts (i # is) sm s =
     rbind (index chain_pages i) (\<lambda>page_id.
     rbind (index starts i) (\<lambda>start.
     rbind (slice entries start (min (start + chain_capacity page_size) (length entries))) (\<lambda>chunk.
     let nxt = (if i + 1 < length chain_pages then chain_pages ! (i + 1) else tail_head);
         sm = extend_summary chunk sm in
     rbind (encode_chain_header (replicate (body_capacity page_size) 0)
              \<lparr>ch_next = nxt, ch_count = length chunk, ch_suffix_entries = cs_entries sm,
               ch_suffix_max_cid = cs_max_cid sm, ch_suffix_min_cid = cs_min_cid sm\<rparr>) (\<lambda>body.
     rbind (write_free_entries 0 chunk body) (\<lambda>body.
     rbind (write_main_page s page_id realm Free body) (\<lambda>s.
     free_write_loop realm page_size chain_pages entries tail_head starts is sm s))))))"

definition free_write_chain ::
  "pager \<Rightarrow> realm_id \<Rightarrow> nat \<Rightarrow> page_id list \<Rightarrow> free_entry list \<Rightarrow> chain_tail \<Rightarrow> (page_id \<times> pager) result" where
  "free_write_chain s realm page_size chain_pages entries tail =
     (if entries = [] then Ok (ct_head tail, s)
      else
        rbind (free_write_loop realm page_size chain_pages entries (ct_head tail)
                 (chunk_starts (chain_capacity page_size) (length entries) 0 (length chain_pages))
                 (rev [0..<length chain_pages]) (ct_summary tail) s) (\<lambda>s.
        Ok (case chain_pages of [] \<Rightarrow> ct_head tail | head # _ \<Rightarrow> head, s)))"

lemma div_ceil_le: "d \<noteq> 0 \<Longrightarrow> div_ceil n d \<le> n"
  by (cases "d = 1"; cases n) (auto simp: div_ceil_def div_le_dividend Suc_le_eq intro: div_less_dividend)

lemma carve_decreases: "0 < d \<Longrightarrow> l < div_ceil (n - c) d \<Longrightarrow> n - Suc l < n - l"
  using div_ceil_le [of d "n - c"] by linarith

function carve_loop ::
  "nat \<Rightarrow> nat \<Rightarrow> page_id list \<Rightarrow> page_id set \<Rightarrow> page_id list \<Rightarrow> page_id \<Rightarrow>
     (page_id set \<times> page_id list \<times> page_id) result" where
  "carve_loop cap n_entries hosts carved chain_pages nxt =
     (if n_entries < card carved then Err (Panic ''attempt to subtract with overflow'')
      else
        (let remaining = n_entries - card carved in
         if remaining \<noteq> 0 \<and> cap = 0 then Err (Panic ''attempt to divide by zero'')
         else
           (let need = (if remaining = 0 then 0 else div_ceil remaining cap) in
            if need \<le> length chain_pages then Ok (carved, chain_pages, nxt)
            else
              (case (if 1 < remaining then hosts else []) of
                 h # hosts' \<Rightarrow> carve_loop cap n_entries hosts' (insert h carved) (chain_pages @ [h]) nxt
               | [] \<Rightarrow>
                   if nxt = - 1 then Err (Panic ''attempt to add with overflow'')
                   else carve_loop cap n_entries hosts carved (chain_pages @ [nxt]) (nxt + 1)))))"
  by pat_completeness auto
termination
  by (relation "measure (\<lambda>(cap, n, hosts, carved, chain_pages, nxt). n - length chain_pages)")
    (auto simp: not_le intro: carve_decreases split: if_splits)

declare carve_loop.simps [simp del]

definition rewrite_chain ::
  "pager \<Rightarrow> realm_id \<Rightarrow> nat \<Rightarrow> free_entry list \<Rightarrow> page_id list \<Rightarrow> page_id \<Rightarrow> chain_tail \<Rightarrow>
     ((page_id \<times> page_id) \<times> pager) result" where
  "rewrite_chain s realm page_size entries host_candidates next_page tail =
     rbind (carve_loop (chain_capacity page_size) (length entries) host_candidates {} [] next_page)
       (\<lambda>(carved, chain_pages, nxt).
     rbind (free_write_chain s realm page_size chain_pages
              (filter (\<lambda>(_, pid). pid \<notin> carved) entries) tail) (\<lambda>(head, s).
     Ok ((head, nxt), s)))"

end
