(* ===== verification/Freelist_Walk.thy ===== *)
theory Freelist_Walk
  imports Freelist
begin

text \<open>
  The free-list chain as a list of pages: what one page decodes to, the walk over a chain that
  ends, and the walk over an arbitrary store, which Floyd's cycle detection keeps from visiting a
  page twice.
\<close>

section \<open>One page\<close>

definition chain_page :: "pager \<Rightarrow> realm_id \<Rightarrow> page_id \<Rightarrow> (chain_page_header \<times> free_entry list) result" where
  "chain_page s r p =
     rbind (read_main_page s p r Free) (\<lambda>body.
     rbind (decode_chain_header body) (\<lambda>header.
     rbind (traverse (decode_free_entry body) [0..<ch_count header]) (\<lambda>es.
     Ok (header, es))))"

lemma chain_page_link: "chain_page s r p = Ok (h, es) \<Longrightarrow> read_chain_link s r p = Ok (ch_next h)"
  by (auto simp: chain_page_def read_chain_link_def rbind_eq_Ok rmap_eq_Ok)

lemma chain_page_summary: "chain_page s r p = Ok (h, es) \<Longrightarrow> p \<noteq> 0 \<Longrightarrow> read_chain_summary s r p = Ok (summary_of_header h)"
  by (auto simp: chain_page_def read_chain_summary_def rbind_eq_Ok)

lemma chain_page_count: "chain_page s r p = Ok (h, es) \<Longrightarrow> length es = ch_count h"
  by (auto simp: chain_page_def rbind_eq_Ok traverse_eq_Ok)

lemma advance_alt:
  "advance s r w =
     (if cw_tortoise w = 0 then Ok (None, w\<lparr>cw_entries := []\<rparr>)
      else
        rbind (chain_page s r (cw_tortoise w)) (\<lambda>(h, es).
        rbind (hare_step s r (cw_hare w)) (\<lambda>hare.
        rbind (hare_step s r hare) (\<lambda>hare.
        if hare \<noteq> 0 \<and> hare = ch_next h then Err (Corruption (PageChainCycle ''free_list'' hare))
        else Ok (Some (cw_tortoise w),
                 \<lparr>cw_tortoise = ch_next h, cw_hare = hare, cw_entries = es, cw_last_summary = summary_of_header h\<rparr>)))))"
  by (simp add: advance_def chain_page_def rbind_assoc Let_def)

section \<open>A chain that ends\<close>

type_synonym chain_list = "(page_id \<times> chain_page_header \<times> free_entry list) list"

fun chain_start :: "chain_list \<Rightarrow> page_id" where
  "chain_start [] = 0"
| "chain_start ((p, _) # _) = p"

definition chain_ids :: "chain_list \<Rightarrow> page_id list" where
  "chain_ids cs = map fst cs"

definition chain_entries :: "chain_list \<Rightarrow> free_entry list" where
  "chain_entries cs = concat (map (snd \<circ> snd) cs)"

lemma chain_ids_simps [simp]: "chain_ids [] = []" "chain_ids (c # cs) = fst c # chain_ids cs" "chain_ids (cs @ ds) = chain_ids cs @ chain_ids ds"
  "length (chain_ids cs) = length cs"
  by (simp_all add: chain_ids_def)

lemma chain_entries_simps [simp]:
  "chain_entries [] = []" "chain_entries ((p, h, es) # cs) = es @ chain_entries cs" "chain_entries (cs @ ds) = chain_entries cs @ chain_entries ds"
  by (simp_all add: chain_entries_def)

text \<open>The pages of a chain, each readable and linked to the next, the last one to the terminator.\<close>

fun free_chain :: "pager \<Rightarrow> realm_id \<Rightarrow> chain_list \<Rightarrow> bool" where
  "free_chain s r [] \<longleftrightarrow> True"
| "free_chain s r ((p, h, es) # cs) \<longleftrightarrow> p \<noteq> 0 \<and> chain_page s r p = Ok (h, es) \<and> ch_next h = chain_start cs \<and> free_chain s r cs"

lemma chain_drop: "free_chain s r cs \<Longrightarrow> free_chain s r (drop n cs)"
proof (induction n arbitrary: cs)
  case (Suc n)
  then show ?case by (cases cs) auto
qed simp

lemma chain_append: "free_chain s r (cs @ ds) \<Longrightarrow> free_chain s r ds"
  using chain_drop [of s r "cs @ ds" "length cs"] by simp

lemma chain_unique: "free_chain s r cs \<Longrightarrow> free_chain s r ds \<Longrightarrow> chain_start cs = chain_start ds \<Longrightarrow> cs = ds"
proof (induction cs arbitrary: ds rule: free_chain.induct)
  case (1 s r)
  then show ?case by (cases "(s, r, ds)" rule: free_chain.cases) auto
next
  case (2 s r p h es cs)
  then show ?case by (cases "(s, r, ds)" rule: free_chain.cases) auto
qed

text \<open>Since a page determines what follows it, no page occurs twice.\<close>

lemma chain_distinct: "free_chain s r cs \<Longrightarrow> distinct (chain_ids cs)"
proof (induction cs rule: free_chain.induct)
  case (2 s r p h es cs)
  have "p \<notin> set (chain_ids cs)"
  proof
    assume "p \<in> set (chain_ids cs)"
    then obtain h' es' where "(p, h', es') \<in> set cs" by (auto simp: chain_ids_def)
    then obtain as bs where cs: "cs = as @ (p, h', es') # bs" by (meson split_list)
    have "(p, h, es) # cs = (p, h', es') # bs"
      using chain_unique [OF 2(2) chain_append [of s r as "(p, h', es') # bs"]] 2(2) cs by simp
    then show False using cs by simp
  qed
  then show ?case using 2 by simp
qed simp

lemma start_nonzero: "free_chain s r cs \<Longrightarrow> chain_start cs = 0 \<longleftrightarrow> cs = []"
  by (cases "(s, r, cs)" rule: free_chain.cases) auto

lemma hare_step_chain: "free_chain s r cs \<Longrightarrow> hare_step s r (chain_start cs) = Ok (chain_start (drop 1 cs))"
  by (cases "(s, r, cs)" rule: free_chain.cases) (auto simp: hare_step_def chain_page_link)

lemma start_drop_eq:
  assumes c: "free_chain s r cs" and mn: "chain_start (drop m cs) = chain_start (drop n cs)" and "m < length cs"
  shows "m = n"
proof -
  have "drop m cs = drop n cs" by (rule chain_unique [OF chain_drop [OF c] chain_drop [OF c] mn])
  then have "length cs - m = length cs - n" by (metis length_drop)
  then show ?thesis using assms(3) by linarith
qed

definition walk_at :: "chain_list \<Rightarrow> nat \<Rightarrow> chain_walk \<Rightarrow> bool" where
  "walk_at cs n w \<longleftrightarrow> cw_tortoise w = chain_start (drop n cs) \<and> cw_hare w = chain_start (drop (2 * n) cs)"

lemma walk_at_new: "walk_at cs 0 (walk_new (chain_start cs))"
  by (simp add: walk_at_def walk_new_def)

lemma advance_end: "free_chain s r cs \<Longrightarrow> walk_at cs n w \<Longrightarrow> length cs \<le> n \<Longrightarrow> advance s r w = Ok (None, w\<lparr>cw_entries := []\<rparr>)"
  by (simp add: advance_alt walk_at_def)

lemma advance_chain:
  assumes c: "free_chain s r cs" and w: "walk_at cs n w" and n: "n < length cs" and at: "cs ! n = (p, h, es)"
  shows "\<exists>w'. advance s r w = Ok (Some p, w') \<and> walk_at cs (Suc n) w' \<and> cw_entries w' = es \<and>
    cw_last_summary w' = summary_of_header h"
proof -
  have d: "drop n cs = (p, h, es) # drop (Suc n) cs" using n at by (metis Cons_nth_drop_Suc)
  then have pg: "p \<noteq> 0" "chain_page s r p = Ok (h, es)" "ch_next h = chain_start (drop (Suc n) cs)"
    using chain_drop [OF c, of n] by auto
  have h1: "hare_step s r (chain_start (drop (2 * n) cs)) = Ok (chain_start (drop (Suc (2 * n)) cs))"
    using hare_step_chain [OF chain_drop [OF c, of "2 * n"]] by simp
  have h2: "hare_step s r (chain_start (drop (Suc (2 * n)) cs)) = Ok (chain_start (drop (2 * Suc n) cs))"
    using hare_step_chain [OF chain_drop [OF c, of "Suc (2 * n)"]] by simp
  have "chain_start (drop (2 * Suc n) cs) = 0 \<or> chain_start (drop (2 * Suc n) cs) \<noteq> ch_next h"
    using start_drop_eq [OF c, of "2 * Suc n" "Suc n"] pg(3) by (cases "2 * Suc n < length cs") auto
  moreover have "cw_tortoise w = p" "cw_hare w = chain_start (drop (2 * n) cs)" using w d by (auto simp: walk_at_def)
  ultimately show ?thesis using pg h1 h2 by (auto simp: advance_alt walk_at_def)
qed

text \<open>The window of a bounded walk.\<close>

lemma prefix_loop_chain:
  assumes c: "free_chain s r cs" and w: "walk_at cs n w" and n: "n \<le> length cs"
  shows "\<exists>w'. prefix_loop s r max_pages w (chain_entries (take n cs)) (chain_ids (take n cs)) =
      Ok (w', chain_entries (take (max n max_pages) cs), chain_ids (take (max n max_pages) cs)) \<and>
    cw_tortoise w' = chain_start (drop (max n max_pages) cs)"
  using w n
proof (induction "length cs - n" arbitrary: n w)
  case 0
  then have "n = length cs" by simp
  then show ?case
    using advance_end [OF c 0(2)] 0(2) by (subst prefix_loop.simps) (auto simp: walk_at_def max_def)
next
  case (Suc k)
  show ?case
  proof (cases "n < max_pages")
    case False
    then show ?thesis using Suc(3,4) by (subst prefix_loop.simps) (auto simp: walk_at_def max_def)
  next
    case True
    obtain p h es where at: "cs ! n = (p, h, es)" by (metis prod.exhaust)
    have n: "n < length cs" using Suc(2) by simp
    obtain w1 where w1: "advance s r w = Ok (Some p, w1)" "walk_at cs (Suc n) w1" "cw_entries w1 = es"
      using advance_chain [OF c Suc(3) n at] by blast
    have t: "take (Suc n) cs = take n cs @ [(p, h, es)]" using n at by (simp add: take_Suc_conv_app_nth)
    have "max (Suc n) max_pages = max n max_pages" using True by simp
    with Suc.hyps(1) [OF _ w1(2)] Suc(2) n
    obtain w' where "prefix_loop s r max_pages w1 (chain_entries (take (Suc n) cs)) (chain_ids (take (Suc n) cs)) =
        Ok (w', chain_entries (take (max n max_pages) cs), chain_ids (take (max n max_pages) cs))"
      "cw_tortoise w' = chain_start (drop (max n max_pages) cs)" by fastforce
    then show ?thesis using True w1 n by (subst prefix_loop.simps) (simp add: t)
  qed
qed

lemma summary_start:
  "free_chain s r cs \<Longrightarrow> read_chain_summary s r (chain_start cs) =
     Ok (case cs of [] \<Rightarrow> default_summary | (_, h, _) # _ \<Rightarrow> summary_of_header h)"
  by (cases "(s, r, cs)" rule: free_chain.cases) (auto simp: chain_page_summary, simp add: read_chain_summary_def)

lemma read_chain_prefix_chain:
  assumes "free_chain s r cs"
  shows "read_chain_prefix s r (chain_start cs) max_pages =
    Ok \<lparr>cp_entries = chain_entries (take max_pages cs), cp_chain_pages = chain_ids (take max_pages cs),
        cp_tail = \<lparr>ct_head = chain_start (drop max_pages cs),
                   ct_summary = (case drop max_pages cs of [] \<Rightarrow> default_summary | (_, h, _) # _ \<Rightarrow> summary_of_header h)\<rparr>\<rparr>"
proof -
  obtain w' where "prefix_loop s r max_pages (walk_new (chain_start cs)) [] [] =
      Ok (w', chain_entries (take max_pages cs), chain_ids (take max_pages cs))" "cw_tortoise w' = chain_start (drop max_pages cs)"
    using prefix_loop_chain [OF assms walk_at_new, of max_pages] by auto
  then show ?thesis using summary_start [OF chain_drop [OF assms]] by (simp add: read_chain_prefix_def)
qed

lemma free_read_chain_chain:
  assumes "free_chain s r cs" "length cs < 2 ^ 64"
  shows "free_read_chain s r (chain_start cs) = Ok (chain_entries cs, chain_ids cs)"
  using assms by (simp add: free_read_chain_def read_chain_prefix_chain)

section \<open>Exact summaries\<close>

definition summary_of_entries :: "free_entry list \<Rightarrow> chain_summary" where
  "summary_of_entries es =
     \<lparr>cs_entries = of_nat (length es), cs_max_cid = foldr (max \<circ> fst) es 0, cs_min_cid = foldr (min \<circ> fst) es (- 1)\<rparr>"

text \<open>Every page of the chain summarises what it and the pages after it hold.\<close>

fun exact_chain :: "chain_list \<Rightarrow> bool" where
  "exact_chain [] \<longleftrightarrow> True"
| "exact_chain ((p, h, es) # cs) \<longleftrightarrow> summary_of_header h = summary_of_entries (es @ chain_entries cs) \<and> exact_chain cs"

lemma exact_drop: "exact_chain cs \<Longrightarrow> exact_chain (drop n cs)"
proof (induction n arbitrary: cs)
  case (Suc n)
  then show ?case by (cases cs rule: exact_chain.cases) auto
qed simp

lemma summary_Nil [simp]: "summary_of_entries [] = default_summary"
  by (simp add: summary_of_entries_def default_summary_def)

lemma foldr_max_less: "foldr (max \<circ> fst) es 0 < (f :: u64) \<longleftrightarrow> 0 < f \<and> (\<forall>e \<in> set es. fst e < f)"
  by (induction es) auto

lemma foldr_min_ge: "(f :: u64) \<le> foldr (min \<circ> fst) es (- 1) \<longleftrightarrow> (\<forall>e \<in> set es. f \<le> fst e)"
  by (induction es) auto

lemma foldr_max_Max: "es \<noteq> [] \<Longrightarrow> max (Max (fst ` set es)) m = foldr (max \<circ> fst) es (m :: u64)"
proof (induction es)
  case (Cons e es)
  then show ?case by (cases "es = []") (auto simp: max.assoc)
qed simp

lemma foldr_min_Min: "es \<noteq> [] \<Longrightarrow> min (Min (fst ` set es)) m = foldr (min \<circ> fst) es (m :: u64)"
proof (induction es)
  case (Cons e es)
  then show ?case by (cases "es = []") (auto simp: min.assoc)
qed simp

lemma saturating_add_of_nat:
  assumes "unat a + n < 2 ^ 64"
  shows "saturating_add_u64 a (of_nat n) = a + of_nat n" "unat (a + of_nat n) = unat a + n"
proof -
  have n: "unat (of_nat n :: u64) = n" using assms by simp
  show "unat (a + of_nat n) = unat a + n" using assms n by (simp add: unat_add_u64_no_wrap)
  then show "saturating_add_u64 a (of_nat n) = a + of_nat n"
    using assms n by (simp add: saturating_add_u64_def)
qed

lemma extend_summary_append:
  assumes "length chunk + length es < 2 ^ 64"
  shows "extend_summary chunk (summary_of_entries es) = summary_of_entries (chunk @ es)"
  using assms saturating_add_of_nat(1) [of "of_nat (length es)" "length chunk"]
  by (auto simp: extend_summary_def summary_of_entries_def foldr_max_Max foldr_min_Min add.commute)

text \<open>The count over the straddling pages is the count over all of them.\<close>

abbreviation stuck :: "u64 \<Rightarrow> free_entry list \<Rightarrow> free_entry list" where
  "stuck f es \<equiv> filter (\<lambda>(commit_id, _). f \<le> commit_id) es"

lemma count_loop_chain:
  assumes c: "free_chain s r cs" and "walk_at cs n w" and "exact_chain (drop n cs)"
    and "unat acc + length (chain_entries (drop n cs)) < 2 ^ 64"
  shows "count_loop s r f w acc = Some (Ok (acc + of_nat (length (stuck f (chain_entries (drop n cs))))))"
  using assms(2-4)
proof (induction "length cs - n" arbitrary: n w acc)
  case 0
  then show ?case using advance_end [OF c 0(2)] by (subst count_loop.simps) simp
next
  case (Suc k)
  obtain p h es where at: "cs ! n = (p, h, es)" by (metis prod.exhaust)
  have n: "n < length cs" using Suc(2) by simp
  have d: "drop n cs = (p, h, es) # drop (Suc n) cs" using n at by (metis Cons_nth_drop_Suc)
  define rest where "rest = chain_entries (drop (Suc n) cs)"
  obtain w1 where w1: "advance s r w = Ok (Some p, w1)" "walk_at cs (Suc n) w1" "cw_entries w1 = es"
      "cw_last_summary w1 = summary_of_header h"
    using advance_chain [OF c Suc(3) n at] by blast
  have sm: "summary_of_header h = summary_of_entries (es @ rest)" and ex: "exact_chain (drop (Suc n) cs)"
    using Suc(4) by (simp_all add: d rest_def)
  have len: "unat acc + length es + length rest < 2 ^ 64" using Suc(5) by (simp add: d rest_def)
  have "stuck f (es @ rest) = []" if "cs_max_cid (summary_of_entries (es @ rest)) < f"
  proof -
    have "\<forall>e \<in> set (es @ rest). fst e < f"
      using that foldr_max_less [of "es @ rest" f] by (simp add: summary_of_entries_def del: foldr_append)
    then show ?thesis by (intro filter_False ballI) (metis case_prod_beta leD)
  qed
  moreover have "stuck f es = es \<and> stuck f rest = rest" if "f \<le> cs_min_cid (summary_of_entries (es @ rest))"
  proof -
    have "\<forall>e \<in> set (es @ rest). f \<le> fst e"
      using that foldr_min_ge [of f "es @ rest"] by (simp add: summary_of_entries_def del: foldr_append)
    then show ?thesis by (intro conjI filter_True ballI) (metis Un_iff case_prod_beta set_append)+
  qed
  moreover have "cs_entries (summary_of_entries (es @ rest)) = of_nat (length (es @ rest))"
    by (simp add: summary_of_entries_def)
  moreover have "saturating_add_u64 acc (of_nat (length (es @ rest))) = acc + of_nat (length (es @ rest))"
    using len by (intro saturating_add_of_nat) simp
  moreover have stuck_len: "length (stuck f es) \<le> length es" by simp
  moreover have "saturating_add_u64 acc (of_nat (length (stuck f es))) = acc + of_nat (length (stuck f es))"
    using len stuck_len by (intro saturating_add_of_nat) linarith
  moreover have "count_loop s r f w1 (acc + of_nat (length (stuck f es))) =
      Some (Ok (acc + of_nat (length (stuck f es)) + of_nat (length (stuck f rest))))"
  proof -
    have "unat (acc + of_nat (length (stuck f es))) + length (chain_entries (drop (Suc n) cs)) < 2 ^ 64"
      using len stuck_len saturating_add_of_nat(2) [of acc "length (stuck f es)"] unfolding rest_def by linarith
    moreover have "k = length cs - Suc n" using Suc(2) by simp
    ultimately show ?thesis using Suc.hyps(1) [OF _ w1(2) ex] by (simp add: rest_def)
  qed
  ultimately show ?case
    by (subst count_loop.simps) (simp add: w1 sm d flip: rest_def)
qed

section \<open>An arbitrary store\<close>

text \<open>
  On a store that holds anything, the link function is read off the pages; the terminator links to
  itself.  After \<open>n\<close> steps the tortoise is at the \<open>n\<close>-th iterate and the hare at the \<open>2n\<close>-th.
\<close>

definition link :: "pager \<Rightarrow> realm_id \<Rightarrow> page_id \<Rightarrow> page_id" where
  "link s r p = (if p = 0 then 0 else case read_chain_link s r p of Ok q \<Rightarrow> q | Err e \<Rightarrow> 0)"

lemma hare_step_link: "hare_step s r p = Ok q \<Longrightarrow> q = link s r p"
  by (auto simp: hare_step_def link_def split: if_splits)

lemma funpow_stays: "f z = z \<Longrightarrow> (f ^^ n) z = z"
  by (induction n) simp_all

text \<open>
  Floyd: when the two cursors never met in the first \<open>n\<close> steps, the tortoise saw \<open>n\<close> different
  values.
\<close>

lemma floyd_distinct:
  fixes f :: "'a \<Rightarrow> 'a"
  assumes nonzero: "\<And>i. i < n \<Longrightarrow> (f ^^ i) x \<noteq> z"
    and apart: "\<And>m. 1 \<le> m \<Longrightarrow> m < n \<Longrightarrow> (f ^^ (2 * m)) x = z \<or> (f ^^ (2 * m)) x \<noteq> (f ^^ m) x"
  shows "inj_on (\<lambda>i. (f ^^ i) x) {0..<n}"
proof (rule linorder_inj_onI')
  fix i j assume ij: "i \<in> {0..<n}" "j \<in> {0..<n}" "i < j"
  show "(f ^^ i) x \<noteq> (f ^^ j) x"
  proof
    assume eq: "(f ^^ i) x = (f ^^ j) x"
    define d where "d = j - i"
    have d: "0 < d" "j = i + d" using ij by (auto simp: d_def)
    have period: "(f ^^ (k + q * d)) x = (f ^^ k) x" if "i \<le> k" for k q
    proof (induction q)
      case (Suc q)
      have "(f ^^ (k + Suc q * d)) x = (f ^^ (k - i + q * d)) ((f ^^ (i + d)) x)"
        using that by (simp flip: funpow_add [THEN fun_cong, unfolded comp_def] add: algebra_simps)
      also have "\<dots> = (f ^^ (k - i + q * d)) ((f ^^ i) x)" using eq d(2) by simp
      also have "\<dots> = (f ^^ (k + q * d)) x"
        using that by (simp flip: funpow_add [THEN fun_cong, unfolded comp_def] add: algebra_simps)
      finally show ?case using Suc by simp
    qed simp
    define m where "m = (if i = 0 then d else d * div_ceil i d)"
    have "i \<le> d * div_ceil i d \<and> d * div_ceil i d < i + d"
    proof (cases "i mod d = 0")
      case True
      then show ?thesis using d(1) by (auto simp: div_ceil_def)
    next
      case False
      then have "d * div_ceil i d = d * (i div d) + d" by (simp add: div_ceil_def)
      then show ?thesis
        using False mult_div_mod_eq [of d i] mod_less_divisor [OF d(1), of i] by linarith
    qed
    then have le: "i \<le> m" "m \<le> j" and mult: "\<exists>q. m = q * d"
      using d by (auto simp: m_def mult.commute)
    have "i = 0 \<Longrightarrow> m = d" by (simp add: m_def)
    then have m: "i \<le> m" "m \<le> j" "1 \<le> m" using le d(1) by linarith+
    have "(f ^^ (2 * m)) x = (f ^^ m) x" using period [OF m(1)] mult by (metis mult_2)
    then show False using apart [of m] nonzero [of m] m ij by auto
  qed
qed

definition walked :: "pager \<Rightarrow> realm_id \<Rightarrow> page_id \<Rightarrow> nat \<Rightarrow> chain_walk \<Rightarrow> bool" where
  "walked s r head n w \<longleftrightarrow>
     cw_tortoise w = (link s r ^^ n) head \<and> cw_hare w = (link s r ^^ (2 * n)) head \<and>
     (\<forall>i < n. (link s r ^^ i) head \<noteq> 0) \<and>
     (\<forall>m. 1 \<le> m \<longrightarrow> m \<le> n \<longrightarrow> (link s r ^^ (2 * m)) head = 0 \<or> (link s r ^^ (2 * m)) head \<noteq> (link s r ^^ m) head)"

lemma walked_new: "walked s r head 0 (walk_new head)"
  by (simp add: walked_def walk_new_def)

lemma walked_advance:
  assumes w: "walked s r head n w" and a: "advance s r w = Ok (Some p, w')"
  shows "p = (link s r ^^ n) head" "walked s r head (Suc n) w'"
proof -
  obtain h es h1 h2 where *: "cw_tortoise w \<noteq> 0" "chain_page s r (cw_tortoise w) = Ok (h, es)"
      "hare_step s r (cw_hare w) = Ok h1" "hare_step s r h1 = Ok h2" "h2 = 0 \<or> h2 \<noteq> ch_next h"
      "p = cw_tortoise w" "cw_tortoise w' = ch_next h" "cw_hare w' = h2"
    using a by (auto simp: advance_alt rbind_eq_Ok split: if_splits)
  show "p = (link s r ^^ n) head" using w *(6) by (simp add: walked_def)
  have "ch_next h = link s r (cw_tortoise w)" using *(1) chain_page_link [OF *(2)] by (simp add: link_def)
  then have t: "cw_tortoise w' = (link s r ^^ Suc n) head" using w *(7) by (simp add: walked_def)
  have h: "cw_hare w' = (link s r ^^ (2 * Suc n)) head"
    using w *(8) hare_step_link [OF *(3)] hare_step_link [OF *(4)] by (simp add: walked_def)
  show "walked s r head (Suc n) w'"
    unfolding walked_def
  proof (intro conjI allI impI t h)
    fix i assume "i < Suc n"
    then show "(link s r ^^ i) head \<noteq> 0" using w *(1) by (cases "i = n") (auto simp: walked_def)
  next
    fix m assume m: "1 \<le> m" "m \<le> Suc n"
    show "(link s r ^^ (2 * m)) head = 0 \<or> (link s r ^^ (2 * m)) head \<noteq> (link s r ^^ m) head"
    proof (cases "m = Suc n")
      case True
      then show ?thesis using t h *(5,7,8) by metis
    next
      case False
      then show ?thesis using w m by (auto simp: walked_def)
    qed
  qed
qed

lemma walked_distinct: "walked s r head n w \<Longrightarrow> distinct (map (\<lambda>i. (link s r ^^ i) head) [0..<n])"
  by (auto simp: distinct_map walked_def intro!: floyd_distinct [where z = 0])

lemma walked_bound:
  assumes "walked s r head n w"
  shows "n \<le> 2 ^ 64"
proof -
  have "card (set (map (\<lambda>i. (link s r ^^ i) head) [0..<n])) = n"
    using distinct_card [OF walked_distinct [OF assms]] by simp
  moreover have "card (set (map (\<lambda>i. (link s r ^^ i) head) [0..<n])) \<le> card (UNIV :: u64 set)"
    by (intro card_mono) simp_all
  ultimately show ?thesis by (simp add: card_word)
qed

lemma count_loop_returns: "walked s r head n w \<Longrightarrow> \<exists>res. count_loop s r f w acc = Some res"
proof (induction "2 ^ 64 + 1 - n" arbitrary: n w acc)
  case 0
  then show ?case using walked_bound by fastforce
next
  case (Suc k)
  show ?case
  proof (cases "\<exists>p w'. advance s r w = Ok (Some p, w')")
    case True
    then obtain p w' where a: "advance s r w = Ok (Some p, w')" by blast
    have "\<exists>res. count_loop s r f w' acc' = Some res" for acc'
      using Suc.hyps(1) [OF _ walked_advance(2) [OF Suc.prems a]] Suc.hyps(2) by simp
    then show ?thesis by (subst count_loop.simps) (simp add: a Let_def)
  next
    case False
    then show ?thesis by (subst count_loop.simps) (auto split: result.splits)
  qed
qed

lemma prefix_loop_distinct:
  "walked s r head n w \<Longrightarrow> chain_pages = map (\<lambda>i. (link s r ^^ i) head) [0..<n] \<Longrightarrow>
     prefix_loop s r max_pages w es chain_pages = Ok (w', es', pages') \<Longrightarrow> distinct pages'"
proof (induction s r max_pages w es chain_pages arbitrary: n rule: prefix_loop.induct)
  case (1 s r max_pages w es chain_pages)
  show ?case
  proof (cases "length chain_pages < max_pages \<and> (\<exists>p w1. advance s r w = Ok (Some p, w1))")
    case True
    then obtain p w1 where a: "advance s r w = Ok (Some p, w1)" by blast
    have "prefix_loop s r max_pages w1 (es @ cw_entries w1) (chain_pages @ [p]) = Ok (w', es', pages')"
      using 1(4) True a by (subst (asm) prefix_loop.simps) simp
    then show ?thesis
      using 1(1) [OF _ a refl refl walked_advance(2) [OF 1(2) a]] walked_advance(1) [OF 1(2) a] True 1(3) by simp
  next
    case False
    then have "pages' = chain_pages"
      using 1(4) by (subst (asm) prefix_loop.simps) (auto simp: rbind_eq_Ok split: if_splits option.splits)
    then show ?thesis using walked_distinct [OF 1(2)] 1(3) by simp
  qed
qed

end
