(* ===== verification/Freelist_Write.thy ===== *)
theory Freelist_Write
  imports Freelist_Walk
begin

text \<open>
  Writing free-list chains: what a written page decodes to, the chain a batch of pages forms on a
  retained tail, the choice of the pages that host it, and the properties of the free list.
\<close>

section \<open>What a written page holds\<close>

definition free_header_bytes :: "chain_page_header \<Rightarrow> bytes" where
  "free_header_bytes h =
     u64_to_le_bytes (ch_next h) @ u32_to_le_bytes (of_nat (ch_count h)) @ u64_to_le_bytes (ch_suffix_entries h) @
     u64_to_le_bytes (ch_suffix_max_cid h) @ u64_to_le_bytes (ch_suffix_min_cid h)"

definition free_entry_bytes :: "free_entry list \<Rightarrow> bytes" where
  "free_entry_bytes es = concat (map (\<lambda>(c, p). u64_to_le_bytes c @ u64_to_le_bytes p) es)"

lemma free_header_bytes_length [simp]: "length (free_header_bytes h) = 36"
  by (simp add: free_header_bytes_def)

lemma free_entry_bytes_simps [simp]:
  "free_entry_bytes [] = []" "free_entry_bytes ((c, p) # es) = u64_to_le_bytes c @ u64_to_le_bytes p @ free_entry_bytes es"
  by (simp_all add: free_entry_bytes_def)

lemma free_entry_bytes_length [simp]: "length (free_entry_bytes es) = 16 * length es"
  by (induction es) auto

lemma encode_chain_header_form:
  assumes "ch_count h < 2 ^ 32" "36 \<le> length body"
  shows "encode_chain_header body h = Ok (free_header_bytes h @ drop 36 body)"
proof -
  have "encode_chain_header body h = write_at body 0 (free_header_bytes h)"
    using assms(1) by (simp add: encode_chain_header_def u32_try_from_def free_header_bytes_def write_at_append_bind write_at_append)
  then show ?thesis using assms(2) by (simp add: write_at_def)
qed

lemma write_free_entries_form:
  "36 + 16 * (j + length es) \<le> length body \<Longrightarrow>
     write_free_entries j es body = write_at body (36 + 16 * j) (free_entry_bytes es)"
proof (induction es arbitrary: j body)
  case Nil
  then show ?case by (simp add: write_at_def)
next
  case (Cons e es)
  obtain c p where e: "e = (c, p)" by force
  have "write_free_entry j e body = write_at body (36 + 16 * j) (u64_to_le_bytes c @ u64_to_le_bytes p)"
    by (simp add: write_free_entry_def e PAGE_HEADER_LEN_def ENTRY_LEN_def mult.commute write_at_append)
  moreover obtain b where b: "write_at body (36 + 16 * j) (u64_to_le_bytes c @ u64_to_le_bytes p) = Ok b"
    using Cons.prems write_at_Ok_if [of "36 + 16 * j" "u64_to_le_bytes c @ u64_to_le_bytes p" body] by auto
  moreover have "write_free_entries (Suc j) es b = write_at b (36 + 16 * Suc j) (free_entry_bytes es)"
    using Cons write_at_length [OF b] by simp
  moreover have "rbind (write_at body (36 + 16 * j) (u64_to_le_bytes c @ u64_to_le_bytes p))
      (\<lambda>b. write_at b (36 + 16 * Suc j) (free_entry_bytes es)) = write_at body (36 + 16 * j) (free_entry_bytes (e # es))"
    by (subst write_at_append) (simp_all add: e)
  ultimately show ?case by simp
qed

lemma decode_chain_header_form:
  assumes "ch_count h < 2 ^ 32" "16 * ch_count h \<le> length rest" "of_nat (ch_count h) \<le> ch_suffix_entries h"
  shows "decode_chain_header (free_header_bytes h @ rest) = Ok h"
proof -
  have "ch_count h \<le> length rest div 16" using assms(2) by linarith
  then show ?thesis
    using assms(1,3) by (simp add: decode_chain_header_def free_header_bytes_def PAGE_HEADER_LEN_def ENTRY_LEN_def not_less Let_def)
qed

lemma drop_free_entry_bytes: "drop (16 * i) (free_entry_bytes es) = free_entry_bytes (drop i es)"
proof (induction i arbitrary: es)
  case (Suc i)
  show ?case
  proof (cases es)
    case (Cons e es')
    obtain c p where "e = (c, p)" by force
    then show ?thesis using Cons Suc [of es'] by simp
  qed simp
qed simp

lemma decode_free_entry_form:
  assumes "i < length es" "length hb = 36"
  shows "decode_free_entry (hb @ free_entry_bytes es @ rest) i = Ok (es ! i)"
proof -
  obtain c p where e: "es ! i = (c, p)" by force
  have "drop i es = (c, p) # drop (Suc i) es" using assms(1) e by (metis Cons_nth_drop_Suc)
  then have "drop (36 + 16 * i) (hb @ free_entry_bytes es @ rest) =
      u64_to_le_bytes c @ u64_to_le_bytes p @ free_entry_bytes (drop (Suc i) es) @ rest"
    using assms drop_free_entry_bytes [of i es] by (simp add: add.commute)
  then show ?thesis
    using assms by (simp add: decode_free_entry_def PAGE_HEADER_LEN_def ENTRY_LEN_def mult.commute slice_def e)
qed

lemma written_chain_page:
  assumes r: "read_main_page s p r Free = Ok (free_header_bytes h @ free_entry_bytes es @ rest)"
    and "ch_count h = length es" "length es < 2 ^ 32" "of_nat (length es) \<le> ch_suffix_entries h"
  shows "chain_page s r p = Ok (h, es)"
proof -
  have "decode_chain_header (free_header_bytes h @ free_entry_bytes es @ rest) = Ok h"
    using assms by (intro decode_chain_header_form) auto
  moreover have "traverse (decode_free_entry (free_header_bytes h @ free_entry_bytes es @ rest)) [0..<length es] = Ok es"
    by (auto simp: traverse_eq_Ok decode_free_entry_form)
  ultimately show ?thesis using assms by (simp add: chain_page_def)
qed

text \<open>The body of one page and its write.\<close>

definition page_ok :: "nat \<Rightarrow> bool" where
  "page_ok page_size \<longleftrightarrow> 4096 \<le> page_size \<and> page_size \<le> 65536"

lemma page_ok_capacity:
  assumes "page_ok page_size"
  shows "1 \<le> chain_capacity page_size" "chain_capacity page_size < 2 ^ 32"
    "36 + 16 * chain_capacity page_size \<le> body_capacity page_size"
  using assms by (auto simp: page_ok_def chain_capacity_def body_capacity_def ENVELOPE_OVERHEAD_def PAGE_HEADER_LEN_def ENTRY_LEN_def)

lemma write_free_page:
  assumes ps: "page_ok page_size" "cfg_page_size s = page_size"
    and h: "ch_count h = length es" "length es \<le> chain_capacity page_size" "of_nat (length es) \<le> ch_suffix_entries h"
  shows "\<exists>body s'. rbind (encode_chain_header (replicate (body_capacity page_size) 0) h) (write_free_entries 0 es) = Ok body \<and>
    write_main_page s p r Free body = Ok s' \<and> chain_page s' r p = Ok (h, es) \<and> cfg_page_size s' = page_size \<and>
    (\<forall>q. q \<noteq> p \<longrightarrow> read_main_page s' q r Free = read_main_page s q r Free)"
proof -
  note cap = page_ok_capacity [OF ps(1)]
  have len: "length es < 2 ^ 32" "36 + 16 * length es \<le> body_capacity page_size" using cap h(2) by linarith+
  let ?body = "free_header_bytes h @ free_entry_bytes es @ replicate (body_capacity page_size - 36 - 16 * length es) 0"
  have "encode_chain_header (replicate (body_capacity page_size) 0) h = Ok (free_header_bytes h @ replicate (body_capacity page_size - 36) 0)"
    using len h(1) by (simp add: encode_chain_header_form)
  moreover have "write_free_entries 0 es (free_header_bytes h @ replicate (body_capacity page_size - 36) 0) = Ok ?body"
    using len by (simp add: write_free_entries_form write_at_def)
  ultimately have body: "rbind (encode_chain_header (replicate (body_capacity page_size) 0) h) (write_free_entries 0 es) = Ok ?body"
    by simp
  obtain s' where s': "write_main_page s p r Free ?body = Ok s'"
    using pager.write_ok [of Free ?body s p r] len ps(2) by auto
  have "chain_page s' r p = Ok (h, es)"
    using pager.read_written [OF s'] h len by (intro written_chain_page) auto
  then show ?thesis using body s' write_main_page_frame [OF s'] pager.read_other [OF s'] ps(2) by blast
qed

section \<open>A batch of pages on a retained tail\<close>

lemma chain_page_cong: "read_main_page s' q r Free = read_main_page s q r Free \<Longrightarrow> chain_page s' r q = chain_page s r q"
  by (simp add: chain_page_def)

lemma free_chain_frame:
  "(\<And>q. q \<in> set (chain_ids cs) \<Longrightarrow> read_main_page s' q r Free = read_main_page s q r Free) \<Longrightarrow> free_chain s r cs \<Longrightarrow> free_chain s' r cs"
proof (induction cs)
  case (Cons c cs)
  obtain p h es where "c = (p, h, es)" by (metis prod.exhaust)
  then show ?case using Cons chain_page_cong [of s' p r s] by simp
qed simp

definition first_page :: "page_id list \<Rightarrow> page_id" where
  "first_page ps = (case ps of [] \<Rightarrow> 0 | p # _ \<Rightarrow> p)"

lemma chain_start_ids: "chain_start cs = first_page (chain_ids cs)"
  by (cases cs rule: chain_start.cases) (simp_all add: first_page_def)

lemma chunk_starts_nth:
  "cursor \<le> n \<Longrightarrow> i < k \<Longrightarrow> chunk_starts cap n cursor k ! i = min (cursor + i * cap) n"
proof (induction k arbitrary: cursor i)
  case (Suc k)
  show ?case
  proof (cases i)
    case (Suc i')
    then show ?thesis using Suc.IH [of "min (cursor + cap) n" i'] Suc.prems by (simp add: min_def algebra_simps)
  qed (use Suc.prems in simp)
qed simp

lemma chunk_starts_length [simp]: "length (chunk_starts cap n cursor k) = k"
  by (induction k arbitrary: cursor) simp_all

lemma chunk_slice:
  "slice es (min (i * cap) (length es)) (min (min (i * cap) (length es) + cap) (length es)) = Ok (take cap (drop (i * cap) es))"
  by (cases "i * cap \<le> length es") (auto simp: slice_def min_def)

text \<open>Writing the pages below index \<open>i\<close> in front of the chain written so far.\<close>

lemma free_write_loop_chain:
  assumes ps: "page_ok page_size" and ids: "distinct (ps @ tp)" "0 \<notin> set ps" and len: "length es + length te < 2 ^ 64"
  shows "i \<le> length ps \<Longrightarrow> cfg_page_size s = page_size \<Longrightarrow> free_chain s r cs \<Longrightarrow> exact_chain cs \<Longrightarrow>
    chain_entries cs = drop (i * chain_capacity page_size) es @ te \<Longrightarrow> chain_ids cs = drop i ps @ tp \<Longrightarrow>
    \<exists>s' cs'. free_write_loop r page_size ps es (first_page tp) (chunk_starts (chain_capacity page_size) (length es) 0 (length ps))
        (rev [0..<i]) (summary_of_entries (chain_entries cs)) s = Ok s' \<and>
      free_chain s' r cs' \<and> exact_chain cs' \<and> chain_entries cs' = es @ te \<and> chain_ids cs' = ps @ tp \<and>
      (\<forall>q. q \<notin> set ps \<longrightarrow> read_main_page s' q r Free = read_main_page s q r Free)"
proof (induction i arbitrary: s cs)
  case 0
  then show ?case by auto
next
  case (Suc i)
  define cap where "cap = chain_capacity page_size"
  define chunk where "chunk = take cap (drop (i * cap) es)"
  define sm where "sm = summary_of_entries (chunk @ chain_entries cs)"
  define h where "h = \<lparr>ch_next = chain_start cs, ch_count = length chunk, ch_suffix_entries = cs_entries sm,
    ch_suffix_max_cid = cs_max_cid sm, ch_suffix_min_cid = cs_min_cid sm\<rparr>"
  have es: "drop (i * cap) es = chunk @ drop (Suc i * cap) es"
    unfolding chunk_def using append_take_drop_id [of cap "drop (i * cap) es"] by (simp add: add.commute)
  have cs_len: "length chunk + length (chain_entries cs) \<le> length es + length te"
  proof -
    have "length chunk + length (drop (Suc i * cap) es) \<le> length es" using arg_cong [OF es, of length] by simp
    then show ?thesis using Suc.prems(5) by (simp add: cap_def)
  qed
  have count: "of_nat (length chunk) \<le> cs_entries sm"
    using cs_len len by (simp add: sm_def summary_of_entries_def word_le_nat_alt flip: of_nat_add)
  obtain body s1 where b: "rbind (encode_chain_header (replicate (body_capacity page_size) 0) h) (write_free_entries 0 chunk) = Ok body"
      "write_main_page s (ps ! i) r Free body = Ok s1" "chain_page s1 r (ps ! i) = Ok (h, chunk)" "cfg_page_size s1 = page_size"
      "\<forall>q. q \<noteq> ps ! i \<longrightarrow> read_main_page s1 q r Free = read_main_page s q r Free"
    using write_free_page [OF ps Suc.prems(2), of h chunk "ps ! i" r] count by (auto simp: h_def chunk_def cap_def)
  have i: "i < length ps" and drop: "drop i ps = ps ! i # drop (Suc i) ps" using Suc.prems(1) Cons_nth_drop_Suc [of i ps] by auto
  have "ps ! i \<notin> set tp" using ids(1) nth_mem [OF i] by (auto simp del: nth_mem)
  then have "ps ! i \<notin> set (chain_ids cs)" using ids(1) drop Suc.prems(6) distinct_drop [of ps i] by auto
  then have c1: "free_chain s1 r cs" using free_chain_frame [of cs s1 r s] b(5) Suc.prems(3) by metis
  have new: "free_chain s1 r ((ps ! i, h, chunk) # cs)" "exact_chain ((ps ! i, h, chunk) # cs)"
    using c1 b(3) ids(2) nth_mem [OF i] Suc.prems(4) by (auto simp: h_def sm_def summary_of_header_def)
  have "chain_entries ((ps ! i, h, chunk) # cs) = drop (i * chain_capacity page_size) es @ te"
    "chain_ids ((ps ! i, h, chunk) # cs) = drop i ps @ tp"
    using Suc.prems(5,6) es drop by (simp_all add: cap_def)
  from Suc.IH [OF _ b(4) new this] i
  obtain s' cs' where s': "free_write_loop r page_size ps es (first_page tp) (chunk_starts cap (length es) 0 (length ps))
        (rev [0..<i]) sm s1 = Ok s'" "free_chain s' r cs'" "exact_chain cs'" "chain_entries cs' = es @ te" "chain_ids cs' = ps @ tp"
      "\<forall>q. q \<notin> set ps \<longrightarrow> read_main_page s' q r Free = read_main_page s1 q r Free"
    by (auto simp: cap_def sm_def)
  have nxt: "(if i + 1 < length ps then ps ! (i + 1) else first_page tp) = chain_start cs"
    using Suc.prems(6) by (auto simp: chain_start_ids first_page_def simp flip: Cons_nth_drop_Suc)
  have step: "free_write_loop r page_size ps es (first_page tp) (chunk_starts cap (length es) 0 (length ps))
      (i # rev [0..<i]) (summary_of_entries (chain_entries cs)) s = Ok s'"
  proof -
    have "index ps i = Ok (ps ! i)" "index (chunk_starts cap (length es) 0 (length ps)) i = Ok (min (i * cap) (length es))"
      using i by (simp_all add: index_def chunk_starts_nth)
    moreover have "extend_summary chunk (summary_of_entries (chain_entries cs)) = sm"
      using cs_len len by (simp add: sm_def extend_summary_append)
    moreover obtain b0 where "encode_chain_header (replicate (body_capacity page_size) 0) h = Ok b0" "write_free_entries 0 chunk b0 = Ok body"
      using b(1) by (auto simp: rbind_eq_Ok)
    moreover note h_def
    ultimately show ?thesis
      using s'(1) b(2) nxt chunk_slice [of es i cap] by (simp add: Let_def flip: cap_def chunk_def)
  qed
  have frame: "read_main_page s' q r Free = read_main_page s q r Free" if "q \<notin> set ps" for q
    using s'(6) b(5) that nth_mem [OF i] by metis
  show ?case
    using step s'(2-5) frame by (intro exI [of _ s'] exI [of _ cs']) (simp add: cap_def del: free_write_loop.simps)
qed

lemma free_write_chain_chain:
  assumes ps: "page_ok page_size" "cfg_page_size s = page_size" and ids: "distinct (ps @ chain_ids tcs)" "0 \<notin> set ps"
    and len: "length es + length (chain_entries tcs) < 2 ^ 64" and fits: "length es \<le> length ps * chain_capacity page_size"
    and ne: "es = [] \<Longrightarrow> ps = []" and tcs: "free_chain s r tcs" "exact_chain tcs"
    and tail: "tail = \<lparr>ct_head = chain_start tcs, ct_summary = summary_of_entries (chain_entries tcs)\<rparr>"
  shows "\<exists>s' cs'. free_write_chain s r page_size ps es tail = Ok (chain_start cs', s') \<and>
    free_chain s' r cs' \<and> exact_chain cs' \<and> chain_entries cs' = es @ chain_entries tcs \<and> chain_ids cs' = ps @ chain_ids tcs \<and>
    (\<forall>q. q \<notin> set ps \<longrightarrow> read_main_page s' q r Free = read_main_page s q r Free)"
proof (cases "es = []")
  case True
  then show ?thesis using tcs ne tail by (auto simp: free_write_chain_def)
next
  case False
  then have "ps \<noteq> []" using fits by auto
  then obtain p ps' where p: "ps = p # ps'" by (cases ps) auto
  have "chain_entries tcs = drop (length ps * chain_capacity page_size) es @ chain_entries tcs" using fits by simp
  from free_write_loop_chain [OF ps(1) ids len order_refl ps(2) tcs this] obtain s' cs'
    where "free_write_loop r page_size ps es (first_page (chain_ids tcs))
        (chunk_starts (chain_capacity page_size) (length es) 0 (length ps)) (rev [0..<length ps]) (ct_summary tail) s = Ok s'"
      "free_chain s' r cs'" "exact_chain cs'" "chain_entries cs' = es @ chain_entries tcs" "chain_ids cs' = ps @ chain_ids tcs"
      "\<forall>q. q \<notin> set ps \<longrightarrow> read_main_page s' q r Free = read_main_page s q r Free"
    by (auto simp: tail)
  then show ?thesis
    using False by (intro exI [of _ s'] exI [of _ cs']) (simp add: free_write_chain_def tail chain_start_ids first_page_def p)
qed

section \<open>Choosing the hosts\<close>

lemma div_ceil_mult: "0 < d \<Longrightarrow> n \<le> div_ceil n d * d"
proof (cases "n mod d = 0")
  case False
  moreover assume "0 < d"
  moreover have "div_ceil n d * d = n div d * d + d" using False by (simp add: div_ceil_def)
  ultimately show ?thesis using div_mult_mod_eq [of n d] mod_less_divisor [of d n] by linarith
qed (auto simp: div_ceil_def)

text \<open>
  The state of the choice: the pages chosen so far are hosts, all of them carved, or pages bumped
  from the cursor.
\<close>

definition carving :: "page_id list \<Rightarrow> page_id \<Rightarrow> nat \<Rightarrow> page_id set \<Rightarrow> page_id list \<Rightarrow> page_id \<Rightarrow> bool" where
  "carving hs next0 n carved cs nxt \<longleftrightarrow>
     carved = set cs \<inter> set hs \<and> distinct cs \<and> (\<forall>p \<in> set cs. p \<in> set hs \<or> next0 \<le> p \<and> p < nxt) \<and>
     (\<forall>p \<in> set hs. p < next0) \<and> next0 \<le> nxt \<and> card carved \<le> n - 1"

lemma carving_fresh: "carving hs next0 n carved cs nxt \<Longrightarrow> nxt \<notin> set hs \<and> nxt \<notin> set cs"
  unfolding carving_def by (meson leD less_irrefl)

lemma carving_host:
  assumes c: "carving hs next0 n carved cs nxt" and h: "h \<in> set hs" "h \<notin> set cs" and r: "1 < n - card carved"
  shows "carving hs next0 n (insert h carved) (cs @ [h]) nxt"
proof -
  have "finite carved" "h \<notin> carved" using c h by (auto simp: carving_def)
  then have "card (insert h carved) \<le> n - 1" using r by simp
  then show ?thesis using c h by (auto simp: carving_def)
qed

lemma carving_bump:
  assumes c: "carving hs next0 n carved cs nxt" and m: "unat nxt + 1 < 2 ^ 64"
  shows "carving hs next0 n carved (cs @ [nxt]) (nxt + 1)"
proof -
  have n1: "nxt < nxt + 1" using m unat_add_u64_no_wrap [of nxt 1] by (simp add: word_less_nat_alt)
  show ?thesis using c n1 carving_fresh [OF c] by (auto simp: carving_def)
qed

lemma carve_loop_hosts:
  assumes cap: "1 \<le> cap"
  shows "carving hs next0 n carved cs nxt \<Longrightarrow> distinct (cs @ hosts) \<Longrightarrow> set hosts \<subseteq> set hs \<Longrightarrow>
    unat nxt + (n - length cs) < 2 ^ 64 \<Longrightarrow>
    \<exists>carved' cs' nxt'. carve_loop cap n hosts carved cs nxt = Ok (carved', cs', nxt') \<and>
      carving hs next0 n carved' cs' nxt' \<and> n - card carved' \<le> length cs' * cap \<and> (n = 0 \<longrightarrow> cs' = cs) \<and> length cs' \<le> max n (length cs)"
proof (induction "n - length cs" arbitrary: hosts carved cs nxt rule: less_induct)
  case less
  define remaining where "remaining = n - card carved"
  define need where "need = (if remaining = 0 then 0 else div_ceil remaining cap)"
  have cn: "card carved \<le> n" using less.prems(1) by (auto simp: carving_def)
  have unf: "carve_loop cap n hosts carved cs nxt =
    (if need \<le> length cs then Ok (carved, cs, nxt)
     else case (if 1 < remaining then hosts else []) of
        h # hosts' \<Rightarrow> carve_loop cap n hosts' (insert h carved) (cs @ [h]) nxt
      | [] \<Rightarrow> if nxt = - 1 then Err (Panic ''attempt to add with overflow'')
               else carve_loop cap n hosts carved (cs @ [nxt]) (nxt + 1))"
    using cn cap by (subst carve_loop.simps) (simp add: remaining_def need_def Let_def)
  show ?case
  proof (cases "need \<le> length cs")
    case True
    have "remaining \<le> need * cap" using div_ceil_mult [of cap remaining] cap by (simp add: need_def)
    also have "\<dots> \<le> length cs * cap" using True by simp
    finally show ?thesis using True less.prems(1) unf by (simp add: remaining_def)
  next
    case False
    have "need \<le> remaining" using div_ceil_le [of cap remaining] cap by (auto simp: need_def)
    then have lt: "length cs < n" using False by (simp add: remaining_def)
    show ?thesis
    proof (cases "if 1 < remaining then hosts else []")
      case (Cons h hosts')
      then have h: "hosts = h # hosts'" "1 < n - card carved" by (auto simp: remaining_def split: if_splits)
      have c': "carving hs next0 n (insert h carved) (cs @ [h]) nxt"
        using less.prems(2,3) h by (intro carving_host [OF less.prems(1)]) auto
      show ?thesis
        using less.hyps [of "cs @ [h]", OF _ c', of hosts'] lt less.prems(2-4) h unf False Cons by simp
    next
      case Nil
      have m: "unat nxt + 1 < 2 ^ 64" using less.prems(4) lt by linarith
      then have nm: "nxt \<noteq> - 1" by (auto simp: unsigned_minus_1_eq_mask mask_eq_exp_minus_1)
      have un: "unat (nxt + 1) = unat nxt + 1" using m unat_add_u64_no_wrap [of nxt 1] by simp
      have "nxt \<notin> set hosts" "nxt \<notin> set cs" using carving_fresh [OF less.prems(1)] less.prems(3) by auto
      then show ?thesis
        using less.hyps [of "cs @ [nxt]", OF _ carving_bump [OF less.prems(1) m], of hosts] lt less.prems(2-4) unf False Nil nm un
        by simp
    qed
  qed
qed

lemma kept_length:
  assumes "distinct (map snd es)" "carved \<subseteq> snd ` set es"
  shows "length (filter (\<lambda>(_, p). p \<notin> carved) es) = length es - card carved"
proof -
  let ?out = "filter (\<lambda>(_, p). p \<in> carved) es"
  have "set (map snd ?out) = carved" using assms(2) by force
  moreover have "distinct (map snd ?out)" using assms(1) by (simp add: distinct_map_filter)
  ultimately have "length ?out = card carved" by (metis distinct_card length_map)
  moreover have "length ?out + length (filter (\<lambda>(_, p). p \<notin> carved) es) = length es"
    by (induction es) auto
  ultimately show ?thesis by linarith
qed

lemma exact_summary:
  "free_chain s r cs \<Longrightarrow> exact_chain cs \<Longrightarrow> read_chain_summary s r (chain_start cs) = Ok (summary_of_entries (chain_entries cs))"
  using summary_start [of s r cs] by (cases cs rule: exact_chain.cases) auto

text \<open>
  What \<open>rewrite_chain\<close> asks of its caller: the retained tail is a well-formed chain, the entries name
  each free page once, the hosts are among them and outside the tail, and the cursor lies above
  every page named so far.
\<close>

definition rewritable ::
  "pager \<Rightarrow> realm_id \<Rightarrow> nat \<Rightarrow> free_entry list \<Rightarrow> page_id list \<Rightarrow> page_id \<Rightarrow> chain_list \<Rightarrow> bool" where
  "rewritable s r page_size es hosts next_page tcs \<longleftrightarrow>
     page_ok page_size \<and> cfg_page_size s = page_size \<and> free_chain s r tcs \<and> exact_chain tcs \<and>
     distinct (map snd es) \<and> distinct hosts \<and> set hosts \<subseteq> snd ` set es \<and> set hosts \<inter> set (chain_ids tcs) = {} \<and>
     0 \<notin> set hosts \<and> (\<forall>p \<in> snd ` set es \<union> set (chain_ids tcs). p < next_page) \<and> next_page \<noteq> 0 \<and>
     unat next_page + length es < 2 ^ 64 \<and> length es + length (chain_entries tcs) < 2 ^ 64 \<and>
     length es + length tcs < 2 ^ 64"

definition tail_of :: "chain_list \<Rightarrow> chain_tail" where
  "tail_of tcs = \<lparr>ct_head = chain_start tcs, ct_summary = summary_of_entries (chain_entries tcs)\<rparr>"

lemma carve_kept:
  assumes "rewritable s r page_size es hosts next_page tcs"
  obtains carved new nxt where
    "carve_loop (chain_capacity page_size) (length es) hosts {} [] next_page = Ok (carved, new, nxt)"
    "filter (\<lambda>(_, p). p \<notin> carved) es = filter (\<lambda>(_, p). p \<notin> set new) es"
    "length (filter (\<lambda>(_, p). p \<notin> carved) es) = length es - card carved"
    "length es - card carved \<le> length new * chain_capacity page_size" "card carved \<le> length es - 1"
    "es = [] \<longrightarrow> new = []" "length new \<le> length es" "distinct (new @ chain_ids tcs)" "0 \<notin> set new"
    "\<forall>p \<in> set new. p \<in> set hosts \<or> next_page \<le> p \<and> p < nxt"
proof -
  note a = assms [unfolded rewritable_def]
  have cap: "1 \<le> chain_capacity page_size" using a page_ok_capacity by blast
  have "carving hosts next_page (length es) {} [] next_page" using a by (auto simp: carving_def)
  from carve_loop_hosts [OF cap this, of hosts] a
  obtain carved new nxt where cl: "carve_loop (chain_capacity page_size) (length es) hosts {} [] next_page = Ok (carved, new, nxt)"
      "carving hosts next_page (length es) carved new nxt" "length es - card carved \<le> length new * chain_capacity page_size"
      "length es = 0 \<longrightarrow> new = []" "length new \<le> length es"
    by auto
  have new: "carved = set new \<inter> set hosts" "distinct new" "\<forall>p \<in> set new. p \<in> set hosts \<or> next_page \<le> p \<and> p < nxt"
      "card carved \<le> length es - 1"
    using cl(2) by (auto simp: carving_def)
  have "p \<notin> carved \<longleftrightarrow> p \<notin> set new" if "p \<in> snd ` set es" for p
    using new(1,3) a that by (metis Int_iff Un_iff leD)
  then have "filter (\<lambda>(_, p). p \<notin> carved) es = filter (\<lambda>(_, p). p \<notin> set new) es"
    by (intro filter_cong refl) (metis (mono_tags, lifting) case_prod_beta imageI)
  moreover have "length (filter (\<lambda>(_, p). p \<notin> carved) es) = length es - card carved"
    using new(1) a by (intro kept_length) auto
  moreover have "set new \<inter> set (chain_ids tcs) = {}" "0 \<notin> set new"
  proof -
    have "\<forall>p \<in> set (chain_ids tcs). p < next_page" "set hosts \<inter> set (chain_ids tcs) = {}" "0 \<notin> set hosts" "0 < next_page"
      using a by (auto simp: word_neq_0_conv)
    then show "set new \<inter> set (chain_ids tcs) = {}" "0 \<notin> set new" using new(3) by (meson disjoint_iff leD)+
  qed
  moreover have "distinct (chain_ids tcs)" using a chain_distinct by blast
  ultimately show ?thesis using that [OF cl(1)] cl(3-5) new(2-4) by auto
qed

lemma rewrite_chain_chain:
  assumes rw: "rewritable s r page_size es hosts next_page tcs"
  shows "\<exists>next' s' new cs'. rewrite_chain s r page_size es hosts next_page (tail_of tcs) = Ok ((chain_start cs', next'), s') \<and>
    free_chain s' r cs' \<and> exact_chain cs' \<and> chain_entries cs' = filter (\<lambda>(_, p). p \<notin> set new) es @ chain_entries tcs \<and>
    chain_ids cs' = new @ chain_ids tcs \<and> length cs' < 2 ^ 64 \<and> (\<forall>p \<in> set new. p \<in> set hosts \<or> next_page \<le> p \<and> p < next') \<and>
    (\<forall>q. q \<notin> set new \<longrightarrow> read_main_page s' q r Free = read_main_page s q r Free)"
proof -
  note a = rw [unfolded rewritable_def]
  obtain carved new nxt where c: "carve_loop (chain_capacity page_size) (length es) hosts {} [] next_page = Ok (carved, new, nxt)"
    "filter (\<lambda>(_, p). p \<notin> carved) es = filter (\<lambda>(_, p). p \<notin> set new) es"
    "length (filter (\<lambda>(_, p). p \<notin> carved) es) = length es - card carved"
    "length es - card carved \<le> length new * chain_capacity page_size" "card carved \<le> length es - 1"
    "es = [] \<longrightarrow> new = []" "length new \<le> length es" and ids: "distinct (new @ chain_ids tcs)" "0 \<notin> set new"
    and new: "\<forall>p \<in> set new. p \<in> set hosts \<or> next_page \<le> p \<and> p < nxt"
    by (rule carve_kept [OF rw])
  define kept where "kept = filter (\<lambda>(_, p). p \<notin> set new) es"
  have kl: "length kept = length es - card carved" using c(2,3) by (simp add: kept_def)
  have "kept = [] \<Longrightarrow> es = []" using kl c(5) by (cases es) auto
  then have k: "length kept \<le> length new * chain_capacity page_size" "kept = [] \<Longrightarrow> new = []"
      "length kept + length (chain_entries tcs) < 2 ^ 64"
    using kl c(4,6) a by auto
  obtain s' cs' where w: "free_write_chain s r page_size new kept (tail_of tcs) = Ok (chain_start cs', s')"
      "free_chain s' r cs'" "exact_chain cs'" "chain_entries cs' = kept @ chain_entries tcs" "chain_ids cs' = new @ chain_ids tcs"
      "\<forall>q. q \<notin> set new \<longrightarrow> read_main_page s' q r Free = read_main_page s q r Free"
    using free_write_chain_chain [of page_size s new tcs kept r "tail_of tcs"] ids k a by (auto simp: tail_of_def)
  have "length cs' = length new + length tcs" using w(5) by (metis chain_ids_simps(4) length_append)
  then have "length cs' < 2 ^ 64" using c(7) a by linarith
  moreover have "rewrite_chain s r page_size es hosts next_page (tail_of tcs) = Ok ((chain_start cs', nxt), s')"
    using c(1,2) w(1) by (simp add: rewrite_chain_def kept_def)
  ultimately show ?thesis using w new unfolding kept_def by blast
qed

section \<open>Properties\<close>

text \<open>
  C34.  Rewriting a prefix of the free list loses no free page.  Under the precondition documented
  at \<open>rewrite_chain\<close>, the rewrite succeeds, and reading the chain it publishes returns the entries
  of the prefix whose pages it did not turn into chain pages, followed by the entries of the
  retained tail; every new chain page is a former free page or a page bumped from the cursor, no
  page hosts twice, the head page alone gives the number of entries, and no other page changes.
\<close>
theorem rewrite_chain_read:
  assumes "rewritable s r page_size es hosts next_page tcs"
  shows "\<exists>head next' s' new kept. rewrite_chain s r page_size es hosts next_page (tail_of tcs) = Ok ((head, next'), s') \<and>
    kept = filter (\<lambda>(_, p). p \<notin> set new) es \<and>
    free_read_chain s' r head = Ok (kept @ chain_entries tcs, new @ chain_ids tcs) \<and>
    count_chain s' r head = Ok (of_nat (length (kept @ chain_entries tcs))) \<and>
    distinct (new @ chain_ids tcs) \<and> (\<forall>p \<in> set new. p \<in> set hosts \<or> next_page \<le> p \<and> p < next') \<and>
    (\<forall>q. q \<notin> set new \<longrightarrow> read_main_page s' q r Free = read_main_page s q r Free)"
proof -
  obtain next' s' new cs' where w: "rewrite_chain s r page_size es hosts next_page (tail_of tcs) = Ok ((chain_start cs', next'), s')"
      "free_chain s' r cs'" "exact_chain cs'" "chain_entries cs' = filter (\<lambda>(_, p). p \<notin> set new) es @ chain_entries tcs"
      "chain_ids cs' = new @ chain_ids tcs" "length cs' < 2 ^ 64" "\<forall>p \<in> set new. p \<in> set hosts \<or> next_page \<le> p \<and> p < next'"
      "\<forall>q. q \<notin> set new \<longrightarrow> read_main_page s' q r Free = read_main_page s q r Free"
    using rewrite_chain_chain [OF assms] by blast
  have "count_chain s' r (chain_start cs') = Ok (of_nat (length (chain_entries cs')))"
    using exact_summary [OF w(2,3)] by (simp add: count_chain_def summary_of_entries_def)
  moreover note free_read_chain_chain [OF w(2,6)] chain_distinct [OF w(2)]
  ultimately show ?thesis using w unfolding w(4,5) by blast
qed

text \<open>
  C35.  The backlog count that reads only the straddling pages is exact: on a well-formed chain
  \<open>count_at_or_above_floor\<close> returns the number of entries of the whole chain whose freeing commit is
  at or above the floor.
\<close>
theorem count_floor_exact:
  assumes "free_chain s r cs" "exact_chain cs" "length (chain_entries cs) < 2 ^ 64"
  shows "count_at_or_above_floor s r (chain_start cs) floor_cid =
    Some (Ok (of_nat (length (filter (\<lambda>(commit_id, _). floor_cid \<le> commit_id) (chain_entries cs)))))"
  using count_loop_chain [OF assms(1) walk_at_new, of 0 floor_cid] assms(2,3) by (simp add: count_at_or_above_floor_def)

text \<open>
  C36.  Walks over the free list end on every store, also on a damaged one whose links form a cycle:
  the backlog count always returns, and a complete read visits no page twice.
\<close>
theorem free_walk_ends:
  "(\<exists>res. count_at_or_above_floor s r head floor_cid = Some res) \<and>
   (\<forall>es ps. free_read_chain s r head = Ok (es, ps) \<longrightarrow> distinct ps)"
proof (intro conjI allI impI)
  show "\<exists>res. count_at_or_above_floor s r head floor_cid = Some res"
    using count_loop_returns [OF walked_new] by (simp add: count_at_or_above_floor_def)
  fix es ps assume "free_read_chain s r head = Ok (es, ps)"
  then obtain w es' where "prefix_loop s r (2 ^ 64 - 1) (walk_new head) [] [] = Ok (w, es', ps)"
    by (auto simp: free_read_chain_def read_chain_prefix_def rbind_eq_Ok)
  then show "distinct ps" using prefix_loop_distinct [OF walked_new] by auto
qed

definition demo_free_pager :: pager where
  "demo_free_pager = \<lparr>cfg_page_size = 4096, cfg_buffer_pool_pages = 8, pool = (\<lambda>_. None), dirty_pages = [],
     cold_read = (\<lambda>_ _ _. Err NotFound)\<rparr>"

lemma demo_rewritable: "rewritable demo_free_pager [] 4096 [(1, 5), (2, 6), (3, 7)] [5] 8 []"
  by (simp add: rewritable_def demo_free_pager_def page_ok_def)

theorem rewrite_chain_read_witness:
  "\<exists>head next' s' new. rewrite_chain demo_free_pager [] 4096 [(1, 5), (2, 6), (3, 7)] [5] 8 (tail_of []) = Ok ((head, next'), s') \<and>
    free_read_chain s' [] head = Ok (filter (\<lambda>(_, p). p \<notin> set new) [(1, 5), (2, 6), (3, 7)], new)"
  using rewrite_chain_read [OF demo_rewritable] by fastforce

theorem count_floor_exact_witness:
  "\<exists>s cs. free_chain s [] cs \<and> cs \<noteq> [] \<and>
    count_at_or_above_floor s [] (chain_start cs) 2 = Some (Ok (of_nat (length (filter (\<lambda>(c, _). 2 \<le> c) (chain_entries cs)))))"
proof -
  obtain s' new cs' where w: "free_chain s' [] cs'" "exact_chain cs'"
      "chain_entries cs' = filter (\<lambda>(_, p). p \<notin> set new) [(1, 5), (2, 6), (3, 7)] @ chain_entries []"
      "\<forall>p \<in> set new. p \<in> set [5] \<or> 8 \<le> p"
    using rewrite_chain_chain [OF demo_rewritable] by blast
  have "(7 :: u64) \<notin> set new" using w(4) by auto
  then have "(3, 7) \<in> set (chain_entries cs')" unfolding w(3) by simp
  then have "cs' \<noteq> []" by auto
  moreover have "length (chain_entries cs') \<le> 3"
    unfolding w(3) using length_filter_le [of "\<lambda>(_, p). p \<notin> set new" "[(1 :: u64, 5 :: u64), (2, 6), (3, 7)]"] by simp
  ultimately show ?thesis using count_floor_exact [OF w(1,2)] w(1) by fastforce
qed

theorem free_walk_ends_witness:
  "\<exists>s head es ps. free_read_chain s [] head = Ok (es, ps) \<and> ps \<noteq> [] \<and> distinct ps"
proof -
  obtain s' new cs' where w: "free_chain s' [] cs'" "length cs' < 2 ^ 64"
      "chain_entries cs' = filter (\<lambda>(_, p). p \<notin> set new) [(1, 5), (2, 6), (3, 7)] @ chain_entries []"
      "\<forall>p \<in> set new. p \<in> set [5] \<or> 8 \<le> p"
    using rewrite_chain_chain [OF demo_rewritable] by blast
  have "(7 :: u64) \<notin> set new" using w(4) by auto
  then have "(3, 7) \<in> set (chain_entries cs')" unfolding w(3) by simp
  then have "cs' \<noteq> []" by auto
  then have "chain_ids cs' \<noteq> []" by (cases cs') auto
  then show ?thesis using free_walk_ends [of s' "[]" "chain_start cs'" 0] free_read_chain_chain [OF w(1,2)] by blast
qed

end
