(* ===== verification/Catalog.thy ===== *)
theory Catalog
  imports Byte_Cursor Crypto
begin

text \<open>
  The rows of the catalog tree (\<open>src/src/catalog/codec.rs\<close>): the keys that keep the row kinds apart,
  and the fixed-width values of segment, quota, counter and rekey rows.  The encoders fill a zeroed
  array of the row's width; the model writes that as the concatenation of the fields and the
  zero gaps.
\<close>

section \<open>Types\<close>

definition MAX_SEGMENT_NAME_LEN :: nat where "MAX_SEGMENT_NAME_LEN = 1024"

datatype catalog_row_kind =
  RowQuota | RowSegment | RowCounter | RowRekeyState | RowCompactionState | RowRekeySegmentProgress

fun row_kind_byte :: "catalog_row_kind \<Rightarrow> u8" where
  "row_kind_byte RowQuota = 0x00"
| "row_kind_byte RowSegment = 0x01"
| "row_kind_byte RowCounter = 0x02"
| "row_kind_byte RowRekeyState = 0x03"
| "row_kind_byte RowCompactionState = 0x07"
| "row_kind_byte RowRekeySegmentProgress = 0x08"

definition catalog_row_invalid :: "string \<Rightarrow> error" where
  "catalog_row_invalid fld = Corruption (CatalogRowInvalid fld)"

datatype rekey_stage =
  StageIntent | MainPagesTargetReadable | HeaderTargetPublished | MainDone | SegmentsPending

fun rekey_stage_byte :: "rekey_stage \<Rightarrow> u8" where
  "rekey_stage_byte StageIntent = 1"
| "rekey_stage_byte MainPagesTargetReadable = 2"
| "rekey_stage_byte HeaderTargetPublished = 3"
| "rekey_stage_byte MainDone = 4"
| "rekey_stage_byte SegmentsPending = 5"

definition rekey_stage_from_byte :: "u8 \<Rightarrow> rekey_stage result" where
  "rekey_stage_from_byte b =
     (if b = 1 then Ok StageIntent
      else if b = 2 then Ok MainPagesTargetReadable
      else if b = 3 then Ok HeaderTargetPublished
      else if b = 4 then Ok MainDone
      else if b = 5 then Ok SegmentsPending
      else Err (catalog_row_invalid ''rekey.stage''))"

record rekey_intent =
  ri_source_mk_epoch :: u64
  ri_target_mk_epoch :: u64
  ri_source_cipher_id :: u8
  ri_target_cipher_id :: u8
  ri_same_kek :: bool
  ri_stage :: rekey_stage
  ri_source_hk_proof :: bytes
  ri_target_hk_proof :: bytes

definition REKEY_INTENT_LEN :: nat where "REKEY_INTENT_LEN = 64"
definition REKEY_SEGMENT_PROGRESS_LEN :: nat where "REKEY_SEGMENT_PROGRESS_LEN = 20"

datatype progress_state = Sealed

fun progress_state_byte :: "progress_state \<Rightarrow> u8" where
  "progress_state_byte Sealed = 1"

definition progress_state_from_byte :: "u8 \<Rightarrow> progress_state result" where
  "progress_state_from_byte b =
     (if b = 1 then Ok Sealed else Err (catalog_row_invalid ''rekey.segment_progress.state''))"

record rekey_segment_progress =
  rp_replacement_segment_id :: bytes
  rp_state :: progress_state

datatype segment_kind = KindUnspecified

fun segment_kind_as_byte :: "segment_kind \<Rightarrow> u8" where
  "segment_kind_as_byte KindUnspecified = 0x00"

definition segment_kind_from_byte :: "u8 \<Rightarrow> segment_kind result" where
  "segment_kind_from_byte b = (if b = 0x00 then Ok KindUnspecified else Err Unsupported)"

record segment_meta =
  sm_segment_id :: bytes
  sm_segment_kind :: segment_kind
  sm_realm_id :: bytes
  sm_parent_file_id :: bytes
  sm_linked_commit :: "u64 option"
  sm_page_count :: u64
  sm_total_bytes :: u64
  sm_final_counter :: u64
  sm_mk_epoch :: u64
  sm_cipher_id :: u8
  sm_format_version :: u16
  sm_evictable :: evictable_class

record realm_quotas =
  rq_max_pages :: "u64 option"
  rq_max_dirty_pages :: "u64 option"
  rq_max_scratch_pages :: "u64 option"
  rq_max_segment_bytes :: "u64 option"

definition default_quotas :: realm_quotas where
  "default_quotas =
     \<lparr>rq_max_pages = None, rq_max_dirty_pages = None, rq_max_scratch_pages = None, rq_max_segment_bytes = None\<rparr>"

definition with_max_pages :: "realm_quotas \<Rightarrow> u64 \<Rightarrow> realm_quotas" where
  "with_max_pages q v = q\<lparr>rq_max_pages := Some v\<rparr>"

definition with_max_dirty_pages :: "realm_quotas \<Rightarrow> u64 \<Rightarrow> realm_quotas" where
  "with_max_dirty_pages q v = q\<lparr>rq_max_dirty_pages := Some v\<rparr>"

definition with_max_scratch_pages :: "realm_quotas \<Rightarrow> u64 \<Rightarrow> realm_quotas" where
  "with_max_scratch_pages q v = q\<lparr>rq_max_scratch_pages := Some v\<rparr>"

definition with_max_segment_bytes :: "realm_quotas \<Rightarrow> u64 \<Rightarrow> realm_quotas" where
  "with_max_segment_bytes q v = q\<lparr>rq_max_segment_bytes := Some v\<rparr>"

definition SEGMENT_META_LEN :: nat where "SEGMENT_META_LEN = 94"
definition REALM_QUOTAS_LEN :: nat where "REALM_QUOTAS_LEN = 33"

lemmas row_lengths =
  REKEY_INTENT_LEN_def REKEY_SEGMENT_PROGRESS_LEN_def SEGMENT_META_LEN_def REALM_QUOTAS_LEN_def

section \<open>Keys\<close>

definition quota_key :: "bytes \<Rightarrow> bytes" where
  "quota_key realm = row_kind_byte RowQuota # realm"

definition segment_key :: "bytes \<Rightarrow> bytes \<Rightarrow> bytes result" where
  "segment_key realm name =
     (if length name > MAX_SEGMENT_NAME_LEN then Err NameTooLong
      else Ok (row_kind_byte RowSegment # realm @ name))"

definition validate_segment_key :: "bytes \<Rightarrow> segment_meta \<Rightarrow> bytes result" where
  "validate_segment_key k m =
     (if k = [] \<or> hd k \<noteq> row_kind_byte RowSegment then Err (catalog_row_invalid ''segment.key.kind'')
      else if length k < 1 + 16 then Err (catalog_row_invalid ''segment.key.length'')
      else
        (let name = drop 17 k in
         if length name > MAX_SEGMENT_NAME_LEN then Err (catalog_row_invalid ''segment.key.name_length'')
         else
           rbind (slice k 1 17) (\<lambda>realm.
           if realm \<noteq> sm_realm_id m then Err (catalog_row_invalid ''segment.key.realm_id'')
           else Ok name)))"

definition rekey_state_key :: bytes where
  "rekey_state_key = [row_kind_byte RowRekeyState]"

definition rekey_segment_progress_key :: "bytes \<Rightarrow> bytes" where
  "rekey_segment_progress_key old_segment_id = row_kind_byte RowRekeySegmentProgress # old_segment_id"

definition counter_key :: "bytes \<Rightarrow> bytes result" where
  "counter_key name =
     (if length name > MAX_SEGMENT_NAME_LEN then Err NameTooLong
      else Ok (row_kind_byte RowCounter # name))"

section \<open>Rekey rows\<close>

definition encode_rekey_intent :: "rekey_intent \<Rightarrow> bytes" where
  "encode_rekey_intent i =
     1 # rekey_stage_byte (ri_stage i) # (if ri_same_kek i then 1 else 0) # 0 #
     u64_to_le_bytes (ri_source_mk_epoch i) @ u64_to_le_bytes (ri_target_mk_epoch i) @
     ri_source_cipher_id i # ri_target_cipher_id i # replicate 2 0 @
     ri_source_hk_proof i @ ri_target_hk_proof i @ replicate 8 0"

definition decode_rekey_state :: "bytes \<Rightarrow> rekey_intent result" where
  "decode_rekey_state bs =
     (if length bs \<noteq> REKEY_INTENT_LEN then Err (catalog_row_invalid ''rekey.framing'')
      else
        rbind (rd_u8 bs) (\<lambda>(version, rest).
        rbind (rd_u8 rest) (\<lambda>(stage_byte, rest).
        rbind (rd_u8 rest) (\<lambda>(same_kek_byte, rest).
        rbind (rd_u8 rest) (\<lambda>(reserved, rest).
        rbind (rd_u64 rest) (\<lambda>(source_mk_epoch, rest).
        rbind (rd_u64 rest) (\<lambda>(target_mk_epoch, rest).
        rbind (rd_u8 rest) (\<lambda>(source_cipher_id, rest).
        rbind (rd_u8 rest) (\<lambda>(target_cipher_id, rest).
        rbind (rd_bytes 2 rest) (\<lambda>(gap, rest).
        rbind (rd_bytes 16 rest) (\<lambda>(source_hk_proof, rest).
        rbind (rd_bytes 16 rest) (\<lambda>(target_hk_proof, unused).
        if version \<noteq> 1 \<or> reserved \<noteq> 0 \<or> \<not> list_all (\<lambda>b. b = 0) gap \<or> \<not> list_all (\<lambda>b. b = 0) unused
        then Err (catalog_row_invalid ''rekey.framing'')
        else if target_mk_epoch = 0 \<or> target_mk_epoch \<le> source_mk_epoch
        then Err (catalog_row_invalid ''rekey.epoch_ordering'')
        else if same_kek_byte \<noteq> 0 \<and> same_kek_byte \<noteq> 1 then Err (catalog_row_invalid ''rekey.same_kek'')
        else
          rbind (cipher_id_from_byte source_cipher_id) (\<lambda>_.
          rbind (cipher_id_from_byte target_cipher_id) (\<lambda>_.
          if source_cipher_id \<noteq> target_cipher_id then Err (RekeyStateInvalid ''target_cipher_id'')
          else
            rbind (rekey_stage_from_byte stage_byte) (\<lambda>stage.
            Ok \<lparr>ri_source_mk_epoch = source_mk_epoch, ri_target_mk_epoch = target_mk_epoch,
                ri_source_cipher_id = source_cipher_id, ri_target_cipher_id = target_cipher_id,
                ri_same_kek = (same_kek_byte = 1), ri_stage = stage,
                ri_source_hk_proof = source_hk_proof, ri_target_hk_proof = target_hk_proof\<rparr>)))))))))))))))"

definition encode_rekey_segment_progress :: "rekey_segment_progress \<Rightarrow> bytes" where
  "encode_rekey_segment_progress p =
     1 # progress_state_byte (rp_state p) # replicate 2 0 @ rp_replacement_segment_id p"

definition decode_rekey_segment_progress :: "bytes \<Rightarrow> rekey_segment_progress result" where
  "decode_rekey_segment_progress bs =
     (if length bs \<noteq> REKEY_SEGMENT_PROGRESS_LEN then Err (catalog_row_invalid ''rekey.segment_progress.framing'')
      else
        rbind (rd_u8 bs) (\<lambda>(version, rest).
        rbind (rd_u8 rest) (\<lambda>(state_byte, rest).
        rbind (rd_bytes 2 rest) (\<lambda>(gap, rest).
        rbind (rd_bytes 16 rest) (\<lambda>(replacement_segment_id, _).
        if version \<noteq> 1 \<or> \<not> list_all (\<lambda>b. b = 0) gap
        then Err (catalog_row_invalid ''rekey.segment_progress.framing'')
        else
          rbind (progress_state_from_byte state_byte) (\<lambda>state.
          Ok \<lparr>rp_replacement_segment_id = replacement_segment_id, rp_state = state\<rparr>))))))"

section \<open>Counter and quota rows\<close>

definition encode_counter :: "u64 \<Rightarrow> bytes" where
  "encode_counter v = u64_to_le_bytes v"

definition decode_counter :: "bytes \<Rightarrow> u64 result" where
  "decode_counter bs =
     (if length bs \<noteq> 8 then Err (catalog_row_invalid ''counter.value'') else Ok (u64_from_le_bytes bs))"

definition some_bit :: "nat \<Rightarrow> 'a option \<Rightarrow> u8" where
  "some_bit n x = (if x \<noteq> None then push_bit n 1 else 0)"

definition unwrap_or_zero :: "u64 option \<Rightarrow> u64" where
  "unwrap_or_zero x = (case x of None \<Rightarrow> 0 | Some v \<Rightarrow> v)"

definition encode_realm_quotas :: "realm_quotas \<Rightarrow> bytes" where
  "encode_realm_quotas q =
     (some_bit 0 (rq_max_pages q) OR some_bit 1 (rq_max_dirty_pages q) OR
      some_bit 2 (rq_max_scratch_pages q) OR some_bit 3 (rq_max_segment_bytes q)) #
     u64_to_le_bytes (unwrap_or_zero (rq_max_pages q)) @ u64_to_le_bytes (unwrap_or_zero (rq_max_dirty_pages q)) @
     u64_to_le_bytes (unwrap_or_zero (rq_max_scratch_pages q)) @
     u64_to_le_bytes (unwrap_or_zero (rq_max_segment_bytes q))"

definition decode_realm_quotas :: "bytes \<Rightarrow> realm_quotas result" where
  "decode_realm_quotas bs =
     (if length bs \<noteq> REALM_QUOTAS_LEN then Err (catalog_row_invalid ''realm_quotas.length'')
      else
        rbind (rd_u8 bs) (\<lambda>(mask, rest).
        rbind (rd_u64 rest) (\<lambda>(a, rest).
        rbind (rd_u64 rest) (\<lambda>(b, rest).
        rbind (rd_u64 rest) (\<lambda>(c, rest).
        rbind (rd_u64 rest) (\<lambda>(d, _).
        Ok \<lparr>rq_max_pages = (if mask AND 0b0001 \<noteq> 0 then Some a else None),
            rq_max_dirty_pages = (if mask AND 0b0010 \<noteq> 0 then Some b else None),
            rq_max_scratch_pages = (if mask AND 0b0100 \<noteq> 0 then Some c else None),
            rq_max_segment_bytes = (if mask AND 0b1000 \<noteq> 0 then Some d else None)\<rparr>))))))"

section \<open>Segment rows\<close>

fun evictable_byte :: "evictable_class \<Rightarrow> u8" where
  "evictable_byte Authoritative = 0"
| "evictable_byte Replaceable = 1"

fun linked_commit_bytes :: "u64 option \<Rightarrow> bytes" where
  "linked_commit_bytes (Some c) = 1 # u64_to_le_bytes c"
| "linked_commit_bytes None = 0 # replicate 8 0"

definition encode_segment_meta :: "segment_meta \<Rightarrow> bytes" where
  "encode_segment_meta m =
     sm_segment_id m @ segment_kind_as_byte (sm_segment_kind m) # sm_realm_id m @ sm_parent_file_id m @
     linked_commit_bytes (sm_linked_commit m) @ u64_to_le_bytes (sm_page_count m) @
     u64_to_le_bytes (sm_total_bytes m) @ u64_to_le_bytes (sm_final_counter m) @ u64_to_le_bytes (sm_mk_epoch m) @
     sm_cipher_id m # u16_to_le_bytes (sm_format_version m) @ [evictable_byte (sm_evictable m)]"

definition decode_linked_commit :: "u8 \<Rightarrow> bytes \<Rightarrow> u64 option result" where
  "decode_linked_commit tag b =
     (if tag = 0 then
        (if \<not> list_all (\<lambda>b. b = 0) b then Err (catalog_row_invalid ''segment_meta.linked_commit'') else Ok None)
      else if tag = 1 then Ok (Some (u64_from_le_bytes b))
      else Err (catalog_row_invalid ''segment_meta.linked_commit''))"

definition evictable_from_byte :: "u8 \<Rightarrow> evictable_class result" where
  "evictable_from_byte b =
     (if b = 0 then Ok Authoritative else if b = 1 then Ok Replaceable
      else Err (catalog_row_invalid ''segment_meta.evictable''))"

definition decode_segment_meta :: "bytes \<Rightarrow> segment_meta result" where
  "decode_segment_meta bs =
     (if length bs \<noteq> SEGMENT_META_LEN then Err (catalog_row_invalid ''segment_meta.length'')
      else
        rbind (rd_bytes 16 bs) (\<lambda>(segment_id, rest).
        rbind (rd_u8 rest) (\<lambda>(kind_byte, rest).
        rbind (segment_kind_from_byte kind_byte) (\<lambda>segment_kind.
        rbind (rd_bytes 16 rest) (\<lambda>(realm_id, rest).
        rbind (rd_bytes 16 rest) (\<lambda>(parent_file_id, rest).
        rbind (rd_u8 rest) (\<lambda>(tag, rest).
        rbind (rd_bytes 8 rest) (\<lambda>(commit_bytes, rest).
        rbind (decode_linked_commit tag commit_bytes) (\<lambda>linked_commit.
        rbind (rd_u64 rest) (\<lambda>(page_count, rest).
        rbind (rd_u64 rest) (\<lambda>(total_bytes, rest).
        rbind (rd_u64 rest) (\<lambda>(final_counter, rest).
        rbind (rd_u64 rest) (\<lambda>(mk_epoch, rest).
        rbind (rd_u8 rest) (\<lambda>(cipher_id, rest).
        rbind (rd_u16 rest) (\<lambda>(format_version, rest).
        rbind (rd_u8 rest) (\<lambda>(evictable_tag, _).
        rbind (evictable_from_byte evictable_tag) (\<lambda>evictable.
        Ok \<lparr>sm_segment_id = segment_id, sm_segment_kind = segment_kind, sm_realm_id = realm_id,
            sm_parent_file_id = parent_file_id, sm_linked_commit = linked_commit, sm_page_count = page_count,
            sm_total_bytes = total_bytes, sm_final_counter = final_counter, sm_mk_epoch = mk_epoch,
            sm_cipher_id = cipher_id, sm_format_version = format_version, sm_evictable = evictable\<rparr>)))))))))))))))))"

section \<open>Canonical rows\<close>

text \<open>The array fields have their width; a rekey intent moves to a later epoch under one known cipher.\<close>

definition segment_meta_ok :: "segment_meta \<Rightarrow> bool" where
  "segment_meta_ok m \<longleftrightarrow>
     length (sm_segment_id m) = 16 \<and> length (sm_realm_id m) = 16 \<and> length (sm_parent_file_id m) = 16"

definition rekey_intent_ok :: "rekey_intent \<Rightarrow> bool" where
  "rekey_intent_ok i \<longleftrightarrow>
     ri_source_mk_epoch i < ri_target_mk_epoch i \<and> ri_source_cipher_id i = ri_target_cipher_id i \<and>
     is_ok (cipher_id_from_byte (ri_target_cipher_id i)) \<and>
     length (ri_source_hk_proof i) = 16 \<and> length (ri_target_hk_proof i) = 16"

lemma zeros_iff: "list_all (\<lambda>b. b = 0) xs \<and> length xs = n \<longleftrightarrow> xs = replicate n (0 :: u8)"
  by (auto simp: list_all_iff intro: replicate_eqI)

lemma zero_bytes: "list_all (\<lambda>b. b = 0) xs \<longleftrightarrow> xs = replicate (length xs) (0 :: u8)"
  using zeros_iff [of xs "length xs"] by simp

lemma zeros_replicate [simp]: "list_all (\<lambda>b. b = 0) (replicate n (0 :: u8))"
  by (simp add: list_all_iff)

lemma stage_from_byte_Ok: "rekey_stage_from_byte b = Ok s \<longleftrightarrow> b = rekey_stage_byte s"
  by (cases s) (auto simp: rekey_stage_from_byte_def)

lemma state_from_byte_Ok: "progress_state_from_byte b = Ok s \<longleftrightarrow> b = progress_state_byte s"
  by (cases s) (auto simp: progress_state_from_byte_def)

lemma kind_from_byte_Ok: "segment_kind_from_byte b = Ok k \<longleftrightarrow> b = segment_kind_as_byte k"
  by (cases k) (auto simp: segment_kind_from_byte_def)

lemma evictable_from_byte_Ok: "evictable_from_byte b = Ok e \<longleftrightarrow> b = evictable_byte e"
  by (cases e) (auto simp: evictable_from_byte_def)

lemma linked_commit_Ok: "length b = 8 \<Longrightarrow> decode_linked_commit tag b = Ok l \<longleftrightarrow> tag # b = linked_commit_bytes l"
  using zeros_iff [of b 8] le64.enc_dec [of b]
  by (cases l) (auto simp: decode_linked_commit_def split: if_splits)

lemma enum_from_bytes [simp]:
  "rekey_stage_from_byte (rekey_stage_byte x) = Ok x" "progress_state_from_byte (progress_state_byte y) = Ok y"
  "segment_kind_from_byte (segment_kind_as_byte z) = Ok z" "evictable_from_byte (evictable_byte e) = Ok e"
  by (simp_all add: stage_from_byte_Ok state_from_byte_Ok kind_from_byte_Ok evictable_from_byte_Ok)

lemma enum_bind_Ok:
  "rbind (rekey_stage_from_byte b) F = Ok y \<longleftrightarrow> (\<exists>x. b = rekey_stage_byte x \<and> F x = Ok y)"
  "rbind (progress_state_from_byte b) G = Ok y \<longleftrightarrow> (\<exists>x. b = progress_state_byte x \<and> G x = Ok y)"
  "rbind (segment_kind_from_byte b) H = Ok y \<longleftrightarrow> (\<exists>x. b = segment_kind_as_byte x \<and> H x = Ok y)"
  "rbind (evictable_from_byte b) I = Ok y \<longleftrightarrow> (\<exists>x. b = evictable_byte x \<and> I x = Ok y)"
  "rbind (decode_linked_commit tag bs) J = Ok y \<longleftrightarrow> (\<exists>x. decode_linked_commit tag bs = Ok x \<and> J x = Ok y)"
  by (simp_all add: rbind_eq_Ok stage_from_byte_Ok state_from_byte_Ok kind_from_byte_Ok evictable_from_byte_Ok)

lemma linked_commit_bytes_length [simp]: "length (linked_commit_bytes l) = 9"
  by (cases l) simp_all

lemma encode_segment_meta_length: "segment_meta_ok m \<Longrightarrow> length (encode_segment_meta m) = 94"
  by (simp add: segment_meta_ok_def encode_segment_meta_def)

lemma decode_segment_meta_iff:
  "decode_segment_meta bs = Ok m \<longleftrightarrow> segment_meta_ok m \<and> bs = encode_segment_meta m"
proof
  assume "decode_segment_meta bs = Ok m"
  then show "segment_meta_ok m \<and> bs = encode_segment_meta m"
    unfolding decode_segment_meta_def cursor_simps enum_bind_Ok result.inject row_lengths not_not
    apply (elim exE conjE)
    apply (drule sym, hypsubst)
    apply (simp add: segment_meta_ok_def encode_segment_meta_def linked_commit_Ok flip: append_Cons)
    done
next
  assume ok: "segment_meta_ok m \<and> bs = encode_segment_meta m"
  obtain tag b where l: "linked_commit_bytes (sm_linked_commit m) = tag # b" "length b = 8"
    by (cases "sm_linked_commit m") auto
  show "decode_segment_meta bs = Ok m"
    using ok l linked_commit_Ok [OF l(2), of tag "sm_linked_commit m"] encode_segment_meta_length [of m]
    by (cases m) (simp add: decode_segment_meta_def row_lengths encode_segment_meta_def segment_meta_ok_def)
qed

lemma encode_rekey_intent_length: "rekey_intent_ok i \<Longrightarrow> length (encode_rekey_intent i) = 64"
  by (simp add: rekey_intent_ok_def encode_rekey_intent_def)

lemma cipher_bind_Ok: "rbind (cipher_id_from_byte b) (\<lambda>_. x) = Ok y \<longleftrightarrow> is_ok (cipher_id_from_byte b) \<and> x = Ok y"
  by (cases "cipher_id_from_byte b") auto

lemma epoch_order: "target = 0 \<or> target \<le> source \<longleftrightarrow> \<not> source < (target :: u64)"
  by (metis not_less word_gt_0_no not_less_zero word_not_simps(1))

lemma decode_rekey_state_iff:
  "decode_rekey_state bs = Ok i \<longleftrightarrow> rekey_intent_ok i \<and> bs = encode_rekey_intent i"
proof
  assume "decode_rekey_state bs = Ok i"
  then show "rekey_intent_ok i \<and> bs = encode_rekey_intent i"
    unfolding decode_rekey_state_def cursor_simps enum_bind_Ok cipher_bind_Ok epoch_order result.inject row_lengths not_not de_Morgan_disj de_Morgan_conj
    apply (elim exE conjE)
    apply (drule sym, hypsubst)
    apply (simp add: rekey_intent_ok_def encode_rekey_intent_def)
    apply (auto simp: zero_bytes)
    done
next
  assume "rekey_intent_ok i \<and> bs = encode_rekey_intent i"
  then show "decode_rekey_state bs = Ok i"
    using encode_rekey_intent_length [of i]
    by (cases i) (auto simp: decode_rekey_state_def row_lengths encode_rekey_intent_def rekey_intent_ok_def is_ok_iff epoch_order)
qed

lemma encode_progress_length: "length (rp_replacement_segment_id p) = 16 \<Longrightarrow> length (encode_rekey_segment_progress p) = 20"
  by (simp add: encode_rekey_segment_progress_def)

lemma decode_progress_iff:
  "decode_rekey_segment_progress bs = Ok p \<longleftrightarrow>
     length (rp_replacement_segment_id p) = 16 \<and> bs = encode_rekey_segment_progress p"
proof
  assume "decode_rekey_segment_progress bs = Ok p"
  then show "length (rp_replacement_segment_id p) = 16 \<and> bs = encode_rekey_segment_progress p"
    unfolding decode_rekey_segment_progress_def cursor_simps enum_bind_Ok result.inject row_lengths not_not de_Morgan_disj
    apply (elim exE conjE)
    apply (drule sym, hypsubst)
    apply (simp add: encode_rekey_segment_progress_def)
    apply (auto simp: zero_bytes)
    done
next
  assume "length (rp_replacement_segment_id p) = 16 \<and> bs = encode_rekey_segment_progress p"
  then show "decode_rekey_segment_progress bs = Ok p"
    by (cases p) (simp add: decode_rekey_segment_progress_def row_lengths encode_rekey_segment_progress_def rd_bytes_def)
qed

lemma rd_last [simp]: "rd_u64 (u64_to_le_bytes x) = Ok (x, [])"
  using rd_word_append(3) [of x "[]"] by simp

lemma decode_counter_iff: "decode_counter bs = Ok v \<longleftrightarrow> bs = encode_counter v"
  using le64.enc_dec [of bs] by (auto simp: decode_counter_def encode_counter_def)

lemma decode_quotas_encode: "decode_realm_quotas (encode_realm_quotas q) = Ok q"
proof (cases q)
  case (fields a b c d)
  show ?thesis
    unfolding fields
    by (cases a; cases b; cases c; cases d)
      (simp_all add: decode_realm_quotas_def encode_realm_quotas_def row_lengths some_bit_def unwrap_or_zero_def)
qed

section \<open>The row keys\<close>

datatype catalog_row =
  QuotaRow bytes | SegmentRow bytes bytes | CounterRow bytes | RekeyStateRow | ProgressRow bytes

fun row_key :: "catalog_row \<Rightarrow> bytes result" where
  "row_key (QuotaRow realm) = Ok (quota_key realm)"
| "row_key (SegmentRow realm name) = segment_key realm name"
| "row_key (CounterRow name) = counter_key name"
| "row_key RekeyStateRow = Ok rekey_state_key"
| "row_key (ProgressRow segment_id) = Ok (rekey_segment_progress_key segment_id)"

fun row_ids_ok :: "catalog_row \<Rightarrow> bool" where
  "row_ids_ok (QuotaRow realm) \<longleftrightarrow> length realm = 16"
| "row_ids_ok (SegmentRow realm name) \<longleftrightarrow> length realm = 16"
| "row_ids_ok (CounterRow name) \<longleftrightarrow> True"
| "row_ids_ok RekeyStateRow \<longleftrightarrow> True"
| "row_ids_ok (ProgressRow segment_id) \<longleftrightarrow> length segment_id = 16"

lemmas key_defs = quota_key_def segment_key_def counter_key_def rekey_state_key_def rekey_segment_progress_key_def

lemma validate_segment_key_iff:
  assumes "length (sm_realm_id m) = 16"
  shows "validate_segment_key k m = Ok name \<longleftrightarrow> segment_key (sm_realm_id m) name = Ok k"
proof
  assume "validate_segment_key k m = Ok name"
  then have k: "k \<noteq> []" "hd k = row_kind_byte RowSegment" "17 \<le> length k" "name = drop 17 k"
      "length name \<le> MAX_SEGMENT_NAME_LEN" "take 16 (drop 1 k) = sm_realm_id m"
    by (auto simp: validate_segment_key_def rbind_eq_Ok slice_eq_Ok Let_def split: if_splits)
  have "k = hd k # take 16 (drop 1 k) @ drop 16 (drop 1 k)"
    using k(1) by (cases k) simp_all
  then have "k = row_kind_byte RowSegment # sm_realm_id m @ name" using k(2,4,6) by simp
  then show "segment_key (sm_realm_id m) name = Ok k" using k(5) by (simp add: segment_key_def)
next
  assume "segment_key (sm_realm_id m) name = Ok k"
  then show "validate_segment_key k m = Ok name"
    using assms by (auto simp: segment_key_def validate_segment_key_def slice_def split: if_splits)
qed

lemma crashes_fails_only: "fails_only (\<lambda>e. \<not> fatal e) r \<longleftrightarrow> \<not> crashes r"
  by (cases r) simp_all

lemma enum_no_crash:
  "fails_only (\<lambda>e. \<not> fatal e) (rekey_stage_from_byte b)" "fails_only (\<lambda>e. \<not> fatal e) (progress_state_from_byte b)"
  "fails_only (\<lambda>e. \<not> fatal e) (segment_kind_from_byte b)" "fails_only (\<lambda>e. \<not> fatal e) (evictable_from_byte b)"
  "fails_only (\<lambda>e. \<not> fatal e) (decode_linked_commit tag bs)" "fails_only (\<lambda>e. \<not> fatal e) (cipher_id_from_byte b)"
  by (simp_all add: rekey_stage_from_byte_def progress_state_from_byte_def segment_kind_from_byte_def
    evictable_from_byte_def decode_linked_commit_def cipher_id_from_byte_def catalog_row_invalid_def)

lemma decoders_no_crash:
  "fails_only (\<lambda>e. \<not> fatal e) (decode_segment_meta bs)" "fails_only (\<lambda>e. \<not> fatal e) (decode_rekey_state bs)"
  "fails_only (\<lambda>e. \<not> fatal e) (decode_rekey_segment_progress bs)" "fails_only (\<lambda>e. \<not> fatal e) (decode_realm_quotas bs)"
  unfolding decode_segment_meta_def decode_rekey_state_def decode_rekey_segment_progress_def decode_realm_quotas_def row_lengths
  by (intro fails_only_rd fails_only_if fails_only_rbind enum_no_crash;
      (linarith | simp only: fails_only_simps catalog_row_invalid_def fatal.simps not_False_eq_True))+

section \<open>Properties\<close>

text \<open>
  C38.  Catalog rows are canonical: each decoder returns a value exactly from the bytes its encoder
  writes for that value, provided the value is well formed; quota rows, whose unset caps carry no
  meaning, decode to what was encoded.
\<close>
theorem catalog_rows_canonical:
  "(decode_segment_meta bs = Ok m \<longleftrightarrow> segment_meta_ok m \<and> bs = encode_segment_meta m) \<and>
   (decode_rekey_state bs = Ok i \<longleftrightarrow> rekey_intent_ok i \<and> bs = encode_rekey_intent i) \<and>
   (decode_rekey_segment_progress bs = Ok p \<longleftrightarrow>
      length (rp_replacement_segment_id p) = 16 \<and> bs = encode_rekey_segment_progress p) \<and>
   (decode_counter bs = Ok v \<longleftrightarrow> bs = encode_counter v) \<and>
   decode_realm_quotas (encode_realm_quotas q) = Ok q"
  by (intro conjI decode_segment_meta_iff decode_rekey_state_iff decode_progress_iff decode_counter_iff decode_quotas_encode)

text \<open>
  C39.  The rows of the catalog never collide: two rows with the same key are the same row, whatever
  their kinds, realms and names, and a segment key is accepted for a record exactly when it is the
  key of that record's realm and the returned name.
\<close>
theorem catalog_keys_distinct:
  assumes "row_ids_ok a" "row_ids_ok b" "row_key a = Ok k" "row_key b = Ok k" "length (sm_realm_id m) = 16"
  shows "a = b \<and> (validate_segment_key k' m = Ok name \<longleftrightarrow> segment_key (sm_realm_id m) name = Ok k')"
  using assms validate_segment_key_iff [OF assms(5)]
  by (cases a; cases b) (auto simp: key_defs split: if_splits)

theorem catalog_keys_distinct_witness:
  "row_key (SegmentRow (replicate 16 7) [1, 2]) = Ok (1 # replicate 16 7 @ [1, 2]) \<and>
   (validate_segment_key [3] \<lparr>sm_segment_id = [], sm_segment_kind = KindUnspecified, sm_realm_id = replicate 16 7,
       sm_parent_file_id = [], sm_linked_commit = None, sm_page_count = 0, sm_total_bytes = 0, sm_final_counter = 0,
       sm_mk_epoch = 0, sm_cipher_id = 0, sm_format_version = 0, sm_evictable = Authoritative\<rparr> = Ok [] \<longleftrightarrow>
    segment_key (replicate 16 7) [] = Ok [3])"
  using catalog_keys_distinct [of "SegmentRow (replicate 16 7) [1, 2]" "SegmentRow (replicate 16 7) [1, 2]"
      "1 # replicate 16 7 @ [1, 2]" "\<lparr>sm_segment_id = [], sm_segment_kind = KindUnspecified, sm_realm_id = replicate 16 7,
       sm_parent_file_id = [], sm_linked_commit = None, sm_page_count = 0, sm_total_bytes = 0, sm_final_counter = 0,
       sm_mk_epoch = 0, sm_cipher_id = 0, sm_format_version = 0, sm_evictable = Authoritative\<rparr>" "[3]" "[]"]
  by (simp add: segment_key_def MAX_SEGMENT_NAME_LEN_def)

text \<open>
  Whatever bytes a catalog row holds, decoding it gives a well-typed value or an error value and
  never a panic: array fields have their width, an accepted rekey intent moves to a later epoch
  under one known cipher, and every well-typed value encodes to a row of its fixed width.
\<close>
theorem catalog_rows_typed:
  "\<not> crashes (decode_segment_meta bs) \<and> \<not> crashes (decode_rekey_state bs) \<and>
   \<not> crashes (decode_rekey_segment_progress bs) \<and> \<not> crashes (decode_realm_quotas bs) \<and> \<not> crashes (decode_counter bs) \<and>
   (decode_segment_meta bs = Ok m \<longrightarrow> segment_meta_ok m) \<and> (decode_rekey_state bs = Ok i \<longrightarrow> rekey_intent_ok i) \<and>
   (segment_meta_ok m \<longrightarrow> length (encode_segment_meta m) = SEGMENT_META_LEN) \<and>
   (rekey_intent_ok i \<longrightarrow> length (encode_rekey_intent i) = REKEY_INTENT_LEN) \<and>
   length (encode_realm_quotas q) = REALM_QUOTAS_LEN"
  using decoders_no_crash [of bs] encode_segment_meta_length [of m] encode_rekey_intent_length [of i]
  by (simp add: crashes_fails_only decode_segment_meta_iff decode_rekey_state_iff row_lengths)
    (simp add: decode_counter_def catalog_row_invalid_def encode_realm_quotas_def)

definition demo_intent :: rekey_intent where
  "demo_intent = \<lparr>ri_source_mk_epoch = 0, ri_target_mk_epoch = 27, ri_source_cipher_id = 2, ri_target_cipher_id = 2,
     ri_same_kek = False, ri_stage = HeaderTargetPublished, ri_source_hk_proof = replicate 16 7,
     ri_target_hk_proof = replicate 16 8\<rparr>"

theorem catalog_rows_typed_witness:
  "decode_rekey_state (encode_rekey_intent demo_intent) = Ok demo_intent \<and> rekey_intent_ok demo_intent \<and>
   length (encode_rekey_intent demo_intent) = REKEY_INTENT_LEN"
proof -
  have ok: "rekey_intent_ok demo_intent"
    by (simp add: rekey_intent_ok_def demo_intent_def cipher_id_from_byte_def)
  then have "decode_rekey_state (encode_rekey_intent demo_intent) = Ok demo_intent" by (simp add: decode_rekey_state_iff)
  then show ?thesis
    using catalog_rows_typed [where bs = "encode_rekey_intent demo_intent" and i = demo_intent] by blast
qed

end
