(* ===== verification/Segment_Footer.thy ===== *)
theory Segment_Footer
  imports Struct_Header Nonce
begin

text \<open>
  The footer page of a segment (\<open>src/src/pager/format/segment_footer/\<close>): cleartext fields with a MAC
  under the header key, then the encrypted manifest with its tag, then zeros to the end of the
  page.  The nonce of the manifest follows the last page counter of the segment.
\<close>

definition FOOTER_MAGIC :: bytes where
  "FOOTER_MAGIC = [0x50, 0x41, 0x47, 0x45, 0x53, 0x45, 0x41, 0x4C]"

definition FOOTER_FORMAT_VERSION :: u16 where "FOOTER_FORMAT_VERSION = 1"
definition FOOTER_FIELDS_END :: nat where "FOOTER_FIELDS_END = 111"
definition FOOTER_HEADER_MAC_LEN :: nat where "FOOTER_HEADER_MAC_LEN = 16"
definition FOOTER_CLEARTEXT_END :: nat where "FOOTER_CLEARTEXT_END = FOOTER_FIELDS_END + FOOTER_HEADER_MAC_LEN"
definition MANIFEST_TAG_LEN :: nat where "MANIFEST_TAG_LEN = 16"

lemmas footer_consts =
  FOOTER_FIELDS_END_def FOOTER_HEADER_MAC_LEN_def FOOTER_CLEARTEXT_END_def MANIFEST_TAG_LEN_def

record segment_footer_fields =
  sf_format_version :: u16
  sf_cipher_id :: u8
  sf_segment_id :: bytes
  sf_parent_file_id :: bytes
  sf_realm_id :: bytes
  sf_mk_epoch :: u64
  sf_page_count :: u64
  sf_total_bytes :: u64
  sf_final_counter :: u64
  sf_index_start_page :: u64
  sf_index_page_count :: u32

text \<open>
  Encoding and decoding refuse a page shorter than the cleartext fields and the tag before they ask
  for this length, so the subtractions of the source do not wrap there.
\<close>

definition max_manifest_len :: "nat \<Rightarrow> nat" where
  "max_manifest_len page_size = page_size - FOOTER_CLEARTEXT_END - MANIFEST_TAG_LEN"

definition footer_mac_hk :: "crypto_prims \<Rightarrow> bytes \<Rightarrow> bytes \<Rightarrow> bytes result" where
  "footer_mac_hk P hk bs =
     rmap (take FOOTER_HEADER_MAC_LEN) (of_option (Io ''hk key length'') (hmac_sha256 P hk bs))"

definition footer_aad :: "segment_footer_fields \<Rightarrow> bytes" where
  "footer_aad f =
     aad_from_fields
       \<lparr>aad_cipher_id = sf_cipher_id f, aad_page_kind = PAGE_KIND_SEGMENT_FOOTER, aad_mk_epoch = sf_mk_epoch f,
        aad_page_id = 0, aad_realm_id = sf_realm_id f, aad_segment_id = sf_segment_id f\<rparr>"

text \<open>The nonce both directions compute; \<open>[u8; 6]\<close> is the front of the segment id.\<close>

definition footer_nonce :: "segment_footer_fields \<Rightarrow> bytes result" where
  "footer_nonce f =
     rbind (of_option NonceCounterExhausted
              (case checked_add_u64 (sf_final_counter f) 1 of
                 None \<Rightarrow> None
               | Some counter \<Rightarrow> if counter \<le> COUNTER_MAX then Some counter else None)) (\<lambda>nonce_counter.
     rbind (slice (sf_segment_id f) 0 6) (\<lambda>file_id.
     Ok (from_parts file_id nonce_counter)))"

section \<open>Encoding\<close>

definition footer_field_bytes :: "segment_footer_fields \<Rightarrow> u32 \<Rightarrow> u32 \<Rightarrow> bytes" where
  "footer_field_bytes f manifest_offset manifest_len =
     FOOTER_MAGIC @ u16_to_le_bytes (sf_format_version f) @ [sf_cipher_id f] @ sf_segment_id f @
     sf_parent_file_id f @ sf_realm_id f @ u64_to_le_bytes (sf_mk_epoch f) @ u64_to_le_bytes (sf_page_count f) @
     u64_to_le_bytes (sf_total_bytes f) @ u64_to_le_bytes (sf_final_counter f) @
     u32_to_le_bytes manifest_offset @ u32_to_le_bytes manifest_len @
     u64_to_le_bytes (sf_index_start_page f) @ u32_to_le_bytes (sf_index_page_count f)"

definition encode_segment_footer ::
  "crypto_prims \<Rightarrow> segment_footer_fields \<Rightarrow> bytes \<Rightarrow> bytes \<Rightarrow> cipher \<Rightarrow> nat \<Rightarrow> bytes result" where
  "encode_segment_footer P f manifest hk c page_size =
     (if sf_format_version f \<noteq> FOOTER_FORMAT_VERSION then Err Unsupported
      else if page_size < FOOTER_CLEARTEXT_END + MANIFEST_TAG_LEN then Err Unsupported
      else if length manifest > max_manifest_len page_size then Err ManifestTooLarge
      else if cipher_id_as_byte (cipher_id_of c) \<noteq> sf_cipher_id f then Err Unsupported
      else
        rbind (of_option Unsupported (u32_try_from FOOTER_CLEARTEXT_END)) (\<lambda>manifest_offset.
        rbind (of_option ManifestTooLarge (u32_try_from (length manifest))) (\<lambda>manifest_len.
        let field_bytes = footer_field_bytes f manifest_offset manifest_len in
        rbind (footer_mac_hk P hk field_bytes) (\<lambda>mac.
        rbind (footer_nonce f) (\<lambda>nonce.
        rbind (of_option (ArithmeticOverflow ''footer manifest end'')
                 (checked_add FOOTER_CLEARTEXT_END (length manifest))) (\<lambda>manifest_end.
        rbind (encrypt P c nonce (footer_aad f) manifest) (\<lambda>(ct, tag).
        rbind (of_option (ArithmeticOverflow ''footer manifest tag end'')
                 (checked_add manifest_end MANIFEST_TAG_LEN)) (\<lambda>tag_end.
        Ok (field_bytes @ mac @ ct @ tag @ replicate (page_size - tag_end) 0)))))))))"

section \<open>Decoding\<close>

record parsed_footer =
  pf_manifest_offset :: u32
  pf_manifest_len :: nat
  pf_fields :: segment_footer_fields

definition footer_fields_of :: "bytes \<Rightarrow> parsed_footer result" where
  "footer_fields_of bs =
     rbind (rd_bytes 8 bs) (\<lambda>(magic, rest).
     if magic \<noteq> FOOTER_MAGIC then Err (Corruption (FooterFramingInvalid ''magic''))
     else
     rbind (rd_u16 rest) (\<lambda>(format_version, rest).
     if format_version \<noteq> FOOTER_FORMAT_VERSION
     then Err (FormatVersionUnsupported format_version FOOTER_FORMAT_VERSION)
     else
     rbind (rd_u8 rest) (\<lambda>(cipher_id, rest).
     rbind (rd_bytes 16 rest) (\<lambda>(segment_id, rest).
     rbind (rd_bytes 16 rest) (\<lambda>(parent_file_id, rest).
     rbind (rd_bytes 16 rest) (\<lambda>(realm_id, rest).
     rbind (rd_u64 rest) (\<lambda>(mk_epoch, rest).
     rbind (rd_u64 rest) (\<lambda>(page_count, rest).
     rbind (rd_u64 rest) (\<lambda>(total_bytes, rest).
     rbind (rd_u64 rest) (\<lambda>(final_counter, rest).
     rbind (rd_u32 rest) (\<lambda>(manifest_offset, rest).
     rbind (rd_u32 rest) (\<lambda>(manifest_len, rest).
     rbind (rd_u64 rest) (\<lambda>(index_start_page, rest).
     rbind (rd_u32 rest) (\<lambda>(index_page_count, _).
     Ok \<lparr>pf_manifest_offset = manifest_offset, pf_manifest_len = unat manifest_len,
         pf_fields =
           \<lparr>sf_format_version = format_version, sf_cipher_id = cipher_id, sf_segment_id = segment_id,
            sf_parent_file_id = parent_file_id, sf_realm_id = realm_id, sf_mk_epoch = mk_epoch,
            sf_page_count = page_count, sf_total_bytes = total_bytes, sf_final_counter = final_counter,
            sf_index_start_page = index_start_page, sf_index_page_count = index_page_count\<rparr>\<rparr>))))))))))))))"

definition parse_cleartext :: "bytes \<Rightarrow> nat \<Rightarrow> parsed_footer result" where
  "parse_cleartext bs page_size =
     (if length bs \<noteq> page_size \<or> page_size < FOOTER_CLEARTEXT_END + MANIFEST_TAG_LEN then Err Unsupported
      else footer_fields_of bs)"

definition authenticate_cleartext :: "crypto_prims \<Rightarrow> bytes \<Rightarrow> bytes \<Rightarrow> parsed_footer \<Rightarrow> unit result" where
  "authenticate_cleartext P bs hk parsed =
     rbind (slice bs 0 FOOTER_FIELDS_END) (\<lambda>field_bytes.
     rbind (footer_mac_hk P hk field_bytes) (\<lambda>mac.
     rbind (slice bs FOOTER_FIELDS_END FOOTER_CLEARTEXT_END) (\<lambda>stored.
     rbind (of_option Unsupported (u32_try_from FOOTER_CLEARTEXT_END)) (\<lambda>expected_offset.
     if \<not> constant_time_eq mac stored \<or> pf_manifest_offset parsed \<noteq> expected_offset \<or>
        pf_manifest_len parsed > max_manifest_len (length bs)
     then Err (Corruption (FooterFramingInvalid ''manifest_offset_or_length''))
     else Ok ()))))"

definition assemble_fields :: "bytes \<Rightarrow> parsed_footer \<Rightarrow> cipher \<Rightarrow> (segment_footer_fields \<times> nat \<times> nat) result" where
  "assemble_fields bs parsed c =
     (let f = pf_fields parsed in
      if cipher_id_as_byte (cipher_id_of c) \<noteq> sf_cipher_id f
      then Err (Corruption (ManifestUnverifiable (sf_realm_id f) (sf_segment_id f)))
      else
        rbind (of_option (ArithmeticOverflow ''footer manifest end'')
                 (checked_add FOOTER_CLEARTEXT_END (pf_manifest_len parsed))) (\<lambda>ciphertext_end.
        rbind (of_option (ArithmeticOverflow ''footer manifest tag end'')
                 (checked_add ciphertext_end MANIFEST_TAG_LEN)) (\<lambda>tag_end.
        if tag_end > length bs then Err (Corruption (FooterFramingInvalid ''manifest_tag_end''))
        else Ok (f, ciphertext_end, tag_end))))"

definition authenticate_manifest ::
  "crypto_prims \<Rightarrow> bytes \<Rightarrow> cipher \<Rightarrow> segment_footer_fields \<Rightarrow> nat \<Rightarrow> nat \<Rightarrow> bytes result" where
  "authenticate_manifest P bs c f ciphertext_end tag_end =
     rbind (footer_nonce f) (\<lambda>nonce.
     rbind (slice bs FOOTER_CLEARTEXT_END ciphertext_end) (\<lambda>manifest.
     rbind (slice bs ciphertext_end tag_end) (\<lambda>tag.
     case decrypt P c nonce (footer_aad f) manifest tag of
       Err _ \<Rightarrow> Err (Corruption (ManifestUnverifiable (sf_realm_id f) (sf_segment_id f)))
     | Ok manifest \<Rightarrow>
         if \<not> list_all (\<lambda>b. b = 0) (drop tag_end bs)
         then Err (Corruption (FooterFramingInvalid ''trailing_bytes''))
         else Ok manifest)))"

definition decode_segment_footer ::
  "crypto_prims \<Rightarrow> bytes \<Rightarrow> bytes \<Rightarrow> cipher \<Rightarrow> nat \<Rightarrow> (segment_footer_fields \<times> bytes) result" where
  "decode_segment_footer P bs hk c page_size =
     rbind (parse_cleartext bs page_size) (\<lambda>parsed.
     rbind (authenticate_cleartext P bs hk parsed) (\<lambda>_.
     rbind (assemble_fields bs parsed c) (\<lambda>(f, ciphertext_end, tag_end).
     rbind (authenticate_manifest P bs c f ciphertext_end tag_end) (\<lambda>manifest.
     Ok (f, manifest)))))"

definition footer_identity_is_unverifiable :: "crypto_prims \<Rightarrow> bytes \<Rightarrow> bytes \<Rightarrow> bool" where
  "footer_identity_is_unverifiable P bs hk \<longleftrightarrow>
     (if length bs < FOOTER_CLEARTEXT_END then False
      else
        (case footer_mac_hk P hk (take FOOTER_FIELDS_END bs) of
           Err _ \<Rightarrow> False
         | Ok mac \<Rightarrow>
             \<not> constant_time_eq mac (take FOOTER_HEADER_MAC_LEN (drop FOOTER_FIELDS_END bs))))"

section \<open>The decoder inverts the encoder\<close>

definition footer_widths :: "segment_footer_fields \<Rightarrow> bool" where
  "footer_widths f \<longleftrightarrow>
     length (sf_segment_id f) = 16 \<and> length (sf_parent_file_id f) = 16 \<and> length (sf_realm_id f) = 16"

lemma FOOTER_MAGIC_length [simp]: "length FOOTER_MAGIC = 8"
  by (simp add: FOOTER_MAGIC_def)

lemma footer_field_bytes_length: "footer_widths f \<Longrightarrow> length (footer_field_bytes f off l) = 111"
  by (simp add: footer_field_bytes_def footer_widths_def)

lemma footer_fields_of_iff:
  "footer_fields_of bs = Ok p \<longleftrightarrow>
     footer_widths (pf_fields p) \<and> sf_format_version (pf_fields p) = FOOTER_FORMAT_VERSION \<and>
     (\<exists>l rest. pf_manifest_len p = unat l \<and> bs = footer_field_bytes (pf_fields p) (pf_manifest_offset p) l @ rest)"
    (is "_ \<longleftrightarrow> ?form")
proof
  assume "footer_fields_of bs = Ok p"
  then show ?form
    unfolding footer_fields_of_def cursor_simps result.inject not_not
    apply (elim exE conjE)
    apply (drule sym, hypsubst)
    apply (auto simp: footer_widths_def footer_field_bytes_def)
    done
next
  assume ?form
  then obtain l rest where f: "footer_widths (pf_fields p)" "sf_format_version (pf_fields p) = FOOTER_FORMAT_VERSION"
    "pf_manifest_len p = unat l" "bs = footer_field_bytes (pf_fields p) (pf_manifest_offset p) l @ rest" by blast
  then show "footer_fields_of bs = Ok p"
    by (cases p; cases "pf_fields p") (simp add: footer_fields_of_def footer_field_bytes_def footer_widths_def)
qed

lemma footer_mac_Ok: "crypto_laws P \<Longrightarrow> \<exists>t. footer_mac_hk P hk m = Ok t \<and> length t = 16"
  using mac_hk_Ok [of P hk m] by (simp add: footer_mac_hk_def mac_hk_def footer_consts MAC_LEN_def)

lemma encode_segment_footer_iff:
  "encode_segment_footer P f m hk c page_size = Ok bs \<longleftrightarrow>
     sf_format_version f = FOOTER_FORMAT_VERSION \<and> 143 + length m \<le> page_size \<and> length m < 2 ^ 32 \<and>
     143 + length m < 2 ^ 64 \<and> cipher_id_as_byte (cipher_id_of c) = sf_cipher_id f \<and>
     (\<exists>mac nonce ct tag. footer_mac_hk P hk (footer_field_bytes f 127 (of_nat (length m))) = Ok mac \<and>
        footer_nonce f = Ok nonce \<and> encrypt P c nonce (footer_aad f) m = Ok (ct, tag) \<and>
        bs = footer_field_bytes f 127 (of_nat (length m)) @ mac @ ct @ tag @ replicate (page_size - (143 + length m)) 0)"
proof -
  have u: "u32_try_from 127 = Some 127" by (simp add: u32_try_from_def)
  show ?thesis
    by (auto simp: encode_segment_footer_def footer_consts max_manifest_len_def u checked_add_def rbind_eq_Ok Let_def
      split: if_splits)
qed

lemma authenticate_cleartext_iff:
  assumes "143 \<le> length bs"
  shows "authenticate_cleartext P bs hk p = Ok () \<longleftrightarrow>
    footer_mac_hk P hk (take 111 bs) = Ok (take 16 (drop 111 bs)) \<and> pf_manifest_offset p = 127 \<and>
    pf_manifest_len p \<le> length bs - 143"
proof -
  have u: "u32_try_from 127 = Some 127" by (simp add: u32_try_from_def)
  show ?thesis
    using assms
    by (auto simp: authenticate_cleartext_def footer_consts max_manifest_len_def slice_def u rbind_eq_Ok split: if_splits)
qed

lemma authenticate_manifest_iff:
  assumes laws: "crypto_laws P" and n: "143 + n \<le> length bs"
  shows "authenticate_manifest P bs c f (127 + n) (143 + n) = Ok m \<longleftrightarrow>
    (\<exists>nonce. footer_nonce f = Ok nonce \<and>
       encrypt P c nonce (footer_aad f) m = Ok (take n (drop 127 bs), take 16 (drop (127 + n) bs))) \<and>
    list_all (\<lambda>b. b = 0) (drop (143 + n) bs)"
proof (cases "footer_nonce f")
  case (Ok nonce)
  have "authenticate_manifest P bs c f (127 + n) (143 + n) = Ok m \<longleftrightarrow>
      decrypt P c nonce (footer_aad f) (take n (drop 127 bs)) (take 16 (drop (127 + n) bs)) = Ok m \<and>
      list_all (\<lambda>b. b = 0) (drop (143 + n) bs)"
    using n Ok by (auto simp: authenticate_manifest_def footer_consts slice_def split: result.splits)
  then show ?thesis using Ok by (simp add: decrypt_iff_encrypt [OF laws])
qed (simp add: authenticate_manifest_def)

lemma assemble_fields_iff:
  "assemble_fields bs p c = Ok x \<longleftrightarrow>
     cipher_id_as_byte (cipher_id_of c) = sf_cipher_id (pf_fields p) \<and> 143 + pf_manifest_len p < 2 ^ 64 \<and>
     143 + pf_manifest_len p \<le> length bs \<and> x = (pf_fields p, 127 + pf_manifest_len p, 143 + pf_manifest_len p)"
  by (auto simp: assemble_fields_def footer_consts checked_add_def Let_def)

lemma decode_segment_footer_iff:
  "decode_segment_footer P bs hk c page_size = Ok (f, m) \<longleftrightarrow>
     length bs = page_size \<and> 143 \<le> page_size \<and>
     (\<exists>p. footer_fields_of bs = Ok p \<and> f = pf_fields p \<and> authenticate_cleartext P bs hk p = Ok () \<and>
        cipher_id_as_byte (cipher_id_of c) = sf_cipher_id f \<and> 143 + pf_manifest_len p < 2 ^ 64 \<and>
        143 + pf_manifest_len p \<le> page_size \<and>
        authenticate_manifest P bs c f (127 + pf_manifest_len p) (143 + pf_manifest_len p) = Ok m)"
  by (auto simp: decode_segment_footer_def parse_cleartext_def assemble_fields_iff rbind_eq_Ok footer_consts)

lemma take_regions: "xs = take a xs @ take b (drop a xs) @ take c (drop (a + b) xs) @ drop (a + b + c) xs"
proof -
  have "take (a + b + c) xs = take a xs @ take b (drop a xs) @ take c (drop (a + b) xs)" by (simp add: take_add)
  then show ?thesis using append_take_drop_id [of "a + b + c" xs] by simp
qed

lemma decode_footer_iff_encode:
  assumes laws: "crypto_laws P"
  shows "decode_segment_footer P bs hk c page_size = Ok (f, m) \<longleftrightarrow>
    footer_widths f \<and> encode_segment_footer P f m hk c page_size = Ok bs"
    (is "?decoded \<longleftrightarrow> ?encoded")
proof
  assume ?decoded
  then obtain p where d: "length bs = page_size" "143 \<le> page_size" "footer_fields_of bs = Ok p" "f = pf_fields p"
      "authenticate_cleartext P bs hk p = Ok ()" "cipher_id_as_byte (cipher_id_of c) = sf_cipher_id f"
      "143 + pf_manifest_len p < 2 ^ 64" "143 + pf_manifest_len p \<le> page_size"
      "authenticate_manifest P bs c f (127 + pf_manifest_len p) (143 + pf_manifest_len p) = Ok m"
    unfolding decode_segment_footer_iff by blast
  have ac: "footer_mac_hk P hk (take 111 bs) = Ok (take 16 (drop 111 bs))" "pf_manifest_offset p = 127"
    using authenticate_cleartext_iff [of bs P hk p] d(1,2,5) by auto
  obtain l rest where fo: "footer_widths f" "sf_format_version f = FOOTER_FORMAT_VERSION" "pf_manifest_len p = unat l"
      "bs = footer_field_bytes f 127 l @ rest"
    using d(3,4) ac(2) unfolding footer_fields_of_iff by auto
  obtain nonce where am: "footer_nonce f = Ok nonce"
      "encrypt P c nonce (footer_aad f) m = Ok (take (unat l) (drop 127 bs), take 16 (drop (127 + unat l) bs))"
      "list_all (\<lambda>b. b = 0) (drop (143 + unat l) bs)"
    using authenticate_manifest_iff [OF laws, of "unat l" bs c f m] d(1,8,9) fo(3) by auto
  note len = footer_field_bytes_length [OF fo(1), of 127 l]
  have ml: "length m = unat l" using encrypt_lengths [OF laws am(2)] d(1,8) fo(3) by simp
  then have l: "of_nat (length m) = l" by simp
  have "rest = take 16 rest @ take (unat l) (drop 16 rest) @ take 16 (drop (16 + unat l) rest) @ drop (32 + unat l) rest"
    using take_regions [of rest 16 "unat l" 16] by (simp add: add.commute)
  moreover have "drop (32 + unat l) rest = replicate (page_size - (143 + length m)) 0"
    using am(3) d(1) len fo(4) ml by (auto simp: list_all_zero)
  ultimately have "bs = footer_field_bytes f 127 l @ take 16 (drop 111 bs) @ take (unat l) (drop 127 bs) @
      take 16 (drop (127 + unat l) bs) @ replicate (page_size - (143 + length m)) 0"
    using fo(4) len by simp
  moreover have "take 111 bs = footer_field_bytes f 127 l" using fo(4) len by simp
  ultimately show ?encoded
    unfolding encode_segment_footer_iff using fo(1,2,3) d(6,7,8) ac(1) am(1,2) ml l unat_lt2p [of l] by (auto simp: l)
next
  assume e: ?encoded
  then obtain mac nonce ct tag where en: "footer_widths f" "sf_format_version f = FOOTER_FORMAT_VERSION"
      "143 + length m \<le> page_size" "length m < 2 ^ 32" "143 + length m < 2 ^ 64" "cipher_id_as_byte (cipher_id_of c) = sf_cipher_id f"
      "footer_mac_hk P hk (footer_field_bytes f 127 (of_nat (length m))) = Ok mac" "footer_nonce f = Ok nonce"
      "encrypt P c nonce (footer_aad f) m = Ok (ct, tag)"
      "bs = footer_field_bytes f 127 (of_nat (length m)) @ mac @ ct @ tag @ replicate (page_size - (143 + length m)) 0"
    unfolding encode_segment_footer_iff by blast
  note len = footer_field_bytes_length [OF en(1), of 127 "of_nat (length m)"]
  have lens: "length mac = 16" "length ct = length m" "length tag = 16"
    using footer_mac_Ok [OF laws, of hk] en(7) encrypt_lengths [OF laws en(9)] by (metis result.inject(1))+
  have lbs: "length bs = page_size" using en(3,10) len lens by simp
  let ?p = "\<lparr>pf_manifest_offset = 127, pf_manifest_len = length m, pf_fields = f\<rparr>"
  have "unat (of_nat (length m) :: u32) = length m" using en(4) by simp
  then have "footer_fields_of bs = Ok ?p" 
    unfolding footer_fields_of_iff using en(1,2,10) by (intro conjI exI [of _ "of_nat (length m)"] exI) simp_all
  moreover have "authenticate_cleartext P bs hk ?p = Ok ()"
    using authenticate_cleartext_iff [of bs P hk ?p] lbs en(3,7,10) len lens by simp
  moreover have "authenticate_manifest P bs c f (127 + length m) (143 + length m) = Ok m"
    using authenticate_manifest_iff [OF laws, of "length m" bs c f m] lbs en(3,8,9,10) len lens by (simp add: list_all_zero)
  ultimately show ?decoded unfolding decode_segment_footer_iff using lbs en(3,5,6) by auto
qed

section \<open>Properties\<close>

text \<open>
  C37.  The segment footer is canonical.  Under the laws of the primitives, decoding returns fields
  and a manifest exactly from the page the encoder writes for them: what was encoded decodes, and
  a footer with any other byte on the page -- fields, MAC, manifest, tag or the zero tail -- is
  refused.
\<close>
theorem footer_canonical:
  assumes "crypto_laws P"
  shows "decode_segment_footer P bs hk c page_size = Ok (f, m) \<longleftrightarrow>
    footer_widths f \<and> encode_segment_footer P f m hk c page_size = Ok bs"
  by (rule decode_footer_iff_encode [OF assms])

definition demo_footer :: segment_footer_fields where
  "demo_footer = \<lparr>sf_format_version = 1, sf_cipher_id = 1, sf_segment_id = replicate 16 3, sf_parent_file_id = replicate 16 4,
     sf_realm_id = replicate 16 5, sf_mk_epoch = 1, sf_page_count = 9, sf_total_bytes = 36864, sf_final_counter = 8,
     sf_index_start_page = 7, sf_index_page_count = 1\<rparr>"

theorem footer_canonical_witness:
  "\<exists>bs. decode_segment_footer demo_prims bs (replicate 32 9) (CAes256Gcm (replicate 32 2)) 4096 = Ok (demo_footer, [1, 2, 3])"
proof -
  have w: "footer_widths demo_footer" by (simp add: footer_widths_def demo_footer_def)
  have n: "footer_nonce demo_footer = Ok (from_parts (replicate 6 3) 9)"
    by (simp add: footer_nonce_def demo_footer_def checked_add_u64_def slice_def COUNTER_MAX_def)
  obtain mac where mac: "footer_mac_hk demo_prims (replicate 32 9) (footer_field_bytes demo_footer 127 (of_nat (length [1 :: u8, 2, 3]))) = Ok mac"
    using footer_mac_Ok [OF demo_prims_laws] by blast
  have "length [1 :: u8, 2, 3] \<le> 2 ^ 32" by simp
  from encrypt_total [OF demo_prims_laws this] obtain ct tag where "encrypt demo_prims (CAes256Gcm (replicate 32 2)) (from_parts (replicate 6 3) 9) (footer_aad demo_footer) [1, 2, 3] = Ok (ct, tag)"
    by blast
  then have "\<exists>bs. encode_segment_footer demo_prims demo_footer [1, 2, 3] (replicate 32 9) (CAes256Gcm (replicate 32 2)) 4096 = Ok bs"
    using mac n unfolding encode_segment_footer_iff by (simp add: demo_footer_def FOOTER_FORMAT_VERSION_def)
  then show ?thesis using footer_canonical [OF demo_prims_laws] w by blast
qed

end
