(* ===== verification/Spec2Isabelle.thy ===== *)
theory Spec2Isabelle
  imports Tree_Listing Data_Page AB_Header Cache_Run Freelist_Write Catalog Segment_Footer
begin

text \<open>
  \<^bold>\<open>Verification of pagedb, an embedded encrypted page store\<close>

  \<^bold>\<open>The program.\<close> pagedb keeps a key-value store in one file of fixed-size pages, \<open>main.db\<close>, next to
  immutable segment files. From the top down its parts are:
  \<^item> a copy-on-write B+ tree (\<open>src/src/btree/\<close>) whose leaves hold small values inline and large ones
    as chains of overflow pages. A write session allocates new pages, never changes a page the last
    commit can reach, and gathers changed leaves in memory until it flushes;
  \<^item> a catalog (\<open>src/src/catalog/\<close>), a second tree whose rows name segments, quotas, counters and the
    progress of a key rotation;
  \<^item> a pager (\<open>src/src/pager/\<close>) with a bounded page cache, a durable list of free pages, the formats
    of data pages, headers and segment footers, and the A/B header pages that make a commit atomic;
  \<^item> cryptography (\<open>src/src/crypto/\<close>): a key hierarchy, a cipher per file and purpose, and nonces
    that must never repeat;
  \<^item> virtual file systems (\<open>src/src/vfs/\<close>), of which the one in memory is the reference.

  A lookup descends the tree through pages the pager finds in its cache or reads, authenticates and
  decrypts. A commit flushes the tree's leaves to new pages, seals each page under a fresh nonce,
  rewrites the front of the free list, and then switches the header slot.

  \<^bold>\<open>Conventions.\<close> \<open>Prelude\<close> fixes them. Persisted integers, page ids and counters are words of their
  width, so they wrap, saturate or are checked as in the source; \<open>usize\<close> is \<^typ>\<open>nat\<close>, with the 64-bit
  bound written out where the source checks it. A fallible function returns \<open>Ok\<close> or \<open>Err\<close>; panics
  and endless loops are the values \<open>Err Panic\<close> and \<open>Err Hang\<close>, so a theorem that a result is \<open>Ok\<close>, or
  an error of a given kind, excludes both. A method that changes its object returns the object it
  leaves, on an error too. Asynchronous functions are modelled as they run between their awaits:
  one call at a time.

  \<^bold>\<open>Theories and sources.\<close>
  \<^item> \<open>Prelude\<close>, \<open>Byte_Cursor\<close>: types, errors (\<open>errors/\<close>), slices, little-endian codecs (locale
    \<open>fixed_codec\<close>), binary search, cursors over a buffer.
  \<^item> \<open>Page_Kind\<close>, \<open>Node\<close>, \<open>Sorted_Vec\<close>, \<open>Leaf_Node\<close>, \<open>Internal_Node\<close>, \<open>Split\<close>: \<open>page_space.rs\<close>,
    \<open>page_kind.rs\<close>, \<open>node.rs\<close>, \<open>leaf.rs\<close>, \<open>internal.rs\<close>, \<open>split.rs\<close>. Locale \<open>slotted_records\<close> is the slot
    directory both node kinds share; \<open>ordered_map_delete\<close> is what a leaf promises its clients.
  \<^item> \<open>Pager_Store\<close>, \<open>Overflow\<close>: the pager as the tree sees it (\<open>pager/core/read.rs\<close>, \<open>write.rs\<close>;
    locale \<open>page_store\<close>) and \<open>overflow.rs\<close> (locale \<open>page_allocator\<close>).
  \<^item> \<open>Tree_Core\<close>, \<open>Tree_Navigate\<close>, \<open>Tree_Read\<close>, \<open>Tree_Scan\<close>, \<open>Tree_Write\<close>: the operations of
    \<open>btree/tree/\<close>. \<open>Tree_Rep\<close>, \<open>Tree_Update\<close>, \<open>Tree_Split\<close>, \<open>Tree_Inv\<close>, \<open>Tree_Lookup\<close>,
    \<open>Tree_Steps\<close>, \<open>Tree_Put\<close>, \<open>Tree_Session\<close>: the correctness of lookups, insertions and deletions.
    \<open>Tree_Leaves\<close>, \<open>Tree_Walk\<close>, \<open>Tree_Visits\<close>, \<open>Tree_Listing\<close>: that of the scans. Locale \<open>leaf_walk\<close> is a
    walk over the leaves, interpreted for both directions; locale \<open>record_visit\<close> is what a scan does
    with the records of a leaf, interpreted for each kind of scan.
  \<^item> \<open>Crypto\<close>, \<open>Keys\<close>, \<open>Nonce\<close>: \<open>crypto/\<close> and the keyring. HMAC, HKDF and the AEAD ciphers come from
    other crates; they are the parameter \<open>crypto_prims\<close>, with the hypothesis \<open>crypto_laws\<close> on output
    lengths and on decryption inverting encryption. \<open>demo_prims\<close> satisfies it.
  \<^item> \<open>Data_Page\<close>, \<open>Struct_Header\<close>, \<open>Segment_Footer\<close>: \<open>pager/format/\<close>.
  \<^item> \<open>Vfs_Io\<close>, \<open>Vfs_Path\<close>, \<open>Mem_Vfs\<close>: \<open>vfs/traits.rs\<close> (locale \<open>positional_file\<close>) and \<open>vfs/memory.rs\<close>.
  \<^item> \<open>AB_Header\<close>: \<open>pager/header.rs\<close>, \<open>pager/anchor.rs\<close> and the header half of opening a store.
  \<^item> \<open>Page_Cache\<close> and \<open>Cache_List\<close>, \<open>Cache_Inv\<close>, \<open>Cache_Ops\<close>, \<open>Cache_Dirty\<close>, \<open>Cache_Run\<close>:
    \<open>pager/cache/\<close>, the operations first, then the linked list, the invariant, the effect of every
    operation, and runs.
  \<^item> \<open>Freelist\<close>, \<open>Freelist_Walk\<close>, \<open>Freelist_Write\<close>: \<open>pager/freelist/\<close>.
  \<^item> \<open>Catalog\<close>: \<open>catalog/codec.rs\<close>.

  \<^bold>\<open>What the theorems show.\<close>
  \<^item> Tree: a session refines a finite map. Any sequence of operations that succeeds, started on an
    empty tree, answers as the map does; a deletion returns while page ids last, and an insertion
    returns when the changed leaf fits (\<open>Tree_Session\<close>). The invariant behind them (\<open>Tree_Inv\<close>) ties
    the stored pages to an abstract tree in key order, with every page owned once; a session touches
    no page a commit can still reach (\<open>Tree_Core\<close>).
  \<^item> Scans: every scan returns exactly its part of the map's listing in key order, and a scan resumed
    after the last key of a batch neither skips nor repeats a pair. \<open>Tree_Listing\<close> also shows a tree
    with a key for which \<open>first_key\<close> finds none, because deletion leaves an emptied leaf in place.
  \<^item> Nodes and chains: encoding and reading back give the same node, reading arbitrary bytes does
    not panic, a leaf is a map, splits keep the routing, and the walks over an overflow chain read
    exactly the pages of the value stored and never follow a cycle around. The leaf split returns
    exactly when a fitting split exists, and \<open>Split\<close> ends with a record that passes every check and for which none does.
  \<^item> Cryptography: no nonce of \<open>main.db\<close> is issued twice over any run with crashes, and each lies in
    the window above the durable anchor (\<open>Nonce\<close>); two key derivations never share their input; the
    cipher cache is transparent; a page opens exactly when it is the sealing of what it opens to.
  \<^item> Formats: main header, segment header, segment footer and catalog rows are canonical, that is,
    they decode to given fields exactly from the bytes the encoder writes for them, and on other bytes
    the decoders return an error value.
  \<^item> Files and header: positional writes are read back, paths stay below the root, locks exclude,
    and a commit torn at any byte opens at the old header or the new one (\<open>AB_Header\<close>). The last is
    under two assumptions: a slot that mixes old and new bytes carries no valid HMAC under the keys
    the open tries (\<open>untagged\<close>), and a slot A about to be overwritten has the new header's framing.
  \<^item> Page cache: no run of operations latches a fault, exceeds the budget or loses a dirty page, and
    the eviction walk finds a victim within its step bound (\<open>Cache_Run\<close>).
  \<^item> Free list: a rewritten prefix on a retained tail reads back as the kept entries followed by the
    tail's, on pages carved from the list or newly taken; the count that skips pages by their
    summaries equals the full one; and Floyd's detection ends the walk on every store.

  \<^bold>\<open>Loops and bounds.\<close> Walks over page graphs (descents, scans, overflow chains) end because each
  iteration adds to a visited set of 64-bit ids; \<open>seen_measure\<close> is the number left. The free-list
  reader has the source's own limit of \<open>usize::MAX\<close> pages; its counting loop has none and is a
  \<open>partial_function\<close>, shown to return on every store. The split search is a \<open>partial_function\<close>, its
  endless case \<open>None\<close>. The transfer loops end because every call reports progress,
  and the eviction walk carries the source's own step bound.

  \<^bold>\<open>Not modelled.\<close> The asynchronous pager and database handles (locks, guards, group commit, the
  interleaving of tasks at awaits), transactions, recovery, compaction, snapshots and rotation of
  whole stores; bulk loading, with the early flushes it asks of the overflow writer, and
  the audit walks of the tree; segment readers and writers; the bindings to operating-system files;
  time, randomness, statistics and the \<open>fsck\<close> command line. In
  \<open>Pager_Store\<close> the outcome of a cold read is a function of the state, so the tree theorems hold for
  whatever the disk returns; that a sealed page opens again is shown in \<open>Data_Page\<close>.
\<close>

end
